(* ===== verification/Prelude.thy ===== *)
theory Prelude
  imports Main "HOL-Library.Word"
begin

unbundle bit_operations_syntax

text \<open>
  Shared vocabulary of the development: the outcomes of a C function, the casts between C's
  integer types, checked reads of memory, and the generic list facts the components use.

  C integers are modelled as \<^typ>\<open>int\<close> values, with the wrap-around of every conversion
  and of every arithmetic step whose operands come from the file written out by the casts
  \<open>u8\<close>, \<open>u16\<close>, \<open>u32\<close>, \<open>u64\<close> (unsigned, modulo a power of two) and \<open>i64\<close> (two's
  complement). The build modelled is the 64-bit UNIX one: \<open>size_t\<close> is 64 bits unsigned,
  \<open>address_t\<close> and \<open>index_t\<close> are 64 bits signed.
\<close>

named_theorems cast_defs \<open>definitions of the C casts\<close>
named_theorems step_defs \<open>definitions of the operations of a component\<close>

section \<open>Outcomes\<close>

text \<open>
  \<open>RetErr e\<close>: the function stored the error identifier \<open>e\<close> and returned a nonzero code.
  \<open>Abort e\<close>: \<open>readMXError\<close> was called, which runs the clean-up hooks and does not return.
  \<open>Fault\<close>: undefined behaviour (an access outside an object, through NULL or to freed memory).
  \<open>OutOfFuel\<close>: not an outcome of the program; the bound given to a recursive definition was
  too small. The theorems show bounds that are enough, or hold for every bound.
\<close>

datatype error = RetErr string | Abort string | Fault | OutOfFuel

type_synonym 'a res = "error + 'a"

definition bnd :: "'a res \<Rightarrow> ('a \<Rightarrow> 'b res) \<Rightarrow> 'b res" where
  "bnd m f = (case m of Inl e \<Rightarrow> Inl e | Inr x \<Rightarrow> f x)"

lemma bnd_simps [simp]:
  "bnd (Inl e) f = Inl e"
  "bnd (Inr x) f = f x"
  by (simp_all add: bnd_def)

lemma bnd_eq_Inr [simp]: "bnd m f = Inr y \<longleftrightarrow> (\<exists>x. m = Inr x \<and> f x = Inr y)"
  by (cases m) auto

lemma bnd_assoc: "bnd (bnd m f) g = bnd m (\<lambda>x. bnd (f x) g)"
  by (cases m) auto

lemma bnd_cong [fundef_cong]:
  "m = m' \<Longrightarrow> (\<And>x. m' = Inr x \<Longrightarrow> f x = f' x) \<Longrightarrow> bnd m f = bnd m' f'"
  by (cases m') auto

definition is_ok :: "'a res \<Rightarrow> bool" where
  "is_ok r = (case r of Inl _ \<Rightarrow> False | Inr _ \<Rightarrow> True)"

lemma is_ok_simps [simp]: "is_ok (Inr x)" "\<not> is_ok (Inl e)"
  by (simp_all add: is_ok_def)

section \<open>C integers\<close>

definition u8 :: "int \<Rightarrow> int" where "u8 x = x mod 2 ^ 8"
definition u16 :: "int \<Rightarrow> int" where "u16 x = x mod 2 ^ 16"
definition u32 :: "int \<Rightarrow> int" where "u32 x = x mod 2 ^ 32"
definition u64 :: "int \<Rightarrow> int" where "u64 x = x mod 2 ^ 64"
definition i64 :: "int \<Rightarrow> int" where "i64 x = (x + 2 ^ 63) mod 2 ^ 64 - 2 ^ 63"
definition i32 :: "int \<Rightarrow> int" where "i32 x = (x + 2 ^ 31) mod 2 ^ 32 - 2 ^ 31"

lemmas [cast_defs] = u8_def u16_def u32_def u64_def i64_def i32_def

lemma u8_id: "0 \<le> x \<Longrightarrow> x < 2 ^ 8 \<Longrightarrow> u8 x = x"
  by (simp add: u8_def)

lemma u16_id: "0 \<le> x \<Longrightarrow> x < 2 ^ 16 \<Longrightarrow> u16 x = x"
  by (simp add: u16_def)

lemma u32_id: "0 \<le> x \<Longrightarrow> x < 2 ^ 32 \<Longrightarrow> u32 x = x"
  by (simp add: u32_def)

lemma u64_id: "0 \<le> x \<Longrightarrow> x < 2 ^ 64 \<Longrightarrow> u64 x = x"
  by (simp add: u64_def)

lemma i64_id: "- (2 ^ 63) \<le> x \<Longrightarrow> x < 2 ^ 63 \<Longrightarrow> i64 x = x"
  by (simp add: i64_def)

lemma i32_id: "- (2 ^ 31) \<le> x \<Longrightarrow> x < 2 ^ 31 \<Longrightarrow> i32 x = x"
  by (simp add: i32_def)

lemma i64_range: "- (2 ^ 63) \<le> i64 x" "i64 x < 2 ^ 63"
proof -
  have "0 \<le> (x + 2 ^ 63) mod 2 ^ 64" "(x + 2 ^ 63) mod 2 ^ 64 < 2 ^ 64"
    by (rule pos_mod_sign, simp) (rule pos_mod_bound, simp)
  then show "- (2 ^ 63) \<le> i64 x" "i64 x < 2 ^ 63"
    by (simp_all add: i64_def)
qed

text \<open>Wrapping is a ring homomorphism: inner wraps are absorbed by an outer one.\<close>

lemma i64_mod: "i64 x mod 2 ^ 64 = x mod 2 ^ 64"
  by (simp add: i64_def mod_diff_left_eq)

lemma i64_eq_iff: "i64 x = i64 y \<longleftrightarrow> x mod 2 ^ 64 = y mod 2 ^ 64"
proof
  assume "i64 x = i64 y"
  then have "i64 x mod 2 ^ 64 = i64 y mod 2 ^ 64" by simp
  then show "x mod 2 ^ 64 = y mod 2 ^ 64" by (simp only: i64_mod)
next
  assume "x mod 2 ^ 64 = y mod 2 ^ 64"
  then have "(x + 2 ^ 63) mod 2 ^ 64 = (y + 2 ^ 63) mod 2 ^ 64"
    by (rule mod_add_cong) simp
  then show "i64 x = i64 y" by (simp add: i64_def)
qed

lemma i64_absorb [simp]:
  "i64 (i64 x + y) = i64 (x + y)"
  "i64 (x + i64 y) = i64 (x + y)"
  "i64 (i64 x - y) = i64 (x - y)"
  "i64 (x - i64 y) = i64 (x - y)"
  "i64 (i64 x * y) = i64 (x * y)"
  "i64 (x * i64 y) = i64 (x * y)"
  "i64 (i64 x) = i64 x"
  unfolding i64_eq_iff
  by (rule mod_add_cong mod_diff_cong mod_mult_cong; simp only: i64_mod)+ (simp only: i64_mod)

lemma i64_absorb_deep [simp]:
  "i64 (x + y * i64 z) = i64 (x + y * z)"
  "i64 (x + i64 y * z) = i64 (x + y * z)"
  "i64 (x - i64 y - z) = i64 (x - y - z)"
  "i64 (i64 x - y - z) = i64 (x - y - z)"
  "i64 (i64 x + y + z) = i64 (x + y + z)"
  "i64 (x + i64 y + z) = i64 (x + y + z)"
  by (metis i64_absorb(2,6), metis i64_absorb(2,5), metis i64_absorb(3,4), metis i64_absorb(3),
      metis i64_absorb(1), metis i64_absorb(1,2))

section \<open>Memory\<close>

text \<open>
  A region of memory (the file's bytes as a mapping shows them, or a buffer) is a list of
  bytes; a pointer into it is an offset. Reads and writes outside the region are a
  \<^const>\<open>Fault\<close>.
\<close>

type_synonym byte = "8 word"

definition rd :: "byte list \<Rightarrow> int \<Rightarrow> int \<Rightarrow> byte list res" where
  "rd m p n =
     (if 0 \<le> p \<and> 0 \<le> n \<and> p + n \<le> int (length m)
      then Inr (take (nat n) (drop (nat p) m)) else Inl Fault)"

definition wr :: "byte list \<Rightarrow> int \<Rightarrow> byte list \<Rightarrow> byte list res" where
  "wr m p bs =
     (if 0 \<le> p \<and> p + int (length bs) \<le> int (length m)
      then Inr (take (nat p) m @ bs @ drop (nat p + length bs) m) else Inl Fault)"

text \<open>Reading an array of integers by index.\<close>

definition aget :: "'a list \<Rightarrow> int \<Rightarrow> 'a res" where
  "aget xs i = (if 0 \<le> i \<and> i < int (length xs) then Inr (xs ! nat i) else Inl Fault)"

definition aset :: "'a list \<Rightarrow> int \<Rightarrow> 'a \<Rightarrow> 'a list res" where
  "aset xs i x = (if 0 \<le> i \<and> i < int (length xs) then Inr (xs[nat i := x]) else Inl Fault)"

lemma aget_ok: "0 \<le> i \<Longrightarrow> i < int (length xs) \<Longrightarrow> aget xs i = Inr (xs ! nat i)"
  by (simp add: aget_def)

lemma aget_nat [simp]: "n < length xs \<Longrightarrow> aget xs (int n) = Inr (xs ! n)"
  by (simp add: aget_def)

lemma aset_nat [simp]: "n < length xs \<Longrightarrow> aset xs (int n) x = Inr (xs[n := x])"
  by (simp add: aset_def)

lemma aget_append [simp]: "aget (xs @ y # ys) (int (length xs)) = Inr y"
  by (simp add: aget_def)

lemma aset_append [simp]: "aset (xs @ y # ys) (int (length xs)) x = Inr (xs @ x # ys)"
  by (simp add: aset_def)

lemma rd_length: "rd m p n = Inr bs \<Longrightarrow> length bs = nat n"
  by (auto simp: rd_def split: if_splits)

lemma rd_ok: "0 \<le> p \<Longrightarrow> 0 \<le> n \<Longrightarrow> p + n \<le> int (length m) \<Longrightarrow>
  rd m p n = Inr (take (nat n) (drop (nat p) m))"
  by (simp add: rd_def)

lemma wr_length: "wr m p bs = Inr m' \<Longrightarrow> length m' = length m"
  by (auto simp: wr_def split: if_splits)

lemma rd_append: "rd (pre @ bs @ post) (int (length pre)) (int (length bs)) = Inr bs"
  by (simp add: rd_def)

end
