(* ===== verification/ListQueue.thy ===== *)
theory ListQueue
  imports Prelude
begin

text \<open>
  The queue of \<^verbatim>\<open>src/src/ezq.c\<close> seen as a list. A \<open>Queue\<close> never forgets the elements
  that were dequeued: the nodes from \<open>abs_front\<close> to \<open>back\<close> stay linked until the queue is
  flushed, and \<open>front\<close>, \<open>traverse_front\<close> are cursors into them. Here the nodes are the list
  \<open>lq_items\<close> and a cursor is a \<^emph>\<open>position\<close>: NULL, the index of a node, or a pointer to a node
  that has been freed. Theory \<open>Ezq\<close> has the pointer code and proves that it implements these
  operations step by step; the other components use the operations of this theory.
\<close>

datatype pos = PNull | At nat | Dangling

record 'a lqueue =
  lq_items :: "'a list"
  lq_front :: pos
  lq_trav :: pos
  lq_back_ok :: bool    \<comment> \<open>\<open>back\<close> is the last node (NULL when there is none)\<close>
  lq_head_ok :: bool    \<comment> \<open>\<open>prev\<close> of the first node is NULL\<close>
  lq_free :: bool       \<comment> \<open>\<open>free_function\<close> is not NULL\<close>
  lq_len :: nat
  lq_tlen :: nat

text \<open>\<open>size_t\<close> decrement; a queue cannot hold \<open>2 ^ 64\<close> nodes, so increments do not wrap.\<close>

definition dec_sz :: "nat \<Rightarrow> nat" where
  "dec_sz n = (if n = 0 then 2 ^ 64 - 1 else n - 1)"

abbreviation lq_abs_len :: "'a lqueue \<Rightarrow> nat" where
  "lq_abs_len q \<equiv> length (lq_items q)"

definition pos_of :: "nat \<Rightarrow> nat \<Rightarrow> pos" where
  "pos_of n i = (if i < n then At i else PNull)"

section \<open>Operations\<close>

definition lq_init :: "bool \<Rightarrow> 'a lqueue" where
  "lq_init fr = \<lparr>lq_items = [], lq_front = PNull, lq_trav = PNull, lq_back_ok = True,
     lq_head_ok = True, lq_free = fr, lq_len = 0, lq_tlen = 0\<rparr>"

definition lq_enqueue :: "'a lqueue \<Rightarrow> 'a \<Rightarrow> 'a lqueue res" where
  "lq_enqueue q d =
     (if lq_items q = [] then
        Inr (q\<lparr>lq_items := [d], lq_front := At 0, lq_back_ok := True, lq_head_ok := True,
               lq_len := lq_len q + 1\<rparr>)
      else if \<not> lq_back_ok q then Inl Fault
      else Inr (q\<lparr>lq_items := lq_items q @ [d],
                  lq_front := (if lq_len q = 0 then At (lq_abs_len q) else lq_front q),
                  lq_len := lq_len q + 1\<rparr>))"

definition shift_ins :: "nat \<Rightarrow> pos \<Rightarrow> pos" where
  "shift_ins f p = (case p of At t \<Rightarrow> if f \<le> t then At (t + 1) else At t | _ \<Rightarrow> p)"

definition lq_priority_enqueue :: "'a lqueue \<Rightarrow> 'a \<Rightarrow> 'a lqueue res" where
  "lq_priority_enqueue q d =
     (if lq_items q = [] \<or> lq_len q = 0 then lq_enqueue q d
      else case lq_front q of
        At f \<Rightarrow> Inr (q\<lparr>lq_items := take f (lq_items q) @ d # drop f (lq_items q),
                     lq_front := At f, lq_trav := shift_ins f (lq_trav q),
                     lq_len := lq_len q + 1\<rparr>)
      | _ \<Rightarrow> Inl Fault)"

definition lq_reset :: "'a lqueue \<Rightarrow> 'a lqueue" where
  "lq_reset q = q\<lparr>lq_front := (if \<not> lq_back_ok q then Dangling
                              else if lq_items q = [] then PNull else At (lq_abs_len q - 1)),
                  lq_len := 0\<rparr>"

definition lq_restart :: "'a lqueue \<Rightarrow> 'a lqueue" where
  "lq_restart q = q\<lparr>lq_front := pos_of (lq_abs_len q) 0, lq_len := lq_abs_len q\<rparr>"

definition lq_dequeue :: "'a lqueue \<Rightarrow> ('a option \<times> 'a lqueue) res" where
  "lq_dequeue q =
     (if lq_len q = 0 then Inr (None, q)
      else case lq_front q of
        PNull \<Rightarrow> Inr (None, q)
      | Dangling \<Rightarrow> Inl Fault
      | At f \<Rightarrow> Inr (Some (lq_items q ! f),
                   q\<lparr>lq_front := pos_of (lq_abs_len q) (f + 1), lq_len := lq_len q - 1\<rparr>))"

definition lq_peek :: "'a lqueue \<Rightarrow> int \<Rightarrow> 'a option res" where
  "lq_peek q loc =
     (if lq_len q = 0 then Inr None
      else case lq_front q of
        PNull \<Rightarrow> Inr None
      | p \<Rightarrow> (if loc = 0 then (case p of At f \<Rightarrow> Inr (Some (lq_items q ! f)) | _ \<Rightarrow> Inl Fault)
              else if loc = 1 then
                (if lq_back_ok q then
                   (if lq_items q = [] then Inl Fault else Inr (Some (last (lq_items q))))
                 else Inl Fault)
              else Inr None))"

text \<open>Flushing and cleaning also give the data passed to \<open>free_function\<close>, in order.\<close>

definition lq_flush :: "'a lqueue \<Rightarrow> 'a list \<times> 'a lqueue" where
  "lq_flush q = ((if lq_free q then lq_items q else []),
     q\<lparr>lq_items := [], lq_front := PNull, lq_trav := PNull, lq_back_ok := True,
       lq_head_ok := True, lq_len := 0\<rparr>)"

definition shift_del :: "nat \<Rightarrow> pos \<Rightarrow> pos" where
  "shift_del f p = (case p of At t \<Rightarrow> if t < f then Dangling else At (t - f) | _ \<Rightarrow> p)"

definition lq_clean :: "'a lqueue \<Rightarrow> ('a list \<times> 'a lqueue) res" where
  "lq_clean q =
     (let k = (case lq_front q of At f \<Rightarrow> f | _ \<Rightarrow> lq_abs_len q) in
      if lq_front q = Dangling \<or> (0 < k \<and> \<not> lq_free q) then Inl Fault
      else if k = 0 then Inr ([], q)
      else Inr (take k (lq_items q),
             q\<lparr>lq_items := drop k (lq_items q), lq_front := shift_del k (lq_front q),
               lq_trav := shift_del k (lq_trav q),
               lq_back_ok := (lq_back_ok q \<and> k < lq_abs_len q),
               lq_head_ok := (k = lq_abs_len q)\<rparr>))"

definition lq_init_traversal :: "'a lqueue \<Rightarrow> 'a lqueue" where
  "lq_init_traversal q = q\<lparr>lq_trav := lq_front q, lq_tlen := lq_len q\<rparr>"

definition lq_init_abs_traversal :: "'a lqueue \<Rightarrow> 'a lqueue" where
  "lq_init_abs_traversal q = q\<lparr>lq_trav := pos_of (lq_abs_len q) 0, lq_tlen := lq_abs_len q\<rparr>"

definition lq_traverse :: "'a lqueue \<Rightarrow> ('a option \<times> 'a lqueue) res" where
  "lq_traverse q =
     (case lq_trav q of
        PNull \<Rightarrow> Inr (None, q)
      | Dangling \<Rightarrow> Inl Fault
      | At t \<Rightarrow> Inr (Some (lq_items q ! t),
                   q\<lparr>lq_trav := pos_of (lq_abs_len q) (t + 1), lq_tlen := dec_sz (lq_tlen q)\<rparr>))"

definition lq_peek_traverse :: "'a lqueue \<Rightarrow> 'a option res" where
  "lq_peek_traverse q =
     (case lq_trav q of PNull \<Rightarrow> Inr None | Dangling \<Rightarrow> Inl Fault
      | At t \<Rightarrow> Inr (Some (lq_items q ! t)))"

definition shift_rem :: "nat \<Rightarrow> nat \<Rightarrow> pos \<Rightarrow> pos" where
  "shift_rem n t p =
     (case p of At f \<Rightarrow> if f = t then pos_of (n - 1) t else if t < f then At (f - 1) else At f
      | _ \<Rightarrow> p)"

text \<open>
  \<open>removeAtTraverseNode\<close> gives the datum now under the traversal cursor, the datum passed to
  \<open>free_function\<close> and the queue. \<open>back\<close> is not moved when the last node goes, and \<open>length\<close> is
  only decremented when it would exceed \<open>abs_length\<close>.
\<close>

definition lq_remove_at_traverse :: "'a lqueue \<Rightarrow> ('a option \<times> 'a option \<times> 'a lqueue) res" where
  "lq_remove_at_traverse q =
     (case lq_trav q of
        PNull \<Rightarrow> Inr (None, None, q)
      | Dangling \<Rightarrow> Inl Fault
      | At t \<Rightarrow>
          (if (t = 0 \<and> \<not> lq_head_ok q) \<or> \<not> lq_free q then Inl Fault
           else
             let items' = take t (lq_items q) @ drop (t + 1) (lq_items q);
                 q' = q\<lparr>lq_items := items',
                        lq_trav := pos_of (length items') t,
                        lq_front := shift_rem (lq_abs_len q) t (lq_front q),
                        lq_back_ok := (lq_back_ok q \<and> t + 1 < lq_abs_len q),
                        lq_len := (if length items' < lq_len q then lq_len q - 1 else lq_len q)\<rparr>
             in Inr ((if t < length items' then Some (items' ! t) else None),
                     Some (lq_items q ! t), q')))"

text \<open>\<open>mergeQueue\<close>: move the pending elements of each queue, then restart it.\<close>

fun lq_drain_into :: "nat \<Rightarrow> 'a lqueue \<Rightarrow> 'a lqueue \<Rightarrow> ('a lqueue \<times> 'a lqueue) res" where
  "lq_drain_into 0 dst src = Inr (dst, src)"
| "lq_drain_into (Suc j) dst src =
     bnd (lq_dequeue src) (\<lambda>(d, src').
     bnd (case d of None \<Rightarrow> Inl Fault | Some x \<Rightarrow> lq_enqueue dst x) (\<lambda>dst'.
       lq_drain_into j dst' src'))"

fun lq_merge :: "'a lqueue \<Rightarrow> 'a lqueue list \<Rightarrow> ('a lqueue \<times> 'a lqueue list) res" where
  "lq_merge dst [] = Inr (dst, [])"
| "lq_merge dst (q # qs) =
     bnd (lq_drain_into (lq_len q) dst q) (\<lambda>(dst', q').
     bnd (lq_merge dst' qs) (\<lambda>(dst'', qs'). Inr (dst'', lq_restart q' # qs')))"

section \<open>Well-formed queues: the elements already taken and the pending ones\<close>

text \<open>
  In a well-formed queue the cursors are in range, \<open>back\<close> is the last node and \<open>length\<close> counts
  the nodes from \<open>front\<close> on. \<open>lq_done\<close> are the elements dequeued so far, \<open>lq_pending\<close> the
  ones still to come.
\<close>

definition lq_done :: "'a lqueue \<Rightarrow> 'a list" where
  "lq_done q = take (lq_abs_len q - lq_len q) (lq_items q)"

definition lq_pending :: "'a lqueue \<Rightarrow> 'a list" where
  "lq_pending q = drop (lq_abs_len q - lq_len q) (lq_items q)"

definition lq_ok :: "'a lqueue \<Rightarrow> bool" where
  "lq_ok q \<longleftrightarrow> lq_len q \<le> lq_abs_len q \<and> lq_back_ok q \<and>
     (0 < lq_len q \<longrightarrow> lq_front q = At (lq_abs_len q - lq_len q)) \<and>
     (lq_len q = 0 \<longrightarrow> lq_front q = PNull)"

lemma lq_items_split: "lq_done q @ lq_pending q = lq_items q"
  by (simp add: lq_done_def lq_pending_def)

lemma lq_ok_init [simp]: "lq_ok (lq_init fr)" "lq_pending (lq_init fr) = []" "lq_done (lq_init fr) = []"
  by (simp_all add: lq_ok_def lq_init_def lq_pending_def lq_done_def)

lemma lq_len_pending: "lq_ok q \<Longrightarrow> lq_len q = length (lq_pending q)"
  by (simp add: lq_ok_def lq_pending_def)

lemma lq_enqueue_ok:
  assumes "lq_ok q"
  obtains q' where "lq_enqueue q d = Inr q'" "lq_ok q'"
    "lq_done q' = lq_done q" "lq_pending q' = lq_pending q @ [d]"
    "lq_free q' = lq_free q" "lq_items q' = lq_items q @ [d]"
proof -
  have "is_ok (lq_enqueue q d)"
    using assms by (simp add: lq_enqueue_def lq_ok_def)
  then obtain q' where q': "lq_enqueue q d = Inr q'"
    by (cases "lq_enqueue q d") auto
  moreover have "lq_ok q'" "lq_done q' = lq_done q" "lq_pending q' = lq_pending q @ [d]"
    "lq_free q' = lq_free q" "lq_items q' = lq_items q @ [d]"
    using assms q'
    by (auto simp: lq_enqueue_def lq_ok_def lq_done_def lq_pending_def Suc_diff_le split: if_splits)
  ultimately show thesis using that by blast
qed

lemma lq_dequeue_ok:
  assumes "lq_ok q" "lq_pending q = d # ds"
  obtains q' where "lq_dequeue q = Inr (Some d, q')" "lq_ok q'"
    "lq_done q' = lq_done q @ [d]" "lq_pending q' = ds" "lq_items q' = lq_items q"
    "lq_free q' = lq_free q" "lq_len q = Suc (lq_len q')"
proof -
  let ?n = "lq_abs_len q" and ?f = "lq_abs_len q - lq_len q"
  have len: "0 < lq_len q" "lq_len q \<le> ?n"
    using lq_len_pending [OF assms(1)] assms by (simp_all add: lq_ok_def)
  have pend: "drop ?f (lq_items q) = d # ds"
    using assms(2) unfolding lq_pending_def .
  then have d1: "lq_items q ! ?f = d" by (rule nth_via_drop)
  have "drop (Suc ?f) (lq_items q) = tl (drop ?f (lq_items q))"
    by (simp only: drop_Suc tl_drop)
  with pend have d2: "drop (Suc ?f) (lq_items q) = ds" by (simp only: list.sel)
  note d = d1 d2
  define q' where "q' = q\<lparr>lq_front := pos_of ?n (?f + 1), lq_len := lq_len q - 1\<rparr>"
  have eq: "?n - (lq_len q - 1) = Suc ?f" using len by simp
  show thesis
  proof (rule that [of q'])
    show "lq_dequeue q = Inr (Some d, q')"
      using assms(1) len d by (simp add: lq_dequeue_def lq_ok_def q'_def)
    show "lq_ok q'" using assms(1) len by (auto simp: lq_ok_def q'_def pos_of_def)
    show "lq_done q' = lq_done q @ [d]"
      using len d eq by (simp add: lq_done_def q'_def take_Suc_conv_app_nth)
    show "lq_pending q' = ds" using d eq by (simp add: lq_pending_def q'_def)
  qed (use len in \<open>simp_all add: q'_def\<close>)
qed

lemma lq_dequeue_empty: "lq_ok q \<Longrightarrow> lq_pending q = [] \<Longrightarrow> lq_dequeue q = Inr (None, q)"
  using lq_len_pending [of q] by (simp add: lq_dequeue_def)

lemma lq_restart_ok:
  assumes "lq_back_ok q"
  shows "lq_ok (lq_restart q)" "lq_pending (lq_restart q) = lq_items q" "lq_done (lq_restart q) = []"
    "lq_items (lq_restart q) = lq_items q"
  using assms by (auto simp: lq_ok_def lq_restart_def pos_of_def lq_pending_def lq_done_def)

lemma lq_flush_ok: "lq_ok (snd (lq_flush q))" "lq_pending (snd (lq_flush q)) = []"
  by (auto simp: lq_ok_def lq_flush_def lq_pending_def)

end
