(* ===== verification/Ezq.thy ===== *)
theory Ezq
  imports ListQueue
begin

text \<open>
  The pointer code of \<^verbatim>\<open>src/src/ezq.c\<close>: a doubly linked list of \<open>QueueNode\<close>s on an explicit
  heap, every \<open>malloc\<close>, \<open>free\<close>, load and store of the source a step of the model, a load
  through NULL or to a freed node a \<^const>\<open>Fault\<close>. Theory \<open>EzqRefine\<close> proves that each
  function implements the list operation of theory \<open>ListQueue\<close> and leaves the other queues alone.
\<close>

type_synonym ptr = nat

abbreviation (input) NULL :: ptr where "NULL \<equiv> 0"

record node =
  n_prev :: ptr
  n_next :: ptr
  n_data :: ptr

text \<open>
  \<open>h_brk\<close> is the next address \<open>malloc\<close> gives out, \<open>h_avail\<close> the number of calls that will
  succeed before it returns NULL, \<open>h_freed\<close> the data passed to a queue's \<open>free_function\<close>.
\<close>

record heap =
  h_nodes :: "ptr \<Rightarrow> node option"
  h_brk :: ptr
  h_avail :: nat
  h_freed :: "ptr list"

record queue =
  abs_front :: ptr
  front :: ptr
  q_back :: ptr
  traverse_front :: ptr
  free_function :: ptr
  q_length :: nat
  traverse_length :: nat
  abs_length :: nat

abbreviation (input) QUEUE_FRONT :: int where "QUEUE_FRONT \<equiv> 0"
abbreviation (input) QUEUE_BACK :: int where "QUEUE_BACK \<equiv> 1"

section \<open>Memory primitives\<close>

definition load :: "heap \<Rightarrow> ptr \<Rightarrow> node res" where
  "load hp p = (case h_nodes hp p of None \<Rightarrow> Inl Fault | Some n \<Rightarrow> Inr n)"

definition store :: "heap \<Rightarrow> ptr \<Rightarrow> (node \<Rightarrow> node) \<Rightarrow> heap res" where
  "store hp p f =
     (case h_nodes hp p of None \<Rightarrow> Inl Fault
      | Some n \<Rightarrow> Inr (hp\<lparr>h_nodes := (h_nodes hp)(p \<mapsto> f n)\<rparr>))"

definition malloc_node :: "heap \<Rightarrow> ptr \<times> heap" where
  "malloc_node hp =
     (if h_avail hp = 0 then (NULL, hp)
      else (h_brk hp, hp\<lparr>h_nodes := (h_nodes hp)(h_brk hp \<mapsto> \<lparr>n_prev = 0, n_next = 0, n_data = 0\<rparr>),
                         h_brk := h_brk hp + 1, h_avail := h_avail hp - 1\<rparr>))"

definition free_node :: "heap \<Rightarrow> ptr \<Rightarrow> heap res" where
  "free_node hp p =
     (if p = NULL then Inr hp
      else case h_nodes hp p of None \<Rightarrow> Inl Fault
           | Some _ \<Rightarrow> Inr (hp\<lparr>h_nodes := (h_nodes hp)(p := None)\<rparr>))"

definition call_free :: "heap \<Rightarrow> ptr \<Rightarrow> ptr \<Rightarrow> heap res" where
  "call_free hp ff d =
     (if ff = NULL then Inl Fault else Inr (hp\<lparr>h_freed := h_freed hp @ [d]\<rparr>))"

section \<open>The functions of ezq.c\<close>

definition initQueue :: "heap \<Rightarrow> ptr \<Rightarrow> queue option \<times> heap" where
  "initQueue hp ff =
     (if h_avail hp = 0 then (None, hp)
      else (Some \<lparr>abs_front = NULL, front = NULL, q_back = NULL, traverse_front = NULL,
                  free_function = ff, q_length = 0, traverse_length = 0, abs_length = 0\<rparr>,
            hp\<lparr>h_avail := h_avail hp - 1\<rparr>))"

text \<open>The first and the appending branch of \<open>enqueue\<close> (shared with \<open>priorityEnqueue\<close>).\<close>

definition link_first :: "heap \<Rightarrow> queue \<Rightarrow> ptr \<Rightarrow> (queue \<times> heap) res" where
  "link_first hp q new_node =
     bnd (store hp new_node (\<lambda>n. n\<lparr>n_next := NULL, n_prev := NULL\<rparr>)) (\<lambda>hp.
       Inr (q\<lparr>abs_front := new_node, front := new_node, q_back := new_node\<rparr>, hp))"

definition link_back :: "heap \<Rightarrow> queue \<Rightarrow> ptr \<Rightarrow> (queue \<times> heap) res" where
  "link_back hp q new_node =
     bnd (load hp (q_back q)) (\<lambda>b.
     bnd (store hp new_node (\<lambda>n. n\<lparr>n_prev := q_back q, n_next := n_next b\<rparr>)) (\<lambda>hp.
     bnd (if n_next b \<noteq> NULL then store hp (n_next b) (\<lambda>n. n\<lparr>n_prev := new_node\<rparr>) else Inr hp) (\<lambda>hp.
     bnd (store hp (q_back q) (\<lambda>n. n\<lparr>n_next := new_node\<rparr>)) (\<lambda>hp.
       Inr (q\<lparr>q_back := new_node\<rparr>, hp)))))"

definition link_front :: "heap \<Rightarrow> queue \<Rightarrow> ptr \<Rightarrow> (queue \<times> heap) res" where
  "link_front hp q new_node =
     bnd (load hp (front q)) (\<lambda>f.
     bnd (store hp new_node (\<lambda>n. n\<lparr>n_prev := n_prev f, n_next := front q\<rparr>)) (\<lambda>hp.
     bnd (if front q = abs_front q then Inr (q\<lparr>abs_front := new_node\<rparr>, hp)
          else bnd (store hp (n_prev f) (\<lambda>n. n\<lparr>n_next := new_node\<rparr>)) (\<lambda>hp. Inr (q, hp))) (\<lambda>(q, hp).
     bnd (store hp (front q) (\<lambda>n. n\<lparr>n_prev := new_node\<rparr>)) (\<lambda>hp.
       Inr (q\<lparr>front := new_node\<rparr>, hp)))))"

definition count_up :: "queue \<Rightarrow> queue" where
  "count_up q = q\<lparr>q_length := q_length q + 1, abs_length := abs_length q + 1\<rparr>"

definition enqueue :: "heap \<Rightarrow> queue option \<Rightarrow> ptr \<Rightarrow> (int \<times> queue option \<times> heap) res" where
  "enqueue hp queue data =
     (case queue of None \<Rightarrow> Inr (2, None, hp)
      | Some q \<Rightarrow>
          let (new_node, hp) = malloc_node hp in
          if new_node = NULL then Inr (1, Some q, hp)
          else
            bnd (store hp new_node (\<lambda>n. n\<lparr>n_data := data\<rparr>)) (\<lambda>hp.
            bnd (if abs_length q = 0 then link_first hp q new_node
                 else bnd (link_back hp q new_node) (\<lambda>(q, hp).
                   Inr (if q_length q = 0 then q\<lparr>front := new_node\<rparr> else q, hp))) (\<lambda>(q, hp).
              Inr (0, Some (count_up q), hp))))"

definition priorityEnqueue :: "heap \<Rightarrow> queue option \<Rightarrow> ptr \<Rightarrow> (int \<times> queue option \<times> heap) res" where
  "priorityEnqueue hp queue data =
     (case queue of None \<Rightarrow> Inr (2, None, hp)
      | Some q \<Rightarrow>
          let (new_node, hp) = malloc_node hp in
          if new_node = NULL then Inr (1, Some q, hp)
          else
            bnd (store hp new_node (\<lambda>n. n\<lparr>n_data := data\<rparr>)) (\<lambda>hp.
            bnd (if abs_length q = 0 then link_first hp q new_node
                 else if q_length q = 0 then
                   bnd (link_back hp q new_node) (\<lambda>(q, hp). Inr (q\<lparr>front := new_node\<rparr>, hp))
                 else link_front hp q new_node) (\<lambda>(q, hp).
              Inr (0, Some (count_up q), hp))))"

definition resetQueue :: "queue option \<Rightarrow> int \<times> queue option" where
  "resetQueue queue =
     (case queue of None \<Rightarrow> (2, None)
      | Some q \<Rightarrow> (0, Some (q\<lparr>front := q_back q, q_length := 0\<rparr>)))"

definition restartQueue :: "queue option \<Rightarrow> int \<times> queue option" where
  "restartQueue queue =
     (case queue of None \<Rightarrow> (2, None)
      | Some q \<Rightarrow> (0, Some (q\<lparr>front := abs_front q, q_length := abs_length q\<rparr>)))"

definition dequeue :: "heap \<Rightarrow> queue option \<Rightarrow> (ptr \<times> queue option) res" where
  "dequeue hp queue =
     (case queue of None \<Rightarrow> Inl Fault
      | Some q \<Rightarrow>
          if front q \<noteq> NULL \<and> 0 < q_length q then
            bnd (load hp (front q)) (\<lambda>n.
              Inr (n_data n, Some (q\<lparr>front := n_next n, q_length := q_length q - 1\<rparr>)))
          else Inr (NULL, Some q))"

definition peekQueue :: "heap \<Rightarrow> queue option \<Rightarrow> int \<Rightarrow> ptr res" where
  "peekQueue hp queue queue_location =
     (case queue of None \<Rightarrow> Inl Fault
      | Some q \<Rightarrow>
          if front q \<noteq> NULL \<and> 0 < q_length q then
            (if queue_location = QUEUE_FRONT then bnd (load hp (front q)) (\<lambda>n. Inr (n_data n))
             else if queue_location = QUEUE_BACK then bnd (load hp (q_back q)) (\<lambda>n. Inr (n_data n))
             else Inr NULL)
          else Inr NULL)"

text \<open>The loop of \<open>flushQueue\<close> runs \<open>abs_length\<close> times.\<close>

fun flush_loop :: "nat \<Rightarrow> heap \<Rightarrow> queue \<Rightarrow> (queue \<times> heap) res" where
  "flush_loop 0 hp q = Inr (q, hp)"
| "flush_loop (Suc n) hp q =
     bnd (load hp (abs_front q)) (\<lambda>nd.
     bnd (if n_data nd \<noteq> NULL \<and> free_function q \<noteq> NULL
          then call_free hp (free_function q) (n_data nd) else Inr hp) (\<lambda>hp.
     bnd (free_node hp (abs_front q)) (\<lambda>hp.
       flush_loop n hp (q\<lparr>abs_front := n_next nd, abs_length := n\<rparr>))))"

definition flushQueue :: "heap \<Rightarrow> queue option \<Rightarrow> (int \<times> queue option \<times> heap) res" where
  "flushQueue hp queue =
     (case queue of None \<Rightarrow> Inr (2, None, hp)
      | Some q \<Rightarrow>
          bnd (flush_loop (abs_length q) hp q) (\<lambda>(q, hp).
            Inr (0, Some (q\<lparr>abs_front := NULL, traverse_front := NULL, front := NULL,
                            q_back := NULL, q_length := 0\<rparr>), hp)))"

text \<open>
  The loop of \<open>cleanQueue\<close> stops when \<open>abs_front\<close> meets \<open>front\<close>; every turn frees a node of
  the queue, so \<open>abs_length + 1\<close> turns are enough to get there or to run into NULL.
\<close>

fun clean_loop :: "nat \<Rightarrow> heap \<Rightarrow> queue \<Rightarrow> (queue \<times> heap) res" where
  "clean_loop 0 hp q = Inl Fault"
| "clean_loop (Suc fuel) hp q =
     (if abs_front q = front q then Inr (q, hp)
      else
        bnd (load hp (abs_front q)) (\<lambda>nd.
        bnd (if n_data nd \<noteq> NULL then call_free hp (free_function q) (n_data nd) else Inr hp) (\<lambda>hp.
        bnd (store hp (abs_front q) (\<lambda>n. n\<lparr>n_prev := NULL, n_data := NULL\<rparr>)) (\<lambda>hp.
        bnd (free_node hp (abs_front q)) (\<lambda>hp.
          clean_loop fuel hp (q\<lparr>abs_front := n_next nd, abs_length := dec_sz (abs_length q)\<rparr>))))))"

definition cleanQueue :: "heap \<Rightarrow> queue option \<Rightarrow> (int \<times> queue option \<times> heap) res" where
  "cleanQueue hp queue =
     (case queue of None \<Rightarrow> Inr (2, None, hp)
      | Some q \<Rightarrow> bnd (clean_loop (abs_length q + 1) hp q) (\<lambda>(q, hp). Inr (0, Some q, hp)))"

definition initTraversal :: "queue option \<Rightarrow> int \<times> queue option" where
  "initTraversal queue =
     (case queue of None \<Rightarrow> (2, None)
      | Some q \<Rightarrow> (0, Some (q\<lparr>traverse_front := front q, traverse_length := q_length q\<rparr>)))"

definition initAbsTraversal :: "queue option \<Rightarrow> int \<times> queue option" where
  "initAbsTraversal queue =
     (case queue of None \<Rightarrow> (2, None)
      | Some q \<Rightarrow> (0, Some (q\<lparr>traverse_front := abs_front q, traverse_length := abs_length q\<rparr>)))"

definition traverseQueue :: "heap \<Rightarrow> queue option \<Rightarrow> (ptr \<times> queue option) res" where
  "traverseQueue hp queue =
     (case queue of None \<Rightarrow> Inr (NULL, None)
      | Some q \<Rightarrow>
          if traverse_front q \<noteq> NULL then
            bnd (load hp (traverse_front q)) (\<lambda>n.
              Inr (n_data n, Some (q\<lparr>traverse_front := n_next n,
                                     traverse_length := dec_sz (traverse_length q)\<rparr>)))
          else Inr (NULL, Some q))"

definition peekTraverse :: "heap \<Rightarrow> queue option \<Rightarrow> ptr res" where
  "peekTraverse hp queue =
     (case queue of None \<Rightarrow> Inr NULL
      | Some q \<Rightarrow>
          if traverse_front q \<noteq> NULL then bnd (load hp (traverse_front q)) (\<lambda>n. Inr (n_data n))
          else Inr NULL)"

text \<open>The updates of the queue record when node \<open>tf\<close> goes and \<open>nx\<close> follows it.\<close>

definition unlink_cursors :: "queue \<Rightarrow> ptr \<Rightarrow> ptr \<Rightarrow> queue" where
  "unlink_cursors q tf nx =
     (let q = q\<lparr>traverse_front := nx\<rparr>;
          q = (if tf = front q then q\<lparr>front := nx\<rparr> else q);
          q = (if tf = abs_front q then q\<lparr>abs_front := nx\<rparr> else q);
          q = q\<lparr>abs_length := dec_sz (abs_length q)\<rparr>
      in if abs_length q < q_length q then q\<lparr>q_length := dec_sz (q_length q)\<rparr> else q)"

definition removeAtTraverseNode :: "heap \<Rightarrow> queue option \<Rightarrow> (ptr \<times> queue option \<times> heap) res" where
  "removeAtTraverseNode hp queue =
     (case queue of None \<Rightarrow> Inr (NULL, None, hp)
      | Some q \<Rightarrow>
          let tf = traverse_front q in
          if tf = NULL then Inr (NULL, Some q, hp)
          else
            bnd (load hp tf) (\<lambda>n.
            bnd (if n_prev n \<noteq> NULL then store hp (n_prev n) (\<lambda>m. m\<lparr>n_next := n_next n\<rparr>) else Inr hp) (\<lambda>hp.
            bnd (if n_next n \<noteq> NULL then store hp (n_next n) (\<lambda>m. m\<lparr>n_prev := n_prev n\<rparr>) else Inr hp) (\<lambda>hp.
            let q = unlink_cursors q tf (n_next n) in
            bnd (call_free hp (free_function q) (n_data n)) (\<lambda>hp.
            bnd (free_node hp tf) (\<lambda>hp.
              if traverse_front q \<noteq> NULL
              then bnd (load hp (traverse_front q)) (\<lambda>m. Inr (n_data m, Some q, hp))
              else Inr (NULL, Some q, hp)))))))"

fun drain_loop :: "nat \<Rightarrow> heap \<Rightarrow> queue option \<Rightarrow> queue option \<Rightarrow> (queue option \<times> queue option \<times> heap) res" where
  "drain_loop 0 hp new_queue q = Inr (new_queue, q, hp)"
| "drain_loop (Suc j) hp new_queue q =
     bnd (dequeue hp q) (\<lambda>(d, q).
     bnd (enqueue hp new_queue d) (\<lambda>(_, new_queue, hp).
       drain_loop j hp new_queue q))"

fun merge_loop :: "heap \<Rightarrow> queue option \<Rightarrow> queue option list \<Rightarrow> (queue option \<times> queue option list \<times> heap) res" where
  "merge_loop hp new_queue [] = Inr (new_queue, [], hp)"
| "merge_loop hp new_queue (q # qs) =
     (case q of None \<Rightarrow> Inl Fault
      | Some q' \<Rightarrow>
          bnd (drain_loop (q_length q') hp new_queue q) (\<lambda>(new_queue, q, hp).
          bnd (merge_loop hp new_queue qs) (\<lambda>(new_queue, qs, hp).
            Inr (new_queue, snd (restartQueue q) # qs, hp))))"

definition mergeQueue :: "heap \<Rightarrow> queue option \<Rightarrow> queue option list \<Rightarrow> (int \<times> queue option \<times> queue option list \<times> heap) res" where
  "mergeQueue hp new_queue queues =
     (case new_queue of None \<Rightarrow> Inr (2, None, queues, hp)
      | Some _ \<Rightarrow> bnd (merge_loop hp new_queue queues) (\<lambda>(nq, qs, hp). Inr (0, nq, qs, hp)))"

definition freeQueue :: "heap \<Rightarrow> queue option \<Rightarrow> heap res" where
  "freeQueue hp queue =
     (case queue of None \<Rightarrow> Inr hp
      | Some q \<Rightarrow> bnd (flushQueue hp (Some q)) (\<lambda>(_, _, hp). Inr hp))"

end
