(* ===== verification/EzqRefine.thy ===== *)
theory EzqRefine
  imports Ezq
begin

text \<open>
  The pointer queue of theory \<open>Ezq\<close> implements the list queue of theory \<open>ListQueue\<close>: the
  representation relation \<open>qrep\<close> and one simulation lemma per function.
\<close>

section \<open>Doubly linked segments\<close>

definition hd0 :: "ptr \<Rightarrow> ptr list \<Rightarrow> ptr" where
  "hd0 nx as = (case as of [] \<Rightarrow> nx | a # _ \<Rightarrow> a)"

definition last0 :: "ptr \<Rightarrow> ptr list \<Rightarrow> ptr" where
  "last0 pv as = (if as = [] then pv else last as)"

lemma hd0_simps [simp]: "hd0 nx [] = nx" "hd0 nx (a # as) = a"
  by (simp_all add: hd0_def)

lemma hd0_append: "hd0 nx (as @ bs) = hd0 (hd0 nx bs) as"
  by (cases as) auto

lemma hd0_drop: "hd0 nx (drop j as) = (if j < length as then as ! j else nx)"
proof (cases "j < length as")
  case True
  then have "drop j as = as ! j # drop (Suc j) as" by (rule Cons_nth_drop_Suc [symmetric])
  with True show ?thesis by simp
qed simp

lemma last0_simps [simp]: "last0 pv [] = pv" "last0 pv (as @ [a]) = a" "last0 pv (a # as) = last0 a as"
  by (simp_all add: last0_def)

text \<open>\<open>seg h pv as nx ds\<close>: the nodes \<open>as\<close> hold the data \<open>ds\<close> and are linked from \<open>pv\<close> to \<open>nx\<close>.\<close>

fun seg :: "(ptr \<Rightarrow> node option) \<Rightarrow> ptr \<Rightarrow> ptr list \<Rightarrow> ptr \<Rightarrow> ptr list \<Rightarrow> bool" where
  "seg h pv [] nx ds = (ds = [])"
| "seg h pv (a # as) nx ds =
     (\<exists>d ds'. ds = d # ds' \<and> h a = Some \<lparr>n_prev = pv, n_next = hd0 nx as, n_data = d\<rparr> \<and>
        seg h a as nx ds')"

lemma seg_length: "seg h pv as nx ds \<Longrightarrow> length ds = length as"
  by (induction as arbitrary: pv ds) auto

lemma seg_upd [simp]: "p \<notin> set as \<Longrightarrow> seg (h(p := x)) pv as nx ds = seg h pv as nx ds"
  by (induction as arbitrary: pv ds) auto

lemma seg_upd_if [simp]:
  "p \<notin> set as \<Longrightarrow> seg (\<lambda>a. if a = p then x else h a) pv as nx ds = seg h pv as nx ds"
  using seg_upd [of p as h x pv nx ds] by (simp add: fun_upd_def)

lemma seg_dom: "seg h pv as nx ds \<Longrightarrow> a \<in> set as \<Longrightarrow> h a \<noteq> None"
  by (induction as arbitrary: pv ds) auto

lemma seg_append:
  "seg h pv (as @ bs) nx ds \<longleftrightarrow>
     (\<exists>ds1 ds2. ds = ds1 @ ds2 \<and> seg h pv as (hd0 nx bs) ds1 \<and> seg h (last0 pv as) bs nx ds2)"
proof (induction as arbitrary: pv ds)
  case Nil
  show ?case by auto
next
  case (Cons a as)
  show ?case
    by (simp add: Cons.IH hd0_append) (metis append_Cons)
qed

lemma seg_cong: "(\<And>a. a \<in> set as \<Longrightarrow> h a = h' a) \<Longrightarrow> seg h pv as nx ds = seg h' pv as nx ds"
  by (induction as arbitrary: pv ds) auto

text \<open>Relinking the last node to a new successor, and the first to a new predecessor.\<close>

lemma seg_snoc:
  "seg h pv (as @ [a]) nx ds \<longleftrightarrow>
     (\<exists>ds1 d. ds = ds1 @ [d] \<and> seg h pv as a ds1 \<and>
        h a = Some \<lparr>n_prev = last0 pv as, n_next = nx, n_data = d\<rparr>)"
  by (auto simp: seg_append)

lemma seg_set_next:
  assumes "seg h pv (as @ [a]) nx ds" "a \<notin> set as" "h a = Some n"
  shows "seg (h(a \<mapsto> n\<lparr>n_next := nx'\<rparr>)) pv (as @ [a]) nx' ds"
  using assms by (auto simp: seg_snoc)

lemma seg_set_prev:
  assumes "seg h pv (a # as) nx ds" "a \<notin> set as" "h a = Some n"
  shows "seg (h(a \<mapsto> n\<lparr>n_prev := pv'\<rparr>)) pv' (a # as) nx ds"
  using assms by auto

section \<open>The representation relation\<close>

definition heap_ok :: "heap \<Rightarrow> bool" where
  "heap_ok hp \<longleftrightarrow> 0 < h_brk hp \<and> (\<forall>p. h_nodes hp p \<noteq> None \<longrightarrow> 0 < p \<and> p < h_brk hp)"

definition dangling :: "heap \<Rightarrow> ptr \<Rightarrow> bool" where
  "dangling hp p \<longleftrightarrow> 0 < p \<and> p < h_brk hp \<and> h_nodes hp p = None"

definition pos_ptr :: "heap \<Rightarrow> ptr list \<Rightarrow> pos \<Rightarrow> ptr \<Rightarrow> bool" where
  "pos_ptr hp as ps p =
     (case ps of PNull \<Rightarrow> p = NULL
      | At i \<Rightarrow> i < length as \<and> p = as ! i
      | Dangling \<Rightarrow> dangling hp p)"

lemma pos_ptr_simps [simp]:
  "pos_ptr hp as PNull p \<longleftrightarrow> p = NULL"
  "pos_ptr hp as (At i) p \<longleftrightarrow> i < length as \<and> p = as ! i"
  "pos_ptr hp as Dangling p \<longleftrightarrow> dangling hp p"
  by (simp_all add: pos_ptr_def)

definition qrep :: "heap \<Rightarrow> queue \<Rightarrow> ptr list \<Rightarrow> ptr lqueue \<Rightarrow> bool" where
  "qrep hp q as lq \<longleftrightarrow>
     heap_ok hp \<and> distinct as \<and> NULL \<notin> set (lq_items lq) \<and>
     (\<exists>pv. seg (h_nodes hp) pv as NULL (lq_items lq) \<and>
           (if lq_head_ok lq then pv = NULL else dangling hp pv)) \<and>
     abs_front q = hd0 NULL as \<and>
     pos_ptr hp as (lq_front lq) (front q) \<and>
     pos_ptr hp as (lq_trav lq) (traverse_front q) \<and>
     (if lq_back_ok lq then q_back q = last0 NULL as else dangling hp (q_back q)) \<and>
     (free_function q \<noteq> NULL \<longleftrightarrow> lq_free lq) \<and>
     q_length q = lq_len lq \<and> abs_length q = length as \<and> traverse_length q = lq_tlen lq"

text \<open>What an operation on one queue does to the rest of the heap: nothing.\<close>

definition frame :: "heap \<Rightarrow> heap \<Rightarrow> ptr list \<Rightarrow> bool" where
  "frame hp hp' as \<longleftrightarrow> h_brk hp \<le> h_brk hp' \<and>
     (\<forall>p. p < h_brk hp \<longrightarrow> p \<notin> set as \<longrightarrow> h_nodes hp' p = h_nodes hp p)"

lemma qrep_length: "qrep hp q as lq \<Longrightarrow> length (lq_items lq) = length as"
  by (auto simp: qrep_def dest: seg_length)

lemma qrep_range: "qrep hp q as lq \<Longrightarrow> a \<in> set as \<Longrightarrow> 0 < a \<and> a < h_brk hp"
  by (auto simp: qrep_def heap_ok_def dest!: seg_dom)

lemma qrep_nth:
  assumes "qrep hp q as lq" "i < length as"
  obtains n where "h_nodes hp (as ! i) = Some n" "n_data n = lq_items lq ! i"
    "n_next n = (if i + 1 < length as then as ! (i + 1) else NULL)"
    "0 < i \<Longrightarrow> n_prev n = as ! (i - 1)" "i = 0 \<Longrightarrow> lq_head_ok lq \<Longrightarrow> n_prev n = NULL"
    "i = 0 \<Longrightarrow> \<not> lq_head_ok lq \<Longrightarrow> dangling hp (n_prev n)"
proof -
  let ?xs = "take i as" and ?ys = "drop (Suc i) as"
  have as: "as = ?xs @ as ! i # ?ys" using assms(2) by (rule id_take_nth_drop)
  obtain pv where sg: "seg (h_nodes hp) pv (?xs @ as ! i # ?ys) NULL (lq_items lq)"
    and pv: "if lq_head_ok lq then pv = NULL else dangling hp pv"
    using assms(1) as by (auto simp: qrep_def)
  then obtain ds1 d ds2 where ds: "lq_items lq = ds1 @ d # ds2" "length ds1 = i"
    and n: "h_nodes hp (as ! i) =
      Some \<lparr>n_prev = last0 pv ?xs, n_next = hd0 NULL ?ys, n_data = d\<rparr>"
    using assms(2) by (auto simp: seg_append dest!: seg_length)
  have "hd0 NULL ?ys = (if i + 1 < length as then as ! (i + 1) else NULL)"
    by (simp add: hd0_drop)
  moreover have "0 < i \<Longrightarrow> last0 pv ?xs = as ! (i - 1)"
    using assms(2) by (auto simp: last0_def last_conv_nth min_def)
  moreover have "d = lq_items lq ! i" using ds by (metis nth_append_length)
  ultimately show thesis using that [OF n] pv by simp
qed

lemma qrep_back:
  assumes "qrep hp q as lq" "as \<noteq> []" "lq_back_ok lq"
  shows "q_back q = last as" "\<exists>n. h_nodes hp (q_back q) = Some n \<and> n_next n = NULL"
proof -
  show bk: "q_back q = last as" using assms by (simp add: qrep_def last0_def)
  have i: "length as - 1 < length as" using assms(2) by simp
  obtain n where "h_nodes hp (as ! (length as - 1)) = Some n" "n_next n = NULL"
    using qrep_nth [OF assms(1) i] assms(2) by (metis Suc_eq_plus1 Suc_pred' i length_greater_0_conv less_irrefl)
  then show "\<exists>n. h_nodes hp (q_back q) = Some n \<and> n_next n = NULL"
    using bk assms(2) by (simp add: last_conv_nth)
qed

lemma qrep_At:
  assumes "qrep hp q as lq" "pos_ptr hp as (At i) p"
  obtains n where "h_nodes hp p = Some n" "p \<noteq> NULL" "n_data n = lq_items lq ! i"
    "pos_ptr hp as (pos_of (lq_abs_len lq) (i + 1)) (n_next n)" "i < lq_abs_len lq"
proof -
  from assms(2) have i: "i < length as" "p = as ! i" by (auto simp: pos_ptr_def)
  obtain n where n: "h_nodes hp (as ! i) = Some n" "n_data n = lq_items lq ! i"
    "n_next n = (if i + 1 < length as then as ! (i + 1) else NULL)"
    using qrep_nth [OF assms(1) i(1)] by metis
  show thesis
  proof (rule that)
    show "p \<noteq> NULL" using qrep_range [OF assms(1), of p] i by simp
    show "pos_ptr hp as (pos_of (lq_abs_len lq) (i + 1)) (n_next n)"
      using n(3) qrep_length [OF assms(1)] by (simp add: pos_ptr_def pos_of_def)
    show "i < lq_abs_len lq" using i qrep_length [OF assms(1)] by simp
  qed (use n i in auto)
qed

lemma pos_ptr_dangling: "pos_ptr hp as Dangling p \<Longrightarrow> p \<noteq> NULL \<and> load hp p = Inl Fault"
  by (simp add: pos_ptr_def dangling_def load_def)

lemma qrep_cursors:
  assumes "qrep hp q as lq"
  shows "pos_ptr hp as (lq_front lq) (front q)" "pos_ptr hp as (lq_trav lq) (traverse_front q)"
    "q_length q = lq_len lq" "abs_length q = lq_abs_len lq" "traverse_length q = lq_tlen lq"
    "free_function q \<noteq> NULL \<longleftrightarrow> lq_free lq" "abs_front q = hd0 NULL as"
  using assms qrep_length [OF assms] by (auto simp: qrep_def)

section \<open>Functions that do not change the heap\<close>

definition opt_ptr :: "ptr option \<Rightarrow> ptr" where
  "opt_ptr d = (case d of None \<Rightarrow> NULL | Some p \<Rightarrow> p)"

lemma opt_ptr_simps [simp]: "opt_ptr None = NULL" "opt_ptr (Some p) = p"
  by (simp_all add: opt_ptr_def)

text \<open>The shape of a simulation statement for an operation that gives a datum.\<close>

definition simulates ::
  "(ptr \<times> queue option) res \<Rightarrow> (ptr option \<times> ptr lqueue) res \<Rightarrow> heap \<Rightarrow> ptr list \<Rightarrow> bool" where
  "simulates c l hp as \<longleftrightarrow>
     (case l of Inl e \<Rightarrow> c = Inl e
      | Inr (d, lq') \<Rightarrow> \<exists>q'. c = Inr (opt_ptr d, Some q') \<and> qrep hp q' as lq')"

lemma dequeue_sim:
  assumes "qrep hp q as lq"
  shows "simulates (dequeue hp (Some q)) (lq_dequeue lq) hp as"
proof (cases "lq_front lq")
  case PNull
  then show ?thesis
    using assms qrep_cursors [OF assms]
    by (simp add: simulates_def dequeue_def lq_dequeue_def pos_ptr_def)
next
  case (At f)
  then obtain n where n: "h_nodes hp (front q) = Some n" "front q \<noteq> NULL"
    "n_data n = lq_items lq ! f" "pos_ptr hp as (pos_of (lq_abs_len lq) (f + 1)) (n_next n)"
    using qrep_At [OF assms, of f "front q"] qrep_cursors(1) [OF assms] by metis
  then have "qrep hp (q\<lparr>front := n_next n, q_length := q_length q - 1\<rparr>) as
      (lq\<lparr>lq_front := pos_of (lq_abs_len lq) (f + 1), lq_len := lq_len lq - 1\<rparr>)"
    using assms by (simp add: qrep_def)
  with n At assms qrep_cursors(3) [OF assms] show ?thesis
    by (simp add: simulates_def dequeue_def lq_dequeue_def load_def)
next
  case Dangling
  then have "front q \<noteq> NULL \<and> load hp (front q) = Inl Fault"
    using qrep_cursors(1) [OF assms] pos_ptr_dangling by metis
  with Dangling assms qrep_cursors(3) [OF assms] show ?thesis
    by (simp add: simulates_def dequeue_def lq_dequeue_def)
qed

lemma traverseQueue_sim:
  assumes "qrep hp q as lq"
  shows "simulates (traverseQueue hp (Some q)) (lq_traverse lq) hp as"
proof (cases "lq_trav lq")
  case PNull
  then show ?thesis
    using assms qrep_cursors(2) [OF assms]
    by (simp add: simulates_def traverseQueue_def lq_traverse_def pos_ptr_def)
next
  case (At t)
  then obtain n where n: "h_nodes hp (traverse_front q) = Some n" "traverse_front q \<noteq> NULL"
    "n_data n = lq_items lq ! t" "pos_ptr hp as (pos_of (lq_abs_len lq) (t + 1)) (n_next n)"
    using qrep_At [OF assms, of t "traverse_front q"] qrep_cursors(2) [OF assms] by metis
  then have "qrep hp (q\<lparr>traverse_front := n_next n,
        traverse_length := dec_sz (traverse_length q)\<rparr>) as
      (lq\<lparr>lq_trav := pos_of (lq_abs_len lq) (t + 1), lq_tlen := dec_sz (lq_tlen lq)\<rparr>)"
    using assms by (simp add: qrep_def)
  with n At show ?thesis
    by (simp add: simulates_def traverseQueue_def lq_traverse_def load_def)
next
  case Dangling
  then have "traverse_front q \<noteq> NULL \<and> load hp (traverse_front q) = Inl Fault"
    using qrep_cursors(2) [OF assms] pos_ptr_dangling by metis
  with Dangling show ?thesis
    by (simp add: simulates_def traverseQueue_def lq_traverse_def)
qed

lemma peekTraverse_sim:
  assumes "qrep hp q as lq"
  shows "peekTraverse hp (Some q) = bnd (lq_peek_traverse lq) (\<lambda>d. Inr (opt_ptr d))"
proof -
  have "simulates (traverseQueue hp (Some q)) (lq_traverse lq) hp as"
    using assms by (rule traverseQueue_sim)
  then show ?thesis
    by (auto simp: simulates_def traverseQueue_def lq_traverse_def lq_peek_traverse_def
        peekTraverse_def bnd_def split: pos.splits sum.splits if_splits)
qed

lemma reset_sim: "qrep hp q as lq \<Longrightarrow>
  \<exists>q'. resetQueue (Some q) = (0, Some q') \<and> qrep hp q' as (lq_reset lq)"
  using qrep_length [of hp q as lq]
  by (cases "as = []")
    (auto simp: resetQueue_def lq_reset_def qrep_def last0_def last_conv_nth)

lemma restart_sim: "qrep hp q as lq \<Longrightarrow>
  \<exists>q'. restartQueue (Some q) = (0, Some q') \<and> qrep hp q' as (lq_restart lq)"
  using qrep_length [of hp q as lq]
  by (cases as) (auto simp: restartQueue_def lq_restart_def qrep_def pos_of_def)

lemma initTraversal_sim: "qrep hp q as lq \<Longrightarrow>
  \<exists>q'. initTraversal (Some q) = (0, Some q') \<and> qrep hp q' as (lq_init_traversal lq)"
  by (auto simp: initTraversal_def lq_init_traversal_def qrep_def)

lemma initAbsTraversal_sim: "qrep hp q as lq \<Longrightarrow>
  \<exists>q'. initAbsTraversal (Some q) = (0, Some q') \<and> qrep hp q' as (lq_init_abs_traversal lq)"
  using qrep_length [of hp q as lq]
  by (cases as) (auto simp: initAbsTraversal_def lq_init_abs_traversal_def qrep_def pos_of_def)

section \<open>enqueue\<close>

lemma pos_ptr_mono:
  assumes "pos_ptr hp as ps p" "\<And>x. dangling hp x \<Longrightarrow> dangling hp' x"
  shows "pos_ptr hp' (as @ bs) ps p"
  using assms by (cases ps) (auto simp: nth_append)

lemma frameD: "frame hp hp' as \<Longrightarrow> p < h_brk hp \<Longrightarrow> p \<notin> set as \<Longrightarrow> h_nodes hp' p = h_nodes hp p"
  by (simp add: frame_def)

text \<open>A dangling pointer of one queue stays dangling: new nodes lie above \<open>h_brk\<close>.\<close>

lemma frame_dangling:
  assumes "frame hp hp' as" "dangling hp p" "set as \<subseteq> dom (h_nodes hp)"
  shows "dangling hp' p"
  using assms by (force simp: frame_def dangling_def)

lemma qrep_dom: "qrep hp q as lq \<Longrightarrow> set as \<subseteq> dom (h_nodes hp)"
  by (auto simp: qrep_def dest!: seg_dom)

text \<open>Another queue of the same heap is unaffected.\<close>

lemma qrep_frame:
  assumes "qrep hp q as lq" "frame hp hp' bs" "set bs \<subseteq> dom (h_nodes hp)"
    "set as \<inter> set bs = {}" "heap_ok hp'"
  shows "qrep hp' q as lq"
proof -
  have d: "\<And>p. dangling hp p \<Longrightarrow> dangling hp' p"
    using assms(2,3) by (blast intro: frame_dangling)
  have c: "\<And>ps p. pos_ptr hp as ps p \<Longrightarrow> pos_ptr hp' as ps p"
    using pos_ptr_mono [of hp as _ _ hp' "[]"] d by simp
  have "h_nodes hp a = h_nodes hp' a" if "a \<in> set as" for a
  proof -
    from that assms(4) have "a \<notin> set bs" by blast
    then show ?thesis using frameD [OF assms(2), of a] qrep_range [OF assms(1) that] by simp
  qed
  then have "\<And>pv ds. seg (h_nodes hp) pv as NULL ds = seg (h_nodes hp') pv as NULL ds"
    by (rule seg_cong)
  with assms(1,5) d c show ?thesis by (auto simp: qrep_def)
qed

definition new_at_brk :: "heap \<Rightarrow> heap \<Rightarrow> ptr \<Rightarrow> bool" where
  "new_at_brk hp hp1 d \<longleftrightarrow> (\<exists>x. n_data x = d \<and>
     h_nodes hp1 = (h_nodes hp)(h_brk hp \<mapsto> x) \<and> h_brk hp1 = h_brk hp + 1)"

lemma link_back_sim:
  assumes q: "qrep hp q as lq" and ne: "as \<noteq> []" and bk: "lq_back_ok lq"
    and hp1: "new_at_brk hp hp1 d" and d: "d \<noteq> NULL"
  obtains hp' where "link_back hp1 q (h_brk hp) = Inr (q\<lparr>q_back := h_brk hp\<rparr>, hp')"
    "qrep hp' (q\<lparr>q_back := h_brk hp, abs_length := abs_length q + 1\<rparr>) (as @ [h_brk hp])
       (lq\<lparr>lq_items := lq_items lq @ [d]\<rparr>)"
    "frame hp hp' as" "h_avail hp' = h_avail hp1" "h_freed hp' = h_freed hp1" "h_brk hp' = h_brk hp1"
proof -
  let ?new = "h_brk hp" and ?l = "last as"
  from hp1 obtain x where x: "n_data x = d" "h_nodes hp1 = (h_nodes hp)(?new \<mapsto> x)"
    "h_brk hp1 = ?new + 1" by (auto simp: new_at_brk_def)
  obtain b where l: "q_back q = ?l" and b: "h_nodes hp ?l = Some b" "n_next b = NULL"
    using qrep_back [OF q ne bk] by auto
  obtain bs where as: "as = bs @ [?l]" using ne by (metis append_butlast_last_id)
  have ok: "heap_ok hp" and dist: "distinct as" using q by (auto simp: qrep_def)
  have new: "?new \<notin> set as" using qrep_range [OF q] by blast
  have lnew: "?l \<noteq> ?new" "?l < ?new" "?l \<noteq> NULL"
    using new as qrep_range [OF q, of ?l] by (auto simp: last_in_set ne)
  define nd where "nd = \<lparr>n_prev = ?l, n_next = NULL, n_data = d\<rparr>"
  have nd: "x\<lparr>n_prev := ?l, n_next := NULL\<rparr> = nd" using x(1) by (simp add: nd_def)
  define h' where "h' = (h_nodes hp)(?new \<mapsto> nd, ?l \<mapsto> b\<lparr>n_next := ?new\<rparr>)"
  define hp' where "hp' = hp1\<lparr>h_nodes := h'\<rparr>"
  have run: "link_back hp1 q ?new = Inr (q\<lparr>q_back := ?new\<rparr>, hp')"
    using lnew b x(2)
    by (simp add: link_back_def load_def store_def l hp'_def h'_def nd)
  have fr: "frame hp hp' as"
    using lnew as x(3) by (auto simp: frame_def hp'_def h'_def last_in_set ne)
  have dang: "\<And>p. dangling hp p \<Longrightarrow> dangling hp' p"
    using fr qrep_dom [OF q] by (blast intro: frame_dangling)
  obtain pv where sg: "seg (h_nodes hp) pv (bs @ [?l]) NULL (lq_items lq)"
    and pv: "if lq_head_ok lq then pv = NULL else dangling hp pv"
    using q as by (auto simp: qrep_def)
  have "seg ((h_nodes hp)(?l \<mapsto> b\<lparr>n_next := ?new\<rparr>)) pv (bs @ [?l]) ?new (lq_items lq)"
    using seg_set_next [OF sg _ b(1)] dist as by (metis distinct_append not_distinct_conv_prefix)
  moreover have "h' = ((h_nodes hp)(?l \<mapsto> b\<lparr>n_next := ?new\<rparr>))(?new \<mapsto> nd)"
    using lnew by (simp add: h'_def fun_upd_twist)
  ultimately have sg': "seg h' pv (as @ [?new]) NULL (lq_items lq @ [d])"
    using new as lnew ne by (auto simp: seg_append nd_def last0_def)
  have "heap_ok hp'"
    using ok lnew x(3) by (auto simp: heap_ok_def hp'_def h'_def)
  moreover have "abs_front q = hd0 NULL (as @ [?new])"
    using qrep_cursors(7) [OF q] ne by (cases as) auto
  moreover have "if lq_head_ok lq then pv = NULL else dangling hp' pv"
    using pv dang by auto
  ultimately have "qrep hp' (q\<lparr>q_back := ?new, abs_length := abs_length q + 1\<rparr>) (as @ [?new])
       (lq\<lparr>lq_items := lq_items lq @ [d]\<rparr>)"
    using q d dist new sg' dang bk qrep_length [OF q]
    by (auto simp: qrep_def hp'_def intro!: pos_ptr_mono)
  then show thesis using that run fr by (simp add: hp'_def)
qed

text \<open>Outcome of inserting: the new node is the only one added to the queue.\<close>

definition inserts ::
  "(int \<times> queue option \<times> heap) res \<Rightarrow> ptr lqueue res \<Rightarrow> heap \<Rightarrow> ptr list \<Rightarrow> bool" where
  "inserts c l hp as \<longleftrightarrow>
     (case l of Inl e \<Rightarrow> c = Inl e
      | Inr lq' \<Rightarrow> \<exists>q' hp' as'. c = Inr (0, Some q', hp') \<and> qrep hp' q' as' lq' \<and>
          frame hp hp' as \<and> set as' = insert (h_brk hp) (set as) \<and>
          h_avail hp' = h_avail hp - 1 \<and> h_freed hp' = h_freed hp \<and> h_brk hp' = h_brk hp + 1)"

definition malloced :: "heap \<Rightarrow> ptr \<Rightarrow> heap" where
  "malloced hp d = hp\<lparr>h_brk := h_brk hp + 1, h_avail := h_avail hp - 1,
     h_nodes := (h_nodes hp)(h_brk hp \<mapsto> \<lparr>n_prev = 0, n_next = 0, n_data = d\<rparr>)\<rparr>"

lemma new_at_brk_malloced: "new_at_brk hp (malloced hp d) d"
  unfolding new_at_brk_def malloced_def
  by (rule exI [of _ "\<lparr>n_prev = 0, n_next = 0, n_data = d\<rparr>"]) simp

lemma enqueue_unfold:
  assumes "heap_ok hp" "0 < h_avail hp"
  shows "enqueue hp (Some q) d =
    bnd (if abs_length q = 0 then link_first (malloced hp d) q (h_brk hp)
         else bnd (link_back (malloced hp d) q (h_brk hp)) (\<lambda>(q, hp').
           Inr (if q_length q = 0 then q\<lparr>front := h_brk hp\<rparr> else q, hp'))) (\<lambda>(q, hp).
      Inr (0, Some (count_up q), hp))"
  using assms
  by (simp add: enqueue_def malloc_node_def heap_ok_def store_def Let_def malloced_def)

lemma link_first_sim:
  assumes q: "qrep hp q [] lq" and d: "d \<noteq> NULL"
  obtains hp' q' where "link_first (malloced hp d) q (h_brk hp) = Inr (q', hp')"
    "qrep hp' (count_up q') [h_brk hp] (lq\<lparr>lq_items := [d], lq_front := At 0, lq_back_ok := True,
       lq_head_ok := True, lq_len := lq_len lq + 1\<rparr>)"
    "frame hp hp' []" "h_avail hp' = h_avail hp - 1" "h_freed hp' = h_freed hp"
    "h_brk hp' = h_brk hp + 1"
proof -
  let ?new = "h_brk hp"
  define q' where "q' = q\<lparr>abs_front := ?new, front := ?new, q_back := ?new\<rparr>"
  let ?hp = "malloced hp d"
  have run: "link_first ?hp q ?new = Inr (q', ?hp)"
    by (simp add: link_first_def store_def malloced_def q'_def)
  have fr: "frame hp ?hp []" by (auto simp: frame_def malloced_def)
  then have dang: "\<And>p. dangling hp p \<Longrightarrow> dangling ?hp p"
    by (rule frame_dangling) auto
  have "heap_ok ?hp" using q by (auto simp: qrep_def heap_ok_def malloced_def)
  moreover have "pos_ptr ?hp [?new] (lq_trav lq) (traverse_front q)"
    using pos_ptr_mono [of hp "[]" _ _ ?hp "[?new]"] qrep_cursors(2) [OF q] dang by simp
  ultimately have "qrep ?hp (count_up q') [?new] (lq\<lparr>lq_items := [d], lq_front := At 0,
      lq_back_ok := True, lq_head_ok := True, lq_len := lq_len lq + 1\<rparr>)"
    using q d by (auto simp: qrep_def q'_def malloced_def count_up_def)
  then show thesis using that [OF run] fr by (simp add: malloced_def)
qed

lemma enqueue_sim:
  assumes q: "qrep hp q as lq" and d: "d \<noteq> NULL" and av: "0 < h_avail hp"
  shows "inserts (enqueue hp (Some q) d) (lq_enqueue lq d) hp as"
proof -
  have ok: "heap_ok hp" using q by (simp add: qrep_def)
  note len = qrep_length [OF q] qrep_cursors [OF q]
  note unf = enqueue_unfold [OF ok av, of q d]
  show ?thesis
  proof (cases "lq_items lq = []")
    case True
    with len have as: "as = []" by simp
    obtain hp' q' where *: "link_first (malloced hp d) q (h_brk hp) = Inr (q', hp')"
      "qrep hp' (count_up q') [h_brk hp] (lq\<lparr>lq_items := [d], lq_front := At 0,
         lq_back_ok := True, lq_head_ok := True, lq_len := lq_len lq + 1\<rparr>)"
      "frame hp hp' []" "h_avail hp' = h_avail hp - 1" "h_freed hp' = h_freed hp"
      "h_brk hp' = h_brk hp + 1"
      using link_first_sim [of hp q lq d] q d as by metis
    with True len as show ?thesis
      by (auto simp: inserts_def unf lq_enqueue_def intro!: exI [of _ "[h_brk hp]"])
  next
    case ne: False
    with len have as: "as \<noteq> []" by auto
    show ?thesis
    proof (cases "lq_back_ok lq")
      case False
      then have "dangling hp (q_back q)" using q by (simp add: qrep_def)
      then have "load (malloced hp d) (q_back q) = Inl Fault"
        by (auto simp: dangling_def load_def malloced_def)
      with False ne len as show ?thesis
        by (simp add: inserts_def unf lq_enqueue_def link_back_def)
    next
      case True
      obtain hp' where *: "link_back (malloced hp d) q (h_brk hp) = Inr (q\<lparr>q_back := h_brk hp\<rparr>, hp')"
        "qrep hp' (q\<lparr>q_back := h_brk hp, abs_length := abs_length q + 1\<rparr>) (as @ [h_brk hp])
           (lq\<lparr>lq_items := lq_items lq @ [d]\<rparr>)"
        "frame hp hp' as" "h_avail hp' = h_avail hp - 1" "h_freed hp' = h_freed hp"
        "h_brk hp' = h_brk hp + 1"
        by (rule link_back_sim [OF q as True new_at_brk_malloced d])
          (auto simp: malloced_def)
      let ?q = "q\<lparr>q_back := h_brk hp\<rparr>"
      let ?q' = "count_up (if q_length q = 0 then ?q\<lparr>front := h_brk hp\<rparr> else ?q)"
      have "qrep hp' ?q' (as @ [h_brk hp]) (lq\<lparr>lq_items := lq_items lq @ [d],
          lq_front := (if lq_len lq = 0 then At (lq_abs_len lq) else lq_front lq),
          lq_len := lq_len lq + 1\<rparr>)"
        using *(2) len by (auto simp: qrep_def count_up_def)
      with * ne True as len show ?thesis
        by (auto simp: inserts_def unf lq_enqueue_def intro!: exI [of _ "as @ [h_brk hp]"])
    qed
  qed
qed

section \<open>removeAtTraverseNode\<close>

text \<open>Unlinking a node: its neighbours are linked to each other.\<close>

definition upd_node :: "(ptr \<Rightarrow> node option) \<Rightarrow> ptr \<Rightarrow> (node \<Rightarrow> node) \<Rightarrow> ptr \<Rightarrow> node option" where
  "upd_node h p f = (case h p of None \<Rightarrow> h | Some n \<Rightarrow> h(p \<mapsto> f n))"

lemma upd_node_other [simp]: "x \<noteq> p \<Longrightarrow> upd_node h p f x = h x"
  by (simp add: upd_node_def split: option.split)

lemma dom_upd_node [simp]: "upd_node h p f x = None \<longleftrightarrow> h x = None"
  by (auto simp: upd_node_def split: option.split)

lemma seg_upd_node [simp]: "p \<notin> set as \<Longrightarrow> seg (upd_node h p f) pv as nx ds = seg h pv as nx ds"
  by (simp add: upd_node_def split: option.split)

lemma seg_relink_last:
  assumes "seg h pv xs nx ds" "distinct xs" "xs \<noteq> []"
  shows "seg (upd_node h (last xs) (\<lambda>n. n\<lparr>n_next := nx'\<rparr>)) pv xs nx' ds"
proof -
  obtain bs l where xs: "xs = bs @ [l]" using assms(3) by (cases xs rule: rev_cases) auto
  obtain n where n: "h l = Some n" using assms(1) xs by (auto simp: seg_snoc)
  have "seg (h(l \<mapsto> n\<lparr>n_next := nx'\<rparr>)) pv (bs @ [l]) nx' ds"
    using assms xs n by (intro seg_set_next) auto
  then show ?thesis using xs n by (simp add: upd_node_def)
qed

lemma seg_relink_hd:
  assumes "seg h pv ys nx ds" "distinct ys" "ys \<noteq> []"
  shows "seg (upd_node h (hd ys) (\<lambda>n. n\<lparr>n_prev := pv'\<rparr>)) pv' ys nx ds"
  using assms by (cases ys) (auto simp: upd_node_def)

lemma seg_unlink:
  fixes h :: "ptr \<Rightarrow> node option" and pv nx :: ptr and xs ys :: "ptr list"
  defines "h1 \<equiv> (if xs = [] then h else upd_node h (last xs) (\<lambda>n. n\<lparr>n_next := hd0 nx ys\<rparr>))"
  defines "h2 \<equiv> (if ys = [] then h1 else upd_node h1 (hd ys) (\<lambda>n. n\<lparr>n_prev := last0 pv xs\<rparr>))"
  assumes "seg h pv (xs @ a # ys) nx ds" "distinct (xs @ a # ys)"
  shows "seg (h2(a := None)) pv (xs @ ys) nx (take (length xs) ds @ drop (length xs + 1) ds)"
proof -
  obtain ds1 d ds2 where ds: "ds = ds1 @ d # ds2" and sx: "seg h pv xs a ds1"
    and sy: "seg h a ys nx ds2"
    using assms(3) by (auto simp: seg_append)
  have len: "length ds1 = length xs" using sx by (rule seg_length)
  have dist: "distinct xs" "distinct ys" "set xs \<inter> set ys = {}" "a \<notin> set xs" "a \<notin> set ys"
    using assms(4) by auto
  have "seg h1 pv xs (hd0 nx ys) ds1"
    using sx dist seg_relink_last [of h pv xs a ds1] by (auto simp: h1_def)
  moreover have "ys \<noteq> [] \<Longrightarrow> hd ys \<notin> set xs" using dist by (meson disjoint_iff list.set_sel(1))
  ultimately have 1: "seg h2 pv xs (hd0 nx ys) ds1" by (auto simp: h2_def)
  have "xs \<noteq> [] \<Longrightarrow> last xs \<notin> set ys" using dist by (meson disjoint_iff last_in_set)
  then have "seg h1 a ys nx ds2" using sy by (auto simp: h1_def)
  then have 2: "seg h2 (last0 pv xs) ys nx ds2"
    using dist seg_relink_hd [of h1 a ys nx ds2] by (cases "ys = []") (auto simp: h2_def)
  have "seg (h2(a := None)) pv (xs @ ys) nx (ds1 @ ds2)"
    using 1 2 dist by (auto simp: seg_append)
  then show ?thesis using ds len by simp
qed

lemma removeAt_fault:
  assumes q: "qrep hp q as lq" and t: "lq_trav lq = At t"
    and bad: "(t = 0 \<and> \<not> lq_head_ok lq) \<or> \<not> lq_free lq"
  shows "removeAtTraverseNode hp (Some q) = Inl Fault"
proof -
  note cur = qrep_cursors [OF q]
  have tl: "t < length as" "traverse_front q = as ! t" using cur(2) t by auto
  obtain n where n: "h_nodes hp (as ! t) = Some n"
    "t = 0 \<Longrightarrow> \<not> lq_head_ok lq \<Longrightarrow> dangling hp (n_prev n)"
    using qrep_nth [OF q tl(1)] by metis
  have nz: "as ! t \<noteq> NULL" using qrep_range [OF q, of "as ! t"] tl by auto
  show ?thesis
  proof (cases "t = 0 \<and> \<not> lq_head_ok lq")
    case True
    with n have "dangling hp (n_prev n)" by simp
    with n nz tl show ?thesis
      by (auto simp: removeAtTraverseNode_def load_def store_def dangling_def)
  next
    case False
    with bad cur(6) have "free_function q = NULL" by simp
    then show ?thesis
      using n nz tl
      by (auto simp: removeAtTraverseNode_def load_def store_def call_free_def Let_def bnd_def unlink_cursors_def
          split: sum.split option.split)
  qed
qed

lemma store_upd_node:
  "h_nodes hp p \<noteq> None \<Longrightarrow> store hp p f = Inr (hp\<lparr>h_nodes := upd_node (h_nodes hp) p f\<rparr>)"
  by (auto simp: store_def upd_node_def)

text \<open>The heap after the node between \<open>xs\<close> and \<open>ys\<close> is unlinked and freed.\<close>

definition unlinked :: "heap \<Rightarrow> ptr list \<Rightarrow> ptr \<Rightarrow> ptr list \<Rightarrow> ptr \<Rightarrow> ptr \<Rightarrow> heap" where
  "unlinked hp xs a ys pv d =
     (let h = h_nodes hp;
          h1 = (if xs = [] then h else upd_node h (last xs) (\<lambda>n. n\<lparr>n_next := hd0 NULL ys\<rparr>));
          h2 = (if ys = [] then h1 else upd_node h1 (hd ys) (\<lambda>n. n\<lparr>n_prev := last0 pv xs\<rparr>))
      in hp\<lparr>h_nodes := h2(a := None), h_freed := h_freed hp @ [d]\<rparr>)"

lemma unlinked_fields [simp]:
  "h_brk (unlinked hp xs a ys pv d) = h_brk hp" "h_avail (unlinked hp xs a ys pv d) = h_avail hp"
  "h_freed (unlinked hp xs a ys pv d) = h_freed hp @ [d]"
  by (simp_all add: unlinked_def Let_def)

lemma unlinked_None: "h_nodes hp p = None \<or> p = a \<Longrightarrow> h_nodes (unlinked hp xs a ys pv d) p = None"
  by (auto simp: unlinked_def Let_def)

lemma unlinked_Some: "h_nodes (unlinked hp xs a ys pv d) p \<noteq> None \<Longrightarrow> h_nodes hp p \<noteq> None"
  using unlinked_None by metis

lemma unlinked_dangling: "dangling hp p \<Longrightarrow> dangling (unlinked hp xs a ys pv d) p"
  by (simp add: dangling_def unlinked_None)

lemma unlinked_frame: "frame hp (unlinked hp xs a ys pv d) (xs @ a # ys)"
proof -
  have "h_nodes (unlinked hp xs a ys pv d) p = h_nodes hp p" if "p \<notin> set (xs @ a # ys)" for p
  proof -
    have "xs \<noteq> [] \<Longrightarrow> p \<noteq> last xs" "ys \<noteq> [] \<Longrightarrow> p \<noteq> hd ys" "p \<noteq> a"
      using that by auto
    then show ?thesis by (simp add: unlinked_def Let_def)
  qed
  then show ?thesis by (simp add: frame_def)
qed

lemma pos_ptr_unlinked:
  assumes "pos_ptr hp (xs @ a # ys) ps p" "distinct (xs @ a # ys)" "h_nodes hp a \<noteq> None" "a \<noteq> NULL"
  shows "pos_ptr (unlinked hp xs a ys pv d) (xs @ ys)
     (shift_rem (length (xs @ a # ys)) (length xs) ps) (if a = p then hd0 NULL ys else p)"
proof (cases ps)
  case PNull
  with assms show ?thesis by (auto simp: shift_rem_def)
next
  case Dangling
  with assms unlinked_dangling show ?thesis by (auto simp: shift_rem_def dangling_def unlinked_None)
next
  case (At f)
  with assms(1) have f: "f < length (xs @ a # ys)" "p = (xs @ a # ys) ! f" by auto
  consider "f < length xs" | "f = length xs" | "length xs < f" by linarith
  then show ?thesis
  proof cases
    case 1
    with f assms(2) have "p = xs ! f" "p \<noteq> a" by (auto simp: nth_append)
    with 1 At show ?thesis by (simp add: shift_rem_def nth_append)
  next
    case 2
    with f have "p = a" by simp
    with 2 At show ?thesis
      by (cases ys) (simp_all add: shift_rem_def pos_of_def)
  next
    case 3
    then obtain k where k: "f = length xs + Suc k" by (metis less_iff_Suc_add add_Suc_right)
    with f have "p = ys ! k" "k < length ys" by (simp_all add: nth_append)
    moreover from this have "p \<noteq> a" using assms(2) by auto
    ultimately show ?thesis using k At by (simp add: shift_rem_def nth_append)
  qed
qed

lemma removeAt_run:
  assumes q: "qrep hp q (xs @ a # ys) lq" and t: "lq_trav lq = At (length xs)"
    and sg: "seg (h_nodes hp) pv (xs @ a # ys) NULL (lq_items lq)"
    and pv: "xs = [] \<Longrightarrow> pv = NULL" and fr: "lq_free lq"
  defines "hp' \<equiv> unlinked hp xs a ys pv (lq_items lq ! length xs)"
  defines "n' \<equiv> length (xs @ ys)"
  defines "q' \<equiv> q\<lparr>traverse_front := hd0 NULL ys,
      front := (if a = front q then hd0 NULL ys else front q),
      abs_front := hd0 NULL (xs @ ys), abs_length := n',
      q_length := (if n' < q_length q then q_length q - 1 else q_length q)\<rparr>"
  shows "removeAtTraverseNode hp (Some q) =
     (if ys = [] then Inr (NULL, Some q', hp')
      else bnd (load hp' (hd ys)) (\<lambda>m. Inr (n_data m, Some q', hp')))"
proof -
  note cur = qrep_cursors [OF q]
  have dist: "distinct (xs @ a # ys)" using q by (simp add: qrep_def)
  obtain d where node: "h_nodes hp a = Some \<lparr>n_prev = last0 pv xs, n_next = hd0 NULL ys, n_data = d\<rparr>"
    and d: "lq_items lq ! length xs = d"
    using sg by (auto simp: seg_append dest!: seg_length) (metis nth_append_length)
  have tf: "traverse_front q = a" using cur(2) t by auto
  have nz: "a \<noteq> NULL" "xs \<noteq> [] \<Longrightarrow> last xs \<noteq> NULL" "ys \<noteq> [] \<Longrightarrow> hd ys \<noteq> NULL"
    using qrep_range [OF q] by (auto simp: last_in_set)
  have dom: "xs \<noteq> [] \<Longrightarrow> h_nodes hp (last xs) \<noteq> None" "ys \<noteq> [] \<Longrightarrow> h_nodes hp (hd ys) \<noteq> None"
    using seg_dom [OF sg] by (auto simp del: not_None_eq)
  have af: "a = abs_front q \<longleftrightarrow> xs = []" using cur(7) dist by (cases xs) auto
  have ff: "free_function q \<noteq> NULL" using cur(6) fr by simp
  have len: "abs_length q = Suc n'" using q by (simp add: qrep_def n'_def)
  have a_dom: "h_nodes hp a \<noteq> None" using node by simp
  have ld: "load hp a = Inr \<lparr>n_prev = last0 pv xs, n_next = hd0 NULL ys, n_data = d\<rparr>"
    using node nz(1) by (simp add: load_def)
  have absf: "hd0 NULL (xs @ ys) = (if xs = [] then hd0 NULL ys else abs_front q)"
    using cur(7) by (cases xs) auto
  define h1 where "h1 = (if xs = [] then h_nodes hp
    else upd_node (h_nodes hp) (last xs) (\<lambda>n. n\<lparr>n_next := hd0 NULL ys\<rparr>))"
  define h2 where "h2 = (if ys = [] then h1 else upd_node h1 (hd ys) (\<lambda>n. n\<lparr>n_prev := last0 pv xs\<rparr>))"
  have s1: "(if last0 pv xs \<noteq> NULL then store hp (last0 pv xs) (\<lambda>m. m\<lparr>n_next := hd0 NULL ys\<rparr>) else Inr hp)
      = Inr (hp\<lparr>h_nodes := h1\<rparr>)"
    using pv nz(2) dom(1) by (cases "xs = []") (simp_all add: last0_def store_upd_node h1_def)
  have "h1 p = None \<longleftrightarrow> h_nodes hp p = None" for p by (simp add: h1_def)
  then have s2: "(if hd0 NULL ys \<noteq> NULL then store (hp\<lparr>h_nodes := h1\<rparr>) (hd0 NULL ys)
        (\<lambda>m. m\<lparr>n_prev := last0 pv xs\<rparr>) else Inr (hp\<lparr>h_nodes := h1\<rparr>)) = Inr (hp\<lparr>h_nodes := h2\<rparr>)"
    using nz(3) dom(2) by (cases ys) (simp_all add: store_upd_node h2_def)
  have "h2 a \<noteq> None" using a_dom by (simp add: h2_def h1_def del: not_None_eq)
  then have s3: "free_node (hp\<lparr>h_nodes := h2, h_freed := h_freed hp @ [d]\<rparr>) a = Inr hp'"
    using nz(1) by (auto simp: free_node_def hp'_def unlinked_def d h2_def h1_def Let_def)
  have s4: "call_free (hp\<lparr>h_nodes := h2\<rparr>) (free_function q) d
      = Inr (hp\<lparr>h_nodes := h2, h_freed := h_freed hp @ [d]\<rparr>)"
    using ff by (simp add: call_free_def)
  have q4: "unlink_cursors q a (hd0 NULL ys) = q'"
    using af absf len by (cases "a = front q"; cases "xs = []")
      (simp_all add: unlink_cursors_def q'_def dec_sz_def)
  then have trav: "traverse_front q' = hd0 NULL ys" and ff': "free_function q' = free_function q"
    by (simp_all add: q'_def)
  have "removeAtTraverseNode hp (Some q) =
     (if hd0 NULL ys \<noteq> NULL then bnd (load hp' (hd0 NULL ys)) (\<lambda>m. Inr (n_data m, Some q', hp'))
      else Inr (NULL, Some q', hp'))"
    unfolding removeAtTraverseNode_def Let_def tf option.case
    using nz(1) ld by (simp only: bnd_simps node.simps s1 s2 s3 s4 q4 trav ff' if_False)
  then show ?thesis using nz(3) by (cases ys) simp_all
qed

lemma removeAt_qrep:
  assumes q: "qrep hp q (xs @ a # ys) lq" and t: "lq_trav lq = At (length xs)"
    and sg: "seg (h_nodes hp) pv (xs @ a # ys) NULL (lq_items lq)"
    and pv: "if lq_head_ok lq then pv = NULL else dangling hp pv"
    and hd_ok: "xs = [] \<Longrightarrow> lq_head_ok lq" and fr: "lq_free lq"
  defines "hp' \<equiv> unlinked hp xs a ys pv (lq_items lq ! length xs)"
  defines "n' \<equiv> length (xs @ ys)"
  defines "q' \<equiv> q\<lparr>traverse_front := hd0 NULL ys,
      front := (if a = front q then hd0 NULL ys else front q),
      abs_front := hd0 NULL (xs @ ys), abs_length := n',
      q_length := (if n' < q_length q then q_length q - 1 else q_length q)\<rparr>"
  defines "items' \<equiv> take (length xs) (lq_items lq) @ drop (length xs + 1) (lq_items lq)"
  shows "qrep hp' q' (xs @ ys) (lq\<lparr>lq_items := items',
     lq_trav := pos_of (length items') (length xs),
     lq_front := shift_rem (lq_abs_len lq) (length xs) (lq_front lq),
     lq_back_ok := (lq_back_ok lq \<and> length xs + 1 < lq_abs_len lq),
     lq_len := (if length items' < lq_len lq then lq_len lq - 1 else lq_len lq)\<rparr>)"
proof -
  note cur = qrep_cursors [OF q]
  have dist: "distinct (xs @ a # ys)" using q by (simp add: qrep_def)
  have len: "lq_abs_len lq = length (xs @ a # ys)" using qrep_length [OF q] .
  then have n': "length items' = n'" by (simp add: items'_def n'_def)
  have a: "h_nodes hp a \<noteq> None" "a \<noteq> NULL" "a < h_brk hp"
    using seg_dom [OF sg, of a] qrep_range [OF q, of a] by auto
  have "seg (h_nodes hp') pv (xs @ ys) NULL items'"
    using seg_unlink [OF sg dist] by (simp add: hp'_def unlinked_def items'_def Let_def)
  moreover have "if lq_head_ok lq then pv = NULL else dangling hp' pv"
    using pv unlinked_dangling by (auto simp: hp'_def)
  moreover have "pos_ptr hp' (xs @ ys) (shift_rem (lq_abs_len lq) (length xs) (lq_front lq))
      (if a = front q then hd0 NULL ys else front q)"
    using pos_ptr_unlinked [OF cur(1) dist a(1,2)] by (simp add: hp'_def len)
  moreover have "pos_ptr hp' (xs @ ys) (pos_of n' (length xs)) (hd0 NULL ys)"
    by (cases ys) (simp_all add: n'_def pos_of_def)
  moreover have "heap_ok hp'"
    using q unlinked_Some [of hp xs a ys pv] by (auto simp: qrep_def heap_ok_def hp'_def)
  moreover have "NULL \<notin> set items'"
    using q by (auto simp: qrep_def items'_def dest: in_set_takeD in_set_dropD)
  moreover have "if lq_back_ok lq \<and> ys \<noteq> [] then q_back q = last0 NULL (xs @ ys)
      else dangling hp' (q_back q)"
  proof (cases "lq_back_ok lq")
    case True
    then have b: "q_back q = last (xs @ a # ys)" using q by (simp add: qrep_def last0_def)
    show ?thesis
    proof (cases "ys = []")
      case True
      with b have "q_back q = a" by simp
      then have "dangling hp' (q_back q)" using a by (simp add: dangling_def hp'_def unlinked_None)
      with True show ?thesis by simp
    qed (use True b in \<open>simp add: last0_def\<close>)
  next
    case False
    then have "dangling hp (q_back q)" using q by (simp add: qrep_def)
    with False show ?thesis by (simp add: hp'_def unlinked_dangling)
  qed
  ultimately show ?thesis
    using q dist n' len by (auto simp: qrep_def q'_def n'_def)
qed

text \<open>Outcome of a removal: the freed datum is reported, no node is added.\<close>

definition removes ::
  "(ptr \<times> queue option \<times> heap) res \<Rightarrow> (ptr option \<times> ptr option \<times> ptr lqueue) res \<Rightarrow> heap \<Rightarrow> ptr list \<Rightarrow> bool" where
  "removes c l hp as \<longleftrightarrow>
     (case l of Inl e \<Rightarrow> c = Inl e
      | Inr (d, f, lq') \<Rightarrow> \<exists>q' hp' as'. c = Inr (opt_ptr d, Some q', hp') \<and> qrep hp' q' as' lq' \<and>
          frame hp hp' as \<and> set as' \<subseteq> set as \<and> h_brk hp' = h_brk hp \<and> h_avail hp' = h_avail hp \<and>
          h_freed hp' = h_freed hp @ (case f of None \<Rightarrow> [] | Some x \<Rightarrow> [x]))"

lemma removeAtTraverseNode_sim:
  assumes q: "qrep hp q as lq"
  shows "removes (removeAtTraverseNode hp (Some q)) (lq_remove_at_traverse lq) hp as"
proof (cases "lq_trav lq")
  case PNull
  then show ?thesis using q qrep_cursors(2) [OF q]
    by (auto simp: removes_def removeAtTraverseNode_def lq_remove_at_traverse_def frame_def)
next
  case Dangling
  then show ?thesis using qrep_cursors(2) [OF q]
    by (auto simp: removes_def removeAtTraverseNode_def lq_remove_at_traverse_def dangling_def
        load_def Let_def)
next
  case (At t)
  show ?thesis
  proof (cases "(t = 0 \<and> \<not> lq_head_ok lq) \<or> \<not> lq_free lq")
    case True
    with removeAt_fault [OF q At True] At show ?thesis
      by (auto simp: removes_def lq_remove_at_traverse_def)
  next
    case ok: False
    have tl: "t < length as" using qrep_cursors(2) [OF q] At by simp
    define xs a ys where "xs = take t as" and "a = as ! t" and "ys = drop (Suc t) as"
    have as: "as = xs @ a # ys" and tx: "t = length xs"
      using tl id_take_nth_drop [OF tl] by (simp_all add: xs_def a_def ys_def)
    obtain pv where sg: "seg (h_nodes hp) pv (xs @ a # ys) NULL (lq_items lq)"
      and pv: "if lq_head_ok lq then pv = NULL else dangling hp pv"
      using q as by (auto simp: qrep_def)
    note q' = q [unfolded as] and At' = At [unfolded tx]
    define items' where "items' = take t (lq_items lq) @ drop (t + 1) (lq_items lq)"
    have len: "lq_abs_len lq = length as" using qrep_length [OF q] .
    have xs0: "xs = [] \<Longrightarrow> lq_head_ok lq" "xs = [] \<Longrightarrow> pv = NULL"
      using ok tx pv by auto
    have fr: "lq_free lq" using ok by simp
    let ?hp' = "unlinked hp xs a ys pv (lq_items lq ! length xs)"
    let ?n' = "length (xs @ ys)"
    let ?q' = "q\<lparr>traverse_front := hd0 NULL ys,
      front := (if a = front q then hd0 NULL ys else front q),
      abs_front := hd0 NULL (xs @ ys), abs_length := ?n',
      q_length := (if ?n' < q_length q then q_length q - 1 else q_length q)\<rparr>"
    note run = removeAt_run [OF q' At' sg xs0(2) fr]
    note rep = removeAt_qrep [OF q' At' sg pv xs0(1) fr]
    have frm: "frame hp ?hp' as" unfolding as by (rule unlinked_frame)
    have li: "length items' = ?n'" using len as tx by (simp add: items'_def)
    have res: "removeAtTraverseNode hp (Some q) =
        Inr (opt_ptr (if t < length items' then Some (items' ! t) else None), Some ?q', ?hp')"
    proof (cases "ys = []")
      case True
      with run li tx show ?thesis by simp
    next
      case False
      then have "pos_ptr ?hp' (xs @ ys) (At (length xs)) (hd ys)" by (cases ys) auto
      from qrep_At [OF rep this] obtain n where "h_nodes ?hp' (hd ys) = Some n"
        "n_data n = items' ! t" by (auto simp: items'_def tx)
      with False run li tx show ?thesis by (simp add: load_def)
    qed
    have lqr: "lq_remove_at_traverse lq = Inr ((if t < length items' then Some (items' ! t) else None),
        Some (lq_items lq ! t), lq\<lparr>lq_items := items', lq_trav := pos_of (length items') t,
          lq_front := shift_rem (lq_abs_len lq) t (lq_front lq),
          lq_back_ok := (lq_back_ok lq \<and> t + 1 < lq_abs_len lq),
          lq_len := (if length items' < lq_len lq then lq_len lq - 1 else lq_len lq)\<rparr>)"
      using ok At by (simp add: lq_remove_at_traverse_def items'_def Let_def)
    have sub: "set (xs @ ys) \<subseteq> set as" using as by auto
    have R: "qrep ?hp' ?q' (xs @ ys) (lq\<lparr>lq_items := items', lq_trav := pos_of (length items') t,
          lq_front := shift_rem (lq_abs_len lq) t (lq_front lq),
          lq_back_ok := (lq_back_ok lq \<and> t + 1 < lq_abs_len lq),
          lq_len := (if length items' < lq_len lq then lq_len lq - 1 else lq_len lq)\<rparr>)"
      using rep unfolding items'_def tx .
    show ?thesis
      unfolding removes_def lqr sum.case prod.case option.case
      by (intro exI conjI, rule res, rule R, rule frm, rule sub) (simp_all add: tx)
  qed
qed

section \<open>flushQueue and cleanQueue\<close>

definition freed_nodes :: "heap \<Rightarrow> ptr list \<Rightarrow> ptr list \<Rightarrow> heap" where
  "freed_nodes hp xs fs = hp\<lparr>h_nodes := (\<lambda>p. if p \<in> set xs then None else h_nodes hp p),
     h_freed := h_freed hp @ fs\<rparr>"

lemma freed_nodes_Nil [simp]: "freed_nodes hp [] [] = hp"
  by (simp add: freed_nodes_def)

lemma freed_nodes_Cons:
  "freed_nodes (hp\<lparr>h_freed := h_freed hp @ as, h_nodes := (h_nodes hp)(x := None)\<rparr>) xs bs
     = freed_nodes hp (x # xs) (as @ bs)"
  by (auto simp: freed_nodes_def fun_eq_iff)

lemma freed_nodes_gone: "a \<in> set xs \<Longrightarrow> h_nodes (freed_nodes hp xs fs) a = None"
  by (simp add: freed_nodes_def)

lemma freed_nodes_fields [simp]: "h_brk (freed_nodes hp xs fs) = h_brk hp"
  "h_avail (freed_nodes hp xs fs) = h_avail hp" "h_freed (freed_nodes hp xs fs) = h_freed hp @ fs"
  by (simp_all add: freed_nodes_def)

lemma freed_nodes_frame: "frame hp (freed_nodes hp xs fs) as" if "set xs \<subseteq> set as"
  using that by (auto simp: frame_def freed_nodes_def)

lemma freed_nodes_dangling: "dangling hp p \<Longrightarrow> dangling (freed_nodes hp xs fs) p"
  by (simp add: dangling_def freed_nodes_def)

lemma flush_loop_run:
  assumes "seg (h_nodes hp) pv as NULL ds" "distinct as" "NULL \<notin> set ds" "NULL \<notin> set as"
    "abs_front q = hd0 NULL as" "abs_length q = length as"
  shows "flush_loop (length as) hp q = Inr (q\<lparr>abs_front := NULL, abs_length := 0\<rparr>,
     freed_nodes hp as (if free_function q = NULL then [] else ds))"
  using assms
proof (induction as arbitrary: hp pv ds q)
  case Nil
  then show ?case by simp
next
  case (Cons a as)
  then obtain d ds' where ds: "ds = d # ds'"
    and n: "h_nodes hp a = Some \<lparr>n_prev = pv, n_next = hd0 NULL as, n_data = d\<rparr>"
    and sg: "seg (h_nodes hp) a as NULL ds'" by auto
  let ?fs = "if free_function q = NULL then [] else [d]"
  let ?hp = "hp\<lparr>h_freed := h_freed hp @ ?fs, h_nodes := (h_nodes hp)(a := None)\<rparr>"
  let ?q = "q\<lparr>abs_front := hd0 NULL as, abs_length := length as\<rparr>"
  have eq1: "flush_loop (length as) ?hp ?q = Inr (?q\<lparr>abs_front := NULL, abs_length := 0\<rparr>,
      freed_nodes ?hp as (if free_function ?q = NULL then [] else ds'))"
    using Cons.prems sg ds by (intro Cons.IH [where pv = a]) auto
  have eq2: "flush_loop (length (a # as)) hp q = flush_loop (length as) ?hp ?q"
    using Cons.prems n ds by (auto simp: load_def call_free_def free_node_def)
  show ?case unfolding eq2 eq1 by (auto simp: freed_nodes_Cons ds)
qed

lemma flushQueue_sim:
  assumes q: "qrep hp q as lq"
  shows "\<exists>q' hp'. flushQueue hp (Some q) = Inr (0, Some q', hp') \<and>
     qrep hp' q' [] (snd (lq_flush lq)) \<and> frame hp hp' as \<and>
     (\<forall>a \<in> set as. h_nodes hp' a = None) \<and>
     h_freed hp' = h_freed hp @ fst (lq_flush lq) \<and> h_brk hp' = h_brk hp \<and> h_avail hp' = h_avail hp"
proof -
  obtain pv where sg: "seg (h_nodes hp) pv as NULL (lq_items lq)" using q by (auto simp: qrep_def)
  have nn: "NULL \<notin> set as" using qrep_range [OF q] by auto
  note cur = qrep_cursors [OF q]
  let ?fs = "if free_function q = NULL then [] else lq_items lq"
  have run: "flush_loop (abs_length q) hp q =
      Inr (q\<lparr>abs_front := NULL, abs_length := 0\<rparr>, freed_nodes hp as ?fs)"
    using flush_loop_run [OF sg _ _ nn] q by (simp add: qrep_def)
  let ?q' = "q\<lparr>abs_length := 0, abs_front := NULL, traverse_front := NULL, front := NULL,
      q_back := NULL, q_length := 0\<rparr>"
  have "heap_ok (freed_nodes hp as ?fs)"
    using q by (auto simp: qrep_def heap_ok_def freed_nodes_def split: if_splits)
  then have rep: "qrep (freed_nodes hp as ?fs) ?q' [] (snd (lq_flush lq))"
    using cur(5,6) by (auto simp: qrep_def lq_flush_def)
  have "fst (lq_flush lq) = ?fs" using cur(6) by (auto simp: lq_flush_def)
  with run rep show ?thesis
    by (auto simp: flushQueue_def freed_nodes_frame freed_nodes_gone)
qed

lemma clean_loop_run:
  assumes "seg (h_nodes hp) pv (xs @ ys) NULL ds" "distinct (xs @ ys)" "NULL \<notin> set ds"
    "NULL \<notin> set xs" "abs_front q = hd0 NULL (xs @ ys)" "front q = hd0 NULL ys"
    "abs_length q = length (xs @ ys)" "length xs < fuel" "xs \<noteq> [] \<Longrightarrow> free_function q \<noteq> NULL"
  shows "clean_loop fuel hp q = Inr (q\<lparr>abs_front := hd0 NULL ys, abs_length := length ys\<rparr>,
     freed_nodes hp xs (take (length xs) ds))"
  using assms
proof (induction xs arbitrary: hp pv ds q fuel)
  case Nil
  then show ?case by (cases fuel) simp_all
next
  case (Cons a xs)
  then obtain d ds' where ds: "ds = d # ds'"
    and n: "h_nodes hp a = Some \<lparr>n_prev = pv, n_next = hd0 NULL (xs @ ys), n_data = d\<rparr>"
    and sg: "seg (h_nodes hp) a (xs @ ys) NULL ds'" by auto
  obtain f where f: "fuel = Suc f" "length xs < f" using Cons.prems(8) by (cases fuel) auto
  let ?hp = "hp\<lparr>h_freed := h_freed hp @ [d], h_nodes := (h_nodes hp)(a := None)\<rparr>"
  let ?q = "q\<lparr>abs_front := hd0 NULL (xs @ ys), abs_length := length (xs @ ys)\<rparr>"
  have ne: "abs_front q = a" "abs_front q \<noteq> front q"
    using Cons.prems by (cases ys; auto)+
  have eq1: "clean_loop f ?hp ?q = Inr (?q\<lparr>abs_front := hd0 NULL ys, abs_length := length ys\<rparr>,
      freed_nodes ?hp xs (take (length xs) ds'))"
    using Cons.prems sg ds f by (intro Cons.IH [where pv = a]) auto
  have eq2: "clean_loop fuel hp q = clean_loop f ?hp ?q"
    using Cons.prems n ds ne
    by (auto simp: f load_def call_free_def free_node_def store_def dec_sz_def)
  show ?case unfolding eq2 eq1 by (auto simp: freed_nodes_Cons ds)
qed

lemma clean_loop_lost:
  assumes "seg (h_nodes hp) pv as NULL ds" "distinct as" "NULL \<notin> set as"
    "abs_front q = hd0 NULL as" "front q \<notin> set as" "front q \<noteq> NULL" "h_nodes hp NULL = None"
  shows "clean_loop fuel hp q = Inl Fault"
  using assms
proof (induction as arbitrary: hp pv ds q fuel)
  case Nil
  then show ?case by (cases fuel) (auto simp: load_def)
next
  case (Cons a as)
  then obtain d ds' where ds: "ds = d # ds'"
    and n: "h_nodes hp a = Some \<lparr>n_prev = pv, n_next = hd0 NULL as, n_data = d\<rparr>"
    and sg: "seg (h_nodes hp) a as NULL ds'" by auto
  have IH: "clean_loop f (hp\<lparr>h_freed := fs, h_nodes := (h_nodes hp)(a := None)\<rparr>)
      (q\<lparr>abs_front := hd0 NULL as, abs_length := l\<rparr>) = Inl Fault" for f fs l
    using Cons.prems sg by (intro Cons.IH [where pv = a and ds = ds']) auto
  from IH [where fs = "h_freed hp"] have
    "\<And>f l. clean_loop f (hp\<lparr>h_nodes := (h_nodes hp)(a := None)\<rparr>)
      (q\<lparr>abs_front := hd0 NULL as, abs_length := l\<rparr>) = Inl Fault" by simp
  with IH show ?case using Cons.prems n ds
    by (cases fuel) (auto simp: load_def call_free_def free_node_def store_def)
qed

lemma pos_ptr_freed:
  assumes "pos_ptr hp (xs @ ys) ps p" "\<And>a. a \<in> set xs \<Longrightarrow> 0 < a \<and> a < h_brk hp"
  shows "pos_ptr (freed_nodes hp xs fs) ys (shift_del (length xs) ps) p"
proof (cases ps)
  case (At t)
  show ?thesis
  proof (cases "t < length xs")
    case True
    with assms At have "p \<in> set xs" by (auto simp: nth_append)
    with True At assms(2) show ?thesis by (simp add: shift_del_def dangling_def freed_nodes_gone)
  qed (use assms At in \<open>auto simp: shift_del_def nth_append\<close>)
qed (use assms(1) in \<open>auto simp: shift_del_def freed_nodes_dangling\<close>)

lemma seg_suffix:
  assumes "seg h pv (xs @ ys) nx ds" "set xs \<inter> set ys = {}"
  shows "seg (\<lambda>p. if p \<in> set xs then None else h p) (last0 pv xs) ys nx (drop (length xs) ds)"
proof -
  obtain ds1 ds2 where "ds = ds1 @ ds2" "length ds1 = length xs" "seg h (last0 pv xs) ys nx ds2"
    using assms(1) by (auto simp: seg_append dest: seg_length)
  moreover from this assms(2) have "seg (\<lambda>p. if p \<in> set xs then None else h p) (last0 pv xs) ys nx ds2"
    by (subst seg_cong [where h' = h]) auto
  ultimately show ?thesis by simp
qed

text \<open>The nodes before \<open>front\<close>, when \<open>cleanQueue\<close> finds its way to it.\<close>

lemma clean_split:
  assumes q: "qrep hp q as lq" and fr: "lq_front lq \<noteq> Dangling"
  defines "k \<equiv> (case lq_front lq of At f \<Rightarrow> f | _ \<Rightarrow> lq_abs_len lq)"
  shows "k \<le> length as" "front q = hd0 NULL (drop k as)"
proof -
  note cur = qrep_cursors(1) [OF q] and len = qrep_length [OF q]
  show "k \<le> length as" using cur fr len by (cases "lq_front lq") (auto simp: k_def)
  show "front q = hd0 NULL (drop k as)"
    using cur fr len by (cases "lq_front lq") (auto simp: k_def hd0_drop)
qed

definition cleans ::
  "(int \<times> queue option \<times> heap) res \<Rightarrow> (ptr list \<times> ptr lqueue) res \<Rightarrow> heap \<Rightarrow> ptr list \<Rightarrow> bool" where
  "cleans c l hp as \<longleftrightarrow>
     (case l of Inl e \<Rightarrow> c = Inl e
      | Inr (fs, lq') \<Rightarrow> \<exists>q' hp' as'. c = Inr (0, Some q', hp') \<and> qrep hp' q' as' lq' \<and>
          frame hp hp' as \<and> h_brk hp' = h_brk hp \<and> h_avail hp' = h_avail hp \<and>
          h_freed hp' = h_freed hp @ fs)"

lemma cleanQueue_ok:
  assumes q: "qrep hp q as lq" and fr: "lq_front lq \<noteq> Dangling"
    and k: "k = (case lq_front lq of At f \<Rightarrow> f | _ \<Rightarrow> lq_abs_len lq)"
    and free: "0 < k \<Longrightarrow> lq_free lq"
  shows "cleanQueue hp (Some q) = Inr (0, Some (q\<lparr>abs_front := hd0 NULL (drop k as),
       abs_length := length as - k\<rparr>), freed_nodes hp (take k as) (take k (lq_items lq)))"
proof -
  note kl = clean_split [OF q fr, folded k]
  obtain pv where sg: "seg (h_nodes hp) pv (take k as @ drop k as) NULL (lq_items lq)"
    using q by (auto simp: qrep_def)
  have nz: "NULL \<notin> set (take k as)"
    using qrep_range [OF q] by (meson in_set_takeD less_irrefl)
  have dist: "distinct (take k as @ drop k as)" using q by (simp add: qrep_def)
  note cur = qrep_cursors [OF q]
  have "clean_loop (abs_length q + 1) hp q = Inr (q\<lparr>abs_front := hd0 NULL (drop k as),
      abs_length := length (drop k as)\<rparr>,
      freed_nodes hp (take k as) (take (length (take k as)) (lq_items lq)))"
    by (rule clean_loop_run [OF sg dist _ nz]) (use q kl cur free in \<open>auto simp: qrep_def\<close>)
  moreover have "min (length as) k = k" using kl by simp
  ultimately show ?thesis by (simp add: cleanQueue_def)
qed

lemma cleanQueue_lost:
  assumes q: "qrep hp q as lq" and fr: "lq_front lq = Dangling"
  shows "cleanQueue hp (Some q) = Inl Fault"
proof -
  note cur = qrep_cursors [OF q]
  obtain pv where sg: "seg (h_nodes hp) pv as NULL (lq_items lq)" using q by (auto simp: qrep_def)
  have dist: "distinct as" and ok: "heap_ok hp" using q by (auto simp: qrep_def)
  have nz: "NULL \<notin> set as" using qrep_range [OF q] by auto
  have d: "dangling hp (front q)" using cur(1) fr by simp
  then have 1: "front q \<noteq> NULL" by (simp add: dangling_def)
  have 2: "front q \<notin> set as" using d seg_dom [OF sg] by (auto simp: dangling_def simp del: not_None_eq)
  have 3: "h_nodes hp NULL = None" using ok by (metis heap_ok_def less_irrefl)
  have "clean_loop (abs_length q + 1) hp q = Inl Fault"
    by (rule clean_loop_lost [OF sg dist nz cur(7) 2 1 3])
  then show ?thesis by (simp only: cleanQueue_def option.case bnd_simps)
qed

lemma cleanQueue_nofree:
  assumes q: "qrep hp q as lq" and fr: "lq_front lq \<noteq> Dangling"
    and k: "k = (case lq_front lq of At f \<Rightarrow> f | _ \<Rightarrow> lq_abs_len lq)"
    and k0: "0 < k" and nf: "\<not> lq_free lq"
  shows "cleanQueue hp (Some q) = Inl Fault"
proof -
  note cur = qrep_cursors [OF q]
  note kl = clean_split [OF q fr, folded k]
  have ff: "free_function q = NULL" and ne: "as \<noteq> []" using cur(6) kl(1) k0 nf by auto
  have i: "0 < length as" using ne by simp
  obtain n where n: "h_nodes hp (as ! 0) = Some n" "n_data n = lq_items lq ! 0"
    using qrep_nth [OF q i] by metis
  have af: "abs_front q = as ! 0" using cur(7) ne by (cases as) auto
  have nz: "as ! 0 \<noteq> NULL" using qrep_range [OF q, of "as ! 0"] i by auto
  have dist: "distinct as" using q by (simp add: qrep_def)
  have "front q \<noteq> as ! 0"
  proof (cases "k < length as")
    case True
    with kl(2) have "front q = as ! k" by (simp add: hd0_drop)
    with dist True k0 i show ?thesis by (simp add: nth_eq_iff_index_eq)
  next
    case False
    with kl nz show ?thesis by simp
  qed
  moreover have "n_data n \<noteq> NULL"
    using q n(2) i qrep_length [OF q] by (metis nth_mem qrep_def)
  ultimately show ?thesis using n af ff nz by (auto simp: cleanQueue_def load_def call_free_def)
qed

lemma cleanQueue_rep:
  assumes q: "qrep hp q as lq" and fr: "lq_front lq \<noteq> Dangling"
    and k: "k = (case lq_front lq of At f \<Rightarrow> f | _ \<Rightarrow> lq_abs_len lq)" and k0: "0 < k"
  shows "qrep (freed_nodes hp (take k as) fs) (q\<lparr>abs_front := hd0 NULL (drop k as),
       abs_length := length as - k\<rparr>) (drop k as)
     (lq\<lparr>lq_items := drop k (lq_items lq), lq_front := shift_del k (lq_front lq),
         lq_trav := shift_del k (lq_trav lq), lq_back_ok := (lq_back_ok lq \<and> k < lq_abs_len lq),
         lq_head_ok := (k = lq_abs_len lq)\<rparr>)" (is "qrep ?hp ?q ?as ?lq")
proof -
  note cur = qrep_cursors [OF q]
  note kl = clean_split [OF q fr, folded k]
  note len = qrep_length [OF q]
  have lk: "length (take k as) = k" using kl by simp
  have rng: "0 < a \<and> a < h_brk hp" if "a \<in> set (take k as)" for a
    using qrep_range [OF q] that by (meson in_set_takeD)
  have dist: "distinct (take k as @ drop k as)" using q by (simp add: qrep_def)
  obtain pv where sg: "seg (h_nodes hp) pv (take k as @ drop k as) NULL (lq_items lq)"
    using q by (auto simp: qrep_def)
  let ?pv = "last0 pv (take k as)"
  have ne: "take k as \<noteq> []" using lk k0 by auto
  have "seg (h_nodes ?hp) ?pv ?as NULL (lq_items ?lq)"
  proof -
    have "set (take k as) \<inter> set (drop k as) = {}" using dist by (simp only: distinct_append)
    from seg_suffix [OF sg this] show ?thesis unfolding lk by (simp add: freed_nodes_def)
  qed
  moreover have "?pv \<in> set (take k as)" using ne by (simp add: last0_def)
  then have "dangling ?hp ?pv"
    using rng by (simp add: dangling_def freed_nodes_gone)
  ultimately have sg': "\<exists>pv. seg (h_nodes ?hp) pv ?as NULL (lq_items ?lq) \<and>
      (if lq_head_ok ?lq then pv = NULL else dangling ?hp pv)"
    using len by (cases "k = length as") auto
  have pp: "pos_ptr ?hp ?as (shift_del k ps) p" if "pos_ptr hp as ps p" for ps p
    using pos_ptr_freed [of hp "take k as" "drop k as" ps p fs] rng that lk by simp
  have hk: "heap_ok ?hp" using q by (auto simp: qrep_def heap_ok_def freed_nodes_def)
  have bk: "if lq_back_ok ?lq then q_back q = last0 NULL ?as else dangling ?hp (q_back q)"
  proof (cases "lq_back_ok lq")
    case True
    then have b: "q_back q = last0 NULL as" using q by (simp add: qrep_def)
    show ?thesis
    proof (cases "k < length as")
      case True
      then have "q_back q = last0 NULL ?as" using b by (auto simp: last0_def)
      with True \<open>lq_back_ok lq\<close> len show ?thesis by simp
    next
      case False
      with kl(1) have kk: "k = length as" by simp
      then have "q_back q \<in> set (take k as)" using b ne by (simp add: last0_def)
      then have "dangling ?hp (q_back q)" using rng by (simp add: dangling_def freed_nodes_gone)
      with kk len show ?thesis by simp
    qed
  next
    case False
    then have "dangling hp (q_back q)" using q by (simp add: qrep_def)
    with False show ?thesis by (simp add: freed_nodes_dangling)
  qed
  have "NULL \<notin> set (drop k (lq_items lq))" using q by (auto simp: qrep_def dest: in_set_dropD)
  with hk sg' bk pp [OF cur(1)] pp [OF cur(2)] q show ?thesis
    by (simp add: qrep_def)
qed

lemma cleanQueue_sim:
  assumes q: "qrep hp q as lq"
  shows "cleans (cleanQueue hp (Some q)) (lq_clean lq) hp as"
proof (cases "lq_front lq = Dangling")
  case True
  with cleanQueue_lost [OF q True] show ?thesis
    by (simp add: cleans_def lq_clean_def Let_def)
next
  case fr: False
  define k where "k = (case lq_front lq of At f \<Rightarrow> f | _ \<Rightarrow> lq_abs_len lq)"
  consider "0 < k" "\<not> lq_free lq" | "0 < k" "lq_free lq" | "k = 0" by auto
  then show ?thesis
  proof cases
    case 1
    with cleanQueue_nofree [OF q fr k_def] show ?thesis
      by (simp add: cleans_def lq_clean_def Let_def k_def)
  next
    case 2
    note run = cleanQueue_ok [OF q fr k_def 2(2)]
    note rep = cleanQueue_rep [OF q fr k_def 2(1)]
    have lqr: "lq_clean lq = Inr (take k (lq_items lq),
        lq\<lparr>lq_items := drop k (lq_items lq), lq_front := shift_del k (lq_front lq),
         lq_trav := shift_del k (lq_trav lq), lq_back_ok := (lq_back_ok lq \<and> k < lq_abs_len lq),
         lq_head_ok := (k = lq_abs_len lq)\<rparr>)"
      using 2 fr by (simp add: lq_clean_def Let_def k_def)
    show ?thesis unfolding cleans_def lqr sum.case prod.case
      by (intro exI conjI, rule run, rule rep, rule freed_nodes_frame)
        (simp_all add: set_take_subset)
  next
    case 3
    then have "q\<lparr>abs_front := hd0 NULL (drop k as), abs_length := length as - k\<rparr> = q"
      using qrep_cursors(4,7) [OF q] qrep_length [OF q] by simp
    with cleanQueue_ok [OF q fr k_def] 3 have "cleanQueue hp (Some q) = Inr (0, Some q, hp)"
      by (simp add: freed_nodes_def)
    moreover have "lq_clean lq = Inr ([], lq)"
      using 3 fr by (simp add: lq_clean_def Let_def k_def)
    ultimately show ?thesis using q by (auto simp: cleans_def frame_def)
  qed
qed

end
