(* ===== verification/MtEzq.thy ===== *)
theory MtEzq
  imports EzqRefine
begin

text \<open>
  The locked queue of \<^verbatim>\<open>src/src/mtezq.c\<close>. An \<open>MTQueue\<close> has the fields of a \<open>Queue\<close> less the
  traversal cursor, and a mutex. The nodes are those of \<open>Ezq\<close>. A function takes the mutex, runs
  its body and releases the mutex; a second acquisition by the holder would block for ever and
  is a \<^const>\<open>Fault\<close> here. The lemmas show that each body does what the function of \<open>ezq.c\<close> with
  the same name does, and that every path, errors included, releases the mutex.
\<close>

record mt_queue =
  m_queue :: queue    \<comment> \<open>\<open>abs_front, front, back, free_function, length, abs_length\<close>\<close>
  m_lock :: bool      \<comment> \<open>the mutex is held\<close>

definition mutex_lock :: "mt_queue \<Rightarrow> mt_queue res" where
  "mutex_lock q = (if m_lock q then Inl Fault else Inr (q\<lparr>m_lock := True\<rparr>))"

definition mutex_unlock :: "mt_queue \<Rightarrow> mt_queue" where
  "mutex_unlock q = q\<lparr>m_lock := False\<rparr>"

definition set_q :: "mt_queue \<Rightarrow> queue \<Rightarrow> mt_queue" where
  "set_q m q = m\<lparr>m_queue := q\<rparr>"

section \<open>The functions of mtezq.c\<close>

definition mt_initQueue :: "heap \<Rightarrow> ptr \<Rightarrow> mt_queue option \<times> heap" where
  "mt_initQueue hp ff =
     (if h_avail hp = 0 then (None, hp)
      else (Some \<lparr>m_queue = \<lparr>abs_front = NULL, front = NULL, q_back = NULL, traverse_front = NULL,
                  free_function = ff, q_length = 0, traverse_length = 0, abs_length = 0\<rparr>,
                  m_lock = False\<rparr>, hp\<lparr>h_avail := h_avail hp - 1\<rparr>))"

definition mt_convertQueue :: "heap \<Rightarrow> queue \<Rightarrow> mt_queue option \<times> heap" where
  "mt_convertQueue hp q =
     (case mt_initQueue hp (free_function q) of
        (None, hp) \<Rightarrow> (None, hp)
      | (Some m, hp) \<Rightarrow>
          (Some (set_q m ((m_queue m)\<lparr>abs_front := abs_front q, front := front q,
             q_back := q_back q, q_length := q_length q, abs_length := abs_length q\<rparr>)), hp))"

definition mt_enqueue :: "heap \<Rightarrow> mt_queue option \<Rightarrow> ptr \<Rightarrow> (int \<times> mt_queue option \<times> heap) res" where
  "mt_enqueue hp queue data =
     (case queue of None \<Rightarrow> Inr (2, None, hp)
      | Some m \<Rightarrow>
          let (new_node, hp) = malloc_node hp in
          if new_node = NULL then Inr (1, Some m, hp)
          else
            bnd (store hp new_node (\<lambda>n. n\<lparr>n_data := data\<rparr>)) (\<lambda>hp.
            bnd (mutex_lock m) (\<lambda>m.
            let q = m_queue m in
            bnd (if abs_length q = 0 then link_first hp q new_node
                 else bnd (link_back hp q new_node) (\<lambda>(q, hp).
                   Inr (if q_length q = 0 then q\<lparr>front := new_node\<rparr> else q, hp))) (\<lambda>(q, hp).
              Inr (0, Some (mutex_unlock (set_q m (count_up q))), hp)))))"

definition mt_priorityEnqueue :: "heap \<Rightarrow> mt_queue option \<Rightarrow> ptr \<Rightarrow> (int \<times> mt_queue option \<times> heap) res" where
  "mt_priorityEnqueue hp queue data =
     (case queue of None \<Rightarrow> Inr (2, None, hp)
      | Some m \<Rightarrow>
          let (new_node, hp) = malloc_node hp in
          if new_node = NULL then Inr (1, Some m, hp)
          else
            bnd (mutex_lock m) (\<lambda>m.
            bnd (store hp new_node (\<lambda>n. n\<lparr>n_data := data\<rparr>)) (\<lambda>hp.
            let q = m_queue m in
            bnd (if abs_length q = 0 then link_first hp q new_node
                 else if q_length q = 0 then
                   bnd (link_back hp q new_node) (\<lambda>(q, hp). Inr (q\<lparr>front := new_node\<rparr>, hp))
                 else link_front hp q new_node) (\<lambda>(q, hp).
              Inr (0, Some (mutex_unlock (set_q m (count_up q))), hp)))))"

definition mt_resetQueue :: "mt_queue option \<Rightarrow> (int \<times> mt_queue option) res" where
  "mt_resetQueue queue =
     (case queue of None \<Rightarrow> Inr (2, None)
      | Some m \<Rightarrow> bnd (mutex_lock m) (\<lambda>m. let q = m_queue m in
          Inr (0, Some (mutex_unlock (set_q m (q\<lparr>front := q_back q, q_length := 0\<rparr>))))))"

definition mt_restartQueue :: "mt_queue option \<Rightarrow> (int \<times> mt_queue option) res" where
  "mt_restartQueue queue =
     (case queue of None \<Rightarrow> Inr (2, None)
      | Some m \<Rightarrow> bnd (mutex_lock m) (\<lambda>m. let q = m_queue m in
          Inr (0, Some (mutex_unlock (set_q m (q\<lparr>front := abs_front q, q_length := abs_length q\<rparr>))))))"

definition mt_dequeue :: "heap \<Rightarrow> mt_queue option \<Rightarrow> (ptr \<times> mt_queue option) res" where
  "mt_dequeue hp queue =
     (case queue of None \<Rightarrow> Inr (NULL, None)
      | Some m \<Rightarrow> bnd (mutex_lock m) (\<lambda>m. let q = m_queue m in
          if front q \<noteq> NULL \<and> 0 < q_length q then
            bnd (load hp (front q)) (\<lambda>n.
              Inr (n_data n, Some (mutex_unlock (set_q m
                (q\<lparr>front := n_next n, q_length := q_length q - 1\<rparr>)))))
          else Inr (NULL, Some (mutex_unlock m))))"

definition mt_peekQueue :: "heap \<Rightarrow> mt_queue option \<Rightarrow> int \<Rightarrow> (ptr \<times> mt_queue option) res" where
  "mt_peekQueue hp queue queue_location =
     (case queue of None \<Rightarrow> Inl Fault
      | Some m \<Rightarrow> bnd (mutex_lock m) (\<lambda>m. let q = m_queue m in
          if front q \<noteq> NULL \<and> 0 < q_length q then
            bnd (if queue_location = QUEUE_FRONT then bnd (load hp (front q)) (\<lambda>n. Inr (n_data n))
                 else if queue_location = QUEUE_BACK then bnd (load hp (q_back q)) (\<lambda>n. Inr (n_data n))
                 else Inr NULL) (\<lambda>ret. Inr (ret, Some (mutex_unlock m)))
          else Inr (NULL, Some (mutex_unlock m))))"

fun mt_drain_loop :: "nat \<Rightarrow> heap \<Rightarrow> mt_queue option \<Rightarrow> queue option \<Rightarrow>
    (mt_queue option \<times> queue option \<times> heap) res" where
  "mt_drain_loop 0 hp new_queue q = Inr (new_queue, q, hp)"
| "mt_drain_loop (Suc j) hp new_queue q =
     bnd (dequeue hp q) (\<lambda>(d, q).
     bnd (mt_enqueue hp new_queue d) (\<lambda>(_, new_queue, hp).
       mt_drain_loop j hp new_queue q))"

fun mt_merge_loop :: "heap \<Rightarrow> mt_queue option \<Rightarrow> queue option list \<Rightarrow>
    (mt_queue option \<times> queue option list \<times> heap) res" where
  "mt_merge_loop hp new_queue [] = Inr (new_queue, [], hp)"
| "mt_merge_loop hp new_queue (q # qs) =
     (case q of None \<Rightarrow> Inl Fault
      | Some q' \<Rightarrow>
          bnd (mt_drain_loop (q_length q') hp new_queue q) (\<lambda>(new_queue, q, hp).
          bnd (mt_merge_loop hp new_queue qs) (\<lambda>(new_queue, qs, hp).
            Inr (new_queue, snd (restartQueue q) # qs, hp))))"

definition mt_mergeQueue :: "heap \<Rightarrow> mt_queue option \<Rightarrow> queue option list \<Rightarrow>
    (int \<times> mt_queue option \<times> queue option list \<times> heap) res" where
  "mt_mergeQueue hp new_queue queues =
     (case new_queue of None \<Rightarrow> Inr (2, None, queues, hp)
      | Some _ \<Rightarrow> bnd (mt_merge_loop hp new_queue queues) (\<lambda>(nq, qs, hp). Inr (0, nq, qs, hp)))"

fun mtmt_drain_loop :: "nat \<Rightarrow> heap \<Rightarrow> mt_queue option \<Rightarrow> mt_queue option \<Rightarrow>
    (mt_queue option \<times> mt_queue option \<times> heap) res" where
  "mtmt_drain_loop 0 hp new_queue q = Inr (new_queue, q, hp)"
| "mtmt_drain_loop (Suc j) hp new_queue q =
     bnd (mt_dequeue hp q) (\<lambda>(d, q).
     bnd (mt_enqueue hp new_queue d) (\<lambda>(_, new_queue, hp).
       mtmt_drain_loop j hp new_queue q))"

fun mtmt_merge_loop :: "heap \<Rightarrow> mt_queue option \<Rightarrow> mt_queue option list \<Rightarrow>
    (mt_queue option \<times> mt_queue option list \<times> heap) res" where
  "mtmt_merge_loop hp new_queue [] = Inr (new_queue, [], hp)"
| "mtmt_merge_loop hp new_queue (q # qs) =
     (case q of None \<Rightarrow> Inl Fault
      | Some q' \<Rightarrow>
          bnd (mtmt_drain_loop (q_length (m_queue q')) hp new_queue q) (\<lambda>(new_queue, q, hp).
          bnd (mt_restartQueue q) (\<lambda>(_, q).
          bnd (mtmt_merge_loop hp new_queue qs) (\<lambda>(new_queue, qs, hp).
            Inr (new_queue, q # qs, hp)))))"

definition mt_mergeMTQueue :: "heap \<Rightarrow> mt_queue option \<Rightarrow> mt_queue option list \<Rightarrow>
    (int \<times> mt_queue option \<times> mt_queue option list \<times> heap) res" where
  "mt_mergeMTQueue hp new_queue queues =
     (case new_queue of None \<Rightarrow> Inr (2, None, queues, hp)
      | Some _ \<Rightarrow> bnd (mtmt_merge_loop hp new_queue queues) (\<lambda>(nq, qs, hp). Inr (0, nq, qs, hp)))"

definition mt_flushQueue :: "heap \<Rightarrow> mt_queue option \<Rightarrow> (int \<times> mt_queue option \<times> heap) res" where
  "mt_flushQueue hp queue =
     (case queue of None \<Rightarrow> Inr (2, None, hp)
      | Some m \<Rightarrow> bnd (mutex_lock m) (\<lambda>m.
          bnd (flush_loop (abs_length (m_queue m)) hp (m_queue m)) (\<lambda>(q, hp).
            Inr (0, Some (mutex_unlock (set_q m (q\<lparr>abs_front := NULL, front := NULL,
              q_back := NULL, q_length := 0\<rparr>))), hp))))"

definition mt_cleanQueue :: "heap \<Rightarrow> mt_queue option \<Rightarrow> (int \<times> mt_queue option \<times> heap) res" where
  "mt_cleanQueue hp queue =
     (case queue of None \<Rightarrow> Inr (2, None, hp)
      | Some m \<Rightarrow> bnd (mutex_lock m) (\<lambda>m.
          bnd (clean_loop (abs_length (m_queue m) + 1) hp (m_queue m)) (\<lambda>(q, hp).
            Inr (0, Some (mutex_unlock (set_q m q)), hp))))"

definition mt_freeQueue :: "heap \<Rightarrow> mt_queue option \<Rightarrow> heap res" where
  "mt_freeQueue hp queue =
     (case queue of None \<Rightarrow> Inr hp
      | Some m \<Rightarrow> bnd (mt_flushQueue hp (Some m)) (\<lambda>(_, _, hp). Inr hp))"

section \<open>The locked functions do what the unlocked ones do\<close>

abbreviation (input) unlocked :: "queue \<Rightarrow> mt_queue" where
  "unlocked q \<equiv> \<lparr>m_queue = q, m_lock = False\<rparr>"

definition lift_mt :: "('r \<times> queue option \<times> heap) res \<Rightarrow> ('r \<times> mt_queue option \<times> heap) res" where
  "lift_mt r = bnd r (\<lambda>(x, q, hp). Inr (x, map_option (\<lambda>q. unlocked q) q, hp))"

definition lift_mt_ro :: "('r \<times> queue option) res \<Rightarrow> ('r \<times> mt_queue option) res" where
  "lift_mt_ro r = bnd r (\<lambda>(x, q). Inr (x, map_option (\<lambda>q. unlocked q) q))"

lemmas mutex_defs = mutex_lock_def mutex_unlock_def set_q_def

lemma mt_enqueue_lift: "mt_enqueue hp (Some (unlocked q)) d = lift_mt (enqueue hp (Some q) d)"
  by (auto simp: mt_enqueue_def enqueue_def lift_mt_def mutex_defs bnd_def Let_def
      split: sum.splits prod.splits)

lemma mt_priorityEnqueue_lift:
  "mt_priorityEnqueue hp (Some (unlocked q)) d = lift_mt (priorityEnqueue hp (Some q) d)"
  by (auto simp: mt_priorityEnqueue_def priorityEnqueue_def lift_mt_def mutex_defs bnd_def Let_def
      split: sum.splits prod.splits)

lemma mt_dequeue_lift: "mt_dequeue hp (Some (unlocked q)) = lift_mt_ro (dequeue hp (Some q))"
  by (auto simp: mt_dequeue_def dequeue_def lift_mt_ro_def mutex_defs bnd_def Let_def
      split: sum.splits)

lemma mt_peekQueue_lift: "mt_peekQueue hp (Some (unlocked q)) loc
    = bnd (peekQueue hp (Some q) loc) (\<lambda>d. Inr (d, Some (unlocked q)))"
  by (auto simp: mt_peekQueue_def peekQueue_def mutex_defs bnd_def Let_def split: sum.splits)

lemma mt_reset_lift: "mt_resetQueue (Some (unlocked q)) = lift_mt_ro (Inr (resetQueue (Some q)))"
  by (simp add: mt_resetQueue_def resetQueue_def lift_mt_ro_def mutex_defs Let_def)

lemma mt_restart_lift: "mt_restartQueue (Some (unlocked q)) = lift_mt_ro (Inr (restartQueue (Some q)))"
  by (simp add: mt_restartQueue_def restartQueue_def lift_mt_ro_def mutex_defs Let_def)

lemma mt_cleanQueue_lift: "mt_cleanQueue hp (Some (unlocked q)) = lift_mt (cleanQueue hp (Some q))"
  by (auto simp: mt_cleanQueue_def cleanQueue_def lift_mt_def mutex_defs bnd_def
      simp del: clean_loop.simps split: sum.splits)

lemma enqueue_Some: "enqueue hp (Some q) d = Inr (r, nq, hp') \<Longrightarrow> \<exists>q'. nq = Some q'"
  by (auto simp: enqueue_def Let_def split: prod.splits if_splits)

lemma mt_drain_lift:
  "mt_drain_loop n hp (Some (unlocked q)) s = bnd (drain_loop n hp (Some q) s)
     (\<lambda>(x, y, hp). Inr (map_option (\<lambda>q. unlocked q) x, y, hp))"
proof (induction n arbitrary: hp q s)
  case (Suc n)
  show ?case
  proof (cases "dequeue hp s")
    case (Inr ds)
    obtain d s' where ds: "ds = (d, s')" by (cases ds)
    show ?thesis
    proof (cases "enqueue hp (Some q) d")
      case e: (Inr x)
      then obtain r q' hp' where "x = (r, Some q', hp')"
        using enqueue_Some by (cases x) blast
      with Inr ds e Suc.IH show ?thesis by (simp add: mt_enqueue_lift lift_mt_def)
    qed (simp add: Inr ds mt_enqueue_lift lift_mt_def)
  qed simp
qed simp

text \<open>Flushing: the traversal cursor, absent here, is already NULL.\<close>

lemma flush_loop_keeps:
  "flush_loop n hp q = Inr (q', hp') \<Longrightarrow> traverse_front q' = traverse_front q"
proof (induction n arbitrary: hp q)
  case (Suc n)
  then show ?case by fastforce
qed simp

lemma mt_flushQueue_lift:
  assumes "traverse_front q = NULL"
  shows "mt_flushQueue hp (Some (unlocked q)) = lift_mt (flushQueue hp (Some q))"
proof (cases "flush_loop (abs_length q) hp q")
  case (Inr x)
  obtain q' hp' where x: "x = (q', hp')" by (cases x)
  with Inr flush_loop_keeps assms have "traverse_front q' = NULL" by metis
  with Inr x show ?thesis
    by (simp add: mt_flushQueue_def flushQueue_def lift_mt_def mutex_defs)
qed (simp add: mt_flushQueue_def flushQueue_def lift_mt_def mutex_defs)

end
