(* ===== verification/QueueSpec.thy ===== *)
theory QueueSpec
  imports MtEzq
begin

text \<open>
  What the rest of the program relies on when it uses a queue, as an interface: \<open>rep q dn pd\<close>
  says that \<open>dn\<close> are the elements already taken and \<open>pd\<close> those to come. The clients' lemmas
  (a burst of insertions, a drain, any sequence of calls) are proved once from the laws, which
  the pointer queue of \<open>ezq.c\<close>, the locked queue of \<open>mtezq.c\<close> and the list queue discharge.
\<close>

section \<open>Sequences of calls\<close>

fun enqs :: "('q \<Rightarrow> 'd \<Rightarrow> 'q res) \<Rightarrow> 'd list \<Rightarrow> 'q \<Rightarrow> 'q res" where
  "enqs enq [] q = Inr q"
| "enqs enq (d # ds) q = bnd (enq q d) (enqs enq ds)"

fun deqs :: "('q \<Rightarrow> ('d option \<times> 'q) res) \<Rightarrow> nat \<Rightarrow> 'q \<Rightarrow> ('d option list \<times> 'q) res" where
  "deqs deq 0 q = Inr ([], q)"
| "deqs deq (Suc n) q =
     bnd (deq q) (\<lambda>(d, q). bnd (deqs deq n q) (\<lambda>(ds, q). Inr (d # ds, q)))"

datatype 'd qcmd = Enq 'd | Deq | Restart

text \<open>The run of a sequence of calls; the outputs of the \<open>Deq\<close>s in order.\<close>

fun qrun :: "('q \<Rightarrow> 'd \<Rightarrow> 'q res) \<Rightarrow> ('q \<Rightarrow> ('d option \<times> 'q) res) \<Rightarrow> ('q \<Rightarrow> 'q) \<Rightarrow>
    'd qcmd list \<Rightarrow> 'q \<Rightarrow> ('d option list \<times> 'q) res" where
  "qrun enq deq rst [] q = Inr ([], q)"
| "qrun enq deq rst (Enq d # cs) q = bnd (enq q d) (qrun enq deq rst cs)"
| "qrun enq deq rst (Deq # cs) q =
     bnd (deq q) (\<lambda>(d, q). bnd (qrun enq deq rst cs q) (\<lambda>(ds, q). Inr (d # ds, q)))"
| "qrun enq deq rst (Restart # cs) q = qrun enq deq rst cs (rst q)"

text \<open>The same calls on the abstract queue, a pair of lists.\<close>

fun qspec :: "'d qcmd list \<Rightarrow> 'd list \<Rightarrow> 'd list \<Rightarrow> 'd option list \<times> 'd list \<times> 'd list" where
  "qspec [] dn pd = ([], dn, pd)"
| "qspec (Enq d # cs) dn pd = qspec cs dn (pd @ [d])"
| "qspec (Deq # cs) dn [] = (let (os, r) = qspec cs dn [] in (None # os, r))"
| "qspec (Deq # cs) dn (d # pd) = (let (os, r) = qspec cs (dn @ [d]) pd in (Some d # os, r))"
| "qspec (Restart # cs) dn pd = qspec cs [] (dn @ pd)"

fun enq_count :: "'d qcmd list \<Rightarrow> nat" where
  "enq_count [] = 0"
| "enq_count (Enq d # cs) = Suc (enq_count cs)"
| "enq_count (Deq # cs) = enq_count cs"
| "enq_count (Restart # cs) = enq_count cs"

section \<open>The interface\<close>

locale fifo =
  fixes enq :: "'q \<Rightarrow> 'd \<Rightarrow> 'q res"
    and deq :: "'q \<Rightarrow> ('d option \<times> 'q) res"
    and rst :: "'q \<Rightarrow> 'q"
    and rep :: "'q \<Rightarrow> 'd list \<Rightarrow> 'd list \<Rightarrow> bool"
    and room :: "'q \<Rightarrow> nat \<Rightarrow> bool"
    and good :: "'d \<Rightarrow> bool"
  assumes enq_law: "rep q dn pd \<Longrightarrow> room q (Suc n) \<Longrightarrow> good d \<Longrightarrow>
      \<exists>q'. enq q d = Inr q' \<and> rep q' dn (pd @ [d]) \<and> room q' n"
    and deq_law: "rep q dn (d # pd) \<Longrightarrow>
      \<exists>q'. deq q = Inr (Some d, q') \<and> rep q' (dn @ [d]) pd \<and> (\<forall>n. room q n \<longrightarrow> room q' n)"
    and deq_empty: "rep q dn [] \<Longrightarrow> deq q = Inr (None, q)"
    and rst_law: "rep q dn pd \<Longrightarrow> rep (rst q) [] (dn @ pd) \<and> (\<forall>n. room q n \<longrightarrow> room (rst q) n)"
begin

lemma enqs_rep:
  "rep q dn pd \<Longrightarrow> room q (length ds + n) \<Longrightarrow> \<forall>d \<in> set ds. good d \<Longrightarrow>
   \<exists>q'. enqs enq ds q = Inr q' \<and> rep q' dn (pd @ ds) \<and> room q' n"
proof (induction ds arbitrary: q pd)
  case (Cons d ds)
  then obtain q1 where "enq q d = Inr q1" "rep q1 dn (pd @ [d])" "room q1 (length ds + n)"
    using enq_law [of q dn pd "length ds + n" d] by auto
  with Cons.IH [of q1 "pd @ [d]"] Cons.prems(3) show ?case by auto
qed auto

lemma deqs_rep:
  "rep q dn (ds @ pd) \<Longrightarrow>
   \<exists>q'. deqs deq (length ds) q = Inr (map Some ds, q') \<and> rep q' (dn @ ds) pd"
proof (induction ds arbitrary: q dn)
  case (Cons d ds)
  then obtain q1 where "deq q = Inr (Some d, q1)" "rep q1 (dn @ [d]) (ds @ pd)"
    using deq_law [of q dn d "ds @ pd"] by auto
  with Cons.IH [of q1 "dn @ [d]"] show ?case by auto
qed auto

lemma qrun_refines:
  "rep q dn pd \<Longrightarrow> room q (enq_count cs) \<Longrightarrow> \<forall>d. Enq d \<in> set cs \<longrightarrow> good d \<Longrightarrow>
   qspec cs dn pd = (os, dn', pd') \<Longrightarrow>
   \<exists>q'. qrun enq deq rst cs q = Inr (os, q') \<and> rep q' dn' pd'"
proof (induction cs dn pd arbitrary: q os rule: qspec.induct)
  case (2 d cs dn pd)
  then obtain q1 where "enq q d = Inr q1" "rep q1 dn (pd @ [d])" "room q1 (enq_count cs)"
    using enq_law [of q dn pd "enq_count cs" d] by auto
  with 2 show ?case by auto
next
  case (3 cs dn)
  then show ?case using deq_empty [of q dn] by (fastforce split: prod.splits)
next
  case (4 cs dn d pd)
  then obtain q1 where "deq q = Inr (Some d, q1)" "rep q1 (dn @ [d]) pd" "room q1 (enq_count cs)"
    using deq_law [of q dn d pd] by auto
  with 4 show ?case by (fastforce split: prod.splits)
next
  case (5 cs dn pd)
  then show ?case using rst_law [of q dn pd] by auto
qed auto

lemma fill_drain:
  assumes "rep q dn []" "room q (length ds)" "\<forall>d \<in> set ds. good d"
  shows "\<exists>q'. bnd (enqs enq ds q) (deqs deq (length ds)) = Inr (map Some ds, q') \<and> rep q' (dn @ ds) []"
proof -
  obtain q1 where "enqs enq ds q = Inr q1" "rep q1 dn ds"
    using enqs_rep [of q dn "[]" ds 0] assms by auto
  then show ?thesis using deqs_rep [of q1 dn ds "[]"] by simp
qed

text \<open>After \<open>restart\<close> every element ever inserted comes out once more, in order.\<close>

lemma restart_drain:
  assumes "rep q dn pd"
  shows "\<exists>q'. deqs deq (length (dn @ pd)) (rst q) = Inr (map Some (dn @ pd), q') \<and> rep q' (dn @ pd) []"
  using deqs_rep [of "rst q" "[]" "dn @ pd" "[]"] rst_law [OF assms] by simp

end

section \<open>The list queue\<close>

definition lq_rep :: "'a lqueue \<Rightarrow> 'a list \<Rightarrow> 'a list \<Rightarrow> bool" where
  "lq_rep q dn pd \<longleftrightarrow> lq_ok q \<and> lq_done q = dn \<and> lq_pending q = pd"

lemma lq_rep_back: "lq_rep q dn pd \<Longrightarrow> lq_back_ok q \<and> lq_items q = dn @ pd"
  using lq_items_split [of q] by (auto simp: lq_rep_def lq_ok_def)

interpretation lqf: fifo lq_enqueue lq_dequeue lq_restart lq_rep "\<lambda>q n. True" "\<lambda>d. True"
proof unfold_locales
  fix q :: "'a lqueue" and dn pd n d
  assume r: "lq_rep q dn pd"
  then show "\<exists>q'. lq_enqueue q d = Inr q' \<and> lq_rep q' dn (pd @ [d]) \<and> True"
    using lq_enqueue_ok [of q d] by (metis lq_rep_def)
  show "lq_rep (lq_restart q) [] (dn @ pd) \<and> (\<forall>n. True \<longrightarrow> True)"
    using r lq_rep_back [OF r] lq_restart_ok [of q] by (simp add: lq_rep_def)
next
  fix q :: "'a lqueue" and dn d pd
  assume "lq_rep q dn (d # pd)"
  then show "\<exists>q'. lq_dequeue q = Inr (Some d, q') \<and> lq_rep q' (dn @ [d]) pd \<and> (\<forall>n. True \<longrightarrow> True)"
    using lq_dequeue_ok [of q d pd] by (metis lq_rep_def)
qed (simp add: lq_rep_def lq_dequeue_empty)

section \<open>The pointer queue\<close>

text \<open>A queue together with the heap its nodes live in.\<close>

definition ez_enq :: "heap \<times> queue \<Rightarrow> ptr \<Rightarrow> (heap \<times> queue) res" where
  "ez_enq s d = (case s of (hp, q) \<Rightarrow> bnd (enqueue hp (Some q) d) (\<lambda>(r, q', hp').
     case q' of Some q' \<Rightarrow> (if r = 0 then Inr (hp', q') else Inl (RetErr ''enqueue'')) | None \<Rightarrow> Inl Fault))"

definition ez_deq :: "heap \<times> queue \<Rightarrow> (ptr option \<times> heap \<times> queue) res" where
  "ez_deq s = (case s of (hp, q) \<Rightarrow> bnd (dequeue hp (Some q)) (\<lambda>(d, q').
     case q' of Some q' \<Rightarrow> Inr (if d = NULL then None else Some d, hp, q') | None \<Rightarrow> Inl Fault))"

definition ez_rst :: "heap \<times> queue \<Rightarrow> heap \<times> queue" where
  "ez_rst s = (case s of (hp, q) \<Rightarrow> (hp, case snd (restartQueue (Some q)) of Some q' \<Rightarrow> q' | None \<Rightarrow> q))"

definition ez_rep :: "heap \<times> queue \<Rightarrow> ptr list \<Rightarrow> ptr list \<Rightarrow> bool" where
  "ez_rep s dn pd \<longleftrightarrow> (\<exists>as lq. qrep (fst s) (snd s) as lq \<and> lq_rep lq dn pd)"

definition ez_room :: "heap \<times> queue \<Rightarrow> nat \<Rightarrow> bool" where
  "ez_room s n \<longleftrightarrow> n \<le> h_avail (fst s)"

interpretation ezf: fifo ez_enq ez_deq ez_rst ez_rep ez_room "\<lambda>d. d \<noteq> NULL"
proof unfold_locales
  fix s dn pd n and d :: ptr
  assume r: "ez_rep s dn pd" and rm: "ez_room s (Suc n)" and d: "d \<noteq> NULL"
  obtain hp q where s: "s = (hp, q)" by (cases s)
  from r s obtain as lq where q: "qrep hp q as lq" and lq: "lq_rep lq dn pd" by (auto simp: ez_rep_def)
  from rm s have av: "0 < h_avail hp" by (simp add: ez_room_def)
  obtain lq' where lq': "lq_enqueue lq d = Inr lq'" "lq_rep lq' dn (pd @ [d])"
    using lqf.enq_law [OF lq] by blast
  then obtain q' hp' as' where e: "enqueue hp (Some q) d = Inr (0, Some q', hp')"
    "qrep hp' q' as' lq'" "h_avail hp' = h_avail hp - 1"
    using enqueue_sim [OF q d av] by (auto simp: inserts_def)
  have "ez_enq s d = Inr (hp', q')" by (simp add: s ez_enq_def e(1))
  moreover have "ez_rep (hp', q') dn (pd @ [d])" using e(2) lq'(2) by (auto simp: ez_rep_def)
  moreover have "ez_room (hp', q') n" using rm s e(3) by (simp add: ez_room_def)
  ultimately show "\<exists>q'. ez_enq s d = Inr q' \<and> ez_rep q' dn (pd @ [d]) \<and> ez_room q' n" by blast
next
  fix s dn pd and d :: ptr
  assume r: "ez_rep s dn (d # pd)"
  obtain hp q where s: "s = (hp, q)" by (cases s)
  from r s obtain as lq where q: "qrep hp q as lq" and lq: "lq_rep lq dn (d # pd)" by (auto simp: ez_rep_def)
  obtain lq' where lq': "lq_dequeue lq = Inr (Some d, lq')" "lq_rep lq' (dn @ [d]) pd"
    using lqf.deq_law [OF lq] by blast
  have "d \<noteq> NULL" using lq_rep_back [OF lq] q by (auto simp: qrep_def)
  obtain q' where q': "dequeue hp (Some q) = Inr (d, Some q')" "qrep hp q' as lq'"
    using dequeue_sim [OF q] lq'(1) by (auto simp: simulates_def)
  have "ez_deq s = Inr (Some d, hp, q')" using q'(1) \<open>d \<noteq> NULL\<close> by (simp add: s ez_deq_def)
  moreover have "ez_rep (hp, q') (dn @ [d]) pd" using q'(2) lq'(2) by (auto simp: ez_rep_def)
  moreover have "\<forall>n. ez_room s n \<longrightarrow> ez_room (hp, q') n" by (simp add: s ez_room_def)
  ultimately show "\<exists>q'. ez_deq s = Inr (Some d, q') \<and> ez_rep q' (dn @ [d]) pd \<and> (\<forall>n. ez_room s n \<longrightarrow> ez_room q' n)" by blast
next
  fix s :: "heap \<times> queue" and dn
  assume r: "ez_rep s dn []"
  obtain hp q where s: "s = (hp, q)" by (cases s)
  from r s obtain as lq where q: "qrep hp q as lq" and lq: "lq_rep lq dn []" by (auto simp: ez_rep_def)
  then have "q_length q = 0" using lq_len_pending [of lq] qrep_cursors(3) [OF q] by (simp add: lq_rep_def)
  then show "ez_deq s = Inr (None, s)" by (simp add: s ez_deq_def dequeue_def)
next
  fix s :: "heap \<times> queue" and dn pd
  assume r: "ez_rep s dn pd"
  obtain hp q where s: "s = (hp, q)" by (cases s)
  from r s obtain as lq where q: "qrep hp q as lq" and lq: "lq_rep lq dn pd" by (auto simp: ez_rep_def)
  obtain q' where q': "restartQueue (Some q) = (0, Some q')" "qrep hp q' as (lq_restart lq)"
    using restart_sim [OF q] by blast
  have "ez_rst s = (hp, q')" by (simp add: s ez_rst_def q'(1))
  moreover have "ez_rep (hp, q') [] (dn @ pd)"
    using q'(2) lqf.rst_law [OF lq] by (auto simp: ez_rep_def)
  ultimately show "ez_rep (ez_rst s) [] (dn @ pd) \<and> (\<forall>n. ez_room s n \<longrightarrow> ez_room (ez_rst s) n)"
    by (simp add: s ez_room_def)
qed

section \<open>The locked queue\<close>

definition mt_enq :: "heap \<times> mt_queue \<Rightarrow> ptr \<Rightarrow> (heap \<times> mt_queue) res" where
  "mt_enq s d = (case s of (hp, q) \<Rightarrow> bnd (mt_enqueue hp (Some q) d) (\<lambda>(r, q', hp').
     case q' of Some q' \<Rightarrow> (if r = 0 then Inr (hp', q') else Inl (RetErr ''enqueue'')) | None \<Rightarrow> Inl Fault))"

definition mt_deq :: "heap \<times> mt_queue \<Rightarrow> (ptr option \<times> heap \<times> mt_queue) res" where
  "mt_deq s = (case s of (hp, q) \<Rightarrow> bnd (mt_dequeue hp (Some q)) (\<lambda>(d, q').
     case q' of Some q' \<Rightarrow> Inr (if d = NULL then None else Some d, hp, q') | None \<Rightarrow> Inl Fault))"

definition mt_rst :: "heap \<times> mt_queue \<Rightarrow> heap \<times> mt_queue" where
  "mt_rst s = (case s of (hp, q) \<Rightarrow>
     (hp, case mt_restartQueue (Some q) of Inr (_, Some q') \<Rightarrow> q' | _ \<Rightarrow> q))"

definition mt_rep :: "heap \<times> mt_queue \<Rightarrow> ptr list \<Rightarrow> ptr list \<Rightarrow> bool" where
  "mt_rep s dn pd \<longleftrightarrow> \<not> m_lock (snd s) \<and> ez_rep (fst s, m_queue (snd s)) dn pd"

definition mt_room :: "heap \<times> mt_queue \<Rightarrow> nat \<Rightarrow> bool" where
  "mt_room s n \<longleftrightarrow> n \<le> h_avail (fst s)"

definition of_ez :: "heap \<times> queue \<Rightarrow> heap \<times> mt_queue" where
  "of_ez s = (fst s, unlocked (snd s))"

lemma mt_rep_of_ez: "mt_rep s dn pd \<longleftrightarrow> (\<exists>t. s = of_ez t \<and> ez_rep t dn pd)"
  by (cases s; cases "snd s") (auto simp: mt_rep_def of_ez_def)

lemma mt_rep_of_ez_simp [simp]: "mt_rep (of_ez t) dn pd = ez_rep t dn pd"
  by (cases t) (simp add: mt_rep_def of_ez_def)

lemma mt_room_of_ez [simp]: "mt_room (of_ez t) n = ez_room t n"
  by (simp add: mt_room_def ez_room_def of_ez_def)

lemma mt_enq_of_ez: "mt_enq (of_ez t) d = bnd (ez_enq t d) (\<lambda>t. Inr (of_ez t))"
  by (cases t; cases "enqueue (fst t) (Some (snd t)) d")
    (auto simp: mt_enq_def ez_enq_def of_ez_def mt_enqueue_lift lift_mt_def bnd_def split: option.splits)

lemma mt_deq_of_ez: "mt_deq (of_ez t) = bnd (ez_deq t) (\<lambda>(d, t). Inr (d, of_ez t))"
  by (cases t; cases "dequeue (fst t) (Some (snd t))")
    (auto simp: mt_deq_def ez_deq_def of_ez_def mt_dequeue_lift lift_mt_ro_def split: option.splits)

lemma mt_rst_of_ez: "mt_rst (of_ez t) = of_ez (ez_rst t)"
  by (cases t)
    (simp add: mt_rst_def ez_rst_def of_ez_def mt_restart_lift lift_mt_ro_def restartQueue_def)

interpretation mtf: fifo mt_enq mt_deq mt_rst mt_rep mt_room "\<lambda>d. d \<noteq> NULL"
proof unfold_locales
  fix s dn pd n and d :: ptr
  assume "mt_rep s dn pd" and rm: "mt_room s (Suc n)" and d: "d \<noteq> NULL"
  then obtain t where s: "s = of_ez t" "ez_rep t dn pd" by (auto simp: mt_rep_of_ez)
  with rm have "ez_room t (Suc n)" by simp
  from ezf.enq_law [OF s(2) this d] obtain t' where "ez_enq t d = Inr t'"
    "ez_rep t' dn (pd @ [d])" "ez_room t' n" by blast
  with s show "\<exists>q'. mt_enq s d = Inr q' \<and> mt_rep q' dn (pd @ [d]) \<and> mt_room q' n"
    by (auto simp: mt_enq_of_ez)
next
  fix s dn pd and d :: ptr
  assume "mt_rep s dn (d # pd)"
  then obtain t where s: "s = of_ez t" "ez_rep t dn (d # pd)" by (auto simp: mt_rep_of_ez)
  from ezf.deq_law [OF s(2)] obtain t' where "ez_deq t = Inr (Some d, t')"
    "ez_rep t' (dn @ [d]) pd" "\<forall>n. ez_room t n \<longrightarrow> ez_room t' n" by blast
  with s show "\<exists>q'. mt_deq s = Inr (Some d, q') \<and> mt_rep q' (dn @ [d]) pd \<and> (\<forall>n. mt_room s n \<longrightarrow> mt_room q' n)"
    by (auto simp: mt_deq_of_ez)
next
  fix s :: "heap \<times> mt_queue" and dn
  assume "mt_rep s dn []"
  then show "mt_deq s = Inr (None, s)"
    using ezf.deq_empty [of _ dn] by (auto simp: mt_rep_of_ez mt_deq_of_ez)
next
  fix s :: "heap \<times> mt_queue" and dn pd
  assume "mt_rep s dn pd"
  then obtain t where "s = of_ez t" "ez_rep t dn pd" by (auto simp: mt_rep_of_ez)
  then show "mt_rep (mt_rst s) [] (dn @ pd) \<and> (\<forall>n. mt_room s n \<longrightarrow> mt_room (mt_rst s) n)"
    using ezf.rst_law [of t dn pd] by (simp add: mt_rst_of_ez)
qed

end
