(* ===== verification/QueueProps.thy ===== *)
theory QueueProps
  imports QueueSpec
begin

text \<open>
  The properties of the two queues, from the interface \<open>fifo\<close> and the simulations of
  \<open>EzqRefine\<close>: any sequence of calls behaves as a queue that remembers what it gave out, and
  removing, flushing and cleaning do on the linked nodes what they do on the list.
\<close>

definition fresh_heap :: "nat \<Rightarrow> heap" where
  "fresh_heap n = \<lparr>h_nodes = \<lambda>_. None, h_brk = 1, h_avail = n, h_freed = []\<rparr>"

definition empty_queue :: "ptr \<Rightarrow> queue" where
  "empty_queue ff = \<lparr>abs_front = NULL, front = NULL, q_back = NULL, traverse_front = NULL,
     free_function = ff, q_length = 0, traverse_length = 0, abs_length = 0\<rparr>"

lemma empty_queue_rep: "heap_ok hp \<Longrightarrow> qrep hp (empty_queue ff) [] (lq_init (ff \<noteq> NULL))"
  by (simp add: qrep_def empty_queue_def lq_init_def)

lemma empty_queue_ez: "heap_ok hp \<Longrightarrow> ez_rep (hp, empty_queue ff) [] []"
  using empty_queue_rep [of hp ff] lq_ok_init unfolding ez_rep_def lq_rep_def by fastforce

lemma initQueue_rep:
  "heap_ok hp \<Longrightarrow> initQueue hp ff = (Some q, hp') \<Longrightarrow> ez_rep (hp', q) [] []"
  using empty_queue_ez [of hp' ff]
  by (auto simp: initQueue_def empty_queue_def heap_ok_def split: if_splits)

lemma fresh_ok: "heap_ok (fresh_heap n)" "ez_rep (fresh_heap n, empty_queue ff) [] []"
  "mt_rep (fresh_heap n, \<lparr>m_queue = empty_queue ff, m_lock = False\<rparr>) [] []"
proof -
  show "heap_ok (fresh_heap n)" by (simp add: heap_ok_def fresh_heap_def)
  then show "ez_rep (fresh_heap n, empty_queue ff) [] []" by (rule empty_queue_ez)
  then show "mt_rep (fresh_heap n, \<lparr>m_queue = empty_queue ff, m_lock = False\<rparr>) [] []"
    by (simp add: mt_rep_def)
qed

lemma fresh_room: "n \<le> k \<Longrightarrow> ez_room (fresh_heap k, q) n" "n \<le> k \<Longrightarrow> mt_room (fresh_heap k, m) n"
  by (simp_all add: ez_room_def mt_room_def fresh_heap_def)

text \<open>A queue of two elements, on nodes 1 and 2, with both cursors on node \<open>f\<close>.\<close>

definition two_heap :: heap where
  "two_heap = \<lparr>h_nodes = [1 \<mapsto> \<lparr>n_prev = 0, n_next = 2, n_data = 7\<rparr>,
     2 \<mapsto> \<lparr>n_prev = 1, n_next = 0, n_data = 8\<rparr>], h_brk = 3, h_avail = 5, h_freed = []\<rparr>"

definition two_queue :: "ptr \<Rightarrow> queue" where
  "two_queue f = \<lparr>abs_front = 1, front = f, q_back = 2, traverse_front = f, free_function = 1,
     q_length = 3 - f, traverse_length = 3 - f, abs_length = 2\<rparr>"

definition two_list :: "nat \<Rightarrow> ptr lqueue" where
  "two_list i = \<lparr>lq_items = [7, 8], lq_front = At i, lq_trav = At i, lq_back_ok = True,
     lq_head_ok = True, lq_free = True, lq_len = 2 - i, lq_tlen = 2 - i\<rparr>"

lemma two_rep: "qrep two_heap (two_queue 1) [1, 2] (two_list 0)" "qrep two_heap (two_queue 2) [1, 2] (two_list 1)"
  by (auto simp: qrep_def heap_ok_def two_heap_def two_queue_def two_list_def)

text \<open>C14. Any sequence of insertions, removals and restarts of a queue of \<open>ezq.c\<close> gives the answers
  of an ideal queue: elements come out in the order they went in, and restarting makes all that
  were taken out come again; the pointers of the queue keep describing one chain of nodes.\<close>

theorem ezq_is_fifo:
  assumes "ez_rep s dn pd" "ez_room s (enq_count cs)" "\<forall>d. Enq d \<in> set cs \<longrightarrow> d \<noteq> NULL"
    and "qspec cs dn pd = (os, dn', pd')"
  shows "\<exists>s'. qrun ez_enq ez_deq ez_rst cs s = Inr (os, s') \<and> ez_rep s' dn' pd'"
  using assms by (rule ezf.qrun_refines)

lemma ezq_is_fifo_witness:
  "\<exists>s'. qrun ez_enq ez_deq ez_rst [Enq 7, Enq 8, Deq, Restart, Enq 9, Deq, Deq, Deq, Deq]
     (fresh_heap 5, empty_queue 1) = Inr ([Some 7, Some 7, Some 8, Some 9, None], s') \<and>
     ez_rep s' [7, 8, 9] []"
  by (rule ezq_is_fifo [OF fresh_ok(2) fresh_room(1)]) (auto simp: eval_nat_numeral)

text \<open>C15. A queue of \<open>mtezq.c\<close> that is filled and then drained gives back the elements in order, and
  every call leaves its mutex free (\<open>mt_rep\<close> says that nobody holds it).\<close>

theorem mtezq_fill_drain:
  assumes "mt_rep s dn []" "mt_room s (length ds)" "\<forall>d \<in> set ds. d \<noteq> NULL"
  shows "\<exists>s'. bnd (enqs mt_enq ds s) (deqs mt_deq (length ds)) = Inr (map Some ds, s') \<and> mt_rep s' (dn @ ds) []"
  using assms by (rule mtf.fill_drain)

lemma mtezq_fill_drain_witness:
  "\<exists>s'. bnd (enqs mt_enq [4, 5] (fresh_heap 3, \<lparr>m_queue = empty_queue 1, m_lock = False\<rparr>)) (deqs mt_deq 2) =
     Inr ([Some 4, Some 5], s') \<and> mt_rep s' [4, 5] []"
  using mtezq_fill_drain [OF fresh_ok(3) fresh_room(2), of "[4, 5]" 3 1] by (simp add: numeral_2_eq_2)

text \<open>C24. \<open>removeAtTraverseNode\<close> unlinks the node under the traversal cursor and frees it and its data:
  the chain of the other nodes, the cursors and the counters are as the list operation says,
  and no node of another queue changes.\<close>

theorem removeAtTraverse_refines:
  assumes "qrep hp q as lq"
  shows "removes (removeAtTraverseNode hp (Some q)) (lq_remove_at_traverse lq) hp as"
  using assms by (rule removeAtTraverseNode_sim)

lemma removeAtTraverse_refines_witness:
  "removes (removeAtTraverseNode two_heap (Some (two_queue 1)))
     (lq_remove_at_traverse (two_list 0)) two_heap [1, 2] \<and>
   (case lq_remove_at_traverse (two_list 0) of
      Inr (d, f, q) \<Rightarrow> d = Some 8 \<and> f = Some 7 \<and> lq_items q = [8] | Inl e \<Rightarrow> False)"
  using removeAtTraverse_refines [OF two_rep(1)]
  by (simp add: lq_remove_at_traverse_def two_list_def)

text \<open>C25. \<open>flushQueue\<close> frees every node and, through the free function, every element once and in order,
  and leaves an empty queue that can be used again.\<close>

theorem flushQueue_frees_all:
  assumes "qrep hp q as lq"
  shows "\<exists>q' hp'. flushQueue hp (Some q) = Inr (0, Some q', hp') \<and>
     qrep hp' q' [] (snd (lq_flush lq)) \<and> frame hp hp' as \<and>
     (\<forall>a \<in> set as. h_nodes hp' a = None) \<and>
     h_freed hp' = h_freed hp @ fst (lq_flush lq) \<and> h_brk hp' = h_brk hp \<and> h_avail hp' = h_avail hp"
  using assms by (rule flushQueue_sim)

lemma flushQueue_frees_all_witness:
  "\<exists>q' hp'. flushQueue two_heap (Some (two_queue 1)) = Inr (0, Some q', hp') \<and>
     h_nodes hp' 1 = None \<and> h_nodes hp' 2 = None \<and> h_freed hp' = [7, 8]"
  using flushQueue_frees_all [OF two_rep(1)]
  by (auto simp: lq_flush_def two_list_def two_heap_def)

text \<open>\<open>cleanQueue\<close> frees the elements that were taken out and keeps the others, on the nodes as on the
  list.\<close>

theorem cleanQueue_refines:
  assumes "qrep hp q as lq"
  shows "cleans (cleanQueue hp (Some q)) (lq_clean lq) hp as"
  using assms by (rule cleanQueue_sim)

lemma cleanQueue_refines_witness:
  "cleans (cleanQueue two_heap (Some (two_queue 2))) (lq_clean (two_list 1)) two_heap [1, 2] \<and>
   (case lq_clean (two_list 1) of Inr (fs, q) \<Rightarrow> fs = [7] \<and> lq_items q = [8] | Inl e \<Rightarrow> False)"
  using cleanQueue_refines [OF two_rep(2)]
  by (simp add: lq_clean_def two_list_def)

end
