(* ===== verification/NumberHelper.thy ===== *)
theory NumberHelper
  imports Prelude
begin

text \<open>
  \<^verbatim>\<open>src/src/numberHelper.c\<close> and \<open>getByteOrder\<close> of \<^verbatim>\<open>src/src/getSystemInfo.c\<close>: the
  in-place byte reversal, the conversion of a run of file bytes to a number, and the rounding
  to a multiple of eight. The byte order of the machine (\<open>__byte_order__\<close>) is the parameter
  \<open>h\<close>; the code's \<open>size_t ret\<close> is a buffer of eight bytes in that order.
\<close>

datatype ByteOrder = LITTLE_ENDIAN | BIG_ENDIAN

abbreviation META_DATA_BYTE_ORDER :: ByteOrder where
  "META_DATA_BYTE_ORDER \<equiv> LITTLE_ENDIAN"

section \<open>Numbers as bytes\<close>

fun le_num :: "byte list \<Rightarrow> int" where
  "le_num [] = 0"
| "le_num (b # bs) = uint b + 256 * le_num bs"

fun le_bytes :: "nat \<Rightarrow> int \<Rightarrow> byte list" where
  "le_bytes 0 v = []"
| "le_bytes (Suc n) v = word_of_int v # le_bytes n (v div 256)"

text \<open>The value of an object whose bytes in memory are \<open>bs\<close>, on a machine of order \<open>h\<close>.\<close>

definition mem_num :: "ByteOrder \<Rightarrow> byte list \<Rightarrow> int" where
  "mem_num h bs = (case h of LITTLE_ENDIAN \<Rightarrow> le_num bs | BIG_ENDIAN \<Rightarrow> le_num (rev bs))"

definition num_mem :: "ByteOrder \<Rightarrow> nat \<Rightarrow> int \<Rightarrow> byte list" where
  "num_mem h n v =
     (case h of LITTLE_ENDIAN \<Rightarrow> le_bytes n v | BIG_ENDIAN \<Rightarrow> rev (le_bytes n v))"

lemma length_le_bytes [simp]: "length (le_bytes n v) = n"
  by (induction n arbitrary: v) auto

lemma le_num_nonneg [simp]: "0 \<le> le_num bs"
  by (induction bs) auto

lemma le_num_append: "le_num (xs @ ys) = le_num xs + 256 ^ length xs * le_num ys"
  by (induction xs) (auto simp: algebra_simps)

lemma le_num_zeros [simp]: "le_num (replicate n 0) = 0"
  by (induction n) auto

lemma le_num_bound: "le_num bs < 256 ^ length bs"
proof (induction bs)
  case Nil
  show ?case by simp
next
  case (Cons b bs)
  have "uint b < 256" using uint_bounded [of b] by simp
  with Cons show ?case by simp
qed

lemma le_num_le_bytes: "le_num (le_bytes n v) = v mod 256 ^ n"
proof (induction n arbitrary: v)
  case 0
  show ?case by simp
next
  case (Suc n)
  have "v mod 256 ^ Suc n = v mod 256 + 256 * (v div 256 mod 256 ^ n)"
    using mod_mult2_eq' [of v 256 "256 ^ n"] by simp
  with Suc show ?case by (simp add: uint_word_of_int)
qed

lemma le_bytes_le_num: "le_bytes (length bs) (le_num bs) = bs"
proof (induction bs)
  case Nil
  show ?case by simp
next
  case (Cons b bs)
  have "uint b < 256" using uint_bounded [of b] by simp
  moreover have "0 \<le> uint b" by simp
  moreover have "word_of_int (uint b + 256 * le_num bs) = b"
  proof -
    have "(word_of_int (256 * le_num bs) :: byte) = 0"
      unfolding word_of_int_0 [symmetric] word_of_int_eq_iff by (simp add: take_bit_eq_mod)
    then show ?thesis by (simp add: wi_hom_add [symmetric])
  qed
  ultimately show ?case using Cons by simp
qed

section \<open>Byte order of the machine\<close>

text \<open>\<open>getByteOrder\<close> looks at the first byte of a \<open>short int\<close> that holds 1.\<close>

definition getByteOrder :: "ByteOrder \<Rightarrow> ByteOrder" where
  "getByteOrder h =
     (let number = num_mem h 2 1
      in if number ! 0 = 1 then LITTLE_ENDIAN else BIG_ENDIAN)"

lemma getByteOrder_eq: "getByteOrder h = h"
  by (cases h) (simp_all add: getByteOrder_def num_mem_def numeral_2_eq_2)

section \<open>reverseBytes\<close>

text \<open>
  The loop of \<open>reverseBytes\<close>: \<open>start\<close> and \<open>end\<close> move towards each other and the bytes
  under them are swapped.
\<close>

function reverse_loop :: "byte list \<Rightarrow> int \<Rightarrow> int \<Rightarrow> byte list res" where
  "reverse_loop m start end_p =
     (if start < end_p then
        bnd (rd m start 1) (\<lambda>swap.
        bnd (rd m end_p 1) (\<lambda>x.
        bnd (wr m start x) (\<lambda>m1.
        bnd (wr m1 end_p swap) (\<lambda>m2.
          reverse_loop m2 (start + 1) (end_p - 1)))))
      else Inr m)"
  by pat_completeness auto
termination
  by (relation "measure (\<lambda>(m, s, e). nat (e - s))") auto

declare reverse_loop.simps [simp del]

definition reverseBytes :: "byte list \<Rightarrow> int \<Rightarrow> int \<Rightarrow> byte list res" where
  "reverseBytes m data_pointer num_elems =
     reverse_loop m data_pointer (data_pointer + num_elems - 1)"

lemma rd1_append: "rd (pre @ b # post) (int (length pre)) 1 = Inr [b]"
  using rd_append [of pre "[b]" post] by simp

lemma wr1_append: "wr (pre @ b # post) (int (length pre)) [x] = Inr (pre @ x # post)"
  by (simp add: wr_def nat_add_distrib)

lemma reverse_loop_append:
  "reverse_loop (pre @ bs @ post) (int (length pre)) (int (length pre) + int (length bs) - 1)
     = Inr (pre @ rev bs @ post)"
proof (induction "length bs" arbitrary: pre bs post rule: less_induct)
  case less
  show ?case
  proof (cases "length bs < 2")
    case True
    then have "rev bs = bs" by (cases bs) auto
    with True show ?thesis by (subst reverse_loop.simps) auto
  next
    case False
    then obtain a cs b where bs: "bs = a # cs @ [b]"
      by (cases bs; cases "tl bs" rule: rev_cases) auto
    let ?p = "int (length pre)" and ?e = "int (length pre) + int (length cs) + 1"
    have e: "?e = int (length (pre @ a # cs))" by simp
    have "rd (pre @ bs @ post) ?e 1 = Inr [b]"
      unfolding e using rd1_append [of "pre @ a # cs" b post] by (simp add: bs)
    moreover have "rd (pre @ bs @ post) ?p 1 = Inr [a]"
      using rd1_append [of pre a "cs @ b # post"] by (simp add: bs)
    moreover have "wr (pre @ bs @ post) ?p [b] = Inr (pre @ b # cs @ b # post)"
      using wr1_append [of pre a "cs @ b # post" b] by (simp add: bs)
    moreover have "wr (pre @ b # cs @ b # post) ?e [a] = Inr (pre @ b # cs @ a # post)"
      using wr1_append [of "pre @ b # cs" b post a] unfolding e by simp
    moreover have "reverse_loop (pre @ b # cs @ a # post) (?p + 1) (?e - 1)
        = Inr (pre @ b # rev cs @ a # post)"
      using less [of cs "pre @ [b]" "a # post"] bs by (simp add: algebra_simps)
    ultimately show ?thesis
      by (subst reverse_loop.simps) (simp add: bs algebra_simps)
  qed
qed

lemma reverseBytes_append:
  "n = int (length bs) \<Longrightarrow>
   reverseBytes (pre @ bs @ post) (int (length pre)) n = Inr (pre @ rev bs @ post)"
  by (simp add: reverseBytes_def reverse_loop_append)

text \<open>Reversing a range that runs past the end of the object touches memory outside it.\<close>

lemma reverseBytes_overrun:
  assumes "int (length m) < n" "2 \<le> n"
  shows "reverseBytes m 0 n = Inl Fault"
proof -
  have "rd m (n - 1) 1 = Inl Fault" using assms by (simp add: rd_def)
  with assms show ?thesis
    by (cases "rd m 0 1") (auto simp: reverseBytes_def reverse_loop.simps rd_def split: if_splits)
qed

section \<open>getBytesAsNumber\<close>

definition getBytesAsNumber ::
  "ByteOrder \<Rightarrow> byte list \<Rightarrow> int \<Rightarrow> int \<Rightarrow> ByteOrder \<Rightarrow> int res" where
  "getBytesAsNumber h m data_pointer num_bytes endianness =
     (if 8 < num_bytes then
        (if h \<noteq> endianness then
           bnd (rd m (data_pointer + (num_bytes - 8)) 8) (\<lambda>ret.
           bnd (reverseBytes ret 0 num_bytes) (\<lambda>ret. Inr (mem_num h ret)))
         else bnd (rd m data_pointer 8) (\<lambda>ret. Inr (mem_num h ret)))
      else
        bnd (rd m data_pointer num_bytes) (\<lambda>bs.
          let ret = bs @ replicate (nat (8 - num_bytes)) 0 in
          if h \<noteq> endianness
          then bnd (reverseBytes ret 0 num_bytes) (\<lambda>ret. Inr (mem_num h ret))
          else Inr (mem_num h ret)))"

lemma getBytesAsNumber_little:
  assumes "0 \<le> n" "n \<le> 8"
  shows "getBytesAsNumber LITTLE_ENDIAN m p n LITTLE_ENDIAN =
           bnd (rd m p n) (\<lambda>bs. Inr (le_num bs))"
  using assms
  by (cases "rd m p n") (simp_all add: getBytesAsNumber_def mem_num_def Let_def le_num_append)

lemma getBytesAsNumber_little_big:
  assumes "0 \<le> n" "n \<le> 8"
  shows "getBytesAsNumber LITTLE_ENDIAN m p n BIG_ENDIAN =
           bnd (rd m p n) (\<lambda>bs. Inr (le_num (rev bs)))"
proof (cases "rd m p n")
  case (Inl e)
  with assms show ?thesis by (simp add: getBytesAsNumber_def)
next
  case (Inr bs)
  then have len: "n = int (length bs)" using assms rd_length [OF Inr] by simp
  have "reverseBytes (bs @ replicate (nat (8 - n)) 0) 0 n
      = Inr (rev bs @ replicate (nat (8 - n)) 0)"
    using reverseBytes_append [OF len, of "[]"] by simp
  with Inr assms show ?thesis
    by (simp add: getBytesAsNumber_def mem_num_def Let_def le_num_append)
qed

lemma getBytesAsNumber_bounds:
  assumes "getBytesAsNumber LITTLE_ENDIAN m p n e = Inr v" "0 \<le> n" "n \<le> 8"
  shows "0 \<le> v" "v < 256 ^ nat n"
proof -
  obtain bs where bs: "rd m p n = Inr bs" and v: "v = le_num bs \<or> v = le_num (rev bs)"
    using assms
    by (cases e) (auto simp: getBytesAsNumber_little getBytesAsNumber_little_big)
  have "length bs = nat n" using bs by (rule rd_length)
  with v show "0 \<le> v" "v < 256 ^ nat n"
    using le_num_bound [of bs] le_num_bound [of "rev bs"] by auto
qed

section \<open>roundUp8\<close>

definition roundUp8 :: "int \<Rightarrow> int" where
  "roundUp8 numToRound =
     (let remainder = numToRound mod 8
      in if remainder = 0 then numToRound else u64 (numToRound + 8 - remainder))"

lemma roundUp8_spec:
  assumes "0 \<le> n" "n \<le> 2 ^ 64 - 8"
  shows "8 dvd roundUp8 n" "n \<le> roundUp8 n" "roundUp8 n < n + 8"
proof -
  have r: "0 \<le> n mod 8" "n mod 8 < 8" by simp_all
  have n64: "u64 (n + 8 - n mod 8) = n + 8 - n mod 8" if "n mod 8 \<noteq> 0"
    using assms r that by (intro u64_id) linarith+
  moreover have "8 dvd (n + 8 - n mod 8)" by presburger
  ultimately show "8 dvd roundUp8 n" "n \<le> roundUp8 n" "roundUp8 n < n + 8"
    using r by (auto simp: roundUp8_def Let_def)
qed

section \<open>Properties\<close>

text \<open>C33. A number of up to eight bytes that was written in the byte order of the file is read back by
  \<open>getBytesAsNumber\<close> on a machine of that byte order.\<close>

theorem getBytesAsNumber_roundtrip:
  assumes "n \<le> 8" "0 \<le> v" "v < 256 ^ n"
  shows "getBytesAsNumber LITTLE_ENDIAN (pre @ le_bytes n v @ post) (int (length pre)) (int n)
           META_DATA_BYTE_ORDER = Inr v"
  using assms rd_append [of pre "le_bytes n v" post]
  by (simp add: getBytesAsNumber_little le_num_le_bytes)

lemma getBytesAsNumber_roundtrip_witness:
  "getBytesAsNumber LITTLE_ENDIAN ([9] @ le_bytes 4 305419896 @ [1, 2]) (int (length [9 :: byte])) (int 4)
     META_DATA_BYTE_ORDER = Inr 305419896"
  by (rule getBytesAsNumber_roundtrip) simp_all

text \<open>C35. With more than eight bytes and a byte order that is not the machine's, \<open>getBytesAsNumber\<close> reverses
  bytes past the end of its result variable: the call is undefined for every input.\<close>

theorem getBytesAsNumber_overrun:
  assumes "8 < n" "h \<noteq> e"
  shows "getBytesAsNumber h m p n e = Inl Fault"
proof (cases "rd m (p + (n - 8)) 8")
  case (Inl err)
  then have "err = Fault" by (auto simp: rd_def split: if_splits)
  with Inl assms show ?thesis by (simp add: getBytesAsNumber_def)
next
  case (Inr bs)
  then have "length bs = 8" by (simp add: rd_length)
  then have "reverseBytes bs 0 n = Inl Fault" using assms by (intro reverseBytes_overrun) auto
  with Inr assms show ?thesis by (simp add: getBytesAsNumber_def)
qed

lemma getBytesAsNumber_overrun_witness:
  "getBytesAsNumber LITTLE_ENDIAN (replicate 16 0) 0 9 BIG_ENDIAN = Inl Fault"
  by (rule getBytesAsNumber_overrun) simp_all

text \<open>\<open>roundUp8\<close> gives the least multiple of eight that is not smaller.\<close>

theorem roundUp8_least:
  assumes "0 \<le> n" "n \<le> 2 ^ 64 - 8"
  shows "8 dvd roundUp8 n \<and> n \<le> roundUp8 n \<and> (\<forall>k. 8 dvd k \<and> n \<le> k \<longrightarrow> roundUp8 n \<le> k)"
proof (intro conjI allI impI)
  show "8 dvd roundUp8 n" "n \<le> roundUp8 n" by (rule roundUp8_spec [OF assms])+
  fix k assume "8 dvd k \<and> n \<le> k"
  then show "roundUp8 n \<le> k"
    using roundUp8_spec [OF assms] by (auto elim!: dvdE)
qed

lemma roundUp8_least_witness: "8 dvd roundUp8 13 \<and> roundUp8 13 \<le> 16"
  using roundUp8_least [of 13] by simp

end
