(* ===== verification/DataModel.thy ===== *)
theory DataModel
  imports NumberHelper ListQueue
begin

text \<open>
  The data types of \<^verbatim>\<open>src/src/headers/getDataObjects.h\<close>: the enumerations (a cast of a number
  read from the file to an enumeration can give a value without a name, hence the last
  constructor of some), the \<open>Superblock\<close>, and the \<open>Data\<close> object that a variable of the file is
  read into, with \<open>initializeObject\<close> of \<^verbatim>\<open>src/src/init.c\<close>. A pointer member that can be NULL
  is an option; an array is a list; \<open>super_object\<close> and the members of \<open>sub_objects\<close> are indices
  into the store of objects that the functions working on several objects carry around.
\<close>

section \<open>Enumerations\<close>

datatype HDF5Datatype = HDF5_FIXED_POINT | HDF5_FLOATING_POINT | HDF5_TIME | HDF5_STRING
  | HDF5_BIT_FIELD | HDF5_OPAQUE | HDF5_COMPOUND | HDF5_REFERENCE | HDF5_ENUMERATED
  | HDF5_VARIABLE_LENGTH | HDF5_ARRAY | HDF5_UNKNOWN | HDF5_UNNAMED int

definition hdf5_cast :: "int \<Rightarrow> HDF5Datatype" where
  "hdf5_cast n =
     (let names = [HDF5_FIXED_POINT, HDF5_FLOATING_POINT, HDF5_TIME, HDF5_STRING, HDF5_BIT_FIELD,
        HDF5_OPAQUE, HDF5_COMPOUND, HDF5_REFERENCE, HDF5_ENUMERATED, HDF5_VARIABLE_LENGTH,
        HDF5_ARRAY, HDF5_UNKNOWN]
      in if 0 \<le> n \<and> n < 12 then names ! nat n else HDF5_UNNAMED n)"

datatype mxClassID = mxUNKNOWN_CLASS | mxCELL_CLASS | mxSTRUCT_CLASS | mxLOGICAL_CLASS
  | mxCHAR_CLASS | mxVOID_CLASS | mxDOUBLE_CLASS | mxSINGLE_CLASS | mxINT8_CLASS | mxUINT8_CLASS
  | mxINT16_CLASS | mxUINT16_CLASS | mxINT32_CLASS | mxUINT32_CLASS | mxINT64_CLASS
  | mxUINT64_CLASS | mxFUNCTION_CLASS | mxOPAQUE_CLASS | mxOBJECT_CLASS

abbreviation (input) mxSPARSE_CLASS :: mxClassID where "mxSPARSE_CLASS \<equiv> mxVOID_CLASS"

text \<open>The classes whose elements \<open>data_arrays.data\<close> holds (the first group of cases of
  \<open>allocateSpace\<close>, \<open>placeData\<close> and \<open>placeDataWithIndexMap\<close>).\<close>

definition plain_class :: "mxClassID \<Rightarrow> bool" where
  "plain_class c \<longleftrightarrow> c \<in> {mxINT8_CLASS, mxUINT8_CLASS, mxINT16_CLASS, mxUINT16_CLASS, mxINT32_CLASS,
     mxUINT32_CLASS, mxINT64_CLASS, mxUINT64_CLASS, mxSINGLE_CLASS, mxDOUBLE_CLASS,
     mxLOGICAL_CLASS, mxCHAR_CLASS}"

datatype mxComplexity = mxREAL | mxCOMPLEX

datatype FilterType = NOT_AVAILABLE | DEFLATE | SHUFFLE | FLETCHER32 | SZIP | NBIT | SCALEOFFSET
  | FILTER_UNNAMED int

definition filter_cast :: "int \<Rightarrow> FilterType" where
  "filter_cast n =
     (let names = [NOT_AVAILABLE, DEFLATE, SHUFFLE, FLETCHER32, SZIP, NBIT, SCALEOFFSET]
      in if 0 \<le> n \<and> n < 7 then names ! nat n else FILTER_UNNAMED n)"

datatype objectDecodingHint = NO_OBJ_HINT | FUNCTION_HINT | OBJECT_HINT | OPAQUE_HINT | HINT_UNNAMED int

definition hint_cast :: "int \<Rightarrow> objectDecodingHint" where
  "hint_cast n =
     (let names = [NO_OBJ_HINT, FUNCTION_HINT, OBJECT_HINT, OPAQUE_HINT]
      in if 0 \<le> n \<and> n < 4 then names ! nat n else HINT_UNNAMED n)"

definition order_cast :: "int \<Rightarrow> ByteOrder" where
  "order_cast n = (if n = 0 then LITTLE_ENDIAN else BIG_ENDIAN)"

section \<open>Constants\<close>

abbreviation (input) HDF5_MAX_DIMS :: int where "HDF5_MAX_DIMS \<equiv> 32"
abbreviation (input) NAME_LENGTH :: int where "NAME_LENGTH \<equiv> 200"
abbreviation (input) UNDEF_ADDR :: int where "UNDEF_ADDR \<equiv> - 1"
abbreviation (input) MIN_MT_ELEMS_THRESH :: int where "MIN_MT_ELEMS_THRESH \<equiv> 100000"
abbreviation (input) ONE_MB :: int where "ONE_MB \<equiv> 1024000"
abbreviation (input) DEFAULT_MAX_NUM_MAP_OBJS :: int where "DEFAULT_MAX_NUM_MAP_OBJS \<equiv> 10"

section \<open>Strings\<close>

text \<open>A C string is the list of its bytes before the terminating zero.\<close>

type_synonym cstr = "byte list"

definition ascii :: "string \<Rightarrow> cstr" where
  "ascii s = map of_char s"

definition strlen :: "cstr \<Rightarrow> int" where
  "strlen s = int (length s)"

text \<open>The string at a pointer into a region: up to the first zero byte, which must be there.\<close>

definition cstr_at :: "byte list \<Rightarrow> int \<Rightarrow> cstr res" where
  "cstr_at m p =
     (if 0 \<le> p \<and> p \<le> int (length m) \<and> 0 \<in> set (drop (nat p) m)
      then Inr (takeWhile (\<lambda>b. b \<noteq> 0) (drop (nat p) m)) else Inl Fault)"

lemma cstr_at_no_zero: "cstr_at m p = Inr s \<Longrightarrow> 0 \<notin> set s"
  by (auto simp: cstr_at_def split: if_splits dest: set_takeWhileD)

lemma cstr_at_zero: "cstr_at (pre @ s @ 0 # post) (int (length pre)) = Inr s" if "0 \<notin> set s"
proof -
  have "takeWhile (\<lambda>b. b \<noteq> 0) (s @ 0 # post) = s"
    using that by (induction s) auto
  then show ?thesis by (simp add: cstr_at_def)
qed

section \<open>Structures\<close>

record Superblock =
  size_of_offsets :: int
  size_of_lengths :: int
  leaf_node_k :: int
  internal_node_k :: int
  sym_table_entry_size :: int
  base_address :: int
  root_tree_address :: int
  root_heap_address :: int

record Filter =
  filter_id :: FilterType
  num_client_vals :: int
  client_data :: "int list"
  optional_flag :: int

record ChunkedInfo =
  num_filters :: int
  filters :: "Filter list option"
  num_chunked_dims :: int
  num_chunked_elems :: int
  chunked_dims :: "int list option"
  chunk_update :: "int list option"

text \<open>Both arrays are bytes; \<open>sub_object_header_offsets\<close> has eight bytes for each address.\<close>

record DataArrays =
  darr :: "byte list option"
  sub_object_header_offsets :: "byte list option"

record NameStruct =
  long_name_length :: int
  long_name :: "cstr option"
  short_name_length :: int
  short_name :: "cstr option"

record MatlabAttributes =
  MATLAB_sparse :: bool
  MATLAB_empty :: bool
  MATLAB_object_decode :: objectDecodingHint

record DataFlags =
  is_struct_array :: bool
  is_filled :: bool
  is_mx_used :: bool
  is_reference :: bool

record Data =
  hdf5_internal_type :: HDF5Datatype
  matlab_internal_type :: mxClassID
  matlab_sparse_type :: mxClassID
  matlab_internal_attributes :: MatlabAttributes
  data_flags :: DataFlags
  complexity_flag :: mxComplexity
  datatype_bit_field :: int
  byte_order :: ByteOrder
  names :: NameStruct
  matlab_class :: "cstr option"
  chunked_info :: ChunkedInfo
  dims :: "int list option"
  num_dims :: int
  num_elems :: int
  elem_size :: int
  s_c_array_index :: int
  layout_class :: int
  data_address :: int
  data_arrays :: DataArrays
  this_obj_address :: int
  super_object :: "nat option"
  sub_objects :: "nat lqueue option"
  num_sub_objs :: int

text \<open>
  What the program gets from its surroundings: the byte order of the machine, the bytes of the
  file, the granularity of \<open>mmap\<close>, the allocator, which grants a request of \<open>n\<close> bytes when
  \<open>malloc_ok n\<close> holds (fresh memory has the unspecified contents \<open>junk\<close>), and whether \<open>mmap\<close> and
  \<open>munmap\<close> of a length at a file offset succeed.
\<close>

record env =
  host :: ByteOrder
  file_bytes :: "byte list"
  gran :: int
  malloc_ok :: "int \<Rightarrow> bool"
  junk :: "nat \<Rightarrow> byte"
  mmap_ok :: "int \<Rightarrow> int \<Rightarrow> bool"
  munmap_ok :: "int \<Rightarrow> int \<Rightarrow> bool"

definition fresh_mem :: "env \<Rightarrow> int \<Rightarrow> byte list" where
  "fresh_mem E n = map (junk E) [0..<nat n]"

definition file_size :: "env \<Rightarrow> int" where
  "file_size E = int (length (file_bytes E))"

text \<open>Sizes of the structures, for the requests made of the allocator (64-bit UNIX).\<close>

abbreviation (input) sizeof_Data :: int where "sizeof_Data \<equiv> 256"
abbreviation (input) sizeof_Queue :: int where "sizeof_Queue \<equiv> 64"
abbreviation (input) sizeof_Filter :: int where "sizeof_Filter \<equiv> 24"

text \<open>A machine on which every request is granted, to evaluate the model on.\<close>

definition demo_env :: "byte list \<Rightarrow> env" where
  "demo_env bs = \<lparr>host = LITTLE_ENDIAN, file_bytes = bs, gran = 16, malloc_ok = \<lambda>_. True,
     junk = \<lambda>_. 0, mmap_ok = \<lambda>_ _. True, munmap_ok = \<lambda>_ _. True\<rparr>"

lemma demo_env_simps [simp]:
  "host (demo_env bs) = LITTLE_ENDIAN" "file_bytes (demo_env bs) = bs" "gran (demo_env bs) = 16"
  "malloc_ok (demo_env bs) n" "junk (demo_env bs) i = 0" "mmap_ok (demo_env bs) a n" "munmap_ok (demo_env bs) a n"
  "file_size (demo_env bs) = int (length bs)"
  by (simp_all add: demo_env_def file_size_def)

section \<open>Metadata fields\<close>

text \<open>\<open>getBytesAsNumber(p, n, META_DATA_BYTE_ORDER)\<close>, the way every field is read.\<close>

definition getMeta :: "env \<Rightarrow> byte list \<Rightarrow> int \<Rightarrow> int \<Rightarrow> int res" where
  "getMeta E m p n = getBytesAsNumber (host E) m p n META_DATA_BYTE_ORDER"

lemma getMeta_little:
  assumes "host E = LITTLE_ENDIAN" "0 \<le> p" "0 \<le> n" "n \<le> 8" "p + n \<le> int (length m)"
  shows "getMeta E m p n = Inr (le_num (take (nat n) (drop (nat p) m)))"
  using assms by (simp add: getMeta_def getBytesAsNumber_little rd_ok)

text \<open>A number written at a pointer is read back.\<close>

lemma getMeta_at:
  assumes "host E = LITTLE_ENDIAN" "0 \<le> q" "0 < n" "n \<le> 8" "drop (nat q) m = le_bytes n v @ rest"
    "0 \<le> v" "v < 256 ^ n"
  shows "getMeta E m q (int n) = Inr v"
proof -
  have "length (drop (nat q) m) = n + length rest" using assms(5) by simp
  then have "nat q + n \<le> length m" using assms(3) by simp
  then show ?thesis
    using assms by (simp add: getMeta_little le_num_le_bytes)
qed

section \<open>initializeObject\<close>

definition blank_object :: "nat lqueue \<Rightarrow> Data" where
  "blank_object q =
     \<lparr>hdf5_internal_type = HDF5_UNKNOWN, matlab_internal_type = mxUNKNOWN_CLASS,
      matlab_sparse_type = mxUNKNOWN_CLASS,
      matlab_internal_attributes =
        \<lparr>MATLAB_sparse = False, MATLAB_empty = False, MATLAB_object_decode = NO_OBJ_HINT\<rparr>,
      data_flags = \<lparr>is_struct_array = False, is_filled = False, is_mx_used = False, is_reference = False\<rparr>,
      complexity_flag = mxREAL, datatype_bit_field = 0, byte_order = LITTLE_ENDIAN,
      names = \<lparr>long_name_length = 0, long_name = None, short_name_length = 0, short_name = None\<rparr>,
      matlab_class = None,
      chunked_info = \<lparr>num_filters = 0, filters = None, num_chunked_dims = 0, num_chunked_elems = 0,
        chunked_dims = None, chunk_update = None\<rparr>,
      dims = None, num_dims = 0, num_elems = 0, elem_size = 0, s_c_array_index = 0,
      layout_class = 3, data_address = UNDEF_ADDR,
      data_arrays = \<lparr>darr = None, sub_object_header_offsets = None\<rparr>,
      this_obj_address = UNDEF_ADDR, super_object = None, sub_objects = Some q, num_sub_objs = 0\<rparr>"

text \<open>The object's memory comes from \<open>malloc\<close>, so every member is set.\<close>

definition initializeObject :: "env \<Rightarrow> Data res" where
  "initializeObject E =
     (if malloc_ok E sizeof_Queue then Inr (blank_object (lq_init False))
      else Inl (RetErr ''getmatvar:initQueueErr''))"

end
