(* ===== verification/State.thy ===== *)
theory State
  imports DataModel
begin

text \<open>
  The global variables of \<^verbatim>\<open>src/src/headers/getDataObjects.h\<close> as a record, and the way the
  functions that work on them are written: a function takes the state and gives an outcome and
  the state it leaves, also when it fails, because some callers go on after an error.
\<close>

section \<open>Functions on a state\<close>

type_synonym ('a, 's) act = "'s \<Rightarrow> 'a res \<times> 's"

definition ret :: "'a \<Rightarrow> ('a, 's) act" where
  "ret x s = (Inr x, s)"

definition fail :: "error \<Rightarrow> ('a, 's) act" where
  "fail e s = (Inl e, s)"

definition andthen :: "('a, 's) act \<Rightarrow> ('a \<Rightarrow> ('b, 's) act) \<Rightarrow> ('b, 's) act" where
  "andthen m f s = (case m s of (Inl e, s') \<Rightarrow> (Inl e, s') | (Inr x, s') \<Rightarrow> f x s')"

definition lift_res :: "'a res \<Rightarrow> ('a, 's) act" where
  "lift_res r s = (r, s)"

definition gets :: "('s \<Rightarrow> 'a) \<Rightarrow> ('a, 's) act" where
  "gets f s = (Inr (f s), s)"

definition modify :: "('s \<Rightarrow> 's) \<Rightarrow> (unit, 's) act" where
  "modify f s = (Inr (), f s)"

definition guard :: "bool \<Rightarrow> error \<Rightarrow> (unit, 's) act" where
  "guard b e s = (if b then Inr () else Inl e, s)"

text \<open>A caller that ignores an error code; a fault or an abort still ends the program.\<close>

definition ignore :: "('a, 's) act \<Rightarrow> (unit, 's) act" where
  "ignore m s = (case m s of (Inl (RetErr e), s') \<Rightarrow> (Inr (), s')
     | (Inl x, s') \<Rightarrow> (Inl x, s') | (Inr y, s') \<Rightarrow> (Inr (), s'))"

lemma andthen_ret [simp]: "andthen (ret x) f s = f x s"
  by (simp add: andthen_def ret_def)

lemma andthen_fail [simp]: "andthen (fail e) f s = (Inl e, s)"
  by (simp add: andthen_def fail_def)

lemma andthen_gets [simp]: "andthen (gets g) f s = f (g s) s"
  by (simp add: andthen_def gets_def)

lemma andthen_modify [simp]: "andthen (modify g) f s = f () (g s)"
  by (simp add: andthen_def modify_def)

lemma andthen_lift [simp]:
  "andthen (lift_res (Inr x)) f s = f x s" "andthen (lift_res (Inl e)) f s = (Inl e, s)"
  by (simp_all add: andthen_def lift_res_def)

lemma andthen_guard [simp]:
  "andthen (guard b e) f s = (if b then f () s else (Inl e, s))"
  by (simp add: andthen_def guard_def)

lemma andthen_assoc: "andthen (andthen m f) g s = andthen m (\<lambda>x. andthen (f x) g) s"
  by (auto simp: andthen_def split: prod.splits sum.splits)

lemma andthen_Inr: "andthen m f s = (Inr y, s') \<longleftrightarrow> (\<exists>x s1. m s = (Inr x, s1) \<and> f x s1 = (Inr y, s'))"
  by (auto simp: andthen_def split: prod.splits sum.splits)

lemma andthen_cong [fundef_cong]:
  "s = t \<Longrightarrow> m t = m' t \<Longrightarrow> (\<And>x s1. m' t = (Inr x, s1) \<Longrightarrow> f x s1 = f' x s1) \<Longrightarrow>
   andthen m f s = andthen m' f' t"
  by (auto simp: andthen_def split: prod.splits sum.splits)

lemma ret_apply [simp]: "ret x s = (Inr x, s)" by (simp add: ret_def)
lemma fail_apply [simp]: "fail e s = (Inl e, s)" by (simp add: fail_def)
lemma lift_apply [simp]: "lift_res r s = (r, s)" by (simp add: lift_res_def)
lemma modify_apply [simp]: "modify f s = (Inr (), f s)" by (simp add: modify_def)

text \<open>Triples: from a state with \<open>P\<close>, a run that succeeds gives a result and a state with \<open>Q\<close>.\<close>

definition trip :: "('s \<Rightarrow> bool) \<Rightarrow> ('a, 's) act \<Rightarrow> ('a \<Rightarrow> 's \<Rightarrow> bool) \<Rightarrow> bool" where
  "trip P m Q \<longleftrightarrow> (\<forall>s x s'. P s \<longrightarrow> m s = (Inr x, s') \<longrightarrow> Q x s')"

lemma tripD: "trip P m Q \<Longrightarrow> P s \<Longrightarrow> m s = (Inr x, s') \<Longrightarrow> Q x s'"
  by (simp add: trip_def)

lemma trip_ret: "(\<And>s. P s \<Longrightarrow> Q x s) \<Longrightarrow> trip P (ret x) Q"
  by (simp add: trip_def)

lemma trip_fail: "trip P (fail e) Q"
  by (simp add: trip_def)

lemma trip_andthen: "trip P m R \<Longrightarrow> (\<And>x. trip (R x) (f x) Q) \<Longrightarrow> trip P (andthen m f) Q"
  by (fastforce simp: trip_def andthen_Inr)

lemma trip_gets: "(\<And>s. P s \<Longrightarrow> Q (f s) s) \<Longrightarrow> trip P (gets f) Q"
  by (simp add: trip_def gets_def)

lemma trip_modify: "(\<And>s. P s \<Longrightarrow> Q () (f s)) \<Longrightarrow> trip P (modify f) Q"
  by (simp add: trip_def)

lemma trip_guard: "(\<And>s. P s \<Longrightarrow> b \<Longrightarrow> Q () s) \<Longrightarrow> trip P (guard b e) Q"
  by (simp add: trip_def guard_def)

lemma trip_lift: "(\<And>s x. P s \<Longrightarrow> r = Inr x \<Longrightarrow> Q x s) \<Longrightarrow> trip P (lift_res r) Q"
  by (simp add: trip_def)

lemma trip_pre: "trip P' m Q \<Longrightarrow> (\<And>s. P s \<Longrightarrow> P' s) \<Longrightarrow> trip P m Q"
  by (auto simp: trip_def)

lemma trip_post: "trip P m Q' \<Longrightarrow> (\<And>x s. Q' x s \<Longrightarrow> Q x s) \<Longrightarrow> trip P m Q"
  by (auto simp: trip_def)

section \<open>The global variables\<close>

record mapObject =
  map_start :: int
  map_size :: int
  map_start_ptr :: "int option"   \<comment> \<open>the file address of the first byte it shows\<close>
  address_ptr :: "int option"     \<comment> \<open>the file address it points to\<close>
  num_using :: int
  is_mapped :: bool

record pageObject =
  pg_lock :: bool
  pg_is_mapped :: bool
  pg_start_a :: int
  pg_end_a :: int
  pg_map_size :: int
  max_map_size :: int
  pg_start_p :: "int option"
  pg_num_using :: int
  total_num_mappings :: int

datatype VariableNameType = VT_UNKNOWN | VT_LOCAL_NAME | VT_LOCAL_INDEX | VT_LOCAL_COORDINATES

record VariableNameToken =
  variable_name_type :: VariableNameType
  variable_local_index :: int
  variable_local_coordinates :: "int list"
  variable_local_name :: cstr

record DataPair =
  dp_address :: int
  dp_chunk_size :: int
  dp_chunk_start :: "int list"

record ParamStruct =
  num_vars :: int
  full_variable_names :: "cstr list option"
  filename :: "cstr option"

text \<open>
  Objects on the C heap that several structures point to live in stores: lists whose index is
  the pointer; the entry is \<^const>\<open>None\<close> after \<open>free\<close>. The \<open>mt_data_queue\<close> and the page buckets
  hold \<open>DataPair\<close>s nobody else points to, so they hold the records themselves.
\<close>

record gstate =
  s_block :: Superblock
  maps :: "mapObject option list"
  map_objects :: "nat lqueue option"
  max_num_map_objs :: int
  curr_mmap_usage :: int
  max_mmap_usage :: int
  objs :: "Data option list"
  object_queue :: "nat lqueue option"
  top_level_objects :: "nat lqueue option"
  virtual_super_object :: "nat option"
  tokens :: "VariableNameToken option list"
  varname_queue :: "nat lqueue option"
  is_done :: bool
  is_getting_everything :: bool
  is_super_mapped :: bool
  will_multithread :: bool
  will_suppress_warnings :: bool
  num_threads_user_def :: int
  num_avail_threads :: int
  fd :: int
  g_num_pages :: int
  page_objects :: "pageObject list option"
  data_page_buckets :: "DataPair lqueue list option"
  mt_data_queue :: "DataPair lqueue option"
  data_buffers :: "nat lqueue option"
  libdeflate_decomps :: "nat lqueue option"
  parameters :: ParamStruct

text \<open>\<open>initialize\<close> of \<^verbatim>\<open>src/src/init.c\<close>; what it does not set keeps its value.\<close>

definition initialize :: "gstate \<Rightarrow> gstate" where
  "initialize g = g\<lparr>top_level_objects := None, varname_queue := None, object_queue := None,
     map_objects := None, page_objects := None, data_page_buckets := None, mt_data_queue := None,
     data_buffers := None, libdeflate_decomps := None,
     is_done := False, fd := -1, num_threads_user_def := -1, will_multithread := True,
     will_suppress_warnings := False, virtual_super_object := None,
     parameters := \<lparr>num_vars = 0, full_variable_names = None, filename = None\<rparr>,
     max_num_map_objs := DEFAULT_MAX_NUM_MAP_OBJS, is_super_mapped := False,
     curr_mmap_usage := 0, max_mmap_usage := 0\<rparr>"

text \<open>A state to start from: nothing allocated, the queue of mappings empty.\<close>

definition demo_state :: gstate where
  "demo_state = (initialize
     \<lparr>s_block = \<lparr>size_of_offsets = 8, size_of_lengths = 8, leaf_node_k = 4, internal_node_k = 16,
        sym_table_entry_size = 40, base_address = 0, root_tree_address = 0, root_heap_address = 0\<rparr>,
      maps = [], map_objects = None, max_num_map_objs = 0, curr_mmap_usage = 0, max_mmap_usage = 0,
      objs = [], object_queue = None, top_level_objects = None, virtual_super_object = None,
      tokens = [], varname_queue = None, is_done = False, is_getting_everything = False,
      is_super_mapped = False, will_multithread = True, will_suppress_warnings = False,
      num_threads_user_def = -1, num_avail_threads = 1, fd = -1, g_num_pages = 1,
      page_objects = None, data_page_buckets = None, mt_data_queue = None,
      data_buffers = None, libdeflate_decomps = None,
      parameters = \<lparr>num_vars = 0, full_variable_names = None, filename = None\<rparr>\<rparr>)
     \<lparr>map_objects := Some (lq_init True), object_queue := Some (lq_init False)\<rparr>"

section \<open>Stores\<close>

definition slook :: "'a option list \<Rightarrow> nat \<Rightarrow> 'a res" where
  "slook st i = (if i < length st then (case st ! i of Some x \<Rightarrow> Inr x | None \<Rightarrow> Inl Fault) else Inl Fault)"

lemma slook_Inr: "slook st i = Inr x \<longleftrightarrow> i < length st \<and> st ! i = Some x"
  by (auto simp: slook_def split: option.splits)

lemma slook_upd_same [simp]: "i < length st \<Longrightarrow> slook (st[i := Some x]) i = Inr x"
  by (simp add: slook_def)

lemma slook_upd_other [simp]: "i \<noteq> j \<Longrightarrow> slook (st[i := v]) j = slook st j"
  by (simp add: slook_def)

lemma slook_append_new [simp]: "slook (st @ [Some x]) (length st) = Inr x"
  by (simp add: slook_def)

lemma slook_append_old: "i < length st \<Longrightarrow> slook (st @ xs) i = slook st i"
  by (simp add: slook_def nth_append)

lemma slook_range: "slook st i = Inr x \<Longrightarrow> i < length st"
  by (simp add: slook_Inr)

text \<open>Objects, and the queues that can be NULL.\<close>

definition get_obj :: "nat \<Rightarrow> (Data, gstate) act" where
  "get_obj i g = (slook (objs g) i, g)"

definition put_obj :: "nat \<Rightarrow> Data \<Rightarrow> (unit, gstate) act" where
  "put_obj i d = modify (\<lambda>g. g\<lparr>objs := (objs g)[i := Some d]\<rparr>)"

definition new_obj :: "Data \<Rightarrow> (nat, gstate) act" where
  "new_obj d g = (Inr (length (objs g)), g\<lparr>objs := objs g @ [Some d]\<rparr>)"

definition nn :: "'a option \<Rightarrow> ('a, 's) act" where
  "nn x = lift_res (case x of None \<Rightarrow> Inl Fault | Some y \<Rightarrow> Inr y)"

lemma nn_simps [simp]: "andthen (nn (Some x)) f s = f x s" "andthen (nn None) f s = (Inl Fault, s)"
  by (simp_all add: nn_def)

end
