(* ===== verification/MapObjects.thy ===== *)
theory MapObjects
  imports State
begin

text \<open>
  The mappings of the file used by the single-threaded part: \<open>st_navigateTo\<close> and
  \<open>st_releasePages\<close> of \<^verbatim>\<open>src/src/navigate.c\<close>, \<open>freeMapObject\<close> of \<^verbatim>\<open>src/src/cleanup.c\<close>. A
  \<open>mapObject\<close> is found through the queue \<open>map_objects\<close>; the pointer a caller gets is a file
  address together with the mapping it goes through. The theorems: a mapping in use is never
  unmapped, a navigation gives a mapping that shows the bytes asked for, and \<open>curr_mmap_usage\<close>
  is the total size of what is mapped.
\<close>

section \<open>The code\<close>

definition mq_op :: "(nat lqueue \<Rightarrow> ('a \<times> nat lqueue) res) \<Rightarrow> ('a, gstate) act" where
  "mq_op f g =
     (case map_objects g of None \<Rightarrow> (Inl Fault, g)
      | Some q \<Rightarrow> (case f q of Inl e \<Rightarrow> (Inl e, g) | Inr (x, q') \<Rightarrow> (Inr x, g\<lparr>map_objects := Some q'\<rparr>)))"

definition get_map :: "nat \<Rightarrow> (mapObject, gstate) act" where
  "get_map i g = (slook (maps g) i, g)"

definition put_map :: "nat \<Rightarrow> mapObject option \<Rightarrow> (unit, gstate) act" where
  "put_map i m = modify (\<lambda>g. g\<lparr>maps := (maps g)[i := m]\<rparr>)"

text \<open>\<open>munmap\<close> and the bookkeeping that goes with it; \<open>size_t\<close> subtraction wraps.\<close>

definition unmap :: "env \<Rightarrow> string \<Rightarrow> mapObject \<Rightarrow> (mapObject, gstate) act" where
  "unmap E err m =
     andthen (guard (munmap_ok E (map_start m) (map_size m)) (Abort err)) (\<lambda>_.
     andthen (modify (\<lambda>g. g\<lparr>curr_mmap_usage := u64 (curr_mmap_usage g - map_size m)\<rparr>)) (\<lambda>_.
       ret (m\<lparr>map_start := 0, map_size := 0, map_start_ptr := None, address_ptr := None,
              is_mapped := False\<rparr>)))"

definition freeMapObject :: "env \<Rightarrow> nat \<Rightarrow> (unit, gstate) act" where
  "freeMapObject E mo =
     andthen (get_map mo) (\<lambda>map_obj.
     andthen (if is_mapped map_obj
              then andthen (unmap E ''getmatvar:badMunmapError'' map_obj) (\<lambda>_. ret ())
              else ret ()) (\<lambda>_.
       put_map mo None))"

text \<open>The mapping shows \<open>bytes_needed\<close> bytes from \<open>address\<close>.\<close>

definition map_covers :: "mapObject \<Rightarrow> int \<Rightarrow> int \<Rightarrow> bool" where
  "map_covers obj address bytes_needed \<longleftrightarrow>
     map_start obj \<le> address \<and>
     u64 (address + bytes_needed - 1) \<le> u64 (map_start obj + map_size obj - 1) \<and> is_mapped obj"

fun nav_scan :: "nat \<Rightarrow> int \<Rightarrow> int \<Rightarrow> (nat option, gstate) act" where
  "nav_scan 0 address bytes_needed = ret None"
| "nav_scan (Suc n) address bytes_needed =
     andthen (mq_op lq_traverse) (\<lambda>o_id.
       case o_id of None \<Rightarrow> ret None
       | Some i \<Rightarrow>
           andthen (get_map i) (\<lambda>obj.
             if map_covers obj address bytes_needed then
               andthen (nn (map_start_ptr obj)) (\<lambda>p.
               andthen (put_map i (Some (obj\<lparr>num_using := u32 (num_using obj + 1),
                   address_ptr := Some (p + (address - map_start obj))\<rparr>))) (\<lambda>_.
                 ret (Some i)))
             else nav_scan n address bytes_needed))"

fun nav_clean :: "env \<Rightarrow> nat \<Rightarrow> (unit, gstate) act" where
  "nav_clean E 0 = ret ()"
| "nav_clean E (Suc n) =
     andthen (mq_op (\<lambda>q. bnd (lq_peek_traverse q) (\<lambda>d. Inr (d, q)))) (\<lambda>o_id.
       case o_id of None \<Rightarrow> ret ()
       | Some i \<Rightarrow>
           andthen (get_map i) (\<lambda>obs_obj.
           andthen (if num_using obs_obj = 0 then
                      andthen (mq_op (\<lambda>q. bnd (lq_remove_at_traverse q) (\<lambda>(d, fr, q'). Inr (fr, q')))) (\<lambda>fr.
                        case fr of None \<Rightarrow> ret () | Some j \<Rightarrow> freeMapObject E j)
                    else andthen (mq_op lq_traverse) (\<lambda>_. ret ())) (\<lambda>_.
             nav_clean E n)))"

definition nav_evict :: "env \<Rightarrow> (unit, gstate) act" where
  "nav_evict E =
     andthen (mq_op (\<lambda>q. Inr (int (lq_len q), q))) (\<lambda>len.
     andthen (gets max_num_map_objs) (\<lambda>mx.
       if mx < len then
         andthen (mq_op lq_dequeue) (\<lambda>o_id.
         andthen (nn o_id) (\<lambda>i.
         andthen (get_map i) (\<lambda>obs_obj.
         andthen (if num_using obs_obj = 0 \<and> is_mapped obs_obj
                  then andthen (unmap E ''getmatvar:badMunmapError'' obs_obj) (\<lambda>m. put_map i (Some m))
                  else ret ()) (\<lambda>_.
         andthen (mq_op (\<lambda>q. Inr (int (lq_abs_len q), q))) (\<lambda>alen.
           if 4 * mx < alen then
             andthen (mq_op (\<lambda>q. Inr ((), lq_init_abs_traversal q))) (\<lambda>_. nav_clean E (nat alen))
           else ret ())))))
       else ret ()))"

definition st_navigateTo :: "env \<Rightarrow> int \<Rightarrow> int \<Rightarrow> (nat, gstate) act" where
  "st_navigateTo E address bytes_needed =
     (let off = u64 address mod gran E;
          start = i64 (u64 address - off);
          bytes = min (u64 (off + bytes_needed)) (u64 (file_size E - start))
      in
      andthen (gets max_num_map_objs) (\<lambda>mx.
      andthen (mq_op (\<lambda>q. Inr ((), lq_init_traversal q))) (\<lambda>_.
      andthen (nav_scan (nat mx) address bytes_needed) (\<lambda>found.
        case found of Some i \<Rightarrow> ret i
        | None \<Rightarrow>
            andthen (guard (malloc_ok E 40) (RetErr ''getmatvar:mallocErrSTNTMO'')) (\<lambda>_.
            andthen (guard (mmap_ok E start bytes) (Abort ''getmatvar:mmapUnsuccessfulError'')) (\<lambda>_.
            andthen (gets (\<lambda>g. length (maps g))) (\<lambda>i.
            andthen (modify (\<lambda>g. g\<lparr>maps := maps g @ [Some \<lparr>map_start = start, map_size = bytes,
                map_start_ptr = Some start, address_ptr = Some (start + off), num_using = 1,
                is_mapped = True\<rparr>]\<rparr>)) (\<lambda>_.
            andthen (mq_op (\<lambda>q. bnd (lq_enqueue q i) (\<lambda>q'. Inr ((), q')))) (\<lambda>_.
            andthen (nav_evict E) (\<lambda>_.
            andthen (modify (\<lambda>g. let u = u64 (curr_mmap_usage g + bytes)
                in g\<lparr>curr_mmap_usage := u, max_mmap_usage := max u (max_mmap_usage g)\<rparr>)) (\<lambda>_.
              ret i)))))))))))"

text \<open>
  No caller checks for NULL before it uses the result, so where the allocation in \<open>st_navigateTo\<close>
  fails the program faults.
\<close>

definition navigated :: "env \<Rightarrow> int \<Rightarrow> int \<Rightarrow> (nat, gstate) act" where
  "navigated E a n g =
     (case st_navigateTo E a n g of (Inl (RetErr e), g') \<Rightarrow> (Inl Fault, g') | r \<Rightarrow> r)"

lemma navigated_ok: "navigated E a n g = (Inr i, g') \<longleftrightarrow> st_navigateTo E a n g = (Inr i, g')"
  by (auto simp: navigated_def split: prod.splits sum.splits error.splits)

definition st_releasePages :: "nat \<Rightarrow> (unit, gstate) act" where
  "st_releasePages i =
     andthen (get_map i) (\<lambda>map_obj.
       if num_using map_obj = 0 then fail (Abort ''getmatvar:internalError'')
       else put_map i (Some (map_obj\<lparr>num_using := num_using map_obj - 1\<rparr>)))"

text \<open>
  What is read through a mapping: the bytes it shows, and the offset \<open>address_ptr\<close> has in them.
  The system maps whole pages, and the last page of the file is filled up with zeros. A mapping
  that is gone shows nothing.
\<close>

definition padded :: "env \<Rightarrow> byte list" where
  "padded E = file_bytes E @ replicate (nat ((- file_size E) mod gran E)) 0"

definition view_of :: "env \<Rightarrow> mapObject \<Rightarrow> byte list" where
  "view_of E m = take (nat (map_size m + (- map_size m) mod gran E)) (drop (nat (map_start m)) (padded E))"

definition st_view :: "env \<Rightarrow> nat \<Rightarrow> (byte list \<times> int, gstate) act" where
  "st_view E i =
     andthen (get_map i) (\<lambda>m.
     andthen (guard (is_mapped m) Fault) (\<lambda>_.
     andthen (nn (address_ptr m)) (\<lambda>a.
       ret (view_of E m, a - map_start m))))"

section \<open>The invariant\<close>

definition pos_in :: "nat \<Rightarrow> pos \<Rightarrow> bool" where
  "pos_in n p \<longleftrightarrow> (case p of PNull \<Rightarrow> True | At i \<Rightarrow> i < n | Dangling \<Rightarrow> False)"

definition map_ok :: "env \<Rightarrow> mapObject \<Rightarrow> bool" where
  "map_ok E m \<longleftrightarrow> 0 \<le> num_using m \<and> num_using m < 2 ^ 32 \<and>
     (if is_mapped m then map_start_ptr m = Some (map_start m) \<and> 0 \<le> map_start m \<and> 0 < map_size m \<and>
        map_start m + map_size m \<le> file_size E \<and> map_start m mod gran E = 0
      else num_using m = 0)"

definition mq_ok :: "nat lqueue \<Rightarrow> bool" where
  "mq_ok q \<longleftrightarrow> lq_back_ok q \<and> lq_head_ok q \<and> lq_free q \<and> distinct (lq_items q) \<and>
     pos_in (lq_abs_len q) (lq_front q) \<and> pos_in (lq_abs_len q) (lq_trav q)"

definition live :: "mapObject option list \<Rightarrow> nat set" where
  "live ms = {i. i < length ms \<and> ms ! i \<noteq> None}"

definition map_inv :: "env \<Rightarrow> gstate \<Rightarrow> bool" where
  "map_inv E g \<longleftrightarrow>
     (\<exists>q. map_objects g = Some q \<and> mq_ok q \<and> set (lq_items q) = live (maps g)) \<and>
     (\<forall>i m. slook (maps g) i = Inr m \<longrightarrow> map_ok E m)"

text \<open>What is in use stays as it is, \<open>i\<close>'s counter apart.\<close>

definition keeps_used :: "gstate \<Rightarrow> gstate \<Rightarrow> bool" where
  "keeps_used g g' \<longleftrightarrow> (\<forall>i m. slook (maps g) i = Inr m \<and> 0 < num_using m \<longrightarrow>
     (\<exists>m'. slook (maps g') i = Inr m' \<and> is_mapped m' = is_mapped m \<and> map_start m' = map_start m \<and>
        map_size m' = map_size m \<and> map_start_ptr m' = map_start_ptr m \<and> num_using m \<le> num_using m'))"

definition untouched :: "gstate \<Rightarrow> gstate \<Rightarrow> bool" where
  "untouched g g' \<longleftrightarrow>
     (\<forall>i m. slook (maps g) i = Inr m \<and> 0 < num_using m \<longrightarrow> slook (maps g') i = Inr m) \<and>
     (\<forall>i m. slook (maps g') i = Inr m \<longrightarrow> (\<exists>m0. slook (maps g) i = Inr m0 \<and> num_using m = num_using m0))"

lemma untouched_keeps_used: "untouched g g' \<Longrightarrow> keeps_used g g'"
  by (auto simp: untouched_def keeps_used_def)

text \<open>Only the counter of \<open>i\<close> has gone up, by one.\<close>

definition counts_one :: "gstate \<Rightarrow> nat \<Rightarrow> gstate \<Rightarrow> bool" where
  "counts_one g i g' \<longleftrightarrow> (\<forall>j m. slook (maps g') j = Inr m \<longrightarrow>
     (if j = i then num_using m = (case slook (maps g) j of Inr m0 \<Rightarrow> num_using m0 + 1 | Inl _ \<Rightarrow> 1)
      else \<exists>m0. slook (maps g) j = Inr m0 \<and> num_using m = num_using m0))"

text \<open>The mapped bytes.\<close>

definition mapped_size :: "mapObject option \<Rightarrow> int" where
  "mapped_size om = (case om of Some m \<Rightarrow> if is_mapped m then map_size m else 0 | None \<Rightarrow> 0)"

definition mapped_total :: "gstate \<Rightarrow> int" where
  "mapped_total g = sum_list (map mapped_size (maps g))"


section \<open>Lemmas\<close>

lemma sum_list_upd: "i < length xs \<Longrightarrow> sum_list (xs[i := v]) = sum_list xs - xs ! i + (v :: int)"
  by (induction xs arbitrary: i) (auto split: nat.splits)

lemma mapped_total_upd:
  assumes "i < length ms"
  shows "sum_list (map mapped_size (ms[i := v])) =
    sum_list (map mapped_size ms) - mapped_size (ms ! i) + mapped_size v"
  using assms sum_list_upd [of i "map mapped_size ms" "mapped_size v"] by (simp add: map_update)

lemma u64_absorb: "u64 (u64 x - y) = u64 (x - y)" "u64 (u64 x + y) = u64 (x + y)"
  by (simp_all add: u64_def mod_diff_left_eq mod_add_left_eq)

text \<open>
  The assertion carried through a navigation that began in \<open>g0\<close>; \<open>c\<close> is the size of the new
  mapping while \<open>curr_mmap_usage\<close> does not count it yet.
\<close>

definition nav_inv :: "env \<Rightarrow> gstate \<Rightarrow> int \<Rightarrow> gstate \<Rightarrow> bool" where
  "nav_inv E g0 c g \<longleftrightarrow> map_inv E g \<and> untouched g0 g \<and>
     curr_mmap_usage g = u64 (mapped_total g - c)"

lemma nav_inv_queue:
  assumes "nav_inv E g0 c g" "map_objects g = Some q" "mq_ok q'" "lq_items q' = lq_items q"
  shows "nav_inv E g0 c (g\<lparr>map_objects := Some q'\<rparr>)"
  using assms by (auto simp: nav_inv_def map_inv_def untouched_def mapped_total_def)

lemma nav_inv_obtain:
  assumes "nav_inv E g0 c g"
  obtains q where "map_objects g = Some q" "mq_ok q" "set (lq_items q) = live (maps g)"
  using assms by (auto simp: nav_inv_def map_inv_def)

lemma pos_in_pos_of [simp]: "pos_in n (pos_of n i)"
  by (simp add: pos_in_def pos_of_def)

lemma lq_traverse_ok:
  assumes "mq_ok q" "lq_traverse q = Inr (d, q')"
  shows "mq_ok q'" "lq_items q' = lq_items q" "\<And>i. d = Some i \<Longrightarrow> i \<in> set (lq_items q)"
  using assms by (auto simp: mq_ok_def lq_traverse_def pos_in_def pos_of_def split: pos.splits if_splits)

lemma lq_dequeue_mq:
  assumes "mq_ok q" "lq_dequeue q = Inr (d, q')"
  shows "mq_ok q'" "lq_items q' = lq_items q" "\<And>i. d = Some i \<Longrightarrow> i \<in> set (lq_items q)"
  using assms by (auto simp: mq_ok_def lq_dequeue_def pos_in_def pos_of_def split: pos.splits if_splits)

lemma lq_init_traversals_ok:
  "mq_ok q \<Longrightarrow> mq_ok (lq_init_traversal q)" "mq_ok q \<Longrightarrow> mq_ok (lq_init_abs_traversal q)"
  "lq_items (lq_init_traversal q) = lq_items q" "lq_items (lq_init_abs_traversal q) = lq_items q"
  by (auto simp: mq_ok_def lq_init_traversal_def lq_init_abs_traversal_def)

lemma live_maps: "slook (maps g) i = Inr m \<Longrightarrow> i \<in> live (maps g)"
  by (auto simp: live_def slook_Inr)

lemma untouched_unused:
  assumes u: "untouched g0 g" and m: "slook (maps g) i = Inr m" "num_using m = 0"
    and g': "maps g' = (maps g)[i := v]" and v: "\<And>m'. v = Some m' \<Longrightarrow> num_using m' = 0"
  shows "untouched g0 g'"
  unfolding untouched_def
proof (intro conjI allI impI)
  fix j m0 assume j: "slook (maps g0) j = Inr m0 \<and> 0 < num_using m0"
  with u have "slook (maps g) j = Inr m0" unfolding untouched_def by blast
  moreover from this m j have "i \<noteq> j" by auto
  ultimately show "slook (maps g') j = Inr m0" using g' by simp
next
  fix j n assume n: "slook (maps g') j = Inr n"
  show "\<exists>m0. slook (maps g0) j = Inr m0 \<and> num_using n = num_using m0"
  proof (cases "i = j")
    case True
    then have "num_using n = num_using m" using n m v g' by (auto simp: slook_Inr)
    with u m True show ?thesis unfolding untouched_def by metis
  next
    case False
    with n g' have "slook (maps g) j = Inr n" by simp
    with u show ?thesis unfolding untouched_def by blast
  qed
qed

text \<open>An unused mapping can be unmapped \<dots>\<close>

lemma nav_inv_unmap:
  assumes inv: "nav_inv E g0 c g" and m: "slook (maps g) i = Inr m" "num_using m = 0" "is_mapped m"
    and run: "andthen (unmap E err m) (\<lambda>m. put_map i (Some m)) g = (Inr (), g')"
  shows "nav_inv E g0 c g'"
proof -
  define m' where "m' = m\<lparr>map_start := 0, map_size := 0, map_start_ptr := None, address_ptr := None, is_mapped := False\<rparr>"
  have i: "i < length (maps g)" "maps g ! i = Some m" using m by (auto simp: slook_Inr)
  have g': "g' = g\<lparr>curr_mmap_usage := u64 (curr_mmap_usage g - map_size m), maps := (maps g)[i := Some m']\<rparr>"
    using run by (auto simp: unmap_def put_map_def m'_def andthen_def guard_def split: if_splits)
  have "live (maps g') = live (maps g)"
    using i g' by (auto simp: live_def nth_list_update split: if_splits)
  moreover have "map_ok E m'" using m by (simp add: map_ok_def m'_def)
  then have "\<forall>j n. slook (maps g') j = Inr n \<longrightarrow> map_ok E n"
    using inv i g' by (auto simp: nav_inv_def map_inv_def slook_Inr nth_list_update split: if_splits)
  moreover have "untouched g0 g'"
  proof (rule untouched_unused [of g0 g i m g' "Some m'"])
    show "num_using n = 0" if "Some m' = Some n" for n
      using that m(2) by (auto simp: m'_def)
  qed (use inv m g' in \<open>simp_all add: nav_inv_def\<close>)
  moreover have "mapped_total g' = mapped_total g - map_size m"
    using i m by (simp add: g' mapped_total_def mapped_total_upd mapped_size_def m'_def)
  then have t: "mapped_total g - c - map_size m = mapped_total g' - c" by simp
  have "curr_mmap_usage g' = u64 (mapped_total g - c - map_size m)"
    using inv by (simp add: g' nav_inv_def u64_absorb)
  then have "curr_mmap_usage g' = u64 (mapped_total g' - c)" by (simp only: t)
  ultimately show ?thesis using inv g' by (simp add: nav_inv_def map_inv_def)
qed

text \<open>\<dots> or removed from the queue and freed.\<close>

lemma lq_remove_mq:
  assumes "mq_ok q" "lq_trav q = At t" "lq_remove_at_traverse q = Inr (d, fr, q')" "t + 1 < lq_abs_len q"
  shows "fr = Some (lq_items q ! t)" "mq_ok q'"
    "lq_items q' = take t (lq_items q) @ drop (t + 1) (lq_items q)"
proof -
  have q': "lq_items q' = take t (lq_items q) @ drop (t + 1) (lq_items q)"
      "lq_trav q' = pos_of (lq_abs_len q - 1) t" "lq_head_ok q' = lq_head_ok q"
      "lq_front q' = shift_rem (lq_abs_len q) t (lq_front q)" "lq_back_ok q'" "lq_free q' = lq_free q"
    and fr: "fr = Some (lq_items q ! t)"
    using assms by (auto simp: lq_remove_at_traverse_def mq_ok_def Let_def min_def split: if_splits)
  show "fr = Some (lq_items q ! t)" by (rule fr)
  show it: "lq_items q' = take t (lq_items q) @ drop (t + 1) (lq_items q)" by (simp add: q')
  have "distinct (take t (lq_items q) @ lq_items q ! t # drop (Suc t) (lq_items q))"
    using assms(1,4) by (simp add: mq_ok_def id_take_nth_drop [symmetric])
  then have "distinct (lq_items q')" using it by auto
  moreover have "lq_abs_len q' = lq_abs_len q - 1" using assms(4) it by (simp add: min_def)
  moreover have "pos_in (lq_abs_len q - 1) (shift_rem (lq_abs_len q) t (lq_front q))"
    using assms(1,4) by (cases "lq_front q") (auto simp: mq_ok_def shift_rem_def pos_in_def pos_of_def)
  ultimately show "mq_ok q'" using assms(1) q' by (simp add: mq_ok_def)
qed

lemma set_remove_nth:
  assumes "distinct xs" "t < length xs"
  shows "set (take t xs @ drop (t + 1) xs) = set xs - {xs ! t}"
proof -
  have xs: "xs = take t xs @ xs ! t # drop (t + 1) xs" using id_take_nth_drop [OF assms(2)] by simp
  then have "distinct (take t xs @ xs ! t # drop (t + 1) xs)" using assms(1) by simp
  moreover have "set xs = set (take t xs) \<union> {xs ! t} \<union> set (drop (t + 1) xs)"
    by (subst xs) auto
  ultimately show ?thesis by auto
qed

lemma nav_inv_free:
  assumes inv: "nav_inv E g0 c g" and q: "map_objects g = Some q" "mq_ok q'"
    "set (lq_items q') = set (lq_items q) - {i}"
    and m: "slook (maps g) i = Inr m" "num_using m = 0"
    and run: "freeMapObject E i (g\<lparr>map_objects := Some q'\<rparr>) = (Inr (), g')"
  shows "nav_inv E g0 c g'" "map_objects g' = Some q'"
proof -
  have i: "i < length (maps g)" "maps g ! i = Some m" using m by (auto simp: slook_Inr)
  have g': "g' = g\<lparr>map_objects := Some q', maps := (maps g)[i := None],
      curr_mmap_usage := (if is_mapped m then u64 (curr_mmap_usage g - map_size m) else curr_mmap_usage g)\<rparr>"
    using run m by (auto simp: freeMapObject_def unmap_def put_map_def get_map_def andthen_def guard_def
        ret_def split: if_splits)
  show mq: "map_objects g' = Some q'" by (simp add: g')
  have ms: "maps g' = (maps g)[i := None]" by (simp add: g')
  have "live (maps g') = live (maps g) - {i}"
    using i by (auto simp: live_def ms nth_list_update)
  moreover have "set (lq_items q) = live (maps g)" using inv q(1) by (auto simp: nav_inv_def map_inv_def)
  moreover have "\<forall>j n. slook (maps g') j = Inr n \<longrightarrow> map_ok E n"
    using inv i by (auto simp: nav_inv_def map_inv_def slook_Inr ms nth_list_update split: if_splits)
  moreover have "untouched g0 g'"
    using inv m ms by (intro untouched_unused [of g0 g i m g' None]) (simp_all add: nav_inv_def)
  moreover have "curr_mmap_usage g' = u64 (mapped_total g' - c)"
  proof -
    have "mapped_total g' = mapped_total g - (if is_mapped m then map_size m else 0)"
      using i by (simp add: ms mapped_total_def mapped_total_upd mapped_size_def)
    then have t: "mapped_total g - c - map_size m = mapped_total g' - c" if "is_mapped m" using that by simp
    show ?thesis
    proof (cases "is_mapped m")
      case True
      then have "curr_mmap_usage g' = u64 (mapped_total g - c - map_size m)"
        using inv by (simp add: g' nav_inv_def u64_absorb)
      then show ?thesis by (simp only: t [OF True])
    next
      case False
      with inv \<open>mapped_total g' = _\<close> show ?thesis by (simp add: g' nav_inv_def)
    qed
  qed
  ultimately show "nav_inv E g0 c g'" using q mq by (simp add: nav_inv_def map_inv_def)
qed

text \<open>While the queue is tidied the new mapping \<open>i\<close> is its last element, and in use.\<close>

definition evict_inv :: "env \<Rightarrow> gstate \<Rightarrow> int \<Rightarrow> nat \<Rightarrow> gstate \<Rightarrow> bool" where
  "evict_inv E g1 c i g \<longleftrightarrow> nav_inv E g1 c g \<and> (\<exists>m. slook (maps g1) i = Inr m \<and> 0 < num_using m) \<and>
     (\<exists>q. map_objects g = Some q \<and> lq_items q \<noteq> [] \<and> last (lq_items q) = i)"

lemma evict_inv_queue:
  assumes "evict_inv E g1 c i g" "map_objects g = Some q" "mq_ok q'" "lq_items q' = lq_items q"
  shows "evict_inv E g1 c i (g\<lparr>map_objects := Some q'\<rparr>)"
  using assms nav_inv_queue [of E g1 c g q q'] by (auto simp: evict_inv_def)

lemma evict_not_last:
  assumes ev: "evict_inv E g1 c i g" and q: "map_objects g = Some q" and t: "t < lq_abs_len q"
    and m: "slook (maps g) (lq_items q ! t) = Inr m" "num_using m = 0"
  shows "t + 1 < lq_abs_len q"
proof (rule ccontr)
  assume "\<not> ?thesis"
  with t have "t = lq_abs_len q - 1" by simp
  then have "lq_items q ! t = i" using ev q t by (auto simp: evict_inv_def last_conv_nth)
  moreover obtain m1 where "slook (maps g1) i = Inr m1 \<and> 0 < num_using m1" "untouched g1 g"
    using ev unfolding evict_inv_def nav_inv_def by blast
  then have "slook (maps g) i = Inr m1" "0 < num_using m1"
    unfolding untouched_def by blast+
  ultimately show False using m by simp
qed

lemma nav_clean_step:
  assumes ev: "evict_inv E g1 c i g" and q: "map_objects g = Some q" and t: "lq_trav q = At t"
    and m: "slook (maps g) (lq_items q ! t) = Inr m" "num_using m = 0"
    and r: "lq_remove_at_traverse q = Inr (d, fr, q')" and j: "fr = Some j"
    and f: "freeMapObject E j (g\<lparr>map_objects := Some q'\<rparr>) = (Inr (), g')"
  shows "evict_inv E g1 c i g'"
proof -
  have inv: "nav_inv E g1 c g" using ev by (simp add: evict_inv_def)
  then have mq: "mq_ok q" using q by (auto simp: nav_inv_def map_inv_def)
  then have tl: "t < lq_abs_len q" using t by (simp add: mq_ok_def pos_in_def)
  note nl = evict_not_last [OF ev q tl m]
  note rem = lq_remove_mq [OF mq t r nl]
  have ji: "j = lq_items q ! t" using rem(1) j by simp
  have "set (lq_items q') = set (lq_items q) - {j}"
    using set_remove_nth [OF _ tl] mq rem(3) ji by (simp add: mq_ok_def)
  from nav_inv_free [OF inv q rem(2) this m(1) [folded ji] m(2) f]
  have "nav_inv E g1 c g'" "map_objects g' = Some q'" by simp_all
  moreover have "drop (t + 1) (lq_items q) \<noteq> []" using nl by simp
  then have "lq_items q' \<noteq> []" "last (lq_items q') = last (lq_items q)"
    using rem(3) nl by (simp_all add: last_drop)
  ultimately show ?thesis using ev q by (auto simp: evict_inv_def)
qed


lemma mq_op_Inr:
  "mq_op f g = (Inr x, g') \<longleftrightarrow>
     (\<exists>q q'. map_objects g = Some q \<and> f q = Inr (x, q') \<and> g' = g\<lparr>map_objects := Some q'\<rparr>)"
  by (auto simp: mq_op_def split: option.splits sum.splits)

lemma mq_op_read: "mq_op (\<lambda>q. bnd (f q) (\<lambda>x. Inr (x, q))) g = (Inr x, g') \<longleftrightarrow>
    (\<exists>q. map_objects g = Some q \<and> f q = Inr x \<and> g' = g)"
  by (auto simp: mq_op_Inr)

lemma mq_op_len: "mq_op (\<lambda>q. Inr (f q, q)) g = (Inr x, g') \<longleftrightarrow>
    (\<exists>q. map_objects g = Some q \<and> f q = x \<and> g' = g)"
  using mq_op_read [of "\<lambda>q. Inr (f q)" g x g'] by simp

lemma get_map_Inr [simp]: "get_map i g = (Inr m, g') \<longleftrightarrow> slook (maps g) i = Inr m \<and> g' = g"
  by (auto simp: get_map_def)

lemma nav_clean_inv:
  "evict_inv E g1 c i g \<Longrightarrow> nav_clean E n g = (Inr u, g') \<Longrightarrow> evict_inv E g1 c i g'"
proof (induction n arbitrary: g)
  case (Suc n)
  let ?peek = "mq_op (\<lambda>q. bnd (lq_peek_traverse q) (\<lambda>d. Inr (d, q)))"
  from Suc.prems(2) obtain o_id q where q: "map_objects g = Some q" "lq_peek_traverse q = Inr o_id"
    and rest: "(case o_id of None \<Rightarrow> ret () | Some i \<Rightarrow>
           andthen (get_map i) (\<lambda>obs_obj.
           andthen (if num_using obs_obj = 0 then
                      andthen (mq_op (\<lambda>q. bnd (lq_remove_at_traverse q) (\<lambda>(d, fr, q'). Inr (fr, q')))) (\<lambda>fr.
                        case fr of None \<Rightarrow> ret () | Some j \<Rightarrow> freeMapObject E j)
                    else andthen (mq_op lq_traverse) (\<lambda>_. ret ())) (\<lambda>_.
             nav_clean E n))) g = (Inr u, g')"
    by (auto simp: andthen_Inr mq_op_read)
  show ?case
  proof (cases "lq_trav q")
    case (At t)
    then have o_id: "o_id = Some (lq_items q ! t)" using q(2) by (simp add: lq_peek_traverse_def)
    have mq: "mq_ok q" using Suc.prems(1) q by (auto simp: evict_inv_def nav_inv_def map_inv_def)
    from rest o_id obtain m where m: "slook (maps g) (lq_items q ! t) = Inr m"
      and rest: "andthen (if num_using m = 0 then
                      andthen (mq_op (\<lambda>q. bnd (lq_remove_at_traverse q) (\<lambda>(d, fr, q'). Inr (fr, q')))) (\<lambda>fr.
                        case fr of None \<Rightarrow> ret () | Some j \<Rightarrow> freeMapObject E j)
                    else andthen (mq_op lq_traverse) (\<lambda>_. ret ())) (\<lambda>_. nav_clean E n) g = (Inr u, g')"
      by (auto simp: andthen_Inr)
    show ?thesis
    proof (cases "num_using m = 0")
      case True
      with rest q obtain d fr q' g2 where r: "lq_remove_at_traverse q = Inr (d, fr, q')"
        and f: "(case fr of None \<Rightarrow> ret () | Some j \<Rightarrow> freeMapObject E j) (g\<lparr>map_objects := Some q'\<rparr>) = (Inr (), g2)"
        and n: "nav_clean E n g2 = (Inr u, g')"
        by (auto simp: andthen_Inr mq_op_Inr)
      from r At obtain j where "fr = Some j"
        by (auto simp: lq_remove_at_traverse_def Let_def split: if_splits)
      with nav_clean_step [OF Suc.prems(1) q(1) At m True r] f have "evict_inv E g1 c i g2" by simp
      with Suc.IH n show ?thesis by blast
    next
      case False
      with rest q obtain d q' where "lq_traverse q = Inr (d, q')"
        and n: "nav_clean E n (g\<lparr>map_objects := Some q'\<rparr>) = (Inr u, g')"
        by (auto simp: andthen_Inr mq_op_Inr)
      with lq_traverse_ok [OF mq] evict_inv_queue [OF Suc.prems(1) q(1)] Suc.IH show ?thesis by blast
    qed
  qed (use q rest Suc.prems in \<open>auto simp: lq_peek_traverse_def\<close>)
qed simp

lemma nav_evict_inv:
  assumes ev: "evict_inv E g1 c i g" and run: "nav_evict E g = (Inr u, g')"
  shows "evict_inv E g1 c i g'"
proof -
  obtain q where q: "map_objects g = Some q" using ev by (auto simp: evict_inv_def)
  have mq: "mq_ok q" using ev q by (auto simp: evict_inv_def nav_inv_def map_inv_def)
  show ?thesis
  proof (cases "max_num_map_objs g < int (lq_len q)")
    case True
    with run q obtain j q1 m g2 where d: "lq_dequeue q = Inr (Some j, q1)"
      and m: "slook (maps g) j = Inr m"
      and un: "(if num_using m = 0 \<and> is_mapped m
                  then andthen (unmap E ''getmatvar:badMunmapError'' m) (\<lambda>m. put_map j (Some m))
                  else ret ()) (g\<lparr>map_objects := Some q1\<rparr>) = (Inr (), g2)"
      and rest: "andthen (mq_op (\<lambda>q. Inr (int (lq_abs_len q), q))) (\<lambda>alen.
           if 4 * max_num_map_objs g < alen then
             andthen (mq_op (\<lambda>q. Inr ((), lq_init_abs_traversal q))) (\<lambda>_. nav_clean E (nat alen))
           else ret ()) g2 = (Inr u, g')"
      unfolding nav_evict_def by (auto simp: andthen_Inr mq_op_len mq_op_Inr nn_def gets_def split: option.splits)
    have e1: "evict_inv E g1 c i (g\<lparr>map_objects := Some q1\<rparr>)"
      using evict_inv_queue [OF ev q] lq_dequeue_mq [OF mq d] by blast
    have e2: "evict_inv E g1 c i g2"
    proof (cases "num_using m = 0 \<and> is_mapped m")
      case True
      have "nav_inv E g1 c (g\<lparr>map_objects := Some q1\<rparr>)" using e1 by (simp add: evict_inv_def)
      then have "nav_inv E g1 c g2"
        by (rule nav_inv_unmap [of E g1 c _ j m "''getmatvar:badMunmapError''"]) (use m True un in auto)
      moreover have "map_objects g2 = Some q1"
        using un True by (auto simp: unmap_def put_map_def andthen_def guard_def split: if_splits)
      ultimately show ?thesis using e1 by (simp add: evict_inv_def)
    next
      case False
      then have "g2 = g\<lparr>map_objects := Some q1\<rparr>" using un by (auto split: if_splits)
      with e1 show ?thesis by simp
    qed
    then obtain q2 where q2: "map_objects g2 = Some q2" by (auto simp: evict_inv_def)
    then have mq2: "mq_ok q2" using e2 by (auto simp: evict_inv_def nav_inv_def map_inv_def)
    have "evict_inv E g1 c i (g2\<lparr>map_objects := Some (lq_init_abs_traversal q2)\<rparr>)"
      using evict_inv_queue [OF e2 q2] lq_init_traversals_ok [of q2] mq2 by blast
    with rest q2 e2 nav_clean_inv show ?thesis
      by (auto simp: andthen_Inr mq_op_len mq_op_Inr split: if_splits)
  next
    case False
    with run q ev show ?thesis
      by (auto simp: nav_evict_def andthen_Inr mq_op_len gets_def)
  qed
qed


lemma nav_scan_run:
  "nav_scan n a b g = (Inr r, g') \<Longrightarrow> map_objects g = Some q \<Longrightarrow> mq_ok q \<Longrightarrow>
   \<exists>q'. mq_ok q' \<and> lq_items q' = lq_items q \<and>
     (case r of None \<Rightarrow> g' = g\<lparr>map_objects := Some q'\<rparr>
      | Some i \<Rightarrow> \<exists>m p. slook (maps g) i = Inr m \<and> map_covers m a b \<and> map_start_ptr m = Some p \<and>
          g' = g\<lparr>map_objects := Some q', maps := (maps g)[i := Some (m\<lparr>num_using := u32 (num_using m + 1),
                   address_ptr := Some (p + (a - map_start m))\<rparr>)]\<rparr>)"
proof (induction n arbitrary: g q)
  case 0
  then have "g' = g\<lparr>map_objects := Some q\<rparr>" "r = None" by simp_all
  with 0 show ?case by auto
next
  case (Suc n)
  then obtain o_id q1 where tr: "lq_traverse q = Inr (o_id, q1)"
    and rest: "(case o_id of None \<Rightarrow> ret None
       | Some i \<Rightarrow>
           andthen (get_map i) (\<lambda>obj.
             if map_covers obj a b then
               andthen (nn (map_start_ptr obj)) (\<lambda>p.
               andthen (put_map i (Some (obj\<lparr>num_using := u32 (num_using obj + 1),
                   address_ptr := Some (p + (a - map_start obj))\<rparr>))) (\<lambda>_.
                 ret (Some i)))
             else nav_scan n a b)) (g\<lparr>map_objects := Some q1\<rparr>) = (Inr r, g')"
    by (auto simp: andthen_Inr mq_op_Inr)
  note q1 = lq_traverse_ok [OF Suc.prems(3) tr]
  show ?case
  proof (cases o_id)
    case None
    with rest q1 show ?thesis by auto
  next
    case (Some i)
    with rest obtain m where m: "slook (maps g) i = Inr m" and rest: "(if map_covers m a b then
               andthen (nn (map_start_ptr m)) (\<lambda>p.
               andthen (put_map i (Some (m\<lparr>num_using := u32 (num_using m + 1),
                   address_ptr := Some (p + (a - map_start m))\<rparr>))) (\<lambda>_.
                 ret (Some i)))
             else nav_scan n a b) (g\<lparr>map_objects := Some q1\<rparr>) = (Inr r, g')"
      by (auto simp: andthen_Inr)
    show ?thesis
    proof (cases "map_covers m a b")
      case True
      with rest obtain p where p: "map_start_ptr m = Some p" "r = Some i"
        "g' = g\<lparr>map_objects := Some q1, maps := (maps g)[i := Some (m\<lparr>num_using := u32 (num_using m + 1),
                   address_ptr := Some (p + (a - map_start m))\<rparr>)]\<rparr>"
        by (auto simp: andthen_Inr nn_def put_map_def split: option.splits)
      with m True q1 show ?thesis by auto
    next
      case False
      with rest have "nav_scan n a b (g\<lparr>map_objects := Some q1\<rparr>) = (Inr r, g')" by simp
      from Suc.IH [OF this _ q1(1)] have "\<exists>q'. mq_ok q' \<and> lq_items q' = lq_items q1 \<and>
        (case r of None \<Rightarrow> g' = g\<lparr>map_objects := Some q'\<rparr>
         | Some i \<Rightarrow> \<exists>m p. slook (maps g) i = Inr m \<and> map_covers m a b \<and> map_start_ptr m = Some p \<and>
            g' = g\<lparr>map_objects := Some q', maps := (maps g)[i := Some (m\<lparr>num_using := u32 (num_using m + 1),
                   address_ptr := Some (p + (a - map_start m))\<rparr>)]\<rparr>)"
        by (cases r) simp_all
      with q1(2) show ?thesis by simp
    qed
  qed
qed

text \<open>The mapping \<open>i\<close> is in use and shows \<open>n\<close> bytes of the file from \<open>a\<close>.\<close>

definition shows_at :: "env \<Rightarrow> gstate \<Rightarrow> nat \<Rightarrow> int \<Rightarrow> int \<Rightarrow> bool" where
  "shows_at E g i a n \<longleftrightarrow> (\<exists>m. slook (maps g) i = Inr m \<and> is_mapped m \<and> 0 < num_using m \<and>
     address_ptr m = Some a \<and> map_start m \<le> a \<and> a + n \<le> map_start m + map_size m)"

lemma reuse_inv:
  assumes inv: "map_inv E g" and u: "curr_mmap_usage g = u64 (mapped_total g)"
    and q: "map_objects g = Some q" "mq_ok q'" "lq_items q' = lq_items q"
    and m: "slook (maps g) i = Inr m" "map_covers m a b" "map_start_ptr m = Some p" "num_using m < 2 ^ 32 - 1"
    and ab: "0 \<le> a" "0 < b" "a < file_size E" "b < 2 ^ 62" "file_size E < 2 ^ 62"
    and g': "g' = g\<lparr>map_objects := Some q', maps := (maps g)[i := Some (m\<lparr>num_using := u32 (num_using m + 1),
                   address_ptr := Some (p + (a - map_start m))\<rparr>)]\<rparr>"
  shows "map_inv E g'" "keeps_used g g'" "curr_mmap_usage g' = u64 (mapped_total g')" "shows_at E g' i a b"
    "counts_one g i g'"
proof -
  let ?m = "m\<lparr>num_using := u32 (num_using m + 1), address_ptr := Some (p + (a - map_start m))\<rparr>"
  have i: "i < length (maps g)" "maps g ! i = Some m" using m by (auto simp: slook_Inr)
  have ok: "map_ok E m" using inv m by (auto simp: map_inv_def)
  then have n: "u32 (num_using m + 1) = num_using m + 1"
    using m(4) by (intro u32_id) (simp_all add: map_ok_def)
  have mp: "is_mapped m" using m(2) by (simp add: map_covers_def)
  then have ms: "p = map_start m" "0 \<le> map_start m" "0 < map_size m" "map_start m + map_size m \<le> file_size E"
    using ok m by (auto simp: map_ok_def)
  have "u64 (a + b - 1) = a + b - 1" "u64 (map_start m + map_size m - 1) = map_start m + map_size m - 1"
    using ab ms by (auto intro!: u64_id)
  then have cov: "map_start m \<le> a" "a + b \<le> map_start m + map_size m" using m(2) by (auto simp: map_covers_def)
  have ok': "map_ok E ?m" using ok m(4) n mp by (simp add: map_ok_def)
  have ms': "maps g' = (maps g)[i := Some ?m]" by (simp add: g')
  have "live (maps g') = live (maps g)" using i by (auto simp: live_def ms' nth_list_update)
  moreover have "\<forall>j n. slook (maps g') j = Inr n \<longrightarrow> map_ok E n"
    using inv i ok' by (auto simp: map_inv_def slook_Inr ms' nth_list_update split: if_splits)
  ultimately show "map_inv E g'" using inv q by (auto simp: map_inv_def g')
  show "keeps_used g g'"
    using m n by (auto simp: keeps_used_def ms' slook_Inr nth_list_update)
  show "curr_mmap_usage g' = u64 (mapped_total g')"
    using u i by (simp add: g' mapped_total_def mapped_total_upd mapped_size_def mp)
  show "counts_one g i g'"
    using i m n by (auto simp: counts_one_def ms' slook_def nth_list_update split: if_splits option.splits)
  show "shows_at E g' i a b"
    using i mp cov n ok ms by (simp add: shows_at_def ms' slook_Inr map_ok_def)
qed

lemma new_map_inv:
  assumes inv: "map_inv E g" and u: "curr_mmap_usage g = u64 (mapped_total g)"
    and q: "map_objects g = Some q" and mq: "mq_ok q1" "lq_items q1 = lq_items q"
    and enq: "lq_enqueue q1 (length (maps g)) = Inr q'"
    and ok: "map_ok E m" "is_mapped m" "0 < num_using m"
    and g1: "g1 = g\<lparr>maps := maps g @ [Some m], map_objects := Some q'\<rparr>"
  shows "evict_inv E g1 (map_size m) (length (maps g)) g1" "keeps_used g g1"
proof -
  let ?i = "length (maps g)"
  have q': "lq_items q' = lq_items q1 @ [?i]" "pos_in (lq_abs_len q') (lq_front q')"
    "lq_trav q' = lq_trav q1" "lq_back_ok q'" "lq_head_ok q'" "lq_free q'"
    using enq mq by (auto simp: lq_enqueue_def mq_ok_def pos_in_def split: if_splits pos.splits)
  have it: "set (lq_items q) = live (maps g)" using inv q by (auto simp: map_inv_def)
  then have "?i \<notin> set (lq_items q)" by (auto simp: live_def)
  moreover have "pos_in (lq_abs_len q') (lq_trav q')"
    using mq q' by (auto simp: mq_ok_def pos_in_def split: pos.splits)
  ultimately have mq': "mq_ok q'" using mq q' by (simp add: mq_ok_def)
  have "live (maps g @ [Some m]) = insert ?i (live (maps g))"
    by (auto simp: live_def nth_append)
  then have "map_inv E g1"
    using inv q mq' q' it mq ok by (auto simp: map_inv_def g1 slook_Inr nth_append split: if_splits)
  moreover have "untouched g1 g1" by (auto simp: untouched_def)
  moreover have "mapped_total g1 = mapped_total g + map_size m"
    using ok by (simp add: mapped_total_def g1 mapped_size_def)
  then have "curr_mmap_usage g1 = u64 (mapped_total g1 - map_size m)" using u by (simp add: g1)
  moreover have "slook (maps g1) ?i = Inr m" by (simp add: g1)
  ultimately show "evict_inv E g1 (map_size m) ?i g1"
    using ok q' by (auto simp: evict_inv_def nav_inv_def g1)
  show "keeps_used g g1" by (auto simp: keeps_used_def g1 slook_Inr nth_append)
qed

lemma keeps_used_trans:
  assumes "keeps_used a b" "keeps_used b c"
  shows "keeps_used a c"
  unfolding keeps_used_def
proof (intro allI impI)
  fix i m assume m: "slook (maps a) i = Inr m \<and> 0 < num_using m"
  then obtain m1 where m1: "slook (maps b) i = Inr m1 \<and> is_mapped m1 = is_mapped m \<and> map_start m1 = map_start m \<and>
      map_size m1 = map_size m \<and> map_start_ptr m1 = map_start_ptr m \<and> num_using m \<le> num_using m1"
    using assms(1) unfolding keeps_used_def by blast
  with m have "0 < num_using m1" by simp
  with m1 obtain m2 where "slook (maps c) i = Inr m2 \<and> is_mapped m2 = is_mapped m1 \<and> map_start m2 = map_start m1 \<and>
      map_size m2 = map_size m1 \<and> map_start_ptr m2 = map_start_ptr m1 \<and> num_using m1 \<le> num_using m2"
    using assms(2) unfolding keeps_used_def by blast
  with m1 show "\<exists>m'. slook (maps c) i = Inr m' \<and> is_mapped m' = is_mapped m \<and> map_start m' = map_start m \<and>
      map_size m' = map_size m \<and> map_start_ptr m' = map_start_ptr m \<and> num_using m \<le> num_using m'"
    by (intro exI [of _ m2]) simp
qed


section \<open>What a navigation does\<close>

definition nav_pre :: "env \<Rightarrow> gstate \<Rightarrow> int \<Rightarrow> int \<Rightarrow> bool" where
  "nav_pre E g a n \<longleftrightarrow> map_inv E g \<and> curr_mmap_usage g = u64 (mapped_total g) \<and>
     0 \<le> a \<and> 0 < n \<and> a < file_size E \<and> n < 2 ^ 62 \<and> file_size E < 2 ^ 62 \<and> 0 < gran E \<and> gran E < 2 ^ 62 \<and>
     (\<forall>i m. slook (maps g) i = Inr m \<longrightarrow> num_using m < 2 ^ 32 - 1)"

text \<open>Where the new mapping is: whole pages from the one of \<open>a\<close> on, as far as the file goes.\<close>

lemma window:
  assumes "nav_pre E g a n"
  defines "off \<equiv> u64 a mod gran E"
  defines "start \<equiv> i64 (u64 a - off)"
  defines "bytes \<equiv> min (u64 (off + n)) (u64 (file_size E - start))"
  shows "0 \<le> off" "start = a - off" "0 \<le> start" "0 < bytes" "start + bytes \<le> file_size E" "bytes = off + min n (file_size E - a)"
    "start mod gran E = 0"
proof -
  have ab: "0 \<le> a" "0 < n" "a < file_size E" "n < 2 ^ 62" "file_size E < 2 ^ 62" "0 < gran E"
    using assms(1) by (simp_all add: nav_pre_def)
  have ua: "u64 a = a" using ab by (intro u64_id) simp_all
  show off: "0 \<le> off" using ab by (simp add: off_def)
  have le: "off \<le> a" using ab by (simp add: off_def ua zmod_le_nonneg_dividend)
  show start: "start = a - off" "0 \<le> start" using off le ua ab by (simp_all add: start_def i64_id)
  have "u64 (off + n) = off + n" "u64 (file_size E - start) = file_size E - start"
    unfolding start(1) using off le ab by (auto intro!: u64_id)
  then show bytes: "bytes = off + min n (file_size E - a)" by (simp add: bytes_def start(1))
  show "0 < bytes" "start + bytes \<le> file_size E" unfolding bytes start(1) using off ab by linarith+
  show "start mod gran E = 0" unfolding start(1) off_def ua by (metis minus_mod_eq_mult_div mod_mult_self1_is_0)
qed

definition nav_post :: "env \<Rightarrow> gstate \<Rightarrow> int \<Rightarrow> int \<Rightarrow> nat \<Rightarrow> gstate \<Rightarrow> bool" where
  "nav_post E g a n i g' \<longleftrightarrow> map_inv E g' \<and> curr_mmap_usage g' = u64 (mapped_total g') \<and>
     keeps_used g g' \<and> counts_one g i g' \<and> shows_at E g' i a (min n (file_size E - a))"

lemma st_navigateTo_inv:
  assumes pre: "nav_pre E g a n" and run: "st_navigateTo E a n g = (Inr i, g')"
  shows "nav_post E g a n i g'"
proof -
  have inv: "map_inv E g" and u: "curr_mmap_usage g = u64 (mapped_total g)"
    and ab: "0 \<le> a" "0 < n" "a < file_size E" "n < 2 ^ 62" "file_size E < 2 ^ 62" and gr: "0 < gran E"
    and nu: "\<And>i m. slook (maps g) i = Inr m \<Longrightarrow> num_using m < 2 ^ 32 - 1"
    using pre unfolding nav_pre_def by blast+
  obtain q where q: "map_objects g = Some q" and mq: "mq_ok q" and it: "set (lq_items q) = live (maps g)"
    using inv by (auto simp: map_inv_def)
  let ?q1 = "lq_init_traversal q"
  let ?off = "u64 a mod gran E"
  let ?start = "i64 (u64 a - ?off)"
  let ?bytes = "min (u64 (?off + n)) (u64 (file_size E - ?start))"
  note w = window [OF pre]
  have off: "0 \<le> ?off" "?off \<le> a" and start: "?start = a - ?off" and bytes: "?bytes = ?off + min n (file_size E - a)"
    using w(1-3,6) by simp_all
  obtain r g1 where scan: "nav_scan (nat (max_num_map_objs g)) a n (g\<lparr>map_objects := Some ?q1\<rparr>) = (Inr r, g1)"
    and rest: "(case r of Some i \<Rightarrow> ret i
        | None \<Rightarrow>
            andthen (guard (malloc_ok E 40) (RetErr ''getmatvar:mallocErrSTNTMO'')) (\<lambda>_.
            andthen (guard (mmap_ok E ?start ?bytes) (Abort ''getmatvar:mmapUnsuccessfulError'')) (\<lambda>_.
            andthen (gets (\<lambda>g. length (maps g))) (\<lambda>i.
            andthen (modify (\<lambda>g. g\<lparr>maps := maps g @ [Some \<lparr>map_start = ?start, map_size = ?bytes,
                map_start_ptr = Some ?start, address_ptr = Some (?start + ?off), num_using = 1,
                is_mapped = True\<rparr>]\<rparr>)) (\<lambda>_.
            andthen (mq_op (\<lambda>q. bnd (lq_enqueue q i) (\<lambda>q'. Inr ((), q')))) (\<lambda>_.
            andthen (nav_evict E) (\<lambda>_.
            andthen (modify (\<lambda>g. let u = u64 (curr_mmap_usage g + ?bytes)
                in g\<lparr>curr_mmap_usage := u, max_mmap_usage := max u (max_mmap_usage g)\<rparr>)) (\<lambda>_.
              ret i)))))))) g1 = (Inr i, g')"
    using run unfolding st_navigateTo_def Let_def
    by (auto simp only: andthen_Inr andthen_gets mq_op_Inr q option.inject sum.inject prod.inject)
  have q1: "mq_ok ?q1" "lq_items ?q1 = lq_items q" using lq_init_traversals_ok mq by simp_all
  show ?thesis
  proof (cases r)
    case (Some j)
    with scan nav_scan_run [OF scan, of ?q1] q1 obtain q2 m p where
      q2: "mq_ok q2" "lq_items q2 = lq_items q" and m: "slook (maps g) j = Inr m" "map_covers m a n"
      "map_start_ptr m = Some p" and g1: "g1 = g\<lparr>map_objects := Some q2, maps := (maps g)[j :=
         Some (m\<lparr>num_using := u32 (num_using m + 1), address_ptr := Some (p + (a - map_start m))\<rparr>)]\<rparr>"
      by auto
    have "g' = g1" "i = j" using rest Some by simp_all
    with reuse_inv [OF inv u q q2 m nu [OF m(1)] ab g1] show ?thesis
      by (auto simp: nav_post_def shows_at_def)
  next
    case None
    with nav_scan_run [OF scan, of ?q1] q1 obtain q2 where
      q2: "mq_ok q2" "lq_items q2 = lq_items q" and g1: "g1 = g\<lparr>map_objects := Some q2\<rparr>" by auto
    let ?m = "\<lparr>map_start = ?start, map_size = ?bytes, map_start_ptr = Some ?start,
      address_ptr = Some (?start + ?off), num_using = 1, is_mapped = True\<rparr>"
    from rest None g1 obtain q3 g3 where enq: "lq_enqueue q2 (length (maps g)) = Inr q3"
      and ev: "nav_evict E (g\<lparr>maps := maps g @ [Some ?m], map_objects := Some q3\<rparr>) = (Inr (), g3)"
      and g': "g' = g3\<lparr>curr_mmap_usage := u64 (curr_mmap_usage g3 + ?bytes),
         max_mmap_usage := max (u64 (curr_mmap_usage g3 + ?bytes)) (max_mmap_usage g3)\<rparr>"
      and i: "i = length (maps g)"
      by (auto simp: andthen_Inr mq_op_Inr guard_def Let_def gets_def split: if_splits)
    let ?g2 = "g\<lparr>maps := maps g @ [Some ?m], map_objects := Some q3\<rparr>"
    have "0 < ?off + min n (file_size E - a)" "a + min n (file_size E - a) \<le> file_size E"
      using off(1) ab by linarith+
    then have mok: "map_ok E ?m" using w(3-5,7) by (simp add: map_ok_def del: min_less_iff_conj)
    have new: "evict_inv E ?g2 ?bytes i ?g2" "keeps_used g ?g2"
      using new_map_inv [OF inv u q q2 enq mok _ _ refl] i by simp_all
    have e3: "evict_inv E ?g2 ?bytes i g3" by (rule nav_evict_inv [OF new(1) ev])
    then have inv3: "map_inv E g3" "untouched ?g2 g3" "curr_mmap_usage g3 = u64 (mapped_total g3 - ?bytes)"
      by (simp_all add: evict_inv_def nav_inv_def)
    have "u64 (curr_mmap_usage g3 + ?bytes) = u64 (mapped_total g3)"
      unfolding inv3(3) u64_absorb by simp
    moreover have "mapped_total g' = mapped_total g3" "maps g' = maps g3" by (simp_all add: g' mapped_total_def)
    moreover have "map_inv E g'" using inv3(1) by (simp add: g' map_inv_def)
    moreover have "keeps_used g g3" using keeps_used_trans [OF new(2) untouched_keeps_used [OF inv3(2)]] .
    moreover have m3: "slook (maps g3) i = Inr ?m" using inv3(2) i by (simp add: untouched_def)
    moreover have "counts_one g i g3"
      unfolding counts_one_def
    proof (intro allI impI)
      fix j n assume j: "slook (maps g3) j = Inr n"
      show "if j = i then num_using n = (case slook (maps g) j of Inr m0 \<Rightarrow> num_using m0 + 1 | Inl _ \<Rightarrow> 1)
        else \<exists>m0. slook (maps g) j = Inr m0 \<and> num_using n = num_using m0"
      proof (cases "j = i")
        case True
        with j m3 i show ?thesis by (simp add: slook_def)
      next
        case False
        from inv3(2) j obtain m0 where m0: "slook (maps ?g2) j = Inr m0" "num_using n = num_using m0"
          unfolding untouched_def by blast
        with False i have "slook (maps g) j = Inr m0" by (auto simp: slook_Inr nth_append split: if_splits)
        with m0 False show ?thesis by simp
      qed
    qed
    moreover have "shows_at E g3 i a (min n (file_size E - a))" using m3 bytes start ab off by (simp add: shows_at_def)
    ultimately show ?thesis by (simp add: nav_post_def g' keeps_used_def shows_at_def counts_one_def)
  qed
qed

text \<open>Reading through the mapping reads the file.\<close>

lemma take_drop_take: "p + k \<le> n \<Longrightarrow> take k (drop p (take n xs)) = take k (drop p xs)"
  by (simp add: drop_take min_absorb1)

lemma slice_padded:
  assumes "s + p + k \<le> length f" "p + k \<le> n"
  shows "take k (drop p (take n (drop s (f @ z)))) = take k (drop (s + p) f)"
proof -
  have "take k (drop p (take n (drop s (f @ z)))) = take k (drop p (drop s (f @ z)))"
    by (rule take_drop_take [OF assms(2)])
  also have "\<dots> = take k (drop (s + p) f)" using assms(1) by (simp add: add.commute)
  finally show ?thesis .
qed

lemma st_view_reads:
  assumes "shows_at E g i a n" "map_inv E g" "0 \<le> p" "0 \<le> k" "p + k \<le> n" "0 < gran E"
  shows "\<exists>v off. st_view E i g = (Inr (v, off), g) \<and> 0 \<le> off \<and> rd v (off + p) k = rd (file_bytes E) (a + p) k"
proof -
  obtain m where m: "slook (maps g) i = Inr m" "is_mapped m" "address_ptr m = Some a" "map_start m \<le> a"
    "a + n \<le> map_start m + map_size m" using assms(1) by (auto simp: shows_at_def)
  have ok: "0 \<le> map_start m" "map_start m + map_size m \<le> file_size E"
    using assms(2) m by (auto simp: map_inv_def map_ok_def)
  have v: "st_view E i g = (Inr (view_of E m, a - map_start m), g)"
    using m by (simp add: st_view_def andthen_def get_map_def guard_def nn_def)
  define P where "P = nat (map_size m + (- map_size m) mod gran E)"
  define s where "s = nat (map_start m)"
  define q where "q = nat (a - map_start m + p)"
  have "0 \<le> (- map_size m) mod gran E" using assms(6) by simp
  then have P: "nat (map_size m) \<le> P" unfolding P_def by (intro nat_mono) simp
  have fs: "s + q + nat k \<le> length (file_bytes E)" "q + nat k \<le> nat (map_size m)" "s + q = nat (a + p)"
    unfolding s_def q_def using m ok assms by (simp_all add: file_size_def)
  have "take (nat k) (drop q (view_of E m)) = take (nat k) (drop (nat (a + p)) (file_bytes E))"
    unfolding view_of_def padded_def P_def [symmetric] s_def [symmetric] fs(3) [symmetric]
    using fs P by (intro slice_padded) simp_all
  moreover have "q + nat k \<le> length (view_of E m)"
    unfolding view_of_def padded_def P_def [symmetric] s_def [symmetric] using P fs(1,2) by (simp only: length_take length_drop length_append)
  moreover have "0 \<le> a - map_start m + p" "0 \<le> a + p" using m ok assms by simp_all
  moreover have "a - map_start m + p + k \<le> int (length (view_of E m))" "a + p + k \<le> int (length (file_bytes E))"
    using calculation fs(1,3) assms(4) unfolding q_def by linarith+
  ultimately have "rd (view_of E m) (a - map_start m + p) k = rd (file_bytes E) (a + p) k"
    using assms(4) by (simp add: rd_def q_def)
  with v m show ?thesis by auto
qed

text \<open>Whatever a read past the wanted bytes gives is the file continued with zeros.\<close>

lemma st_view_padded:
  assumes "shows_at E g i a n" "map_inv E g" "0 < gran E" "st_view E i g = (Inr (v, off), g')"
  shows "g' = g" "0 \<le> p \<Longrightarrow> rd v (off + p) k = Inr bs \<Longrightarrow> bs = take (nat k) (drop (nat (a + p)) (padded E))"
proof -
  obtain m where m: "slook (maps g) i = Inr m" "is_mapped m" "address_ptr m = Some a" "map_start m \<le> a"
    using assms(1) by (auto simp: shows_at_def)
  have ok: "0 \<le> map_start m" using assms(2) m by (auto simp: map_inv_def map_ok_def)
  have v: "v = view_of E m" "off = a - map_start m" and g: "g' = g"
    using assms(4) m by (simp_all add: st_view_def andthen_def get_map_def guard_def nn_def)
  show "g' = g" by (rule g)
  assume p: "0 \<le> p" and r: "rd v (off + p) k = Inr bs"
  define P where "P = nat (map_size m + (- map_size m) mod gran E)"
  have bs: "bs = take (nat k) (drop (nat (off + p)) v)" "0 \<le> k" "nat (off + p) + nat k \<le> length v"
    using r m p by (auto simp: rd_def v split: if_splits)
  have l: "nat (off + p) + nat k \<le> P"
    using bs(3) unfolding v view_of_def P_def [symmetric] by simp
  have s: "nat (map_start m) + nat (off + p) = nat (a + p)" using m ok p v by simp
  have "bs = take (nat k) (drop (nat (off + p)) (take P (drop (nat (map_start m)) (padded E))))"
    unfolding bs(1) v(1) view_of_def P_def ..
  also have "\<dots> = take (nat k) (drop (nat (off + p)) (drop (nat (map_start m)) (padded E)))"
    by (rule take_drop_take [OF l])
  also have "\<dots> = take (nat k) (drop (nat (a + p)) (padded E))" by (simp add: s add.commute)
  finally show "bs = take (nat k) (drop (nat (a + p)) (padded E))" .
qed

section \<open>Properties\<close>

lemma demo_state_pre:
  "bs \<noteq> [] \<Longrightarrow> int (length bs) < 2 ^ 62 \<Longrightarrow> nav_pre (demo_env bs) demo_state 0 8"
  by (simp add: nav_pre_def map_inv_def mq_ok_def live_def demo_state_def initialize_def lq_init_def
      pos_in_def slook_def mapped_total_def u64_def)

text \<open>C13. When \<open>st_navigateTo\<close> returns a map object, that object is mapped, in use, points at the address
  asked for and shows the bytes asked for (as far as the file goes); every map object in use
  before is still mapped where it was, with its counter, whatever was reused, evicted or cleaned,
  and the counter of mapped bytes is right.\<close>

theorem navigateTo_safe:
  assumes "nav_pre E g a n" "st_navigateTo E a n g = (Inr i, g')"
  shows "nav_post E g a n i g'"
  using assms by (rule st_navigateTo_inv)

lemma navigateTo_safe_witness:
  "nav_post (demo_env [1, 2, 3]) demo_state 0 8 0 (snd (st_navigateTo (demo_env [1, 2, 3]) 0 8 demo_state))"
proof (rule navigateTo_safe)
  show "nav_pre (demo_env [1, 2, 3]) demo_state 0 8" by (rule demo_state_pre) simp_all
  have "fst (st_navigateTo (demo_env [1, 2, 3]) 0 8 demo_state) = Inr 0"
    by code_simp
  then show "st_navigateTo (demo_env [1, 2, 3]) 0 8 demo_state =
      (Inr 0, snd (st_navigateTo (demo_env [1, 2, 3]) 0 8 demo_state))"
    by (metis prod.collapse)
qed

text \<open>What is read through a map object is what the file has at that address.\<close>

theorem view_reads_file:
  assumes "shows_at E g i a n" "map_inv E g" "0 \<le> p" "0 \<le> k" "p + k \<le> n" "0 < gran E"
  shows "\<exists>v off. st_view E i g = (Inr (v, off), g) \<and> 0 \<le> off \<and> rd v (off + p) k = rd (file_bytes E) (a + p) k"
  using assms by (rule st_view_reads)

lemma view_reads_file_witness:
  "\<exists>v off. st_view (demo_env [1, 2, 3]) 0 (snd (st_navigateTo (demo_env [1, 2, 3]) 0 8 demo_state)) =
     (Inr (v, off), snd (st_navigateTo (demo_env [1, 2, 3]) 0 8 demo_state)) \<and> rd v (off + 1) 2 = Inr [2, 3]"
proof -
  let ?E = "demo_env [1, 2, 3]" and ?g = "snd (st_navigateTo (demo_env [1, 2, 3]) 0 8 demo_state)"
  have pre: "nav_pre ?E demo_state 0 8" by (rule demo_state_pre) simp_all
  have "fst (st_navigateTo ?E 0 8 demo_state) = Inr 0" by code_simp
  then have "st_navigateTo ?E 0 8 demo_state = (Inr 0, ?g)" by (metis prod.collapse)
  from st_navigateTo_inv [OF pre this] have p: "map_inv ?E ?g" "shows_at ?E ?g 0 0 3"
    by (simp_all add: nav_post_def)
  have "rd (file_bytes ?E) (0 + 1) 2 = Inr [2, 3]" by (simp add: rd_def)
  with view_reads_file [OF p(2,1), of 1 2] show ?thesis by (simp del: bnd_simps) blast
qed

end
