(* ===== verification/PageObjects.thy ===== *)
theory PageObjects
  imports MapObjects
begin

text \<open>
  The mappings of the file used by the threads that decompress chunks: the page objects of
  \<^verbatim>\<open>src/src/init.c\<close> and \<^verbatim>\<open>src/src/cleanup.c\<close>, and the steps of \<open>mt_navigateTo\<close> and
  \<open>mt_releasePages\<close> (\<^verbatim>\<open>src/src/navigate.c\<close>, the UNIX branch). Page \<open>i\<close> covers the file from
  \<open>i\<close> times the granularity; what is mapped for it is long enough for every chunk that starts in
  it. A step that the code runs while it holds the page's mutex is one action, except that the
  remapping keeps the mutex from one step to the next; a step that needs the mutex while it is
  held is not enabled.
\<close>

section \<open>Page objects\<close>

abbreviation (input) sizeof_pageObject :: int where "sizeof_pageObject \<equiv> 96"

definition fresh_page :: "env \<Rightarrow> nat \<Rightarrow> pageObject" where
  "fresh_page E i = \<lparr>pg_lock = False, pg_is_mapped = False, pg_start_a = gran E * int i,
     pg_end_a = min (gran E * (int i + 1)) (file_size E), pg_map_size = 0, max_map_size = 0,
     pg_start_p = None, pg_num_using = 0, total_num_mappings = 0\<rparr>"

definition initializePageObjects :: "env \<Rightarrow> (unit, gstate) act" where
  "initializePageObjects E =
     andthen (gets page_objects) (\<lambda>ps.
       case ps of Some _ \<Rightarrow> ret ()
       | None \<Rightarrow>
           andthen (gets g_num_pages) (\<lambda>np.
           andthen (guard (malloc_ok E (np * sizeof_pageObject)) (RetErr '''')) (\<lambda>_.
             modify (\<lambda>g. g\<lparr>page_objects := Some (map (fresh_page E) [0..<nat np])\<rparr>))))"

definition get_page :: "int \<Rightarrow> (pageObject, gstate) act" where
  "get_page i g = (case page_objects g of None \<Rightarrow> Inl Fault | Some ps \<Rightarrow> aget ps i, g)"

definition put_page :: "int \<Rightarrow> pageObject \<Rightarrow> (unit, gstate) act" where
  "put_page i p = modify (\<lambda>g. g\<lparr>page_objects := map_option (\<lambda>ps. ps[nat i := p]) (page_objects g)\<rparr>)"

definition page_gone :: "pageObject \<Rightarrow> pageObject" where
  "page_gone p = p\<lparr>pg_is_mapped := False, pg_start_p := None, pg_map_size := 0\<rparr>"

definition freePageObject :: "env \<Rightarrow> int \<Rightarrow> (unit, gstate) act" where
  "freePageObject E i =
     andthen (get_page i) (\<lambda>p.
       if pg_is_mapped p then
         andthen (guard (munmap_ok E (pg_start_a p) (pg_map_size p)) (Abort ''getmatvar:badMunmapError'')) (\<lambda>_.
         andthen (modify (\<lambda>g. g\<lparr>curr_mmap_usage := u64 (curr_mmap_usage g - pg_map_size p)\<rparr>)) (\<lambda>_.
           put_page i (page_gone p)))
       else ret ())"

text \<open>\<open>destroyPageObjects\<close> does not take the sizes off \<open>curr_mmap_usage\<close>.\<close>

fun destroy_loop :: "env \<Rightarrow> int \<Rightarrow> nat \<Rightarrow> (unit, gstate) act" where
  "destroy_loop E i 0 = ret ()"
| "destroy_loop E i (Suc n) =
     andthen (get_page i) (\<lambda>p.
     andthen (if pg_is_mapped p then
                andthen (guard (munmap_ok E (pg_start_a p) (pg_map_size p)) (Abort ''getmatvar:badMunmapError'')) (\<lambda>_.
                  put_page i (page_gone p))
              else ret ()) (\<lambda>_.
       destroy_loop E (i + 1) n))"

definition destroyPageObjects :: "env \<Rightarrow> (unit, gstate) act" where
  "destroyPageObjects E =
     andthen (gets page_objects) (\<lambda>ps.
       case ps of None \<Rightarrow> ret ()
       | Some _ \<Rightarrow>
           andthen (gets g_num_pages) (\<lambda>np.
           andthen (destroy_loop E 0 (nat np)) (\<lambda>_.
             modify (\<lambda>g. g\<lparr>page_objects := None\<rparr>))))"

section \<open>The steps of mt\_navigateTo\<close>

definition page_of :: "env \<Rightarrow> int \<Rightarrow> int" where
  "page_of E address = u64 address div gran E"

text \<open>The length to be mapped: with \<open>bytes_needed = 0\<close> what the chunk tree recorded for the page.\<close>

definition bytes_for :: "env \<Rightarrow> int \<Rightarrow> int \<Rightarrow> pageObject \<Rightarrow> int" where
  "bytes_for E address bytes_needed p =
     (if bytes_needed \<noteq> 0 then u64 (u64 address mod gran E + bytes_needed) else max_map_size p)"

text \<open>The reads of \<open>map_size\<close> and \<open>num_using\<close> without the mutex.\<close>

definition mt_test :: "env \<Rightarrow> int \<Rightarrow> int \<Rightarrow> (bool, gstate) act" where
  "mt_test E address bytes_needed =
     andthen (get_page (page_of E address)) (\<lambda>p. ret (bytes_for E address bytes_needed p \<le> pg_map_size p))"

definition mt_idle :: "env \<Rightarrow> int \<Rightarrow> (bool, gstate) act" where
  "mt_idle E address = andthen (get_page (page_of E address)) (\<lambda>p. ret (pg_num_using p = 0))"

text \<open>
  With the mutex: confirm that the mapping is long enough and use it (\<open>Some True\<close>), or not
  (\<open>Some False\<close>); \<open>None\<close> when another thread holds the mutex.
\<close>

definition mt_fit :: "env \<Rightarrow> int \<Rightarrow> int \<Rightarrow> (bool option, gstate) act" where
  "mt_fit E address bytes_needed =
     andthen (get_page (page_of E address)) (\<lambda>p.
       if pg_lock p then ret None
       else if bytes_for E address bytes_needed p \<le> pg_map_size p then
         andthen (put_page (page_of E address) (p\<lparr>pg_num_using := u8 (pg_num_using p + 1)\<rparr>)) (\<lambda>_. ret (Some True))
       else ret (Some False))"

definition mt_lock :: "env \<Rightarrow> int \<Rightarrow> (bool option, gstate) act" where
  "mt_lock E address =
     andthen (get_page (page_of E address)) (\<lambda>p.
       if pg_lock p then ret None
       else if pg_num_using p = 0 then
         andthen (put_page (page_of E address) (p\<lparr>pg_lock := True, pg_num_using := u8 (pg_num_using p + 1)\<rparr>)) (\<lambda>_.
           ret (Some True))
       else ret (Some False))"

text \<open>With the mutex still held: unmap what is there, map, and release the mutex.\<close>

definition mt_map :: "env \<Rightarrow> int \<Rightarrow> int \<Rightarrow> (unit, gstate) act" where
  "mt_map E address bytes_needed =
     (let i = page_of E address in
     andthen (get_page i) (\<lambda>p0.
     let n = bytes_for E address bytes_needed p0 in
     andthen (freePageObject E i) (\<lambda>_.
     andthen (guard (mmap_ok E (pg_start_a p0) n) (Abort ''getmatvar:mmapUnsuccessfulError'')) (\<lambda>_.
     andthen (get_page i) (\<lambda>p.
     andthen (put_page i (p\<lparr>pg_start_p := Some (pg_start_a p0), pg_is_mapped := True, pg_map_size := n,
                            pg_lock := False\<rparr>)) (\<lambda>_.
       modify (\<lambda>g. let u = u64 (curr_mmap_usage g + n)
         in g\<lparr>curr_mmap_usage := u, max_mmap_usage := max u (max_mmap_usage g)\<rparr>)))))))"

text \<open>What the pointer that \<open>mt_navigateTo\<close> returns shows.\<close>

definition shown :: "env \<Rightarrow> int \<Rightarrow> int \<Rightarrow> byte list" where
  "shown E a n = take (nat (n + (- n) mod gran E)) (drop (nat a) (padded E))"

lemma shown_view: "shown E (map_start m) (map_size m) = view_of E m"
  by (simp add: shown_def view_of_def)

definition mt_view :: "env \<Rightarrow> int \<Rightarrow> (byte list \<times> int, gstate) act" where
  "mt_view E address =
     andthen (gets is_super_mapped) (\<lambda>super.
       if super then ret (shown E 0 (file_size E), address)
       else
         andthen (get_page (page_of E address)) (\<lambda>p.
         andthen (nn (pg_start_p p)) (\<lambda>a.
           ret (shown E a (pg_map_size p), address - pg_start_a p))))"

section \<open>mt\_releasePages\<close>

text \<open>\<open>False\<close> when the mutex is held by another thread.\<close>

definition mt_releasePages :: "env \<Rightarrow> int \<Rightarrow> int \<Rightarrow> (bool, gstate) act" where
  "mt_releasePages E address bytes_needed =
     andthen (gets is_super_mapped) (\<lambda>super.
       if super then ret True
       else
         let i = page_of E address in
         andthen (get_page i) (\<lambda>p.
           if pg_lock p then ret False
           else if bytes_needed = 0 then
             let t = u32 (total_num_mappings p - 1) in
             andthen (put_page i (p\<lparr>pg_num_using := u8 (pg_num_using p - 1), total_num_mappings := t\<rparr>)) (\<lambda>_.
             andthen (if t = 0 then freePageObject E i else ret ()) (\<lambda>_. ret True))
           else andthen (put_page i (p\<lparr>pg_num_using := u8 (pg_num_using p - 1)\<rparr>)) (\<lambda>_. ret True)))"

section \<open>Lemmas\<close>

lemma get_page_Inr: "get_page i g = (Inr p, g') \<longleftrightarrow>
  g' = g \<and> (\<exists>ps. page_objects g = Some ps \<and> 0 \<le> i \<and> i < int (length ps) \<and> p = ps ! nat i)"
  by (auto simp: get_page_def aget_def split: option.splits if_splits)

end
