(* ===== verification/PlaceData.thy ===== *)
theory PlaceData
  imports DataModel
begin

text \<open>
  \<^verbatim>\<open>src/src/placeData.c\<close>: the arrays that receive an object's elements are allocated, and a
  run of elements is copied into them from a buffer. A buffer is a list of bytes with a pointer
  into it; the bytes reversed in place when the byte orders differ are the buffer's own, so the
  buffer is part of the result, and reversing in a mapping (mapped \<open>PROT_READ\<close>) is a
  \<^const>\<open>Fault\<close>.
\<close>

section \<open>allocateSpace\<close>

definition allocateSpace :: "env \<Rightarrow> Data \<Rightarrow> Data res" where
  "allocateSpace E object =
     (case matlab_internal_type object of
        mxCELL_CLASS \<Rightarrow>
          if 16 < elem_size object then Inl (RetErr ''getmatvar:unexpectedSizeError'')
          else let n = u64 (num_elems object * 8) in
            if \<not> malloc_ok E n then Inl (RetErr ''getmatvar:mallocErrSOHO'')
            else Inr (object\<lparr>data_arrays :=
              (data_arrays object)\<lparr>sub_object_header_offsets := Some (fresh_mem E n)\<rparr>\<rparr>)
      | mxSTRUCT_CLASS \<Rightarrow>
          if \<not> malloc_ok E 24 then Inl (RetErr ''getmatvar:mallocErrDataSt'')
          else Inr (object\<lparr>num_elems := 1, num_dims := 2, dims := Some [1, 1, 0]\<rparr>)
      | mxFUNCTION_CLASS \<Rightarrow>
          if \<not> malloc_ok E 24 then Inl (RetErr ''getmatvar:mallocErrDataSt'')
          else Inr (object\<lparr>num_elems := 1, num_dims := 2, dims := Some [1, 1, 0]\<rparr>)
      | mxOBJECT_CLASS \<Rightarrow> Inr object
      | mxVOID_CLASS \<Rightarrow> Inr object
      | mxOPAQUE_CLASS \<Rightarrow> Inr object
      | mxUNKNOWN_CLASS \<Rightarrow> Inl (RetErr ''getmatvar:unknownTypeError'')
      | _ \<Rightarrow>
          if 16 < elem_size object then Inl (RetErr ''getmatvar:unexpectedSizeError'')
          else let n = u64 (u64 (num_elems object) * elem_size object) in
            if \<not> malloc_ok E n then Inl (RetErr ''getmatvar:mallocErrData'')
            else Inr (object\<lparr>data_arrays := (data_arrays object)\<lparr>darr := Some (fresh_mem E n)\<rparr>\<rparr>))"

section \<open>placeData\<close>

text \<open>
  The reversal loop runs over the \<^emph>\<open>byte\<close> offsets below \<open>num_elems\<close> in steps of \<open>elem_size\<close>
  (so it reaches one element in \<open>elem_size\<close> only); with \<open>elem_size = 0\<close> it never ends.
\<close>

function rev_elems :: "byte list \<Rightarrow> int \<Rightarrow> int \<Rightarrow> int \<Rightarrow> int \<Rightarrow> byte list res" where
  "rev_elems m p j n es =
     (if j < n then
        if es \<le> 0 then Inl OutOfFuel
        else bnd (reverseBytes m (p + j) es) (\<lambda>m.
          rev_elems m p (j + es) n es)
      else Inr m)"
  by pat_completeness auto
termination
  by (relation "measure (\<lambda>(m, p, j, n, es). nat (n - j))") auto

declare rev_elems.simps [simp del]

definition fix_order :: "env \<Rightarrow> bool \<Rightarrow> byte list \<Rightarrow> int \<Rightarrow> int \<Rightarrow> int \<Rightarrow> ByteOrder \<Rightarrow> byte list res" where
  "fix_order E writable m p n es data_byte_order =
     (if host E \<noteq> data_byte_order then
        if \<not> writable \<and> 0 < n \<and> 2 \<le> es then Inl Fault
        else rev_elems m p 0 n es
      else Inr m)"

text \<open>\<open>memcpy\<close> into an array that may be NULL.\<close>

definition copy_to :: "byte list option \<Rightarrow> int \<Rightarrow> byte list \<Rightarrow> byte list option res" where
  "copy_to a off bs =
     (case a of
        None \<Rightarrow> if bs = [] then Inr None else Inl Fault
      | Some d \<Rightarrow> bnd (wr d off bs) (\<lambda>d. Inr (Some d)))"

fun place_cells :: "byte list option \<Rightarrow> byte list \<Rightarrow> int \<Rightarrow> int \<Rightarrow> int \<Rightarrow> int \<Rightarrow> nat \<Rightarrow> byte list option res" where
  "place_cells a m p dst_ind src_ind es 0 = Inr a"
| "place_cells a m p dst_ind src_ind es (Suc k) =
     bnd (rd m (p + src_ind * es) 8) (\<lambda>bs.
     bnd (copy_to a (8 * dst_ind) bs) (\<lambda>a.
       place_cells a m p (dst_ind + 1) (src_ind + 1) es k))"

definition set_darr :: "Data \<Rightarrow> byte list option \<Rightarrow> Data" where
  "set_darr object a = object\<lparr>data_arrays := (data_arrays object)\<lparr>darr := a\<rparr>\<rparr>"

definition set_offsets :: "Data \<Rightarrow> byte list option \<Rightarrow> Data" where
  "set_offsets object a = object\<lparr>data_arrays := (data_arrays object)\<lparr>sub_object_header_offsets := a\<rparr>\<rparr>"

definition placeData :: "env \<Rightarrow> Data \<Rightarrow> bool \<Rightarrow> byte list \<Rightarrow> int \<Rightarrow> int \<Rightarrow> int \<Rightarrow> int \<Rightarrow> int \<Rightarrow> ByteOrder \<Rightarrow>
    (Data \<times> byte list) res" where
  "placeData E object writable m data_pointer dst_ind src_ind n es data_byte_order =
     bnd (fix_order E writable m data_pointer n es data_byte_order) (\<lambda>m.
       if plain_class (matlab_internal_type object) then
         bnd (rd m (data_pointer + es * src_ind) (u64 (n * es))) (\<lambda>bs.
         bnd (copy_to (darr (data_arrays object)) (es * dst_ind) bs) (\<lambda>a.
           Inr (set_darr object a, m)))
       else if matlab_internal_type object = mxCELL_CLASS \<or>
          (matlab_internal_type object = mxUNKNOWN_CLASS \<and> is_struct_array (data_flags object)) then
         bnd (place_cells (sub_object_header_offsets (data_arrays object)) m data_pointer
                dst_ind src_ind es (nat n)) (\<lambda>a.
           Inr (set_offsets object a, m))
       else Inr (object, m))"

section \<open>placeDataWithIndexMap\<close>

fun place_mapped :: "byte list option \<Rightarrow> int \<Rightarrow> byte list \<Rightarrow> int \<Rightarrow> int list \<Rightarrow> int list \<Rightarrow> int \<Rightarrow> int \<Rightarrow> nat \<Rightarrow>
    byte list option res" where
  "place_mapped a scale m p index_map index_sequence es j 0 = Inr a"
| "place_mapped a scale m p index_map index_sequence es j (Suc k) =
     bnd (aget index_sequence j) (\<lambda>s.
     bnd (aget index_map s) (\<lambda>d.
     bnd (rd m (p + s * es) es) (\<lambda>bs.
     bnd (copy_to a (scale * (es * d)) bs) (\<lambda>a.
       place_mapped a scale m p index_map index_sequence es (j + 1) k))))"

text \<open>In the cell case the destination is an \<open>address_t\<close> pointer, so its offset counts eights.\<close>

definition placeDataWithIndexMap :: "env \<Rightarrow> Data \<Rightarrow> bool \<Rightarrow> byte list \<Rightarrow> int \<Rightarrow> int \<Rightarrow> int \<Rightarrow> ByteOrder \<Rightarrow>
    int list \<Rightarrow> int list \<Rightarrow> (Data \<times> byte list) res" where
  "placeDataWithIndexMap E object writable m data_pointer n es data_byte_order index_map index_sequence =
     bnd (fix_order E writable m data_pointer n es data_byte_order) (\<lambda>m.
       if plain_class (matlab_internal_type object) then
         bnd (place_mapped (darr (data_arrays object)) 1 m data_pointer index_map index_sequence es 0 (nat n)) (\<lambda>a.
           Inr (set_darr object a, m))
       else if matlab_internal_type object = mxCELL_CLASS then
         bnd (place_mapped (sub_object_header_offsets (data_arrays object)) 8 m data_pointer
                index_map index_sequence es 0 (nat n)) (\<lambda>a.
           Inr (set_offsets object a, m))
       else Inr (object, m))"

section \<open>Elements\<close>

text \<open>Element \<open>i\<close> of a buffer of elements of \<open>es\<close> bytes.\<close>

definition elem :: "nat \<Rightarrow> byte list \<Rightarrow> nat \<Rightarrow> byte list" where
  "elem es bs i = take es (drop (es * i) bs)"

definition blit :: "nat \<Rightarrow> byte list \<Rightarrow> nat \<Rightarrow> byte list \<Rightarrow> byte list" where
  "blit es d i bs = take (es * i) d @ bs @ drop (es * i + length bs) d"

lemma take_drop_below: "n + a \<le> b \<Longrightarrow> b \<le> length d \<Longrightarrow>
  take n (drop a (take b d @ xs)) = take n (drop a d)"
  by (auto simp: drop_take min_def)

lemma elem_blit_other:
  assumes "j < i \<or> i + n \<le> j" "length bs = es * n" "es * (i + n) \<le> length d"
  shows "elem es (blit es d i bs) j = elem es d j"
proof (cases "j < i")
  case True
  then have "es * Suc j \<le> es * i" by (intro mult_le_mono2) simp
  then have "es + es * j \<le> es * i" by simp
  moreover have "es * i \<le> length d" using assms(3) by (simp add: distrib_left)
  ultimately show ?thesis
    unfolding elem_def blit_def by (rule take_drop_below)
next
  case False
  with assms(1) have "i + n \<le> j" by simp
  then obtain k where j: "j = i + n + k" using le_Suc_ex by blast
  have "es * i \<le> length d" using assms(3) by (simp add: distrib_left)
  then show ?thesis
    using assms(2) by (simp add: elem_def blit_def j distrib_left add.assoc add.commute add.left_commute min_def)
qed

lemma elem_blit_run:
  assumes "k < n" "length bs = es * n" "es * (i + n) \<le> length d"
  shows "elem es (blit es d i bs) (i + k) = elem es bs k"
proof -
  have "es * Suc k \<le> es * n" using assms(1) by (intro mult_le_mono2) simp
  then have "es + es * k \<le> es * n" by simp
  moreover have "es * i \<le> length d" using assms(3) by (simp add: distrib_left)
  ultimately show ?thesis
    using assms(2) by (simp add: elem_def blit_def distrib_left min_def take_append)
qed

lemma length_blit: "length bs = es * n \<Longrightarrow> es * (i + n) \<le> length d \<Longrightarrow> length (blit es d i bs) = length d"
  by (simp add: blit_def distrib_left)

lemma elem_take_run: "k < n \<Longrightarrow> elem es (take (es * n) (drop (es * i) m)) k = elem es m (i + k)"
proof -
  assume "k < n"
  then have "es * Suc k \<le> es * n" by (intro mult_le_mono2) simp
  then have "es + es * k \<le> es * n" by simp
  then show ?thesis
    by (simp add: elem_def drop_take distrib_left min_def add.commute)
qed

text \<open>A run of elements of a plain class, byte orders equal.\<close>

lemma placeData_run:
  assumes "plain_class (matlab_internal_type object)" "host E = data_byte_order"
    "darr (data_arrays object) = Some d" "es * (dst + n) \<le> length d" "es * (src + n) \<le> length m"
    "int (es * n) < 2 ^ 64"
  shows "placeData E object w m 0 (int dst) (int src) (int n) (int es) data_byte_order =
    Inr (set_darr object (Some (blit es d dst (take (es * n) (drop (es * src) m)))), m)"
proof -
  have le: "es * src + es * n \<le> length m" "es * dst + es * n \<le> length d"
    using assms(4,5) by (simp_all add: distrib_left)
  have u: "u64 (int n * int es) = int (es * n)"
    using assms(6) by (subst u64_id) (simp_all add: mult.commute)
  have r: "rd m (0 + int es * int src) (u64 (int n * int es)) = Inr (take (es * n) (drop (es * src) m))"
    unfolding u using le
    by (simp add: rd_def nat_mult_distrib flip: of_nat_mult of_nat_add)
  have "length (take (es * n) (drop (es * src) m)) = es * n" using le by simp
  then have w: "wr d (int es * int dst) (take (es * n) (drop (es * src) m)) =
      Inr (blit es d dst (take (es * n) (drop (es * src) m)))"
    using le by (simp add: wr_def blit_def flip: of_nat_mult of_nat_add)
  show ?thesis
    using assms(1-3) by (simp only: placeData_def fix_order_def bnd_simps r if_True if_False
        not_True_eq_False simp_thms copy_to_def option.case w)
qed

end
