(* ===== verification/ChunkGeometry.thy ===== *)
theory ChunkGeometry
  imports PlaceData
begin

text \<open>
  Where the elements of a chunk go: \<open>findArrayPosition\<close>, \<open>makeChunkedUpdates\<close> and the copy loop
  of \<open>doInflate_\<close> in \<^verbatim>\<open>src/src/placeChunkedData.c\<close>, and \<open>coordToInd\<close> of \<^verbatim>\<open>src/src/utils.c\<close>.
  Arrays are in column-major order: the position of coordinates \<open>p\<close> in an array of dimensions \<open>D\<close>
  is the mixed-radix number \<open>val p D\<close>. The copy loop does not compute positions; it adds
  precomputed differences (the updates) at the end of each row, and the theorem of this theory is
  that every element lands where \<open>val\<close> says and nothing else changes.
\<close>

section \<open>The code\<close>

text \<open>The first \<open>n\<close> entries of an array.\<close>

definition ctake :: "int \<Rightarrow> 'a list \<Rightarrow> 'a list res" where
  "ctake n xs = (if n \<le> int (length xs) then Inr (take (nat n) xs) else Inl Fault)"

fun fap_term :: "int list \<Rightarrow> int \<Rightarrow> nat \<Rightarrow> int res" where
  "fap_term array_dims temp 0 = Inr temp"
| "fap_term array_dims temp (Suc j) =
     bnd (aget array_dims (int j)) (\<lambda>d. fap_term array_dims (i64 (temp * d)) j)"

fun fap_loop :: "int list \<Rightarrow> int list \<Rightarrow> nat \<Rightarrow> int res" where
  "fap_loop coordinates array_dims 0 = Inr 0"
| "fap_loop coordinates array_dims (Suc i) =
     bnd (fap_loop coordinates array_dims i) (\<lambda>array_pos.
     bnd (aget coordinates (int i)) (\<lambda>c.
     bnd (fap_term array_dims c i) (\<lambda>temp. Inr (i64 (array_pos + temp)))))"

definition findArrayPosition :: "int list \<Rightarrow> int list \<Rightarrow> int \<Rightarrow> int res" where
  "findArrayPosition coordinates array_dims n = fap_loop coordinates array_dims (nat n)"

fun cti_loop :: "int list \<Rightarrow> int list \<Rightarrow> nat \<Rightarrow> (int \<times> int) res" where
  "cti_loop coords ds 0 = Inr (0, 1)"
| "cti_loop coords ds (Suc i) =
     bnd (cti_loop coords ds i) (\<lambda>(ret, mult).
     bnd (aget coords (int i)) (\<lambda>c.
     bnd (aget ds (int i)) (\<lambda>d.
       Inr (i64 (ret + i64 (i64 (c - 1) * mult)), i64 (mult * d)))))"

definition coordToInd :: "int list \<Rightarrow> int list \<Rightarrow> int \<Rightarrow> int res" where
  "coordToInd coords ds n = bnd (cti_loop coords ds (nat n)) (\<lambda>(ret, mult). Inr ret)"

fun mcu_inner :: "int list \<Rightarrow> int list \<Rightarrow> nat \<Rightarrow> (int \<times> int) res" where
  "mcu_inner C D 0 = Inr (0, 1)"
| "mcu_inner C D (Suc k) =
     bnd (mcu_inner C D k) (\<lambda>(cu, du).
     bnd (aget C (int k)) (\<lambda>c.
     bnd (aget D (int k)) (\<lambda>d.
       Inr (i64 (cu + i64 (i64 (c - 1) * du)), i64 (du * d)))))"

fun mcu_outer :: "int list \<Rightarrow> int list \<Rightarrow> int list \<Rightarrow> nat \<Rightarrow> int list res" where
  "mcu_outer upd C D 0 = Inr upd"
| "mcu_outer upd C D (Suc i) =
     bnd (mcu_outer upd C D i) (\<lambda>upd.
     bnd (mcu_inner C D (Suc i)) (\<lambda>(cu, du).
       aset upd (int i) (i64 (i64 (du - cu) - 1))))"

definition makeChunkedUpdates :: "int list \<Rightarrow> int list \<Rightarrow> int list \<Rightarrow> int \<Rightarrow> int list res" where
  "makeChunkedUpdates upd C D n = mcu_outer upd C D (nat n)"

text \<open>
  The carries at the end of a row (the inner \<open>for\<close> loop of the copy loop): \<open>cp\<close> is \<open>chunk_pos\<close>,
  \<open>T\<close> is \<open>these_chunked_dims\<close>, \<open>cmd\<close> is \<open>curr_max_dim\<close> and \<open>uu\<close> is \<open>use_update\<close>.
\<close>

lemma aget_range: "aget xs i = Inr x \<Longrightarrow> 0 \<le> i \<and> i < int (length xs)"
  by (auto simp: aget_def split: if_splits)

lemma aset_length: "aset xs i x = Inr ys \<Longrightarrow> length ys = length xs"
  by (auto simp: aset_def split: if_splits)

function carry_loop :: "int list \<Rightarrow> int list \<Rightarrow> int \<Rightarrow> int \<Rightarrow> int \<Rightarrow> (int list \<times> int \<times> int) res" where
  "carry_loop cp T j cmd uu =
     (if j < cmd then
        bnd (aget cp j) (\<lambda>x.
        bnd (aget T j) (\<lambda>t.
          if x = t then
            bnd (aset cp j 0) (\<lambda>cp'.
            bnd (aget cp' (j + 1)) (\<lambda>y.
            bnd (aset cp' (j + 1) (i64 (y + 1))) (\<lambda>cp''.
              carry_loop cp'' T (j + 1) (if cmd \<le> j + 1 then u8 (cmd + 1) else cmd) (u8 (uu + 1)))))
          else carry_loop cp T (j + 1) cmd uu))
      else Inr (cp, cmd, uu))"
  by pat_completeness auto
termination
  by (relation "measure (\<lambda>(cp, T, j, cmd, uu). nat (int (length cp) - j))")
    (auto dest!: aget_range aset_length)

declare carry_loop.simps [simp del]

text \<open>
  The rows. \<open>anchor\<close> equals \<open>db_pos\<close> at the start of every turn. \<open>num_used\<close> stays 0: nothing
  increments it.
\<close>

fun copy_rows :: "nat \<Rightarrow> env \<Rightarrow> Data \<Rightarrow> byte list \<Rightarrow> int list \<Rightarrow> int list \<Rightarrow> int list \<Rightarrow> int \<Rightarrow>
    int list \<Rightarrow> int \<Rightarrow> int \<Rightarrow> int \<Rightarrow> (Data \<times> byte list) res" where
  "copy_rows 0 E object buf T IU CU n_these cp cmd index db_pos = Inl OutOfFuel"
| "copy_rows (Suc fuel) E object buf T IU CU n_these cp cmd index db_pos =
     (if index < num_elems object \<and> 0 < n_these then
        bnd (aget T 0) (\<lambda>t0.
        bnd (placeData E object True buf 0 index db_pos t0 (elem_size object) (byte_order object))
          (\<lambda>(object, buf).
        bnd (aget cp 1) (\<lambda>x.
        bnd (aset cp 1 (i64 (x + 1))) (\<lambda>cp.
        bnd (carry_loop cp T 1 cmd 0) (\<lambda>(cp, cmd, use_update).
        bnd (aget IU use_update) (\<lambda>iu.
        bnd (aget CU use_update) (\<lambda>cu.
          copy_rows fuel E object buf T IU CU n_these cp cmd
            (i64 (i64 (index + t0) + iu)) (i64 (i64 (db_pos + t0) + cu)))))))))
      else Inr (object, buf))"

definition clip_dim :: "int \<Rightarrow> int \<Rightarrow> int \<Rightarrow> int" where
  "clip_dim c s d = i64 (c - (if d < i64 (s + c) then i64 (i64 (s + c) - d) else 0))"

fun prod_loop :: "int list \<Rightarrow> nat \<Rightarrow> int res" where
  "prod_loop xs 0 = Inr 1"
| "prod_loop xs (Suc k) = bnd (prod_loop xs k) (\<lambda>p. bnd (aget xs (int k)) (\<lambda>x. Inr (i64 (p * x))))"

text \<open>The part of \<open>doInflate_\<close> that handles one decompressed chunk, \<open>buf\<close>.\<close>

definition place_chunk :: "env \<Rightarrow> Data \<Rightarrow> byte list \<Rightarrow> int list \<Rightarrow> (Data \<times> byte list) res" where
  "place_chunk E object buf chunk_start =
     (case (dims object, chunked_dims (chunked_info object), chunk_update (chunked_info object)) of
        (Some D, Some C, Some U) \<Rightarrow>
          bnd (findArrayPosition chunk_start D (num_dims object)) (\<lambda>chunk_start_index.
          if HDF5_MAX_DIMS < num_dims object then Inl Fault else
          let n = nat (num_dims object) in
          bnd (ctake (num_dims object) chunk_start) (\<lambda>ss.
          bnd (ctake (num_dims object) C) (\<lambda>cs.
          bnd (ctake (num_dims object) D) (\<lambda>ds.
          bnd (ctake (num_dims object) U) (\<lambda>us.
          let ts = map (\<lambda>(c, s, d). clip_dim c s d) (zip cs (zip ss ds));
              T = ts @ replicate (33 - n) 0;
              IU = us @ replicate (32 - n) 0;
              CU = replicate 32 0
          in
          bnd (if ts = cs then Inr (IU, CU, num_chunked_elems (chunked_info object))
               else bnd (makeChunkedUpdates IU T D (num_dims object)) (\<lambda>IU.
                    bnd (makeChunkedUpdates CU T C (num_dims object)) (\<lambda>CU.
                    bnd (prod_loop T (nat (num_chunked_dims (chunked_info object)))) (\<lambda>p.
                      Inr (IU, CU, p))))) (\<lambda>(IU, CU, n_these).
            copy_rows (nat (num_elems object) + 1) E object buf T IU CU n_these
              (replicate 33 0) 2 chunk_start_index 0))))))
      | _ \<Rightarrow> Inl Fault)"

section \<open>Positions\<close>

fun val :: "int list \<Rightarrow> int list \<Rightarrow> int" where
  "val (p # ps) (d # ds) = p + d * val ps ds"
| "val ps ds = 0"

definition pprod :: "int list \<Rightarrow> int" where "pprod ds = prod_list ds"

lemma pprod_simps [simp]: "pprod [] = 1" "pprod (d # ds) = d * pprod ds"
  "pprod (ds @ es) = pprod ds * pprod es"
  by (simp_all add: pprod_def)

fun digits :: "int list \<Rightarrow> int list \<Rightarrow> bool" where
  "digits [] [] = True"
| "digits (p # ps) (t # ts) = (0 \<le> p \<and> p < t \<and> digits ps ts)"
| "digits _ _ = False"

lemma digits_length: "digits ps ts \<Longrightarrow> length ps = length ts"
  by (induction ps ts rule: digits.induct) auto

lemma pprod_ge_1: "\<forall>t \<in> set ts. 0 < t \<Longrightarrow> 0 < pprod ts"
  by (induction ts) auto

lemma mem_le_pprod: "t \<in> set ts \<Longrightarrow> \<forall>t \<in> set ts. 0 < t \<Longrightarrow> t \<le> pprod ts"
proof (induction ts)
  case (Cons a ts)
  then have "0 < pprod ts" "0 < a" by (auto simp: pprod_ge_1)
  then have "a * 1 \<le> a * pprod ts" "1 * pprod ts \<le> a * pprod ts"
    by (intro mult_left_mono mult_right_mono; simp)+
  moreover have "t = a \<or> t \<le> pprod ts" using Cons by auto
  moreover have "pprod (a # ts) = a * pprod ts" by simp
  ultimately show ?case by linarith
qed simp

lemma digits_pos: "digits ps ts \<Longrightarrow> 0 < pprod ts"
  by (induction ps ts rule: digits.induct) auto

lemma val_nonneg: "digits ps ts \<Longrightarrow> list_all2 (\<le>) ts ds \<Longrightarrow> 0 \<le> val ps ds"
proof (induction ps ts arbitrary: ds rule: digits.induct)
  case (2 p ps t ts)
  then show ?case by (cases ds) auto
qed auto

lemma digits_mono: "digits ps ts \<Longrightarrow> list_all2 (\<le>) ts ds \<Longrightarrow> digits ps ds"
proof (induction ps ts arbitrary: ds rule: digits.induct)
  case (2 p ps t ts)
  then show ?case by (cases ds) auto
qed auto

lemma val_bounds: "digits ps ds \<Longrightarrow> 0 \<le> val ps ds \<and> val ps ds < pprod ds"
proof (induction ps ds rule: digits.induct)
  case (2 p ps d ds)
  then have "d * val ps ds \<le> d * (pprod ds - 1)" by (intro mult_left_mono) auto
  with 2 show ?case by (auto simp: algebra_simps)
qed auto

lemma val_inj: "digits ps ds \<Longrightarrow> digits qs ds \<Longrightarrow> val ps ds = val qs ds \<Longrightarrow> ps = qs"
proof (induction ps ds arbitrary: qs rule: digits.induct)
  case (2 p ps d ds)
  then obtain q qs' where qs: "qs = q # qs'" "0 \<le> q" "q < d" "digits qs' ds"
    by (cases qs) auto
  have e: "p + d * val ps ds = q + d * val qs' ds" using 2 qs by simp
  have "(p + d * val ps ds) mod d = p" "(q + d * val qs' ds) mod d = q"
    using 2(2) qs by (simp_all add: mod_pos_pos_trivial)
  with e have "p = q" by metis
  with e 2 qs show ?case by auto
next
  case 1
  then show ?case by (cases qs) auto
qed auto

lemma val_add: "length ps = length ds \<Longrightarrow> length qs = length ds \<Longrightarrow>
  val (map2 (+) ps qs) ds = val ps ds + val qs ds"
proof (induction ds arbitrary: ps qs)
  case (Cons d ds)
  then show ?case by (cases ps; cases qs) (auto simp: algebra_simps)
qed simp

lemma val_append: "length ps = length ds \<Longrightarrow> val (ps @ qs) (ds @ es) = val ps ds + pprod ds * val qs es"
  by (induction ps ds rule: list_induct2) (auto simp: algebra_simps)

section \<open>What the index functions compute\<close>

lemma fap_term_eq: "n \<le> length D \<Longrightarrow> fap_term D (i64 t) n = Inr (i64 (t * pprod (take n D)))"
proof (induction n arbitrary: t)
  case (Suc n)
  then have "fap_term D (i64 t) (Suc n) = fap_term D (i64 (t * D ! n)) n" by simp
  with Suc show ?case by (simp add: take_Suc_conv_app_nth mult.assoc mult.commute [of "D ! n"])
qed simp

lemma take_Suc_val: "n < length p \<Longrightarrow> n < length D \<Longrightarrow>
  val (take (Suc n) p) (take (Suc n) D) = val (take n p) (take n D) + pprod (take n D) * p ! n"
  by (simp add: take_Suc_conv_app_nth val_append)

lemma fap_loop_eq:
  "n \<le> length p \<Longrightarrow> n \<le> length D \<Longrightarrow> \<forall>i < n. i64 (p ! i) = p ! i \<Longrightarrow>
   fap_loop p D n = Inr (i64 (val (take n p) (take n D)))"
proof (induction n)
  case 0
  show ?case by (simp add: i64_def)
next
  case (Suc n)
  have "i64 (p ! n) = p ! n" using Suc.prems by simp
  then have "fap_term D (p ! n) n = Inr (i64 (p ! n * pprod (take n D)))"
    using fap_term_eq [of n D "p ! n"] Suc.prems by simp
  with Suc show ?case by (simp add: take_Suc_val mult.commute)
qed

lemma findArrayPosition_eq:
  assumes "n \<le> length p" "n \<le> length D" "\<forall>i < n. i64 (p ! i) = p ! i"
  shows "findArrayPosition p D (int n) = Inr (i64 (val (take n p) (take n D)))"
  using assms by (simp add: findArrayPosition_def fap_loop_eq)

lemma cti_loop_eq:
  "n \<le> length p \<Longrightarrow> n \<le> length D \<Longrightarrow>
   cti_loop p D n = Inr (i64 (val (map (\<lambda>x. x - 1) (take n p)) (take n D)), i64 (pprod (take n D)))"
proof (induction n)
  case 0
  show ?case by (simp add: i64_def)
next
  case (Suc n)
  have "val (map (\<lambda>x. x - 1) (take (Suc n) p)) (take (Suc n) D) =
      val (map (\<lambda>x. x - 1) (take n p)) (take n D) + pprod (take n D) * (p ! n - 1)"
    using Suc.prems by (simp add: take_Suc_conv_app_nth val_append)
  with Suc show ?case by (simp add: take_Suc_conv_app_nth mult.commute [of _ "p ! n - 1"])
qed

lemma coordToInd_eq:
  assumes "n \<le> length p" "n \<le> length D"
  shows "coordToInd p D (int n) = Inr (i64 (val (map (\<lambda>x. x - 1) (take n p)) (take n D)))"
  using assms by (simp add: coordToInd_def cti_loop_eq)

text \<open>
  \<open>gap m C D\<close> is the distance, in an array of dimensions \<open>D\<close>, from the element after a box's
  row to the start of the next row, when \<open>m - 1\<close> coordinates of the box of dimensions \<open>C\<close> wrap.
\<close>

fun gap :: "nat \<Rightarrow> int list \<Rightarrow> int list \<Rightarrow> int" where
  "gap (Suc m) (c # cs) (d # ds) = d * (1 + gap m cs ds) - c"
| "gap m cs ds = 0"

lemma gap_eq:
  "m \<le> length C \<Longrightarrow> m \<le> length D \<Longrightarrow>
   gap m C D = pprod (take m D) - val (map (\<lambda>x. x - 1) (take m C)) (take m D) - 1"
proof (induction m C D rule: gap.induct)
  case (1 m c cs d ds)
  then have "d * (1 + gap m cs ds) = d * (pprod (take m ds) - val (map (\<lambda>x. x - 1) (take m cs)) (take m ds))"
    by simp
  then show ?case by (simp add: algebra_simps)
qed simp_all

lemma gap_self [simp]: "gap m C C = 0"
proof (induction m arbitrary: C)
  case (Suc m)
  then show ?case by (cases C) auto
next
  case 0
  show ?case by (cases C) auto
qed

lemma mcu_inner_cti: "mcu_inner C D k = cti_loop C D k"
  by (induction k) simp_all

lemma mcu_outer_eq:
  assumes "m \<le> length C" "m \<le> length D" "m \<le> length upd"
  shows "mcu_outer upd C D m = Inr (map (\<lambda>i. i64 (gap (Suc i) C D)) [0..<m] @ drop m upd)"
  using assms
proof (induction m)
  case (Suc m)
  have "mcu_inner C D (Suc m) = Inr (i64 (val (map (\<lambda>x. x - 1) (take (Suc m) C)) (take (Suc m) D)),
      i64 (pprod (take (Suc m) D)))"
    unfolding mcu_inner_cti using Suc.prems by (intro cti_loop_eq) auto
  moreover have "i64 (i64 (i64 (pprod (take (Suc m) D)) -
      i64 (val (map (\<lambda>x. x - 1) (take (Suc m) C)) (take (Suc m) D))) - 1) = i64 (gap (Suc m) C D)"
    using Suc.prems by (subst gap_eq) auto
  moreover have "drop m upd = upd ! m # drop (Suc m) upd"
    using Suc.prems by (simp add: Cons_nth_drop_Suc)
  moreover have "aset (map (\<lambda>i. i64 (gap (Suc i) C D)) [0..<m] @ upd ! m # drop (Suc m) upd) (int m) x =
      Inr (map (\<lambda>i. i64 (gap (Suc i) C D)) [0..<m] @ x # drop (Suc m) upd)" for x
    using aset_append [of "map (\<lambda>i. i64 (gap (Suc i) C D)) [0..<m]"] by simp
  ultimately show ?case
    using Suc by (simp del: mcu_inner.simps i64_absorb i64_absorb_deep)
qed simp

lemma makeChunkedUpdates_eq:
  assumes "n \<le> length C" "n \<le> length D" "n \<le> length upd"
  shows "makeChunkedUpdates upd C D (int n) =
    Inr (map (\<lambda>i. i64 (gap (Suc i) C D)) [0..<n] @ drop n upd)"
  using assms by (simp add: makeChunkedUpdates_def mcu_outer_eq)

lemma prod_loop_eq: "n \<le> length xs \<Longrightarrow> prod_loop xs n = Inr (i64 (pprod (take n xs)))"
proof (induction n)
  case 0
  show ?case by (simp add: i64_def)
next
  case (Suc n)
  then show ?case by (simp add: take_Suc_conv_app_nth)
qed

section \<open>Counting through the rows\<close>

text \<open>The next row's coordinates and the number of them that wrapped.\<close>

fun inc :: "int list \<Rightarrow> int list \<Rightarrow> nat \<times> int list" where
  "inc (p # ps) (t # ts) =
     (if p + 1 = t then let (m, ps') = inc ps ts in (Suc m, 0 # ps') else (0, (p + 1) # ps))"
| "inc ps ts = (0, ps)"

lemma inc_val:
  assumes "inc ps ts = (m, ps')" "length ps = length ts" "length ds = length ts"
  shows "val ps' ds + (if m = length ts then pprod ds else 0) = val ps ds + 1 + gap m ts ds"
  using assms
proof (induction ps ts arbitrary: m ps' ds rule: inc.induct)
  case (1 p ps t ts)
  then obtain d ds' where ds: "ds = d # ds'" by (cases ds) auto
  show ?case
  proof (cases "p + 1 = t")
    case True
    with 1 obtain k qs where q: "inc ps ts = (k, qs)" "m = Suc k" "ps' = 0 # qs"
      by (auto split: prod.splits)
    with 1 ds True have IH: "val qs ds' + (if k = length ts then pprod ds' else 0) = val ps ds' + 1 + gap k ts ds'"
      by simp
    have "val ps' ds + (if m = length (t # ts) then pprod ds else 0)
        = d * (val qs ds' + (if k = length ts then pprod ds' else 0))"
      using q ds by (simp add: algebra_simps)
    also have "\<dots> = d * (val ps ds' + 1 + gap k ts ds')" by (simp only: IH)
    also have "\<dots> = val (p # ps) ds + 1 + gap m (t # ts) ds"
      using q ds True by (simp add: algebra_simps)
    finally show ?thesis .
  next
    case False
    with 1 ds show ?thesis by auto
  qed
qed auto

lemma inc_digits: "digits ps ts \<Longrightarrow> digits (snd (inc ps ts)) ts"
  by (induction ps ts rule: inc.induct) (auto split: prod.splits)

lemma inc_count: "fst (inc ps ts) \<le> length ts"
  by (induction ps ts rule: inc.induct) (auto split: prod.splits)

section \<open>Properties\<close>

lemma digits_len: "digits ps ds \<Longrightarrow> length ps = length ds"
  by (induction ps ds rule: digits.induct) auto

lemma digits_nth: "digits ps ds \<Longrightarrow> i < length ds \<Longrightarrow> 0 \<le> ps ! i \<and> ps ! i < ds ! i"
  by (induction ps ds arbitrary: i rule: digits.induct) (auto simp: nth_Cons split: nat.splits)

lemma digits_pos_all: "digits ps ds \<Longrightarrow> \<forall>d \<in> set ds. 0 < d"
  by (induction ps ds rule: digits.induct) auto

lemma digits_small: "digits ps ds \<Longrightarrow> i < length ds \<Longrightarrow> 0 \<le> ps ! i \<and> ps ! i < pprod ds"
  using digits_nth [of ps ds i] mem_le_pprod [of "ds ! i" ds] digits_pos_all [of ps ds] by fastforce

lemma findArrayPosition_in_range:
  assumes "digits p D" "pprod D < 2 ^ 63"
  shows "findArrayPosition p (D @ t) (int (length D)) = Inr (val p D)"
proof -
  have l: "length p = length D" using digits_len [OF assms(1)] .
  have "\<forall>i < length D. i64 (p ! i) = p ! i"
    using digits_small [OF assms(1)] assms(2) by (fastforce intro: i64_id)
  moreover have "i64 (val p D) = val p D" using val_bounds [OF assms(1)] assms(2) by (simp add: i64_id)
  ultimately show ?thesis using findArrayPosition_eq [of "length D" p "D @ t"] l by simp
qed

text \<open>C22. \<open>findArrayPosition\<close> numbers the elements of an array: a position inside the dimensions gets an
  index below the number of elements, and two positions never get the same one.\<close>

theorem findArrayPosition_numbers:
  assumes "digits p D" "pprod D < 2 ^ 63"
  shows "\<exists>i. findArrayPosition p (D @ [0]) (int (length D)) = Inr i \<and> 0 \<le> i \<and> i < pprod D \<and>
    (\<forall>q. digits q D \<and> findArrayPosition q (D @ [0]) (int (length D)) = Inr i \<longrightarrow> q = p)"
  using findArrayPosition_in_range [OF _ assms(2)] assms(1) val_bounds [OF assms(1)] val_inj [of _ D p]
  by auto

lemma findArrayPosition_numbers_witness:
  "\<exists>i. findArrayPosition [1, 2] [3, 4, 0] 2 = Inr i \<and> 0 \<le> i \<and> i < 12 \<and>
    (\<forall>q. digits q [3, 4] \<and> findArrayPosition q [3, 4, 0] 2 = Inr i \<longrightarrow> q = [1, 2])"
  using findArrayPosition_numbers [of "[1, 2]" "[3, 4]"] by simp

text \<open>C23. \<open>coordToInd\<close> gives a MATLAB subscript, which counts from one, the index that
  \<open>findArrayPosition\<close> gives the position it names.\<close>

theorem coordToInd_agrees:
  assumes "digits p D" "pprod D < 2 ^ 63"
  shows "coordToInd (map (\<lambda>x. x + 1) p) (D @ [0]) (int (length D)) =
    findArrayPosition p (D @ [0]) (int (length D))"
proof -
  have l: "length p = length D" using digits_len [OF assms(1)] .
  have "i64 (val p D) = val p D" using val_bounds [OF assms(1)] assms(2) by (simp add: i64_id)
  then show ?thesis
    using coordToInd_eq [of "length D" "map (\<lambda>x. x + 1) p" "D @ [0]"] l
      findArrayPosition_in_range [OF assms, of "[0]"]
    by (simp add: o_def)
qed

lemma coordToInd_agrees_witness:
  "coordToInd [2, 3] [3, 4, 0] 2 = findArrayPosition [1, 2] [3, 4, 0] 2 \<and> coordToInd [2, 3] [3, 4, 0] 2 = Inr 7"
proof -
  have "coordToInd [2, 3] [3, 4, 0] 2 = findArrayPosition [1, 2] [3, 4, 0] 2"
    using coordToInd_agrees [of "[1, 2]" "[3, 4]"] by simp
  moreover have "coordToInd [2, 3] [3, 4, 0] 2 = Inr 7" by code_simp
  ultimately show ?thesis by simp
qed

text \<open>C21. The entries of \<open>makeChunkedUpdates\<close> are the jumps a copy makes: when stepping through a box of
  dimensions \<open>T\<close> in an array of dimensions \<open>D\<close> wraps \<open>m\<close> coordinates, the index in the array
  moves by one and the entry \<open>m - 1\<close>.\<close>

theorem makeChunkedUpdates_jumps:
  assumes "list_all2 (\<le>) T D" "length D \<le> length upd" "pprod D < 2 ^ 62"
  shows "\<exists>U. makeChunkedUpdates upd (T @ [0]) (D @ [0]) (int (length D)) = Inr U \<and>
    (\<forall>p m p'. digits p T \<and> inc p T = (m, p') \<and> 0 < m \<and> m < length T \<and> digits p' T \<longrightarrow>
       val p' D = val p D + 1 + U ! (m - 1))"
proof -
  let ?n = "length D"
  let ?U = "map (\<lambda>i. i64 (gap (Suc i) T D)) [0..<?n] @ drop ?n upd"
  have l: "length T = ?n" using assms(1) by (rule list_all2_lengthD)
  have "gap (Suc i) (T @ [0]) (D @ [0]) = gap (Suc i) T D" if "i < ?n" for i
    using that l by (simp add: gap_eq)
  then have "makeChunkedUpdates upd (T @ [0]) (D @ [0]) (int ?n) = Inr ?U"
    using makeChunkedUpdates_eq [of ?n "T @ [0]" "D @ [0]" upd] l assms(2) by (simp cong: map_cong)
  moreover have "val p' D = val p D + 1 + ?U ! (m - 1)"
    if "digits p T" "inc p T = (m, p')" "0 < m" "m < length T" "digits p' T" for p m p'
  proof -
    have v: "val p' D = val p D + 1 + gap m T D"
    proof -
      have "m \<noteq> length T" using that(4) by simp
      then show ?thesis using inc_val [OF that(2) digits_len [OF that(1)] l [symmetric]] by (simp only: if_False add_0_right)
    qed
    have b: "0 \<le> val p D" "val p D < pprod D" "0 \<le> val p' D" "val p' D < pprod D"
      using val_bounds [OF digits_mono [OF that(1) assms(1)]] val_bounds [OF digits_mono [OF that(5) assms(1)]]
      by simp_all
    then have "i64 (gap m T D) = gap m T D" using v assms(3) by (intro i64_id) simp_all
    moreover have "m - 1 < ?n" "Suc (m - 1) = m" using that(3,4) l by simp_all
    ultimately show ?thesis using v by (simp add: nth_append del: One_nat_def)
  qed
  ultimately show ?thesis by blast
qed

lemma makeChunkedUpdates_jumps_witness:
  "\<exists>U. makeChunkedUpdates [0, 0, 0] [2, 2, 0] [3, 4, 0] 2 = Inr U \<and> val [0, 1] [3, 4] = val [1, 0] [3, 4] + 1 + U ! 0"
proof -
  have "\<exists>U. makeChunkedUpdates [0, 0, 0] ([2, 2] @ [0]) ([3, 4] @ [0]) (int (length [3 :: int, 4])) = Inr U \<and>
    (\<forall>p m p'. digits p [2, 2] \<and> inc p [2, 2] = (m, p') \<and> 0 < m \<and> m < length [2 :: int, 2] \<and> digits p' [2, 2] \<longrightarrow>
       val p' [3, 4] = val p [3, 4] + 1 + U ! (m - 1))"
    by (rule makeChunkedUpdates_jumps) simp_all
  then obtain U where U: "makeChunkedUpdates [0, 0, 0] ([2, 2] @ [0]) ([3, 4] @ [0]) (int (length [3 :: int, 4])) = Inr U"
    "\<And>p m p'. digits p [2, 2] \<Longrightarrow> inc p [2, 2] = (m, p') \<Longrightarrow> 0 < m \<Longrightarrow> m < length [2 :: int, 2] \<Longrightarrow> digits p' [2, 2] \<Longrightarrow>
       val p' [3, 4] = val p [3, 4] + 1 + U ! (m - 1)" by blast
  have "inc [1, 0] [2, 2] = (1, [0, 1])" by simp
  then show ?thesis using U(1) U(2) [of "[1, 0]" 1 "[0, 1]"] by simp
qed

end
