(* ===== verification/ReadMessage.thy ===== *)
theory ReadMessage
  imports State ChunkGeometry
begin

text \<open>
  \<^verbatim>\<open>src/src/readMessage.c\<close>: the object header messages. Each function updates the object it is
  given, also when it reports an error (the caller \<open>fillObject\<close> goes on with what has been read),
  so it is an action on a \<^typ>\<open>Data\<close>. \<open>m\<close> is the mapped region and \<open>p\<close> the message pointer in
  it; \<open>RetErr\<close> stands for \<open>*err_flag = 1\<close> with the identifier stored.
\<close>

definition byte_at :: "byte list \<Rightarrow> int \<Rightarrow> int res" where
  "byte_at m p = bnd (rd m p 1) (\<lambda>b. Inr (uint (hd b)))"

definition fresh_ints :: "env \<Rightarrow> int \<Rightarrow> int list" where
  "fresh_ints E n = map (\<lambda>i. uint (junk E i)) [0..<nat n]"

text \<open>\<open>n\<close> numbers of \<open>w\<close> bytes, one after the other.\<close>

fun read_nums :: "env \<Rightarrow> byte list \<Rightarrow> int \<Rightarrow> int \<Rightarrow> nat \<Rightarrow> int list res" where
  "read_nums E m p w 0 = Inr []"
| "read_nums E m p w (Suc n) =
     bnd (getMeta E m p w) (\<lambda>x. bnd (read_nums E m (p + w) w n) (\<lambda>xs. Inr (x # xs)))"

section \<open>Dataspace\<close>

text \<open>The loop that multiplies the dimensions stops at the first one that is not positive.\<close>

fun count_elems :: "int list \<Rightarrow> int \<Rightarrow> int res" where
  "count_elems [] acc = Inl Fault"
| "count_elems (d # ds) acc = (if 0 < d then count_elems ds (i64 (acc * d)) else Inr acc)"

definition readDataSpaceMessage :: "env \<Rightarrow> Superblock \<Rightarrow> byte list \<Rightarrow> int \<Rightarrow> (unit, Data) act" where
  "readDataSpaceMessage E sb m p =
     andthen (lift_res (byte_at m p)) (\<lambda>v.
     andthen (guard (v = 1) (RetErr ''getmatvar:internalError'')) (\<lambda>_.
     andthen (lift_res (byte_at m (p + 1))) (\<lambda>n.
     andthen (modify (\<lambda>d. d\<lparr>num_dims := n\<rparr>)) (\<lambda>_.
     andthen (guard (n \<le> HDF5_MAX_DIMS) (RetErr ''getmatvar:dataCorruptionError'')) (\<lambda>_.
     andthen (modify (\<lambda>d. d\<lparr>dims := None\<rparr>)) (\<lambda>_.
     andthen (guard (malloc_ok E ((n + 1) * 8)) (RetErr ''getmatvar:mallocErrDims'')) (\<lambda>_.
     andthen (lift_res (read_nums E m (p + 8) (size_of_lengths sb) (nat n))) (\<lambda>xs.
     let ds = rev (map i64 xs) @ [0] in
     andthen (modify (\<lambda>d. d\<lparr>dims := Some ds\<rparr>)) (\<lambda>_.
     andthen (lift_res (count_elems ds 1)) (\<lambda>c.
       modify (\<lambda>d. d\<lparr>num_elems := c\<rparr>)))))))))))"

section \<open>Datatype\<close>

text \<open>
  A compound type is followed to its first member; the next pointer is at least 48 bytes on, so
  the size of the region bounds the recursion.
\<close>

fun readDataType_rec :: "nat \<Rightarrow> env \<Rightarrow> byte list \<Rightarrow> int \<Rightarrow> (unit, Data) act" where
  "readDataType_rec 0 E m p = fail OutOfFuel"
| "readDataType_rec (Suc fuel) E m p =
     andthen (lift_res (byte_at m p)) (\<lambda>b.
     andthen (guard (b div 16 = 1) (RetErr ''getmatvar:internalError'')) (\<lambda>_.
     let t = hdf5_cast (b mod 16) in
     andthen (modify (\<lambda>d. d\<lparr>hdf5_internal_type := t\<rparr>)) (\<lambda>_.
     andthen (gets elem_size) (\<lambda>es.
     andthen (if es = 0 then andthen (lift_res (getMeta E m (p + 4) 4)) (\<lambda>n. modify (\<lambda>d. d\<lparr>elem_size := u32 n\<rparr>))
              else ret ()) (\<lambda>_.
     andthen (lift_res (getMeta E m (p + 1) 3)) (\<lambda>bf.
     andthen (modify (\<lambda>d. d\<lparr>datatype_bit_field := u32 bf\<rparr>)) (\<lambda>_.
       if t = HDF5_FIXED_POINT \<or> t = HDF5_TIME \<or> t = HDF5_FLOATING_POINT then
         modify (\<lambda>d. d\<lparr>byte_order := order_cast (u32 bf mod 2)\<rparr>)
       else if t = HDF5_COMPOUND then
         andthen (lift_res (rd m (p + 8) 4)) (\<lambda>nm.
         andthen (if nm = ascii ''real'' then modify (\<lambda>d. d\<lparr>complexity_flag := mxCOMPLEX\<rparr>) else ret ()) (\<lambda>_.
         andthen (lift_res (cstr_at m p)) (\<lambda>s.
           readDataType_rec fuel E m (p + (8 + roundUp8 (strlen s + 1) + 32)))))
       else modify (\<lambda>d. d\<lparr>byte_order := LITTLE_ENDIAN\<rparr>))))))))"

definition readDataTypeMessage :: "env \<Rightarrow> byte list \<Rightarrow> int \<Rightarrow> (unit, Data) act" where
  "readDataTypeMessage E m p = readDataType_rec (length m + 1) E m p"

section \<open>Data layout\<close>

definition readDataLayoutMessage :: "env \<Rightarrow> Superblock \<Rightarrow> byte list \<Rightarrow> int \<Rightarrow> int \<Rightarrow> (unit, Data) act" where
  "readDataLayoutMessage E sb m p msg_address =
     andthen (lift_res (byte_at m p)) (\<lambda>v.
     andthen (guard (v = 3) (RetErr ''getmatvar:internalError'')) (\<lambda>_.
     andthen (lift_res (byte_at m (p + 1))) (\<lambda>lc.
     andthen (modify (\<lambda>d. d\<lparr>layout_class := lc\<rparr>)) (\<lambda>_.
       if lc = 0 then modify (\<lambda>d. d\<lparr>data_address := i64 (msg_address + 4)\<rparr>)
       else if lc = 1 then
         andthen (lift_res (getMeta E m (p + 2) (size_of_offsets sb))) (\<lambda>a.
           modify (\<lambda>d. d\<lparr>data_address := i64 (i64 a + base_address sb)\<rparr>))
       else if lc = 2 then
         andthen (lift_res (byte_at m (p + 2))) (\<lambda>nb.
         let n = u8 (nb - 1) in
         andthen (modify (\<lambda>d. d\<lparr>chunked_info := (chunked_info d)\<lparr>num_chunked_dims := n,
             chunked_dims := None\<rparr>\<rparr>)) (\<lambda>_.
         andthen (guard (malloc_ok E ((n + 1) * 8)) (RetErr ''getmatvar:mallocErrChunkedDims'')) (\<lambda>_.
         andthen (lift_res (getMeta E m (p + 3) (size_of_offsets sb))) (\<lambda>a.
         andthen (modify (\<lambda>d. d\<lparr>data_address := i64 (i64 a + base_address sb)\<rparr>)) (\<lambda>_.
         andthen (lift_res (read_nums E m (p + 3 + size_of_offsets sb) 4 (nat n))) (\<lambda>xs.
         let C = rev xs @ [0] in
         andthen (lift_res (prod_loop C (nat n))) (\<lambda>ce.
         andthen (modify (\<lambda>d. d\<lparr>chunked_info := (chunked_info d)\<lparr>num_chunked_elems := ce,
             chunked_dims := Some C\<rparr>\<rparr>)) (\<lambda>_.
         andthen (gets dims) (\<lambda>od.
         andthen (gets num_dims) (\<lambda>nd.
         andthen (lift_res (makeChunkedUpdates (fresh_ints E (n + 1)) C
             (case od of Some D \<Rightarrow> D | None \<Rightarrow> []) nd)) (\<lambda>U.
           modify (\<lambda>d. d\<lparr>chunked_info := (chunked_info d)\<lparr>chunk_update := Some U\<rparr>\<rparr>))))))))))))
       else fail (RetErr ''getmatvar:internalError'')))))"

section \<open>Filter pipeline\<close>

text \<open>One filter; the two versions differ in where its fields are.\<close>

definition read_filter_v1 :: "env \<Rightarrow> byte list \<Rightarrow> int \<Rightarrow> (Filter \<times> int) res" where
  "read_filter_v1 E m hp =
     bnd (getMeta E m hp 2) (\<lambda>fid.
     bnd (getMeta E m (hp + 2) 2) (\<lambda>name_size.
     bnd (getMeta E m (hp + 4) 2) (\<lambda>fl.
     bnd (getMeta E m (hp + 6) 2) (\<lambda>nv.
     if \<not> malloc_ok E (nv * 4) then Inl (RetErr ''getmatvar:mallocErrCliDat1'') else
     bnd (read_nums E m (hp + (8 + name_size)) 4 (nat nv)) (\<lambda>vs.
       Inr (\<lparr>filter_id = filter_cast fid, num_client_vals = nv, client_data = vs,
             optional_flag = fl mod 2\<rparr>, hp + (8 + name_size) + 4 * nv))))))"

definition read_filter_v2 :: "env \<Rightarrow> byte list \<Rightarrow> int \<Rightarrow> (Filter \<times> int) res" where
  "read_filter_v2 E m hp =
     bnd (getMeta E m hp 2) (\<lambda>fid.
     bnd (getMeta E m (hp + 2) 2) (\<lambda>fl.
     bnd (getMeta E m (hp + 4) 2) (\<lambda>nv.
     if \<not> malloc_ok E (nv * 4) then Inl (RetErr ''getmatvar:mallocErrCliDat2'') else
     bnd (read_nums E m (hp + 6) 4 (nat nv)) (\<lambda>vs.
       Inr (\<lparr>filter_id = filter_cast fid, num_client_vals = nv, client_data = vs,
             optional_flag = fl mod 2\<rparr>, hp + 6 + 4 * nv)))))"

fun read_filters :: "(int \<Rightarrow> (Filter \<times> int) res) \<Rightarrow> nat \<Rightarrow> int \<Rightarrow> (unit, Data) act" where
  "read_filters one 0 hp = ret ()"
| "read_filters one (Suc n) hp =
     andthen (lift_res (one hp)) (\<lambda>(f, hp).
     andthen (modify (\<lambda>d. d\<lparr>chunked_info := (chunked_info d)\<lparr>filters :=
         Some ((case filters (chunked_info d) of Some fs \<Rightarrow> fs | None \<Rightarrow> []) @ [f])\<rparr>\<rparr>)) (\<lambda>_.
       read_filters one n hp))"

definition readDataStoragePipelineMessage :: "env \<Rightarrow> byte list \<Rightarrow> int \<Rightarrow> (unit, Data) act" where
  "readDataStoragePipelineMessage E m p =
     andthen (lift_res (byte_at m (p + 1))) (\<lambda>n.
     andthen (modify (\<lambda>d. d\<lparr>chunked_info := (chunked_info d)\<lparr>num_filters := n\<rparr>\<rparr>)) (\<lambda>_.
     andthen (if 0 < n then
                andthen (guard (malloc_ok E (n * sizeof_Filter)) (RetErr ''getmatvar:mallocErrFilters'')) (\<lambda>_.
                  modify (\<lambda>d. d\<lparr>chunked_info := (chunked_info d)\<lparr>filters := Some []\<rparr>\<rparr>))
              else ret ()) (\<lambda>_.
     andthen (lift_res (byte_at m p)) (\<lambda>v.
       if v = 1 then read_filters (read_filter_v1 E m) (nat n) (p + 8)
       else if v = 2 then read_filters (read_filter_v2 E m) (nat n) (p + 2)
       else fail (RetErr ''getmatvar:internalError'')))))"

section \<open>Attributes\<close>

definition class_table :: "(string \<times> mxClassID) list" where
  "class_table =
     [(''double'', mxDOUBLE_CLASS), (''char'', mxCHAR_CLASS), (''logical'', mxLOGICAL_CLASS),
      (''struct'', mxSTRUCT_CLASS), (''cell'', mxCELL_CLASS), (''function_handle'', mxFUNCTION_CLASS),
      (''table'', mxOBJECT_CLASS), (''uint8'', mxUINT8_CLASS), (''uint16'', mxUINT16_CLASS),
      (''uint32'', mxUINT32_CLASS), (''uint64'', mxUINT64_CLASS), (''int8'', mxINT8_CLASS),
      (''int16'', mxINT16_CLASS), (''int32'', mxINT32_CLASS), (''int64'', mxINT64_CLASS),
      (''single'', mxSINGLE_CLASS), (''opaque'', mxOPAQUE_CLASS)]"

text \<open>The chain of comparisons of \<open>selectMatlabClass\<close>, in the order of the code.\<close>

fun first_match :: "cstr \<Rightarrow> (string \<times> mxClassID) list \<Rightarrow> mxClassID \<Rightarrow> mxClassID" where
  "first_match c [] old = old"
| "first_match c ((s, k) # rest) old = (if ascii s = c then k else first_match c rest old)"

definition selectMatlabClass :: "(unit, Data) act" where
  "selectMatlabClass =
     andthen (gets matlab_class) (\<lambda>oc.
     andthen (nn oc) (\<lambda>c.
       modify (\<lambda>d. d\<lparr>matlab_internal_type := first_match c class_table (matlab_internal_type d)\<rparr>)))"

text \<open>\<open>strncpy\<close> into a zeroed buffer of 200 bytes; it pads up to \<open>n\<close>, so \<open>n\<close> must not exceed 200.\<close>

definition copy_name :: "byte list \<Rightarrow> int \<Rightarrow> int \<Rightarrow> cstr res" where
  "copy_name m p n =
     (if NAME_LENGTH < n then Inl Fault
      else case cstr_at m p of
        Inr s \<Rightarrow> Inr (take (nat n) s)
      | Inl e \<Rightarrow> bnd (rd m p n) (\<lambda>bs. Inr bs))"

definition readAttributeMessage :: "env \<Rightarrow> byte list \<Rightarrow> int \<Rightarrow> (unit, Data) act" where
  "readAttributeMessage E m p =
     andthen (lift_res (byte_at m p)) (\<lambda>v.
     andthen (guard (v = 1) (RetErr ''getmatvar:internalError'')) (\<lambda>_.
     andthen (lift_res (getMeta E m (p + 2) 2)) (\<lambda>name_size.
     andthen (lift_res (getMeta E m (p + 4) 2)) (\<lambda>datatype_size.
     andthen (lift_res (getMeta E m (p + 6) 2)) (\<lambda>dataspace_size.
     andthen (lift_res (copy_name m (p + 8) name_size)) (\<lambda>name.
     let body = p + 8 + roundUp8 name_size + roundUp8 datatype_size + roundUp8 dataspace_size in
       if name = ascii ''MATLAB_class'' then
         andthen (lift_res (getMeta E m (p + 8 + roundUp8 name_size + 4) 4)) (\<lambda>n.
         andthen (guard (malloc_ok E (u32 (n + 1))) (RetErr ''getmatvar:mallocErrMatCla'')) (\<lambda>_.
         andthen (guard (n + 1 < 2 ^ 32) Fault) (\<lambda>_.
         andthen (lift_res (rd m body n)) (\<lambda>bs.
         andthen (modify (\<lambda>d. d\<lparr>matlab_class := Some (takeWhile (\<lambda>b. b \<noteq> 0) bs)\<rparr>)) (\<lambda>_.
           selectMatlabClass)))))
       else if name = ascii ''MATLAB_sparse'' then
         andthen (modify (\<lambda>d. d\<lparr>matlab_internal_attributes :=
             (matlab_internal_attributes d)\<lparr>MATLAB_sparse := True\<rparr>, dims := None\<rparr>)) (\<lambda>_.
         andthen (guard (malloc_ok E 16) (RetErr ''getmatvar:mallocErrSpDims'')) (\<lambda>_.
         andthen (lift_res (rd m body 8)) (\<lambda>bs.
           modify (\<lambda>d. d\<lparr>dims := Some [i64 (mem_num (host E) bs), 0]\<rparr>))))
       else if name = ascii ''MATLAB_empty'' then
         modify (\<lambda>d. d\<lparr>matlab_internal_attributes :=
           (matlab_internal_attributes d)\<lparr>MATLAB_empty := True\<rparr>\<rparr>)
       else if name = ascii ''MATLAB_object_decode'' then
         andthen (lift_res (rd m body 4)) (\<lambda>bs.
         let hint = hint_cast (mem_num (host E) bs) in
         andthen (modify (\<lambda>d. d\<lparr>matlab_internal_attributes :=
             (matlab_internal_attributes d)\<lparr>MATLAB_object_decode := hint\<rparr>\<rparr>)) (\<lambda>_.
           if hint = FUNCTION_HINT then modify (\<lambda>d. d\<lparr>matlab_internal_type := mxFUNCTION_CLASS\<rparr>)
           else if hint = OBJECT_HINT then modify (\<lambda>d. d\<lparr>matlab_internal_type := mxOBJECT_CLASS\<rparr>)
           else if hint = OPAQUE_HINT then modify (\<lambda>d. d\<lparr>matlab_internal_type := mxOPAQUE_CLASS\<rparr>)
           else ret ()))
       else ret ()))))))"


section \<open>What the readers do\<close>

lemma byte_at_drop: "0 \<le> p \<Longrightarrow> drop (nat p) m = b # rest \<Longrightarrow> byte_at m p = Inr (uint b)"
proof -
  assume "0 \<le> p" "drop (nat p) m = b # rest"
  moreover from this have "nat p < length m" by (metis drop_eq_Nil list.distinct(1) not_le)
  ultimately show ?thesis by (simp add: byte_at_def rd_def)
qed

lemma read_nums_at:
  assumes "host E = LITTLE_ENDIAN" "0 \<le> p" "0 < w" "w \<le> 8"
    "drop (nat p) m = concat (map (le_bytes w) xs) @ rest" "\<forall>x \<in> set xs. 0 \<le> x \<and> x < 256 ^ w"
  shows "read_nums E m p (int w) (length xs) = Inr xs"
  using assms
proof (induction xs arbitrary: p)
  case (Cons x xs)
  have "getMeta E m p (int w) = Inr x"
    using Cons.prems by (intro getMeta_at [where rest = "concat (map (le_bytes w) xs) @ rest"]) simp_all
  moreover have "drop (nat (p + int w)) m = drop w (drop (nat p) m)"
    using Cons.prems(2) by (simp add: nat_add_distrib add.commute)
  then have "drop (nat (p + int w)) m = concat (map (le_bytes w) xs) @ rest"
    using Cons.prems(5) by simp
  ultimately show ?case using Cons by simp
qed simp

lemma count_elems_pos:
  assumes "\<forall>d \<in> set ds. 0 < d"
  shows "count_elems (ds @ 0 # rest) (i64 acc) = Inr (i64 (acc * pprod ds))"
  using assms
proof (induction ds arbitrary: acc)
  case (Cons d ds)
  from Cons.IH [of "acc * d"] Cons.prems show ?case by (simp add: mult.assoc)
qed simp

text \<open>The bytes of a version 1 dataspace message for dimensions \<open>ds\<close> (fastest first).\<close>

definition dataspace_bytes :: "nat \<Rightarrow> int list \<Rightarrow> byte list \<Rightarrow> byte list" where
  "dataspace_bytes sl ds fill =
     [1, word_of_int (int (length ds))] @ take 6 fill @ concat (map (le_bytes sl) (rev ds))"

lemma readDataSpace_run:
  assumes h: "host E = LITTLE_ENDIAN" and sl: "size_of_lengths sb = int w" "0 < w" "w \<le> 8"
    and f: "6 \<le> length fill" and n: "length ds \<le> 32" and al: "malloc_ok E ((int (length ds) + 1) * 8)"
    and rng: "\<forall>d \<in> set ds. 0 \<le> d \<and> d < 256 ^ w \<and> d < 2 ^ 63"
    and m: "m = pre @ dataspace_bytes w ds fill @ post"
  shows "readDataSpaceMessage E sb m (int (length pre)) d =
    (bnd (count_elems (ds @ [0]) 1) (\<lambda>_. Inr ()),
     d\<lparr>num_dims := int (length ds), dims := Some (ds @ [0]),
       num_elems := (case count_elems (ds @ [0]) 1 of Inr c \<Rightarrow> c | Inl _ \<Rightarrow> num_elems d)\<rparr>)"
proof -
  let ?p = "int (length pre)"
  have u: "uint (word_of_int (int (length ds)) :: byte) = int (length ds)"
    using n unfolding uint_word_of_int by simp
  have 0: "byte_at m ?p = Inr 1"
    by (rule byte_at_drop [of _ _ "1 :: byte", simplified]) (auto simp: m dataspace_bytes_def)
  have "drop (nat (?p + 1)) m = word_of_int (int (length ds)) # drop (length pre + 2) m"
    by (simp add: m dataspace_bytes_def nat_add_distrib)
  then have 1: "byte_at m (?p + 1) = Inr (int (length ds))"
    using byte_at_drop [of "?p + 1" m] u by simp
  have "drop (nat (?p + 8)) m = concat (map (le_bytes w) (rev ds)) @ post"
    using f by (simp add: m dataspace_bytes_def nat_add_distrib)
  then have 2: "read_nums E m (?p + 8) (int w) (length (rev ds)) = Inr (rev ds)"
    using rng by (intro read_nums_at [OF h _ sl(2,3)]) simp_all
  have "i64 x = x" if "x \<in> set ds" for x using rng that by (intro i64_id) force+
  then have 3: "map i64 (rev ds) = rev ds" by (intro map_idI) simp
  then have "rev (map i64 (rev ds)) = ds" by simp
  then show ?thesis
    using 0 1 2 n al sl(1)
    by (cases "count_elems (ds @ [0]) 1") (simp_all add: readDataSpaceMessage_def Let_def andthen_def guard_def)
qed

text \<open>C18. A version 1 dataspace message with positive dimensions is read back: the dimensions (fastest
  first, a zero after the last), their number, and the number of elements, their product.\<close>

theorem readDataSpace_roundtrip:
  assumes "host E = LITTLE_ENDIAN" "size_of_lengths sb = int w" "0 < w" "w \<le> 8"
    "6 \<le> length fill" "length ds \<le> 32" "malloc_ok E ((int (length ds) + 1) * 8)"
    "\<forall>d \<in> set ds. 0 < d \<and> d < 256 ^ w" "pprod ds < 2 ^ 63"
    "m = pre @ dataspace_bytes w ds fill @ post"
  shows "readDataSpaceMessage E sb m (int (length pre)) d =
    (Inr (), d\<lparr>num_dims := int (length ds), dims := Some (ds @ [0]), num_elems := pprod ds\<rparr>)"
proof -
  have pos: "\<forall>d \<in> set ds. 0 < d" using assms(8) by blast
  have "0 < pprod ds" using pos by (rule pprod_ge_1)
  then have "count_elems (ds @ [0]) 1 = Inr (pprod ds)"
    using count_elems_pos [OF pos, of "[]" 1] assms(9) by (simp add: i64_id)
  moreover have "\<forall>d \<in> set ds. d \<le> pprod ds" using mem_le_pprod pos by blast
  then have "\<forall>d \<in> set ds. 0 \<le> d \<and> d < 256 ^ w \<and> d < 2 ^ 63" using assms(8,9) by fastforce
  ultimately show ?thesis
    using readDataSpace_run [OF assms(1-7) _ assms(10), of d] by simp
qed

lemma readDataSpace_roundtrip_witness:
  "readDataSpaceMessage (demo_env []) (s_block demo_state) ([5] @ dataspace_bytes 8 [3, 2] (replicate 6 0) @ [])
     (int (length [5 :: byte])) (blank_object (lq_init False)) =
   (Inr (), (blank_object (lq_init False))\<lparr>num_dims := int (length [3, 2 :: int]), dims := Some ([3, 2] @ [0]),
      num_elems := pprod [3, 2]\<rparr>)"
  by (rule readDataSpace_roundtrip [where w = 8 and fill = "replicate 6 0" and post = "[]"]) (simp_all add: demo_state_def initialize_def)

text \<open>Following the members of a compound type always comes to an end.\<close>

text \<open>Following the members of a compound type always comes to an end.\<close>

lemma no_fuel [simp]:
  "byte_at m p \<noteq> Inl OutOfFuel" "rd m p n \<noteq> Inl OutOfFuel" "cstr_at m p \<noteq> Inl OutOfFuel"
  by (auto simp: byte_at_def rd_def cstr_at_def bnd_def split: sum.splits if_splits)

lemma wr_no_fuel [simp]: "wr m p bs \<noteq> Inl OutOfFuel"
  by (simp add: wr_def)

lemma reverse_loop_no_fuel: "reverse_loop m a b \<noteq> Inl OutOfFuel"
proof (induction m a b rule: reverse_loop.induct)
  case (1 m a b)
  show ?case
    by (subst reverse_loop.simps) (auto simp: bnd_def 1 split: sum.splits dest: sym)
qed

lemma getMeta_no_fuel [simp]: "getMeta E m p n \<noteq> Inl OutOfFuel"
  using reverse_loop_no_fuel
  by (auto simp: getMeta_def getBytesAsNumber_def reverseBytes_def bnd_def Let_def split: sum.splits if_splits dest: sym)

lemma byte_at_range: "byte_at m p = Inr b \<Longrightarrow> 0 \<le> p \<and> p < int (length m)"
  by (auto simp: byte_at_def rd_def split: if_splits)

lemma roundUp8_nonneg: "0 \<le> n \<Longrightarrow> 0 \<le> roundUp8 n"
  by (auto simp: roundUp8_def Let_def u64_def)

lemma act_no_fuel:
  "fst (andthen m f s) \<noteq> Inl OutOfFuel \<longleftrightarrow>
     fst (m s) \<noteq> Inl OutOfFuel \<and> (\<forall>x s'. m s = (Inr x, s') \<longrightarrow> fst (f x s') \<noteq> Inl OutOfFuel)"
  by (auto simp: andthen_def split: prod.splits sum.splits)

lemma readDataType_rec_fuel:
  assumes "int (length m) - p < int fuel" "0 < fuel"
  shows "fst (readDataType_rec fuel E m p d) \<noteq> Inl OutOfFuel"
  using assms
proof (induction fuel arbitrary: p d)
  case (Suc fuel)
  show ?case
  proof (cases "byte_at m p")
    case (Inl e)
    then have "e \<noteq> OutOfFuel" using no_fuel(1) [of m p] by auto
    then show ?thesis using Inl by simp
  next
    case (Inr b)
    have IH: "fst (readDataType_rec fuel E m (p + (40 + roundUp8 (strlen s + 1))) d') \<noteq> Inl OutOfFuel" for s d'
    proof -
      have "0 \<le> roundUp8 (strlen s + 1)" by (rule roundUp8_nonneg) (simp add: strlen_def)
      then show ?thesis using Suc.prems byte_at_range [OF Inr] by (intro Suc.IH) linarith+
    qed
    show ?thesis
      by (simp add: act_no_fuel Let_def guard_def gets_def Inr) (simp add: IH)
  qed
qed simp

lemma readDataTypeMessage_ends: "fst (readDataTypeMessage E m p d) \<noteq> Inl OutOfFuel"
proof (cases "0 \<le> p")
  case True
  then show ?thesis unfolding readDataTypeMessage_def by (intro readDataType_rec_fuel) simp_all
next
  case False
  then have "byte_at m p = Inl Fault" by (simp add: byte_at_def rd_def)
  then show ?thesis by (simp add: readDataTypeMessage_def)
qed

text \<open>
  A version 1 datatype message: the class \<open>t\<close>, the three bytes of flags, the size of an element
  and what follows (the properties, or the members).
\<close>

definition datatype_bytes :: "nat \<Rightarrow> int \<Rightarrow> int \<Rightarrow> byte list \<Rightarrow> byte list" where
  "datatype_bytes t flags sz props =
     word_of_int (16 + int t) # le_bytes 3 flags @ le_bytes 4 sz @ props"

lemma uint_of_int_byte: "0 \<le> v \<Longrightarrow> v < 256 \<Longrightarrow> uint (word_of_int v :: byte) = v"
  unfolding uint_word_of_int by simp

lemma datatype_head:
  assumes "host E = LITTLE_ENDIAN" "0 \<le> p" "drop (nat p) m = datatype_bytes t flags sz props @ post"
    "t < 16" "0 \<le> flags" "flags < 256 ^ 3" "0 \<le> sz" "sz < 256 ^ 4"
  shows "byte_at m p = Inr (16 + int t)" "getMeta E m (p + 1) 3 = Inr flags"
    "getMeta E m (p + 4) 4 = Inr sz" "drop (nat (p + 8)) m = props @ post"
proof -
  let ?b = "word_of_int (16 + int t) :: byte"
  have "drop (nat p) m = ?b # (le_bytes 3 flags @ le_bytes 4 sz @ props @ post)"
    using assms(3) by (simp add: datatype_bytes_def)
  from byte_at_drop [OF assms(2) this] show "byte_at m p = Inr (16 + int t)"
    using uint_of_int_byte [of "16 + int t"] assms(4) by (simp only:)
  have d: "drop (nat (p + int k)) m = drop k (drop (nat p) m)" for k
    using assms(2) by (simp add: nat_add_distrib add.commute)
  have 1: "drop (nat (p + 1)) m = le_bytes 3 flags @ le_bytes 4 sz @ props @ post"
    using d [of 1] assms(3) by (simp add: datatype_bytes_def)
  have 4: "drop (nat (p + 4)) m = le_bytes 4 sz @ props @ post"
    using d [of 4] assms(3) by (simp add: datatype_bytes_def)
  show "drop (nat (p + 8)) m = props @ post"
    using d [of 8] assms(3) by (simp add: datatype_bytes_def)
  show "getMeta E m (p + 1) 3 = Inr flags"
    using getMeta_at [OF assms(1) _ _ _ 1] assms by simp
  show "getMeta E m (p + 4) 4 = Inr sz"
    using getMeta_at [OF assms(1) _ _ _ 4] assms by simp
qed

definition leaf_read :: "HDF5Datatype \<Rightarrow> int \<Rightarrow> int \<Rightarrow> Data \<Rightarrow> Data" where
  "leaf_read t flags sz d =
     d\<lparr>hdf5_internal_type := t, elem_size := (if elem_size d = 0 then sz else elem_size d),
       datatype_bit_field := flags,
       byte_order := (if t \<in> {HDF5_FIXED_POINT, HDF5_TIME, HDF5_FLOATING_POINT}
                      then order_cast (flags mod 2) else LITTLE_ENDIAN)\<rparr>"

lemma readDataType_leaf:
  assumes "host E = LITTLE_ENDIAN" "0 \<le> p" "drop (nat p) m = datatype_bytes t flags sz props @ post"
    "t < 16" "hdf5_cast (int t) \<noteq> HDF5_COMPOUND" "0 \<le> flags" "flags < 256 ^ 3" "0 \<le> sz" "sz < 256 ^ 4"
  shows "readDataType_rec (Suc fuel) E m p d = (Inr (), leaf_read (hdf5_cast (int t)) flags sz d)"
proof -
  note head = datatype_head [OF assms(1-4,6-9)]
  have u: "u32 flags = flags" "u32 sz = sz" using assms(6-9) by (simp_all add: u32_id)
  have "(16 + int t) div 16 = 1" "(16 + int t) mod 16 = int t" using assms(4) by simp_all
  then show ?thesis
    using head(1-3) assms(5) by (simp add: Let_def u leaf_read_def andthen_assoc)
qed

text \<open>C19.
  A complex number is stored as a compound of \<open>real\<close> and \<open>imag\<close>: the object becomes complex, keeps
  the size of the whole compound and takes its type and byte order from the first member.
\<close>

theorem readDataType_complex:
  assumes "host E = LITTLE_ENDIAN" "t < 16" "hdf5_cast (int t) \<noteq> HDF5_COMPOUND"
    "0 \<le> flags" "flags < 256 ^ 3" "0 < sz" "sz < 256 ^ 4" "0 \<le> msz" "msz < 256 ^ 4"
    "length fill = 32" "elem_size d = 0"
    "m = pre @ datatype_bytes 6 2 sz (ascii ''real'' @ replicate 4 0 @ fill @
           datatype_bytes t flags msz props) @ post"
  shows "readDataTypeMessage E m (int (length pre)) d =
    (Inr (), d\<lparr>hdf5_internal_type := hdf5_cast (int t), elem_size := sz,
       datatype_bit_field := flags, byte_order := byte_order (leaf_read (hdf5_cast (int t)) flags msz d),
       complexity_flag := mxCOMPLEX\<rparr>)"
proof -
  let ?p = "int (length pre)"
  let ?member = "datatype_bytes t flags msz props"
  let ?rest = "ascii ''real'' @ replicate 4 0 @ fill @ ?member"
  have m: "drop (nat ?p) m = datatype_bytes 6 2 sz ?rest @ post" using assms(12) by simp
  note head = datatype_head [OF assms(1) _ m]
  have h: "byte_at m ?p = Inr 22" "getMeta E m (?p + 1) 3 = Inr 2" "getMeta E m (?p + 4) 4 = Inr sz"
    "drop (nat (?p + 8)) m = ?rest @ post"
    using head assms(6,7) by simp_all
  have len: "length (ascii ''real'') = 4" by (simp add: ascii_def)
  have len8: "length m = length pre + 8 + length (?rest @ post)"
    using assms(12) by (simp add: datatype_bytes_def)
  have real: "rd m (?p + 8) 4 = Inr (ascii ''real'')"
    using h(4) len8 len by (simp add: rd_def nat_add_distrib)
  have str: "cstr_at m ?p = Inr [22, 2]"
    by (simp add: cstr_at_def assms(12) datatype_bytes_def numeral_3_eq_3)
  have "drop (nat (?p + 48)) m = drop 40 (drop (nat (?p + 8)) m)"
    by (simp add: nat_add_distrib add.commute)
  also have "\<dots> = ?member @ post" using h(4) len assms(10) by simp
  finally have mem: "drop (nat (?p + 48)) m = ?member @ post" .
  obtain k where k: "length m = Suc k" using len8 by (cases "length m") simp_all
  have s: "u32 sz = sz" "u32 2 = 2" using assms(6,7) by (simp_all add: u32_def)
  have leaf: "readDataType_rec (Suc k) E m (?p + 48) d' =
     (Inr (), leaf_read (hdf5_cast (int t)) flags msz d')" for d'
    using readDataType_leaf [OF assms(1) _ mem assms(2,3,4,5,8,9)] by simp
  have c: "hdf5_cast 6 = HDF5_COMPOUND" by (simp add: hdf5_cast_def)
  have r: "roundUp8 3 = 8" by (simp add: roundUp8_def u64_def)
  have nx: "40 + roundUp8 (strlen [22, 2] + 1) = 48" by (simp add: strlen_def r)
  show ?thesis
    unfolding readDataTypeMessage_def
    using h(1-3) real str leaf assms(6,11)
    by (simp add: andthen_assoc readDataType_rec.simps(2) [of "Suc k"] k Let_def s c nx leaf_read_def del: readDataType_rec.simps)
qed

lemma readDataType_complex_witness:
  "readDataTypeMessage (demo_env []) ([] @ datatype_bytes 6 2 16 (ascii ''real'' @ replicate 4 0 @ replicate 32 0 @
       datatype_bytes 1 0 8 []) @ []) (int (length ([] :: byte list))) (blank_object (lq_init False)) =
   (Inr (), (blank_object (lq_init False))\<lparr>hdf5_internal_type := hdf5_cast (int 1), elem_size := 16,
      datatype_bit_field := 0,
      byte_order := byte_order (leaf_read (hdf5_cast (int 1)) 0 8 (blank_object (lq_init False))),
      complexity_flag := mxCOMPLEX\<rparr>)"
  by (rule readDataType_complex [where fill = "replicate 32 0" and t = 1 and props = "[]" and post = "[]"])
    (simp_all add: hdf5_cast_def blank_object_def)

text \<open>Reading a datatype message returns for every input: however compound types are nested in it, the
  size of the mapped region bounds the recursion.\<close>

theorem readDataTypeMessage_returns: "fst (readDataTypeMessage E m p d) \<noteq> Inl OutOfFuel"
  by (rule readDataTypeMessage_ends)

section \<open>Chunked layout\<close>

text \<open>A version 3 layout message for chunks of dimensions \<open>C\<close>, whose tree is at \<open>a\<close>.\<close>

definition chunked_layout_bytes :: "nat \<Rightarrow> int \<Rightarrow> int list \<Rightarrow> byte list" where
  "chunked_layout_bytes so a C =
     [3, 2, word_of_int (int (length C) + 1)] @ le_bytes so a @ concat (map (le_bytes 4) (rev C))"

text \<open>
  Reading it gives what the copy of a chunk needs (\<open>chunk_ok\<close>): the dimensions with the zero at the
  end, the number of elements of a chunk, and the steps between its rows in the array.
\<close>

lemma readDataLayout_run:
  assumes h: "host E = LITTLE_ENDIAN" and so: "size_of_offsets sb = int w" "0 < w" "w \<le> 8"
    and al: "malloc_ok E ((int (length C) + 1) * 8)"
    and a: "0 \<le> a" "a < 256 ^ w" "a < 2 ^ 62" "0 \<le> base_address sb" "base_address sb < 2 ^ 62"
    and C: "\<forall>c \<in> set C. 0 < c \<and> c < 2 ^ 32" "pprod C < 2 ^ 63" "length C = length D" "length D \<le> 32"
    and d: "dims d = Some (D @ [0])" "num_dims d = int (length D)"
    and m: "m = pre @ chunked_layout_bytes w a C @ post"
  shows "\<exists>u. readDataLayoutMessage E sb m (int (length pre)) maddr d =
    (Inr (), d\<lparr>layout_class := 2, data_address := a + base_address sb,
      chunked_info := (chunked_info d)\<lparr>num_chunked_dims := int (length D), num_chunked_elems := pprod C,
        chunked_dims := Some (C @ [0]),
        chunk_update := Some (map (\<lambda>i. i64 (gap (Suc i) C D)) [0..<length D] @ u)\<rparr>\<rparr>)"
proof -
  let ?p = "int (length pre)" and ?n = "length C"
  have nb: "uint (word_of_int (int ?n + 1) :: byte) = int ?n + 1" using C by (intro uint_of_int_byte) simp_all
  have u8n: "u8 (int ?n) = int ?n" using C by (simp add: u8_id)
  have b0: "byte_at m ?p = Inr 3"
    by (rule byte_at_drop [of _ _ "3 :: byte", simplified]) (auto simp: m chunked_layout_bytes_def)
  have d1: "drop (nat (?p + 1)) m = 2 # drop (length pre + 2) m"
    by (simp add: m chunked_layout_bytes_def nat_add_distrib)
  have b1: "byte_at m (?p + 1) = Inr 2" using byte_at_drop [OF _ d1] by simp
  have "drop (nat (?p + 2)) m = word_of_int (int ?n + 1) # drop (length pre + 3) m"
    by (simp add: m chunked_layout_bytes_def nat_add_distrib eval_nat_numeral)
  then have b2: "byte_at m (?p + 2) = Inr (int ?n + 1)" using byte_at_drop [of "?p + 2" m] nb by simp
  have "drop (nat (?p + 3)) m = le_bytes w a @ concat (map (le_bytes 4) (rev C)) @ post"
    by (simp add: m chunked_layout_bytes_def nat_add_distrib)
  then have addr: "getMeta E m (?p + 3) (int w) = Inr a"
    using getMeta_at [OF h _ so(2,3), of "?p + 3" m a] a by simp
  have "drop (nat (?p + 3 + int w)) m = concat (map (le_bytes 4) (rev C)) @ post"
    by (simp add: m chunked_layout_bytes_def nat_add_distrib numeral_3_eq_3)
  then have ds: "read_nums E m (?p + 3 + int w) 4 ?n = Inr (rev C)"
    using read_nums_at [OF h, of "?p + 3 + int w" 4 m "rev C" post] C(1) by fastforce
  have pr: "prod_loop (C @ [0]) ?n = Inr (pprod C)"
    using C(1,2) pprod_ge_1 [of C] by (simp add: prod_loop_eq i64_id less_imp_le)
  have g: "gap (Suc i) (C @ [0]) (D @ [0]) = gap (Suc i) C D" if "i < length D" for i
    using that C(3) by (simp add: gap_eq)
  obtain u where upd: "makeChunkedUpdates (fresh_ints E (int ?n + 1)) (C @ [0]) (D @ [0]) (int (length D)) =
      Inr (map (\<lambda>i. i64 (gap (Suc i) C D)) [0..<length D] @ u)"
    using makeChunkedUpdates_eq [of "length D" "C @ [0]" "D @ [0]" "fresh_ints E (int ?n + 1)"] C(3) g
    by (simp add: fresh_ints_def nat_add_distrib cong: map_cong)
  have "i64 (a + base_address sb) = a + base_address sb" using a by (simp add: i64_id)
  then show ?thesis
    using b0 b1 b2 addr ds pr upd al so(1) d u8n C(3)
    by (intro exI [of _ u]) (simp add: readDataLayoutMessage_def Let_def)
qed

section \<open>Attributes\<close>

text \<open>The names of \<open>selectMatlabClass\<close> are different, so the order of the comparisons does not matter.\<close>

lemma first_match_in:
  "distinct (map fst tab) \<Longrightarrow> inj_on ascii (fst ` set tab) \<Longrightarrow> (s, k) \<in> set tab \<Longrightarrow> first_match (ascii s) tab old = k"
proof (induction tab)
  case (Cons e tab)
  obtain s' k' where e: "e = (s', k')" by force
  show ?case
  proof (cases "ascii s' = ascii s")
    case True
    then have "s' = s" using inj_onD [OF Cons.prems(2), of s' s] Cons.prems(3) e by force
    then have "k' = k" using Cons.prems(1,3) e by (force simp: image_iff)
    then show ?thesis using True e by simp
  next
    case False
    then show ?thesis using Cons e by (auto simp: inj_on_def)
  qed
qed simp

lemma first_match_other: "c \<notin> ascii ` fst ` set tab \<Longrightarrow> first_match c tab old = old"
  by (induction tab) auto

lemma inj_ascii: "inj_on ascii {s. \<forall>c \<in> set s. of_char c < (256 :: int)}"
proof (rule inj_onI)
  fix s t assume "ascii s = ascii t"
  then have "map of_char s = (map of_char t :: byte list)" by (simp add: ascii_def)
  moreover have "inj (of_char :: char \<Rightarrow> byte)"
  proof (rule injI)
    fix c d assume "of_char c = (of_char d :: byte)"
    then have "uint (of_char c :: byte) = uint (of_char d :: byte)" by simp
    moreover have "uint (of_char e :: byte) = of_char e" for e
      by (cases e) (auto simp: of_char_Char)
    ultimately show "c = d" by (simp add: of_char_eq_iff)
  qed
  ultimately show "s = t" by (simp add: inj_map_eq_map)
qed

text \<open>Each of the class names MATLAB writes selects its class, whatever the class was before.\<close>

theorem selectMatlabClass_table:
  assumes "(s, k) \<in> set class_table" "matlab_class d = Some (ascii s)"
  shows "selectMatlabClass d = (Inr (), d\<lparr>matlab_internal_type := k\<rparr>)"
proof -
  have "inj_on ascii (fst ` set class_table)"
    by (rule inj_on_subset [OF inj_ascii]) (auto simp: class_table_def)
  then have "first_match (ascii s) class_table old = k" for old
    using assms(1) by (intro first_match_in) (simp_all add: class_table_def)
  then show ?thesis using assms(2) by (simp add: selectMatlabClass_def)
qed

lemma selectMatlabClass_table_witness:
  "selectMatlabClass ((blank_object (lq_init False))\<lparr>matlab_class := Some (ascii ''cell'')\<rparr>) =
     (Inr (), (blank_object (lq_init False))\<lparr>matlab_class := Some (ascii ''cell''), matlab_internal_type := mxCELL_CLASS\<rparr>)"
  using selectMatlabClass_table [of "''cell''" mxCELL_CLASS "(blank_object (lq_init False))\<lparr>matlab_class := Some (ascii ''cell'')\<rparr>"]
  by (simp add: class_table_def)

text \<open>C36.
  The buffer for an attribute's name has 200 bytes, and nothing checks the size the file gives: a
  longer one is written past its end.
\<close>

theorem readAttribute_overrun:
  assumes "host E = LITTLE_ENDIAN" "0 \<le> p" "length bs = 4" "200 < nsz" "nsz < 2 ^ 16"
    "drop (nat p) m = [1, r] @ le_bytes 2 nsz @ bs @ rest"
  shows "readAttributeMessage E m p d = (Inl Fault, d)"
proof -
  have d: "drop (nat (p + int k)) m = drop k (drop (nat p) m)" for k
    using assms(2) by (simp add: nat_add_distrib add.commute)
  have 0: "byte_at m p = Inr 1" using byte_at_drop [OF assms(2), of m 1] assms(6) by simp
  have "drop (nat (p + 2)) m = le_bytes 2 nsz @ bs @ rest" using d [of 2] assms(6) by simp
  then have 2: "getMeta E m (p + 2) 2 = Inr nsz"
    using getMeta_at [OF assms(1), of "p + 2" 2 m nsz] assms by simp
  have "int (length m) = p + 8 + int (length rest)"
    using arg_cong [OF assms(6), of length] assms(2,3) by (simp split: if_splits)
  then obtain x y where "getMeta E m (p + 4) 2 = Inr x" "getMeta E m (p + 6) 2 = Inr y"
    using getMeta_little [OF assms(1), of "p + 4" 2 m] getMeta_little [OF assms(1), of "p + 6" 2 m] assms(2) by simp
  then show ?thesis using 0 2 assms(4) by (simp add: readAttributeMessage_def copy_name_def)
qed

lemma readAttribute_overrun_witness:
  "readAttributeMessage (demo_env []) ([1, 0] @ le_bytes 2 201 @ [0, 0, 0, 0] @ []) 0 (blank_object (lq_init False)) =
     (Inl Fault, blank_object (lq_init False))"
  by (rule readAttribute_overrun [where nsz = 201 and bs = "[0, 0, 0, 0]" and r = 0 and rest = "[]"]) simp_all

end
