(* ===== verification/ChunkTree.thy ===== *)
theory ChunkTree
  imports PageObjects ChunkGeometry ReadMessage
begin

text \<open>
  The chunk tree: \<open>fillNode\<close> of \<^verbatim>\<open>src/src/placeChunkedData.c\<close> walks the B-tree of a chunked
  dataset, makes a \<open>DataPair\<close> for every leaf (a child that does not start with \<open>TREE\<close>), puts it in
  the bucket of the page it starts in and records for that page how many chunks start there and
  how far they reach.
\<close>

datatype NodeType = GROUP | CHUNK | NODETYPE_UNDEFINED | NODETYPE_ROOT | RAWDATA | SYMBOL | NODETYPE_UNNAMED int

definition node_cast :: "int \<Rightarrow> NodeType" where
  "node_cast n =
     (let ns = [GROUP, CHUNK, NODETYPE_UNDEFINED, NODETYPE_ROOT, RAWDATA, SYMBOL]
      in if 0 \<le> n \<and> n < 6 then ns ! nat n else NODETYPE_UNNAMED n)"

record TreeNode =
  node_address :: int
  node_type :: NodeType
  entries_used :: int

section \<open>One leaf\<close>

text \<open>The key before a leaf: the size of the chunk, a filter mask, and where the chunk starts.\<close>

definition read_key :: "env \<Rightarrow> byte list \<Rightarrow> int \<Rightarrow> int \<Rightarrow> int \<Rightarrow> (DataPair, gstate) act" where
  "read_key E m kp n address =
     andthen (guard (malloc_ok E 24) (RetErr ''getmatvar:mallocErrK0FN'')) (\<lambda>_.
     andthen (lift_res (getMeta E m kp 4)) (\<lambda>cs.
     andthen (guard (malloc_ok E ((n + 1) * 8)) (RetErr ''getmatvar:mallocErrK0FNCS'')) (\<lambda>_.
     andthen (lift_res (read_nums E m (kp + 8) 8 (nat n))) (\<lambda>xs.
       ret \<lparr>dp_address = address, dp_chunk_size = u32 cs, dp_chunk_start = rev (map i64 xs) @ [0]\<rparr>))))"

definition bucket_add :: "int \<Rightarrow> DataPair \<Rightarrow> (unit, gstate) act" where
  "bucket_add i dp =
     andthen (gets data_page_buckets) (\<lambda>bs.
     andthen (nn bs) (\<lambda>bs.
     andthen (lift_res (aget bs i)) (\<lambda>b.
     andthen (lift_res (lq_enqueue b dp)) (\<lambda>b.
       modify (\<lambda>g. g\<lparr>data_page_buckets := Some (bs[nat i := b])\<rparr>)))))"

definition add_leaf :: "env \<Rightarrow> DataPair \<Rightarrow> (unit, gstate) act" where
  "add_leaf E dp =
     (let i = page_of E (dp_address dp) in
     andthen (get_page i) (\<lambda>p.
     andthen (put_page i (p\<lparr>total_num_mappings := u32 (total_num_mappings p + 1),
        max_map_size := max (max_map_size p) (u64 (u64 (dp_address dp) mod gran E + dp_chunk_size dp))\<rparr>)) (\<lambda>_.
       bucket_add i dp)))"

section \<open>The tree\<close>

text \<open>
  The file can send the code round a cycle of nodes, so the recursion has a bound, \<open>fuel\<close>; the
  loop over the entries of a node is the second function.
\<close>

fun fillNode :: "env \<Rightarrow> nat \<Rightarrow> int \<Rightarrow> TreeNode \<Rightarrow> (TreeNode, gstate) act"
and fill_entries :: "env \<Rightarrow> nat \<Rightarrow> int \<Rightarrow> byte list \<Rightarrow> int \<Rightarrow> nat \<Rightarrow> (unit, gstate) act" where
  "fillNode E 0 n node = fail OutOfFuel"
| "fillNode E (Suc fuel) n node =
     (if node_address node = UNDEF_ADDR then ret (node\<lparr>entries_used := 0\<rparr>)
      else
        andthen (navigated E (node_address node) (gran E)) (\<lambda>tree_map_obj.
        andthen (st_view E tree_map_obj) (\<lambda>(m, p).
        andthen (lift_res (rd m p 4)) (\<lambda>sig.
          if sig \<noteq> ascii ''TREE'' then
            andthen (st_releasePages tree_map_obj) (\<lambda>_.
              ret (node\<lparr>entries_used := 0, node_type := (if sig = ascii ''SNOD'' then SYMBOL else RAWDATA)\<rparr>))
          else
            andthen (lift_res (getMeta E m (p + 4) 1)) (\<lambda>t.
            andthen (lift_res (getMeta E m (p + 6) 2)) (\<lambda>eu.
            let node = node\<lparr>node_type := node_cast t, entries_used := u16 eu\<rparr> in
            andthen (guard (node_type node = CHUNK) (RetErr ''getmatvar:wrongNodeType'')) (\<lambda>_.
            andthen (st_releasePages tree_map_obj) (\<lambda>_.
            andthen (gets (\<lambda>g. size_of_offsets (s_block g))) (\<lambda>so.
            let key_size = 8 + (n + 1) * 8;
                key_address = i64 (node_address node + 8 + 2 * so);
                total = u64 ((entries_used node + 1) * key_size + entries_used node * so) in
            andthen (navigated E key_address total) (\<lambda>key_map_obj.
            andthen (st_view E key_map_obj) (\<lambda>(km, kp).
            andthen (fill_entries E fuel n km kp (nat (entries_used node))) (\<lambda>_.
            andthen (st_releasePages key_map_obj) (\<lambda>_.
              ret node)))))))))))))"
| "fill_entries E fuel n km kp 0 = ret ()"
| "fill_entries E fuel n km kp (Suc k) =
     (let key_size = 8 + (n + 1) * 8 in
      andthen (gets s_block) (\<lambda>sb.
      andthen (lift_res (getMeta E km (kp + key_size) (size_of_offsets sb))) (\<lambda>a.
      andthen (fillNode E fuel n \<lparr>node_address = i64 (i64 a + base_address sb), node_type = NODETYPE_UNDEFINED,
                  entries_used = 0\<rparr>) (\<lambda>sub_node.
      andthen (if node_type sub_node = RAWDATA then
                 andthen (read_key E km kp n (node_address sub_node)) (\<lambda>dp. add_leaf E dp)
               else ret ()) (\<lambda>_.
        fill_entries E fuel n km (kp + key_size + size_of_offsets sb) k)))))"

end
