(* ===== verification/SuperblockModel.thy ===== *)
theory SuperblockModel
  imports MapObjects
begin

text \<open>
  \<^verbatim>\<open>src/src/superblock.c\<close>: the superblock is looked for at every multiple of 512 bytes, and its
  fields are read from fixed offsets, the widths of the addresses being themselves a field.
\<close>

section \<open>The code\<close>

definition FORMAT_SIG :: cstr where
  "FORMAT_SIG = [0x89, 0x48, 0x44, 0x46, 0x0D, 0x0A, 0x1A, 0x0A]"

abbreviation (input) SUPERBLOCK_INTERVAL :: int where "SUPERBLOCK_INTERVAL \<equiv> 512"

definition fillSuperblock :: "env \<Rightarrow> byte list \<Rightarrow> int \<Rightarrow> Superblock res" where
  "fillSuperblock E m superblock_pointer =
     bnd (getMeta E m (superblock_pointer + 13) 1) (\<lambda>so. let so = u8 so in
     bnd (getMeta E m (superblock_pointer + 14) 1) (\<lambda>sl. let sl = u8 sl in
     bnd (getMeta E m (superblock_pointer + 16) 2) (\<lambda>lk.
     bnd (getMeta E m (superblock_pointer + 18) 2) (\<lambda>ik.
     bnd (getMeta E m (superblock_pointer + 24) so) (\<lambda>base. let base = i64 base; sps_start = superblock_pointer + 80 in
     bnd (getMeta E m sps_start so) (\<lambda>rt.
     bnd (getMeta E m (sps_start + so) so) (\<lambda>rh.
       Inr \<lparr>size_of_offsets = so, size_of_lengths = sl, leaf_node_k = u16 lk, internal_node_k = u16 ik,
            sym_table_entry_size = u16 (2 * so + 4 + 4 + 16), base_address = base,
            root_tree_address = i64 (i64 rt + base), root_heap_address = i64 (i64 rh + base)\<rparr>)))))))"

text \<open>The address moves by 512 up to the file size, so \<open>file_size / 512 + 2\<close> turns are enough.\<close>

fun find_superblock_loop :: "env \<Rightarrow> nat \<Rightarrow> int \<Rightarrow> (nat option, gstate) act" where
  "find_superblock_loop E 0 chunk_address = fail OutOfFuel"
| "find_superblock_loop E (Suc n) chunk_address =
     (if u64 chunk_address < file_size E then
        andthen (navigated E chunk_address SUPERBLOCK_INTERVAL) (\<lambda>i.
        andthen (st_view E i) (\<lambda>(m, p).
        andthen (lift_res (rd m p 8)) (\<lambda>sig.
          if sig = FORMAT_SIG then ret (Some i)
          else andthen (st_releasePages i) (\<lambda>_.
            find_superblock_loop E n (chunk_address + SUPERBLOCK_INTERVAL)))))
      else ret None)"

definition findSuperblock :: "env \<Rightarrow> (nat option, gstate) act" where
  "findSuperblock E = find_superblock_loop E (nat (file_size E div SUPERBLOCK_INTERVAL) + 2) 0"

definition getSuperblock :: "env \<Rightarrow> (Superblock, gstate) act" where
  "getSuperblock E =
     andthen (findSuperblock E) (\<lambda>o_id.
       case o_id of
         None \<Rightarrow> fail (Abort ''getmatvar:superblockNotFoundError'')
       | Some i \<Rightarrow> andthen (st_view E i) (\<lambda>(m, p). lift_res (fillSuperblock E m p)))"

section \<open>Reading back a written superblock\<close>

text \<open>The layout of a version 0 superblock with addresses of \<open>so\<close> bytes.\<close>

definition superblock_bytes :: "nat \<Rightarrow> int \<Rightarrow> int \<Rightarrow> int \<Rightarrow> int \<Rightarrow> int \<Rightarrow> int \<Rightarrow> byte list \<Rightarrow> byte list \<Rightarrow>
    byte list \<Rightarrow> byte list" where
  "superblock_bytes so sl lk ik base tree heap f1 f2 f3 =
     FORMAT_SIG @ f1 @ le_bytes 1 (int so) @ le_bytes 1 sl @ [0] @ le_bytes 2 lk @ le_bytes 2 ik @ f2 @
     le_bytes so base @ f3 @ le_bytes so tree @ le_bytes so heap"


text \<open>Searching finds the first multiple of 512 that has the signature.\<close>

definition sig_at :: "env \<Rightarrow> int \<Rightarrow> bool" where
  "sig_at E a \<longleftrightarrow> take 8 (drop (nat a) (file_bytes E)) = FORMAT_SIG"

lemma padded_sig: "0 \<le> a \<Longrightarrow> take 8 (drop (nat a) (padded E)) = FORMAT_SIG \<longleftrightarrow> sig_at E a"
proof -
  assume "0 \<le> a"
  let ?xs = "drop (nat a) (file_bytes E)"
  have eq: "take 8 (xs @ replicate k 0) = FORMAT_SIG \<longleftrightarrow> take 8 xs = FORMAT_SIG" for xs :: "byte list" and k
  proof (cases "8 \<le> length xs")
    case False
    have "take 8 xs \<noteq> FORMAT_SIG"
    proof
      assume "take 8 xs = FORMAT_SIG"
      then have "length (take 8 xs) = 8" by (simp add: FORMAT_SIG_def)
      with False show False by simp
    qed
    moreover have "take 8 (xs @ replicate k 0) \<noteq> FORMAT_SIG"
    proof
      assume e: "take 8 (xs @ replicate k 0) = FORMAT_SIG"
      then have l: "length (take 8 (xs @ replicate k 0)) = 8" by (simp add: FORMAT_SIG_def)
      then have "take 8 (xs @ replicate k 0) ! 7 = 0" using False by (simp add: nth_append)
      with e show False by (simp add: FORMAT_SIG_def)
    qed
    ultimately show ?thesis by simp
  qed simp
  have d: "drop (nat a) (padded E) = ?xs @ replicate (nat ((- file_size E) mod gran E) - (nat a - length (file_bytes E))) 0"
    by (simp add: padded_def)
  show ?thesis unfolding sig_at_def d by (rule eq)
qed

lemma releasePages_inv:
  assumes "map_inv E g" "curr_mmap_usage g = u64 (mapped_total g)" "st_releasePages i g = (Inr u, g')"
  shows "map_inv E g'" "curr_mmap_usage g' = u64 (mapped_total g')"
    "\<forall>j m. slook (maps g') j = Inr m \<longrightarrow> (\<exists>m0. slook (maps g) j = Inr m0 \<and> num_using m \<le> num_using m0)"
proof -
  from assms(3) obtain m where m: "slook (maps g) i = Inr m" "num_using m \<noteq> 0"
    and g': "g' = g\<lparr>maps := (maps g)[i := Some (m\<lparr>num_using := num_using m - 1\<rparr>)]\<rparr>"
    by (auto simp: st_releasePages_def andthen_Inr put_map_def split: if_splits)
  let ?m = "m\<lparr>num_using := num_using m - 1\<rparr>"
  have i: "i < length (maps g)" "maps g ! i = Some m" using m by (auto simp: slook_Inr)
  have "map_ok E m" using assms(1) m by (auto simp: map_inv_def)
  then have ok': "map_ok E ?m" using m by (auto simp: map_ok_def split: if_splits)
  have ms': "maps g' = (maps g)[i := Some ?m]" by (simp add: g')
  have "live (maps g') = live (maps g)" using i by (auto simp: live_def ms' nth_list_update)
  moreover have "\<forall>j n. slook (maps g') j = Inr n \<longrightarrow> map_ok E n"
    using assms(1) i ok' by (auto simp: map_inv_def slook_Inr ms' nth_list_update split: if_splits)
  ultimately show "map_inv E g'" using assms(1) by (auto simp: map_inv_def g')
  show "curr_mmap_usage g' = u64 (mapped_total g')"
    using assms(2) i by (simp add: g' mapped_total_def mapped_total_upd mapped_size_def)
  show "\<forall>j m. slook (maps g') j = Inr m \<longrightarrow> (\<exists>m0. slook (maps g) j = Inr m0 \<and> num_using m \<le> num_using m0)"
    using i by (auto simp: ms' slook_Inr nth_list_update split: if_splits)
qed


definition scan_pre :: "env \<Rightarrow> gstate \<Rightarrow> bool" where
  "scan_pre E g \<longleftrightarrow> map_inv E g \<and> curr_mmap_usage g = u64 (mapped_total g) \<and>
     file_size E < 2 ^ 62 \<and> 0 < gran E \<and> gran E < 2 ^ 62 \<and>
     (\<forall>i m. slook (maps g) i = Inr m \<longrightarrow> num_using m < 2 ^ 32 - 1)"

lemma visit_pre:
  assumes "scan_pre E g" "nav_post E g a n i g1" "st_releasePages i g1 = (Inr u, g2)"
  shows "scan_pre E g2"
proof -
  have 1: "map_inv E g1" "curr_mmap_usage g1 = u64 (mapped_total g1)" "counts_one g i g1"
    using assms(2) by (simp_all add: nav_post_def)
  note rel = releasePages_inv [OF 1(1,2) assms(3)]
  have "num_using m < 2 ^ 32 - 1" if j: "slook (maps g2) j = Inr m" for j m
  proof -
    obtain mi where mi: "slook (maps g1) i = Inr mi" "num_using mi \<noteq> 0"
      and g2: "maps g2 = (maps g1)[i := Some (mi\<lparr>num_using := num_using mi - 1\<rparr>)]"
      using assms(3) by (auto simp: st_releasePages_def andthen_Inr put_map_def split: if_splits)
    show ?thesis
    proof (cases "j = i")
      case True
      then have "num_using m = num_using mi - 1" using j g2 mi by (auto simp: slook_Inr)
      moreover have "num_using mi = (case slook (maps g) i of Inr m0 \<Rightarrow> num_using m0 + 1 | Inl _ \<Rightarrow> 1)"
        using 1(3) mi unfolding counts_one_def by auto
      ultimately show ?thesis using assms(1) by (auto simp: scan_pre_def split: sum.splits)
    next
      case False
      then have "slook (maps g1) j = Inr m" using j g2 by simp
      with 1(3) [unfolded counts_one_def, rule_format, of j m] False
      obtain m0 where "slook (maps g) j = Inr m0" "num_using m = num_using m0" by auto
      with assms(1) show ?thesis by (auto simp: scan_pre_def)
    qed
  qed
  with rel(1,2) assms(1) show ?thesis by (auto simp: scan_pre_def)
qed

lemma find_loop_spec:
  "scan_pre E g \<Longrightarrow> 0 \<le> a \<Longrightarrow> a < 2 ^ 63 \<Longrightarrow> find_superblock_loop E n a g = (Inr r, g') \<Longrightarrow>
   (case r of
      None \<Rightarrow> \<forall>k. a + 512 * int k < file_size E \<longrightarrow> \<not> sig_at E (a + 512 * int k)
    | Some i \<Rightarrow> \<exists>k. sig_at E (a + 512 * int k) \<and> (\<forall>j < k. \<not> sig_at E (a + 512 * int j)) \<and>
        map_inv E g' \<and> shows_at E g' i (a + 512 * int k) (min 512 (file_size E - (a + 512 * int k))))"
proof (induction n arbitrary: a g)
  case (Suc n)
  have ua: "u64 a = a" using Suc.prems(2,3) by (simp add: u64_id)
  show ?case
  proof (cases "u64 a < file_size E")
    case False
    with ua Suc.prems show ?thesis by auto
  next
    case True
    with Suc.prems(4) obtain i g1 v off g2 sig where nav: "st_navigateTo E a 512 g = (Inr i, g1)"
      and view: "st_view E i g1 = (Inr (v, off), g2)" and sig: "rd v off 8 = Inr sig"
      and rest: "(if sig = FORMAT_SIG then ret (Some i) else andthen (st_releasePages i) (\<lambda>_.
            find_superblock_loop E n (a + 512))) g2 = (Inr r, g')"
      by (auto simp: andthen_Inr navigated_ok)
    have fs: "file_size E < 2 ^ 62" "0 < gran E" using Suc.prems(1) by (simp_all add: scan_pre_def)
    have af: "a < file_size E" using True ua by simp
    then have pre: "nav_pre E g a 512" using Suc.prems(1,2) by (simp add: scan_pre_def nav_pre_def)
    note post = st_navigateTo_inv [OF pre nav]
    have sh: "shows_at E g1 i a (min 512 (file_size E - a))" "map_inv E g1"
      using post by (simp_all add: nav_post_def)
    note vp = st_view_padded [OF sh fs(2) view]
    have "sig = take 8 (drop (nat a) (padded E))" using vp(2) [of 0 8 sig] sig by simp
    then have s: "sig = FORMAT_SIG \<longleftrightarrow> sig_at E a" using padded_sig Suc.prems(2) by simp
    show ?thesis
    proof (cases "sig = FORMAT_SIG")
      case True
      with rest vp(1) s sh show ?thesis by (auto intro!: exI [of _ 0])
    next
      case False
      with rest vp(1) obtain u g3 where rel: "st_releasePages i g1 = (Inr u, g3)"
        and loop: "find_superblock_loop E n (a + 512) g3 = (Inr r, g')" by (auto simp: andthen_Inr)
      have g3: "scan_pre E g3" by (rule visit_pre [OF Suc.prems(1) post rel])
      have a3: "a + 512 < 2 ^ 63" using af fs by simp
      note IH = Suc.IH [OF g3 _ a3 loop]
      show ?thesis
      proof (cases r)
        case None
        have "\<not> sig_at E (a + 512 * int k)" if k: "a + 512 * int k < file_size E" for k
        proof (cases k)
          case 0
          with False s show ?thesis by simp
        next
          case (Suc j)
          with IH None Suc.prems(2) k show ?thesis by (auto simp: algebra_simps)
        qed
        with None show ?thesis by simp
      next
        case (Some i')
        with IH Suc.prems(2) obtain k where k: "sig_at E (a + 512 + 512 * int k)"
          "\<forall>j < k. \<not> sig_at E (a + 512 + 512 * int j)" "map_inv E g'"
          "shows_at E g' i' (a + 512 + 512 * int k) (min 512 (file_size E - (a + 512 + 512 * int k)))" by auto
        have "\<not> sig_at E (a + 512 * int j)" if "j < Suc k" for j
        proof (cases j)
          case 0
          with False s show ?thesis by simp
        next
          case (Suc l)
          with k(2) that show ?thesis by (auto simp: algebra_simps)
        qed
        with k Some show ?thesis by (auto intro!: exI [of _ "Suc k"] simp: algebra_simps)
      qed
    qed
  qed
qed simp




end
