(* ===== verification/ChunkTreeProps.thy ===== *)
theory ChunkTreeProps
  imports ChunkTree SuperblockModel QueueSpec
begin

text \<open>
  What \<open>fillNode\<close> does, without the mappings: \<open>leaves_at\<close> reads the chunk tree straight from the bytes
  of the file, and a call of \<open>fillNode\<close> that returns has added exactly these leaves, in their order, to
  the buckets and the page objects. The same lemmas serve every reader that goes through
  \<open>st_navigateTo\<close>: \<open>visit\<close> says what may have changed between two navigations.
\<close>

named_theorems keeping

section \<open>What a navigation leaves alone\<close>

definition keeps :: "(gstate \<Rightarrow> 'b) \<Rightarrow> ('a, gstate) act \<Rightarrow> bool" where
  "keeps f m \<longleftrightarrow> (\<forall>g x g'. m g = (Inr x, g') \<longrightarrow> f g' = f g)"

lemma keepsD: "keeps f m \<Longrightarrow> m g = (Inr x, g') \<Longrightarrow> f g' = f g"
  by (simp add: keeps_def)

lemma keeps_andthen [keeping]: "keeps f m \<Longrightarrow> (\<And>x. keeps f (k x)) \<Longrightarrow> keeps f (andthen m k)"
  unfolding keeps_def andthen_Inr by metis

lemma keeps_simps [simp]: "keeps f (ret x)" "keeps f (Pair (Inr x))" "keeps f (gets h)" "keeps f (guard b e)"
  "keeps f (lift_res r)" "keeps f (nn y)" "keeps f (get_map i)" "keeps f (fail e)" "keeps f (st_view E i)"
  by (auto simp: keeps_def gets_def guard_def lift_res_def nn_def ret_def get_map_def fail_def st_view_def andthen_Inr
      split: option.splits)

lemma keeps_if [keeping]: "(b \<Longrightarrow> keeps f m) \<Longrightarrow> (\<not> b \<Longrightarrow> keeps f m') \<Longrightarrow> keeps f (if b then m else m')"
  by simp

lemma keeps_option [keeping]: "keeps f m \<Longrightarrow> (\<And>x. keeps f (k x)) \<Longrightarrow> keeps f (case p of None \<Rightarrow> m | Some x \<Rightarrow> k x)"
  by (cases p) simp_all

lemma keeps_let [keeping]: "keeps f (k x) \<Longrightarrow> keeps f (let y = x in k y)"
  by simp

text \<open>Everything but the mappings.\<close>

definition outer :: "gstate \<Rightarrow> gstate" where
  "outer g = g\<lparr>maps := [], map_objects := None, curr_mmap_usage := 0, max_mmap_usage := 0\<rparr>"

lemma outerD:
  assumes "outer g = outer h"
  shows "s_block g = s_block h" "page_objects g = page_objects h" "data_page_buckets g = data_page_buckets h"
    "objs g = objs h" "mt_data_queue g = mt_data_queue h" "is_super_mapped g = is_super_mapped h"
    "g_num_pages g = g_num_pages h" "num_threads_user_def g = num_threads_user_def h" "num_avail_threads g = num_avail_threads h"
    "will_multithread g = will_multithread h"
  using assms unfolding outer_def by (cases g, cases h, simp)+

lemma outer_basic [simp]: "keeps outer (mq_op f)" "keeps outer (put_map i m)"
  by (auto simp: keeps_def mq_op_def put_map_def modify_def outer_def split: option.splits sum.splits)

lemma outer_unmap [keeping]: "keeps outer (unmap E e m)"
  unfolding unmap_def by (intro keeping; simp?) (simp add: keeps_def modify_def outer_def)

lemma outer_free [keeping]: "keeps outer (freeMapObject E i)"
  unfolding freeMapObject_def by (intro keeping) simp_all

lemma outer_scan [keeping]: "keeps outer (nav_scan n a b)"
  by (induction n) (auto intro!: keeping)

lemma outer_clean [keeping]: "keeps outer (nav_clean E n)"
  by (induction n) (auto intro!: keeping)

lemma outer_evict [keeping]: "keeps outer (nav_evict E)"
  unfolding nav_evict_def by (intro keeping) simp_all

lemma outer_navigate: "keeps outer (st_navigateTo E a n)"
proof -
  have "keeps outer (modify (\<lambda>g. g\<lparr>maps := maps g @ [Some m]\<rparr>))" for m by (simp add: keeps_def modify_def outer_def)
  moreover have "keeps outer (modify (\<lambda>g. let u = u64 (curr_mmap_usage g + b)
      in g\<lparr>curr_mmap_usage := u, max_mmap_usage := max u (max_mmap_usage g)\<rparr>))" for b
    by (simp add: keeps_def modify_def outer_def Let_def)
  ultimately show ?thesis unfolding st_navigateTo_def by (intro keeping) simp_all
qed

lemma outer_release: "keeps outer (st_releasePages i)"
  unfolding st_releasePages_def by (intro keeping) simp_all

section \<open>Visiting a part of the file\<close>

definition used :: "gstate \<Rightarrow> nat \<Rightarrow> int" where
  "used g i = (case slook (maps g) i of Inr m \<Rightarrow> num_using m | Inl _ \<Rightarrow> 0)"

text \<open>The mappings are in order, and none has more than \<open>b\<close> users.\<close>

definition nav_state :: "env \<Rightarrow> int \<Rightarrow> gstate \<Rightarrow> bool" where
  "nav_state E b g \<longleftrightarrow> map_inv E g \<and> curr_mmap_usage g = u64 (mapped_total g) \<and> (\<forall>i. used g i \<le> b)"

definition env_ok :: "env \<Rightarrow> bool" where
  "env_ok E \<longleftrightarrow> file_size E < 2 ^ 62 \<and> 0 < gran E \<and> gran E < 2 ^ 62"

lemma used_nonneg: "map_inv E g \<Longrightarrow> 0 \<le> used g i"
  by (auto simp: used_def map_inv_def map_ok_def split: sum.splits)

lemma nav_visit:
  assumes env: "env_ok E" and st: "nav_state E b g" and b: "b < 2 ^ 32 - 1"
    and a: "0 \<le> a" "a < file_size E" "0 < n" "n < 2 ^ 62" and run: "st_navigateTo E a n g = (Inr i, g')"
  shows "nav_state E (b + 1) g'" "shows_at E g' i a (min n (file_size E - a))" "map_inv E g'" "outer g' = outer g"
    "\<And>j. used g' j = used g j + of_bool (j = i)"
proof -
  have "num_using m < 2 ^ 32 - 1" if "slook (maps g) j = Inr m" for j m
    using st that b unfolding nav_state_def used_def by (metis le_less_trans sum.case(2))
  then have pre: "nav_pre E g a n" using env st a unfolding nav_pre_def nav_state_def env_ok_def by blast
  have post: "map_inv E g'" "curr_mmap_usage g' = u64 (mapped_total g')" "counts_one g i g'"
    "shows_at E g' i a (min n (file_size E - a))" "keeps_used g g'"
    using st_navigateTo_inv [OF pre run] by (simp_all add: nav_post_def)
  show "map_inv E g'" "shows_at E g' i a (min n (file_size E - a))" by (rule post)+
  show "outer g' = outer g" using keepsD [OF outer_navigate run] .
  show u: "used g' j = used g j + of_bool (j = i)" for j
  proof (cases "slook (maps g') j")
    case (Inr m)
    from post(3) [unfolded counts_one_def, rule_format, OF Inr] show ?thesis
      using Inr by (auto simp: used_def split: if_splits sum.splits)
  next
    case (Inl e)
    have "j \<noteq> i" using post(4) Inl by (auto simp: shows_at_def)
    moreover have "used g j = 0"
    proof (rule ccontr)
      assume "used g j \<noteq> 0"
      then obtain m where "slook (maps g) j = Inr m" "0 < num_using m"
        using used_nonneg [of E g j] st by (auto simp: used_def nav_state_def split: sum.splits)
      with post(5) Inl show False unfolding keeps_used_def by force
    qed
    ultimately show ?thesis using Inl by (simp add: used_def)
  qed
  show "nav_state E (b + 1) g'"
    unfolding nav_state_def
  proof (intro conjI allI)
    fix j have "used g j \<le> b" using st by (simp add: nav_state_def)
    then show "used g' j \<le> b + 1" using u [of j] by (cases "j = i") simp_all
  qed (rule post)+
qed

lemma release_visit:
  assumes st: "nav_state E b g" and run: "st_releasePages i g = (Inr u, g')"
  shows "map_inv E g'" "curr_mmap_usage g' = u64 (mapped_total g')" "outer g' = outer g"
    "\<And>j. used g' j = used g j - of_bool (j = i)"
proof -
  have inv: "map_inv E g" "curr_mmap_usage g = u64 (mapped_total g)" using st by (simp_all add: nav_state_def)
  show "map_inv E g'" "curr_mmap_usage g' = u64 (mapped_total g')" by (rule releasePages_inv [OF inv run])+
  show "outer g' = outer g" using keepsD [OF outer_release run] .
  obtain m where m: "slook (maps g) i = Inr m" "maps g' = (maps g)[i := Some (m\<lparr>num_using := num_using m - 1\<rparr>)]"
    using run by (auto simp: st_releasePages_def andthen_Inr put_map_def modify_def fail_def split: if_splits)
  then show "used g' j = used g j - of_bool (j = i)" for j
    using slook_range [OF m(1)] by (cases "j = i") (simp_all add: used_def)
qed

text \<open>A part of the program that has given back every mapping it took.\<close>

definition calm :: "env \<Rightarrow> int \<Rightarrow> gstate \<Rightarrow> gstate \<Rightarrow> bool" where
  "calm E b g g' \<longleftrightarrow> nav_state E b g' \<and> (\<forall>i. used g' i = used g i)"

lemma calm_refl: "nav_state E b g \<Longrightarrow> calm E b g g"
  by (simp add: calm_def)

lemma calm_trans: "calm E b g h \<Longrightarrow> calm E b h k \<Longrightarrow> calm E b g k"
  unfolding calm_def by simp

lemma calm_visit:
  assumes nav: "nav_state E b g" and v: "\<And>j. used g1 j = used g j + of_bool (j = i)"
    and c: "calm E (b + 1) g1 g2" and r: "st_releasePages i g2 = (Inr u, g3)"
  shows "calm E b g g3" "outer g3 = outer g2"
proof -
  have n2: "nav_state E (b + 1) g2" using c by (simp add: calm_def)
  note rel = release_visit [OF n2 r]
  show "outer g3 = outer g2" by (rule rel)
  have u: "used g3 j = used g j" for j
    using v [of j] c rel(4) [of j] by (simp add: calm_def)
  then have "used g3 j \<le> b" for j using nav by (simp add: nav_state_def)
  then show "calm E b g g3" using rel u by (simp add: calm_def nav_state_def)
qed

section \<open>Reading through a mapping\<close>

definition reads_file :: "env \<Rightarrow> byte list \<Rightarrow> int \<Rightarrow> int \<Rightarrow> bool" where
  "reads_file E m p a \<longleftrightarrow> (\<forall>q k bs. 0 \<le> q \<longrightarrow> 0 < k \<longrightarrow> rd m (p + q) k = Inr bs \<longrightarrow> rd (padded E) (a + q) k = Inr bs)"

lemma reads_rd: "reads_file E m p a \<Longrightarrow> 0 \<le> q \<Longrightarrow> 0 < k \<Longrightarrow> rd m (p + q) k = Inr bs \<Longrightarrow> rd (padded E) (a + q) k = Inr bs"
  by (simp add: reads_file_def)

lemma reads_shift: "reads_file E m p a \<Longrightarrow> 0 \<le> k \<Longrightarrow> reads_file E m (p + k) (a + k)"
  unfolding reads_file_def by (metis add.assoc add_nonneg_nonneg)

lemma reads_meta:
  assumes r: "reads_file E m p a" and q: "0 \<le> q" and n: "0 < n" and g: "getMeta E m (p + q) n = Inr v"
  shows "getMeta E (padded E) (a + q) n = Inr v"
proof (cases "8 < n")
  case True
  have "rd (padded E) (a + (q + (n - 8))) 8 = Inr bs" if "rd m (p + (q + (n - 8))) 8 = Inr bs" for bs
    using reads_rd [OF r _ _ that] q True by simp
  moreover have "rd (padded E) (a + q) 8 = Inr bs" if "rd m (p + q) 8 = Inr bs" for bs
    using reads_rd [OF r q _ that] by simp
  ultimately show ?thesis
    using g True by (auto simp: getMeta_def getBytesAsNumber_def add.assoc split: if_splits)
next
  case False
  have "rd (padded E) (a + q) n = Inr bs" if "rd m (p + q) n = Inr bs" for bs using reads_rd [OF r q n that] .
  then show ?thesis
    using g False by (auto simp: getMeta_def getBytesAsNumber_def Let_def split: if_splits)
qed

lemma reads_nums:
  "reads_file E m p a \<Longrightarrow> 0 \<le> q \<Longrightarrow> 0 < w \<Longrightarrow> read_nums E m (p + q) w n = Inr xs \<Longrightarrow> read_nums E (padded E) (a + q) w n = Inr xs"
proof (induction n arbitrary: q xs)
  case (Suc n)
  obtain x ys where x: "getMeta E m (p + q) w = Inr x" "read_nums E m (p + (q + w)) w n = Inr ys" "xs = x # ys"
    using Suc.prems(4) by (auto simp: add.assoc)
  then show ?case
    using reads_meta [OF Suc.prems(1,2,3) x(1)] Suc.IH [OF Suc.prems(1) _ Suc.prems(3) x(2)] Suc.prems(2,3)
    by (simp add: add.assoc)
qed simp

lemma view_reads:
  assumes "shows_at E g i a n" "map_inv E g" "env_ok E" "st_view E i g = (Inr (m, p), g')" "0 \<le> a"
  shows "g' = g" "reads_file E m p a"
proof -
  have e: "0 < gran E" using assms(3) by (simp add: env_ok_def)
  show "g' = g" by (rule st_view_padded [OF assms(1,2) e assms(4)])
  show "reads_file E m p a"
    unfolding reads_file_def
  proof (intro allI impI)
    fix q k bs assume q: "0 \<le> q" and k: "0 < k" and r: "rd m (p + q) k = Inr bs"
    have "bs = take (nat k) (drop (nat (a + q)) (padded E))"
      using st_view_padded(2) [OF assms(1,2) e assms(4) q r] .
    moreover have "0 \<le> k" "length bs = nat k" using r by (auto simp: rd_def split: if_splits)
    ultimately show "rd (padded E) (a + q) k = Inr bs" using assms(5) q k by (auto simp: rd_def min_def split: if_splits)
  qed
qed

section \<open>The tree in the file\<close>

definition key_pair :: "env \<Rightarrow> int \<Rightarrow> int \<Rightarrow> int \<Rightarrow> DataPair res" where
  "key_pair E ka n address =
     bnd (getMeta E (padded E) ka 4) (\<lambda>cs.
     bnd (read_nums E (padded E) (ka + 8) 8 (nat n)) (\<lambda>xs.
       Inr \<lparr>dp_address = address, dp_chunk_size = u32 cs, dp_chunk_start = rev (map i64 xs) @ [0]\<rparr>))"

fun leaves_at :: "env \<Rightarrow> Superblock \<Rightarrow> nat \<Rightarrow> int \<Rightarrow> int \<Rightarrow> (bool \<times> DataPair list) res"
and leaf_entries :: "env \<Rightarrow> Superblock \<Rightarrow> nat \<Rightarrow> int \<Rightarrow> int \<Rightarrow> nat \<Rightarrow> DataPair list res" where
  "leaves_at E sb 0 n a = Inl OutOfFuel"
| "leaves_at E sb (Suc fuel) n a =
     (if a = UNDEF_ADDR then Inr (False, [])
      else if \<not> (0 \<le> a \<and> a < file_size E) then Inl Fault
      else
        bnd (rd (padded E) a 4) (\<lambda>sig.
          if sig \<noteq> ascii ''TREE'' then Inr (sig \<noteq> ascii ''SNOD'', [])
          else
            bnd (getMeta E (padded E) (a + 4) 1) (\<lambda>t.
            bnd (getMeta E (padded E) (a + 6) 2) (\<lambda>eu.
            let ka = a + 8 + 2 * size_of_offsets sb in
              if node_cast t \<noteq> CHUNK then Inl (RetErr ''getmatvar:wrongNodeType'')
              else if file_size E \<le> ka then Inl Fault
              else bnd (leaf_entries E sb fuel n ka (nat (u16 eu))) (\<lambda>ls. Inr (False, ls))))))"
| "leaf_entries E sb fuel n ka 0 = Inr []"
| "leaf_entries E sb fuel n ka (Suc k) =
     (let key_size = 8 + (n + 1) * 8 in
      bnd (getMeta E (padded E) (ka + key_size) (size_of_offsets sb)) (\<lambda>c.
      let child = i64 (i64 c + base_address sb) in
      bnd (leaves_at E sb fuel n child) (\<lambda>(raw, ls).
      bnd (if raw then bnd (key_pair E ka n child) (\<lambda>dp. Inr [dp]) else Inr []) (\<lambda>dps.
      bnd (leaf_entries E sb fuel n (ka + key_size + size_of_offsets sb) k) (\<lambda>rest.
        Inr (ls @ dps @ rest))))))"

definition on_page :: "env \<Rightarrow> nat \<Rightarrow> DataPair \<Rightarrow> bool" where
  "on_page E i dp \<longleftrightarrow> page_of E (dp_address dp) = int i"

text \<open>How far the chunks that start in page \<open>i\<close> reach.\<close>

definition reach :: "env \<Rightarrow> nat \<Rightarrow> DataPair list \<Rightarrow> int \<Rightarrow> int" where
  "reach E i ls m0 = foldl (\<lambda>m dp. max m (u64 (u64 (dp_address dp) mod gran E + dp_chunk_size dp))) m0 (filter (on_page E i) ls)"

text \<open>The pages \<open>ps0\<close> and empty buckets, after the leaves \<open>ls\<close> have been added.\<close>

definition tree_state :: "env \<Rightarrow> pageObject list \<Rightarrow> DataPair list \<Rightarrow> gstate \<Rightarrow> bool" where
  "tree_state E ps0 ls g \<longleftrightarrow> (\<forall>dp \<in> set ls. \<exists>k < length ps0. on_page E k dp) \<and>
     (\<exists>ps bs. page_objects g = Some ps \<and> data_page_buckets g = Some bs \<and> length ps = length ps0 \<and> length bs = length ps0 \<and>
       (\<forall>i < length ps0. ps ! i = (ps0 ! i)\<lparr>total_num_mappings := u32 (total_num_mappings (ps0 ! i) + int (length (filter (on_page E i) ls))),
          max_map_size := reach E i ls (max_map_size (ps0 ! i))\<rparr>) \<and>
       (\<forall>i < length ps0. lq_rep (bs ! i) [] (filter (on_page E i) ls)))"

definition inner :: "gstate \<Rightarrow> gstate" where
  "inner g = (outer g)\<lparr>page_objects := None, data_page_buckets := None\<rparr>"

lemma inner_outer: "outer g = outer h \<Longrightarrow> inner g = inner h"
  by (simp add: inner_def)

lemma tree_state_outer: "outer g = outer h \<Longrightarrow> tree_state E ps0 ls g = tree_state E ps0 ls h"
  using outerD [of g h] by (simp add: tree_state_def)

lemma inner_block: "inner g = inner h \<Longrightarrow> s_block g = s_block h"
  unfolding inner_def outer_def by (cases g, cases h) simp

lemma u32_next: "u32 (u32 (t + k) + 1) = u32 (t + (k + 1))"
  by (simp add: u32_def mod_add_left_eq add.assoc)

lemma reach_snoc:
  "on_page E i dp \<Longrightarrow> reach E i (ls @ [dp]) m0 = max (reach E i ls m0) (u64 (u64 (dp_address dp) mod gran E + dp_chunk_size dp))"
  "\<not> on_page E i dp \<Longrightarrow> reach E i (ls @ [dp]) m0 = reach E i ls m0"
  by (simp_all add: reach_def)

lemma add_leaf_state:
  assumes st: "tree_state E ps0 ls g" and run: "add_leaf E dp g = (Inr u, g')"
  shows "tree_state E ps0 (ls @ [dp]) g'" "inner g' = inner g" "maps g' = maps g" "map_objects g' = map_objects g"
    "curr_mmap_usage g' = curr_mmap_usage g"
proof -
  obtain ps bs where ps: "page_objects g = Some ps" "data_page_buckets g = Some bs" "length ps = length ps0" "length bs = length ps0"
    "\<And>i. i < length ps0 \<Longrightarrow> ps ! i = (ps0 ! i)\<lparr>total_num_mappings := u32 (total_num_mappings (ps0 ! i) + int (length (filter (on_page E i) ls))),
          max_map_size := reach E i ls (max_map_size (ps0 ! i))\<rparr>"
    "\<And>i. i < length ps0 \<Longrightarrow> lq_rep (bs ! i) [] (filter (on_page E i) ls)"
    using st unfolding tree_state_def by blast
  have all: "\<forall>dp \<in> set ls. \<exists>k < length ps0. on_page E k dp" using st by (simp add: tree_state_def)
  have "0 \<le> page_of E (dp_address dp) \<and> page_of E (dp_address dp) < int (length ps0)"
    using run ps(1,3) by (auto simp: add_leaf_def Let_def andthen_Inr get_page_Inr)
  then obtain k where k: "page_of E (dp_address dp) = int k" "k < length ps0" by (metis nonneg_int_cases of_nat_less_iff)
  obtain b where b: "lq_enqueue (bs ! k) dp = Inr b" "lq_rep b [] (filter (on_page E k) ls @ [dp])"
    using lqf.enq_law [OF ps(6) [OF k(2)]] by auto
  let ?p = "(ps ! k)\<lparr>total_num_mappings := u32 (total_num_mappings (ps ! k) + 1),
        max_map_size := max (max_map_size (ps ! k)) (u64 (u64 (dp_address dp) mod gran E + dp_chunk_size dp))\<rparr>"
  have g': "g' = g\<lparr>page_objects := Some (ps[k := ?p]), data_page_buckets := Some (bs[k := b])\<rparr>"
    using run ps(1-4) k b(1)
    by (auto simp: add_leaf_def Let_def andthen_Inr get_page_Inr put_page_def modify_def bucket_add_def gets_def nn_def lift_res_def)
  show "inner g' = inner g" "maps g' = maps g" "map_objects g' = map_objects g" "curr_mmap_usage g' = curr_mmap_usage g"
    by (simp_all add: g' inner_def outer_def)
  have on: "on_page E i dp \<longleftrightarrow> i = k" for i using k by (auto simp: on_page_def)
  show "tree_state E ps0 (ls @ [dp]) g'"
    unfolding tree_state_def
  proof (intro exI conjI allI impI)
    show "\<forall>dp \<in> set (ls @ [dp]). \<exists>k < length ps0. on_page E k dp" using all on k(2) by auto
    show "page_objects g' = Some (ps[k := ?p])" "data_page_buckets g' = Some (bs[k := b])" by (simp_all add: g')
    show "length (ps[k := ?p]) = length ps0" "length (bs[k := b]) = length ps0" using ps by simp_all
  next
    fix i assume i: "i < length ps0"
    show "ps[k := ?p] ! i = (ps0 ! i)\<lparr>total_num_mappings := u32 (total_num_mappings (ps0 ! i) +
        int (length (filter (on_page E i) (ls @ [dp])))), max_map_size := reach E i (ls @ [dp]) (max_map_size (ps0 ! i))\<rparr>"
    proof (cases "i = k")
      case True
      have "u32 (u32 (total_num_mappings (ps0 ! k) + int (length (filter (on_page E k) ls))) + 1) =
          u32 (total_num_mappings (ps0 ! k) + int (length (filter (on_page E k) (ls @ [dp]))))"
        unfolding u32_next by (simp add: on add.commute)
      moreover have "ps[k := ?p] ! k = ?p" using ps(3) k(2) by simp
      ultimately show ?thesis unfolding True using ps(5) [OF k(2)] reach_snoc(1) [of E k dp] on by simp
    next
      case False
      then show ?thesis using ps(5) [OF i] reach_snoc(2) [of E i dp] on by simp
    qed
    show "lq_rep (bs[k := b] ! i) [] (filter (on_page E i) (ls @ [dp]))"
      using ps(4) ps(6) [OF i] i k(2) b(2) by (cases "i = k") (simp_all add: on)
  qed
qed

section \<open>fillNode reads the tree\<close>

definition added :: "env \<Rightarrow> int \<Rightarrow> pageObject list \<Rightarrow> DataPair list \<Rightarrow> DataPair list \<Rightarrow> gstate \<Rightarrow> gstate \<Rightarrow> bool" where
  "added E b ps0 ls0 ls g g' \<longleftrightarrow> calm E b g g' \<and> tree_state E ps0 (ls0 @ ls) g' \<and> inner g' = inner g"

definition node_adds :: "env \<Rightarrow> int \<Rightarrow> Superblock \<Rightarrow> pageObject list \<Rightarrow> nat \<Rightarrow> int \<Rightarrow> bool" where
  "node_adds E b sb ps0 fuel n \<longleftrightarrow>
     (\<forall>node node' g g' raw ls ls0. nav_state E b g \<longrightarrow> s_block g = sb \<longrightarrow> tree_state E ps0 ls0 g \<longrightarrow>
        leaves_at E sb fuel n (node_address node) = Inr (raw, ls) \<longrightarrow> node_type node \<noteq> RAWDATA \<longrightarrow>
        fillNode E fuel n node g = (Inr node', g') \<longrightarrow>
        added E b ps0 ls0 ls g g' \<and> node_address node' = node_address node \<and> (node_type node' = RAWDATA \<longleftrightarrow> raw))"

lemma added_refl: "nav_state E b g \<Longrightarrow> tree_state E ps0 ls0 g \<Longrightarrow> added E b ps0 ls0 [] g g"
  by (simp add: added_def calm_refl)

lemma added_trans: "added E b ps0 ls0 ls g h \<Longrightarrow> added E b ps0 (ls0 @ ls) ks h k \<Longrightarrow> added E b ps0 ls0 (ls @ ks) g k"
  unfolding added_def using calm_trans by (metis append.assoc)

lemma added_leaf:
  assumes "nav_state E b g" "tree_state E ps0 ls0 g" "add_leaf E dp g = (Inr u, g')"
  shows "added E b ps0 ls0 [dp] g g'"
proof -
  note a = add_leaf_state [OF assms(2,3)]
  have "used g' i = used g i" for i by (simp add: used_def a(3))
  moreover have "map_inv E g' = map_inv E g" "mapped_total g' = mapped_total g"
    using a(3,4) by (simp_all add: map_inv_def mapped_total_def)
  ultimately show ?thesis using assms(1) a by (simp add: added_def calm_def nav_state_def)
qed

lemma read_key_run:
  assumes "reads_file E m kp ka" "read_key E m kp n address g = (Inr dp, g')"
  shows "g' = g" "key_pair E ka n address = Inr dp"
proof -
  obtain cs xs where r: "getMeta E m kp 4 = Inr cs" "read_nums E m (kp + 8) 8 (nat n) = Inr xs"
    "dp = \<lparr>dp_address = address, dp_chunk_size = u32 cs, dp_chunk_start = rev (map i64 xs) @ [0]\<rparr>" "g' = g"
    using assms(2) by (auto simp: read_key_def andthen_Inr guard_def lift_res_def ret_def split: if_splits)
  show "g' = g" by (rule r)
  show "key_pair E ka n address = Inr dp"
    using reads_meta [OF assms(1), of 0 4 cs] reads_nums [OF assms(1), of 8 8 "nat n" xs] r by (simp add: key_pair_def)
qed

lemma entries_add:
  assumes env: "env_ok E" and so: "0 < size_of_offsets sb" and n: "0 \<le> n" and nodes: "node_adds E b sb ps0 fuel n"
  shows "nav_state E b g \<Longrightarrow> s_block g = sb \<Longrightarrow> tree_state E ps0 ls0 g \<Longrightarrow> reads_file E km kp ka \<Longrightarrow>
    leaf_entries E sb fuel n ka k = Inr ls \<Longrightarrow> fill_entries E fuel n km kp k g = (Inr u, g') \<Longrightarrow> added E b ps0 ls0 ls g g'"
proof (induction k arbitrary: kp ka ls ls0 g)
  case 0
  then show ?case using added_refl by (simp add: ret_def)
next
  case (Suc k)
  let ?ks = "8 + (n + 1) * 8" and ?so = "size_of_offsets sb"
  note nav = Suc.prems(1) and sb = Suc.prems(2) and ts = Suc.prems(3) and rf = Suc.prems(4)
  obtain c raw ls1 dps ls2 where L: "getMeta E (padded E) (ka + ?ks) ?so = Inr c"
    "leaves_at E sb fuel n (i64 (c + base_address sb)) = Inr (raw, ls1)"
    "(if raw then bnd (key_pair E ka n (i64 (c + base_address sb))) (\<lambda>dp. Inr [dp]) else Inr []) = Inr dps"
    "leaf_entries E sb fuel n (ka + ?ks + ?so) k = Inr ls2" "ls = ls1 @ dps @ ls2"
    using Suc.prems(5) by (auto simp: Let_def)
  let ?a = "i64 (c + base_address sb)"
  obtain c' sub g1 g2 where F: "getMeta E km (kp + ?ks) ?so = Inr c'"
    "fillNode E fuel n \<lparr>node_address = i64 (c' + base_address sb), node_type = NODETYPE_UNDEFINED, entries_used = 0\<rparr> g = (Inr sub, g1)"
    "(if node_type sub = RAWDATA then andthen (read_key E km kp n (node_address sub)) (add_leaf E) else ret ()) g1 = (Inr (), g2)"
    "fill_entries E fuel n km (kp + ?ks + ?so) k g2 = (Inr u, g')"
  proof -
    have "andthen (lift_res (getMeta E km (kp + ?ks) ?so)) (\<lambda>a.
        andthen (fillNode E fuel n \<lparr>node_address = i64 (a + base_address sb), node_type = NODETYPE_UNDEFINED, entries_used = 0\<rparr>) (\<lambda>sub.
        andthen (if node_type sub = RAWDATA then andthen (read_key E km kp n (node_address sub)) (add_leaf E) else ret ()) (\<lambda>_.
          fill_entries E fuel n km (kp + ?ks + ?so) k))) g = (Inr u, g')"
      using Suc.prems(6) sb by (simp add: Let_def)
    then show thesis unfolding andthen_Inr lift_res_def prod.inject by (elim exE conjE) (rule that; simp)
  qed
  have "c' = c" using reads_meta [OF rf _ so F(1)] L(1) n by simp
  then have sub: "added E b ps0 ls0 ls1 g g1" "node_address sub = ?a" "node_type sub = RAWDATA \<longleftrightarrow> raw"
    using nodes [unfolded node_adds_def, rule_format, OF nav sb ts _ _ F(2), of raw ls1] L(2) by simp_all
  have nav1: "nav_state E b g1" "tree_state E ps0 (ls0 @ ls1) g1" "s_block g1 = sb"
    using sub(1) sb inner_block [of g1 g] by (simp_all add: added_def calm_def)
  have two: "added E b ps0 (ls0 @ ls1) dps g1 g2"
  proof (cases raw)
    case True
    then obtain dp g1' where k: "read_key E km kp n ?a g1 = (Inr dp, g1')" "add_leaf E dp g1' = (Inr (), g2)"
      using F(3) sub by (auto simp: andthen_Inr)
    note rk = read_key_run [OF rf k(1)]
    have "dps = [dp]" using L(3) rk(2) True by simp
    then show ?thesis using added_leaf [OF nav1(1,2)] k(2) rk(1) by simp
  next
    case False
    then show ?thesis using F(3) L(3) sub added_refl [OF nav1(1,2)] by (simp add: ret_def)
  qed
  have nav2: "nav_state E b g2" "tree_state E ps0 ((ls0 @ ls1) @ dps) g2" "s_block g2 = sb"
    using two nav1 inner_block [of g2 g1] by (simp_all add: added_def calm_def)
  have "reads_file E km (kp + ?ks + ?so) (ka + ?ks + ?so)"
    using reads_shift [OF rf, of "?ks + ?so"] n so by (simp add: add.assoc)
  from Suc.IH [OF nav2(1,3,2) this L(4) F(4)] added_trans [OF added_trans [OF sub(1) two]] show ?case
    by (simp add: L(5))
qed

text \<open>Take a mapping, look at it, give it back.\<close>

lemma look:
  assumes env: "env_ok E" and nav: "nav_state E b g" "b < 2 ^ 32 - 1"
    and a: "0 \<le> a" "a < file_size E" "0 < n" "n < 2 ^ 62"
    and run: "navigated E a n g = (Inr i, g1)" "st_view E i g1 = (Inr (m, p), g2)"
  shows "g2 = g1" "reads_file E m p a" "nav_state E (b + 1) g1" "outer g1 = outer g"
    "\<And>h k u. calm E (b + 1) g1 h \<Longrightarrow> st_releasePages i h = (Inr u, k) \<Longrightarrow> calm E b g k \<and> outer k = outer h"
proof -
  note v = nav_visit [OF env nav a run(1) [unfolded navigated_ok]]
  note w = view_reads [OF v(2,3) env run(2) a(1)]
  show "g2 = g1" "reads_file E m p a" "nav_state E (b + 1) g1" "outer g1 = outer g" by (rule v w)+
  show "calm E b g k \<and> outer k = outer h" if "calm E (b + 1) g1 h" "st_releasePages i h = (Inr u, k)" for h k u
    using calm_visit [OF nav(1) v(5) that] by blast
qed

lemma key_bytes_bounds:
  fixes eu n so :: int
  assumes "0 \<le> eu" "eu < 65536" "0 \<le> n" "n < 256" "0 < so" "so < 256"
  shows "0 < u64 ((eu + 1) * (8 + (n + 1) * 8) + eu * so)" "u64 ((eu + 1) * (8 + (n + 1) * 8) + eu * so) < 2 ^ 62"
    "u64 ((eu + 1) * (8 + (n + 1) * 8) + eu * so) = (eu + 1) * (8 + (n + 1) * 8) + eu * so"
proof -
  have "(eu + 1) * (8 + (n + 1) * 8) \<le> 65536 * 2064" using assms by (intro mult_mono) auto
  moreover have "eu * so \<le> 65536 * 256" using assms by (intro mult_mono) auto
  moreover have "0 < (eu + 1) * (8 + (n + 1) * 8)" "0 \<le> eu * so" using assms by simp_all
  ultimately have "0 < (eu + 1) * (8 + (n + 1) * 8) + eu * so" "(eu + 1) * (8 + (n + 1) * 8) + eu * so < 4611686018427387904" by linarith+
  then show "0 < u64 ((eu + 1) * (8 + (n + 1) * 8) + eu * so)" "u64 ((eu + 1) * (8 + (n + 1) * 8) + eu * so) < 2 ^ 62"
    "u64 ((eu + 1) * (8 + (n + 1) * 8) + eu * so) = (eu + 1) * (8 + (n + 1) * 8) + eu * so"
    by (simp_all add: u64_id)
qed

lemma andthen_InrE:
  assumes "andthen m f s = (Inr y, s')"
  obtains x s1 where "m s = (Inr x, s1)" "f x s1 = (Inr y, s')"
  using assms by (auto simp: andthen_Inr)

text \<open>The second half of \<open>fillNode\<close>: the keys of a node.\<close>

definition keys_of :: "env \<Rightarrow> nat \<Rightarrow> int \<Rightarrow> TreeNode \<Rightarrow> int \<Rightarrow> int \<Rightarrow> (TreeNode, gstate) act" where
  "keys_of E fuel n node eu so =
     andthen (navigated E (i64 (node_address node + 8 + 2 * so)) (u64 ((eu + 1) * (8 + (n + 1) * 8) + eu * so))) (\<lambda>ki.
     andthen (st_view E ki) (\<lambda>(km, kp).
     andthen (fill_entries E fuel n km kp (nat eu)) (\<lambda>_.
     andthen (st_releasePages ki) (\<lambda>_. ret (node\<lparr>node_type := CHUNK, entries_used := eu\<rparr>)))))"

lemma keys_add:
  assumes env: "env_ok E" and so: "0 < size_of_offsets sb" "size_of_offsets sb < 256" and n: "0 \<le> n" "n < 256"
    and adds: "node_adds E (b + 1) sb ps0 fuel n"
    and nav: "nav_state E b g" "b < 2 ^ 32 - 1" and sb: "s_block g = sb" and ts: "tree_state E ps0 ls0 g"
    and ka: "0 \<le> node_address node" "node_address node + 8 + 2 * size_of_offsets sb < file_size E"
    and L: "leaf_entries E sb fuel n (node_address node + 8 + 2 * size_of_offsets sb) (nat eu) = Inr ls"
    and eu: "0 \<le> eu" "eu < 65536" and run: "keys_of E fuel n node eu (size_of_offsets sb) g = (Inr node', g')"
  shows "added E b ps0 ls0 ls g g'" "node' = node\<lparr>node_type := CHUNK, entries_used := eu\<rparr>"
proof -
  let ?so = "size_of_offsets sb"
  let ?ka = "node_address node + 8 + 2 * ?so" and ?total = "u64 ((eu + 1) * (8 + (n + 1) * 8) + eu * ?so)"
  have k: "0 \<le> ?ka" "i64 ?ka = ?ka" using ka so env by (simp_all add: env_ok_def i64_id)
  obtain ki h1 where K: "navigated E ?ka ?total g = (Inr ki, h1)" and
    R1: "andthen (st_view E ki) (\<lambda>(km, kp). andthen (fill_entries E fuel n km kp (nat eu)) (\<lambda>_.
     andthen (st_releasePages ki) (\<lambda>_. ret (node\<lparr>node_type := CHUNK, entries_used := eu\<rparr>)))) h1 = (Inr node', g')"
    using run unfolding keys_of_def k(2) by (rule andthen_InrE)
  obtain kv h2 where V: "st_view E ki h1 = (Inr kv, h2)" and
    R2: "(\<lambda>(km, kp). andthen (fill_entries E fuel n km kp (nat eu)) (\<lambda>_.
     andthen (st_releasePages ki) (\<lambda>_. ret (node\<lparr>node_type := CHUNK, entries_used := eu\<rparr>)))) kv h2 = (Inr node', g')"
    using R1 by (rule andthen_InrE)
  obtain km kp where kv: "kv = (km, kp)" by fastforce
  obtain u1 h3 u2 where F: "fill_entries E fuel n km kp (nat eu) h2 = (Inr u1, h3)" "st_releasePages ki h3 = (Inr u2, g')"
    "node' = node\<lparr>node_type := CHUNK, entries_used := eu\<rparr>" using R2 unfolding kv by (auto simp: andthen_Inr ret_def)
  note lk = look [OF env nav k(1) ka(2) key_bytes_bounds(1,2) [OF eu n so] K V [unfolded kv]]
  have h1: "s_block h1 = sb" "tree_state E ps0 ls0 h1" using outerD(1) [OF lk(4)] sb ts tree_state_outer [OF lk(4)] by simp_all
  have "added E (b + 1) ps0 ls0 ls h1 h3"
    by (rule entries_add [OF env so(1) n(1) adds lk(3) h1 lk(2) L F(1) [unfolded lk(1)]])
  then have c: "calm E (b + 1) h1 h3" "tree_state E ps0 (ls0 @ ls) h3" "inner h3 = inner h1" by (simp_all add: added_def)
  have fin: "calm E b g g'" "outer g' = outer h3" using lk(5) [OF c(1) F(2)] by auto
  have "inner g' = inner g" using inner_outer [OF fin(2)] c(3) inner_outer [OF lk(4)] by simp
  then show "added E b ps0 ls0 ls g g'" using fin(1) c(2) tree_state_outer [OF fin(2)] by (simp add: added_def)
  show "node' = node\<lparr>node_type := CHUNK, entries_used := eu\<rparr>" by (rule F(3))
qed

text \<open>The two ways in which a call for a node that is there returns.\<close>

lemma fillNode_returns:
  assumes F: "fillNode E (Suc fuel) n node g = (Inr node', g')" and a: "node_address node \<noteq> UNDEF_ADDR"
  obtains i g1 m p g2 sig u h where "navigated E (node_address node) (gran E) g = (Inr i, g1)" "st_view E i g1 = (Inr (m, p), g2)"
    "rd m p 4 = Inr sig" "st_releasePages i g2 = (Inr u, h)"
    "if sig = ascii ''TREE''
     then (\<exists>t eu. getMeta E m (p + 4) 1 = Inr t \<and> getMeta E m (p + 6) 2 = Inr eu \<and> node_cast t = CHUNK \<and>
       keys_of E fuel n node (u16 eu) (size_of_offsets (s_block h)) h = (Inr node', g'))
     else node' = node\<lparr>entries_used := 0, node_type := (if sig = ascii ''SNOD'' then SYMBOL else RAWDATA)\<rparr> \<and> h = g'"
proof -
  note F1 = F [unfolded fillNode.simps if_not_P [OF a]]
  show thesis
  proof (rule andthen_InrE [OF F1], goal_cases)
    case (1 i g1)
    note N = 1(1)
    show thesis
    proof (rule andthen_InrE [OF 1(2)], goal_cases)
      case (1 mp g2)
      obtain m p where mp: "mp = (m, p)" by fastforce
      note V = 1(1) [unfolded mp]
      show thesis
      proof (rule andthen_InrE [OF 1(2) [unfolded mp prod.case]], goal_cases)
        case (1 sig g3)
        then have S: "rd m p 4 = Inr sig" "g3 = g2" by (simp_all add: lift_res_def)
        show thesis
        proof (cases "sig = ascii ''TREE''")
          case False
          then obtain u where "st_releasePages i g2 = (Inr u, g')"
            "node' = node\<lparr>entries_used := 0, node_type := (if sig = ascii ''SNOD'' then SYMBOL else RAWDATA)\<rparr>"
            using 1(2) S(2) by (auto simp: andthen_Inr ret_def)
          then show thesis using that [OF N V S(1)] False by auto
        next
          case True
          obtain t eu where M: "getMeta E m (p + 4) 1 = Inr t" "getMeta E m (p + 6) 2 = Inr eu"
            using 1(2) True by (auto simp: andthen_Inr lift_res_def)
          have R: "andthen (guard (node_cast t = CHUNK) (RetErr ''getmatvar:wrongNodeType'')) (\<lambda>_.
            andthen (st_releasePages i) (\<lambda>_.
            andthen (gets (\<lambda>g. size_of_offsets (s_block g))) (\<lambda>so.
              keys_of E fuel n (node\<lparr>node_type := node_cast t, entries_used := u16 eu\<rparr>) (u16 eu) so))) g2 = (Inr node', g')"
            using 1(2) True M S(2) by (auto simp: Let_def keys_of_def guard_def andthen_def split: if_splits)
          have c: "node_cast t = CHUNK" using R by (simp split: if_splits)
          obtain u h where "st_releasePages i g2 = (Inr u, h)"
            "keys_of E fuel n node (u16 eu) (size_of_offsets (s_block h)) h = (Inr node', g')"
            using R c by (auto simp: keys_of_def elim!: andthen_InrE [of "st_releasePages i"])
          then show thesis using that [OF N V S(1)] True M c by auto
        qed
      qed
    qed
  qed
qed

lemma node_run:
  assumes env: "env_ok E" and so: "0 < size_of_offsets sb" "size_of_offsets sb < 256" and n: "0 \<le> n" "n < 256"
  shows "0 \<le> b \<Longrightarrow> b + int fuel < 2 ^ 32 - 2 \<Longrightarrow> node_adds E b sb ps0 fuel n"
proof (induction fuel arbitrary: b)
  case 0
  then show ?case by (simp add: node_adds_def)
next
  case (Suc fuel)
  have b1: "b < 2 ^ 32 - 1" using Suc.prems by simp
  have IH: "node_adds E (b + 1) sb ps0 fuel n" by (rule Suc.IH) (use Suc.prems in simp_all)
  show ?case
    unfolding node_adds_def
  proof (intro allI impI)
    fix node node' :: TreeNode and g g' raw ls ls0
    assume nav: "nav_state E b g" and sb: "s_block g = sb" and ts: "tree_state E ps0 ls0 g"
      and L: "leaves_at E sb (Suc fuel) n (node_address node) = Inr (raw, ls)" and nt: "node_type node \<noteq> RAWDATA"
      and F: "fillNode E (Suc fuel) n node g = (Inr node', g')"
    let ?a = "node_address node" and ?goal = "added E b ps0 ls0 ls g g' \<and> node_address node' = node_address node \<and>
      (node_type node' = RAWDATA \<longleftrightarrow> raw)"
    show ?goal
    proof (cases "?a = UNDEF_ADDR")
      case True
      then show ?thesis using L F nt added_refl [OF nav ts] by (auto simp: ret_def)
    next
      case False
      with L obtain sig where a: "0 \<le> ?a" "?a < file_size E" and sig: "rd (padded E) ?a 4 = Inr sig"
        by (auto split: if_splits)
      have gr: "0 < gran E" "gran E < 2 ^ 62" using env by (simp_all add: env_ok_def)
      from F False show ?thesis
      proof (rule fillNode_returns, goal_cases)
        case (1 i g1 m p g2 sig' u h)
        note lk = look [OF env nav b1 a gr 1(1,2)]
        have same: "sig' = sig" using reads_rd [OF lk(2), of 0 4 sig'] 1(3) sig by simp
        have "calm E (b + 1) g1 g1" using lk(3) by (rule calm_refl)
        then have c: "calm E b g h" "outer h = outer g" using lk(5) [OF _ 1(4) [unfolded lk(1)]] lk(4) by auto
        then have h: "nav_state E b h" "s_block h = sb" "tree_state E ps0 ls0 h" "inner h = inner g"
          using outerD(1) [OF c(2)] sb ts tree_state_outer [OF c(2)] inner_outer [OF c(2)] by (simp_all add: calm_def)
        show ?thesis
        proof (cases "sig = ascii ''TREE''")
          case False
          then have "raw \<longleftrightarrow> sig \<noteq> ascii ''SNOD''" "ls = []" using L sig a \<open>?a \<noteq> UNDEF_ADDR\<close> by (auto split: if_splits)
          then show ?thesis using 1(5) False same c(1) h by (auto simp: added_def)
        next
          case True
          then obtain t eu where M: "getMeta E (padded E) (?a + 4) 1 = Inr t" "getMeta E (padded E) (?a + 6) 2 = Inr eu"
            "node_cast t = CHUNK" "?a + 8 + 2 * size_of_offsets sb < file_size E" "raw = False"
            "leaf_entries E sb fuel n (?a + 8 + 2 * size_of_offsets sb) (nat (u16 eu)) = Inr ls"
            using L sig a \<open>?a \<noteq> UNDEF_ADDR\<close> by (auto simp: Let_def split: if_splits)
          obtain eu' where K: "getMeta E m (p + 6) 2 = Inr eu'" "keys_of E fuel n node (u16 eu') (size_of_offsets sb) h = (Inr node', g')"
            using 1(5) True same h(2) by auto
          have eu: "eu' = eu" "0 \<le> u16 eu" "u16 eu < 65536" using reads_meta [OF lk(2) _ _ K(1)] M(2) by (simp_all add: u16_def)
          note ad = keys_add [OF env so n IH h(1) b1 h(2,3) a(1) M(4,6) eu(2,3) K(2) [unfolded eu(1)]]
          then have "added E b ps0 ls0 ls g g'" using calm_trans [OF c(1)] h(4) by (auto simp: added_def)
          then show ?thesis using ad(2) M(5) by simp
        qed
      qed
    qed
  qed
qed

end
