(* ===== verification/NavTotal.thy ===== *)
theory NavTotal
  imports ChunkTreeProps
begin

text \<open>
  \<open>st_navigateTo\<close> returns. The queue of mappings is not always a proper queue: \<open>removeAtTraverseNode\<close>
  takes nodes out of the middle without lowering \<open>length\<close>, so \<open>length\<close> can be ahead of the nodes that
  are left from \<open>front\<close> on; were these to run out, \<open>dequeue\<close> would give NULL, which \<open>st_navigateTo\<close> uses.
  The invariant \<open>room\<close> says that this does not happen: the difference stays below \<open>max_num_map_objs\<close>,
  because tidying up leaves the newest mapping and at most \<open>max_num_map_objs\<close> are counted by then. So a
  navigation inside the file returns whenever the system has memory.
\<close>

section \<open>The drift of the queue\<close>

definition ahead :: "'a lqueue \<Rightarrow> nat" where
  "ahead q = (case lq_front q of At f \<Rightarrow> lq_abs_len q - f | _ \<Rightarrow> 0)"

definition drift :: "nat \<Rightarrow> 'a lqueue \<Rightarrow> bool" where
  "drift mx q \<longleftrightarrow> lq_len q \<le> ahead q + (mx - 1) \<and> (0 < lq_len q \<longrightarrow> 0 < ahead q)"

definition room :: "nat \<Rightarrow> 'a lqueue \<Rightarrow> bool" where
  "room mx q \<longleftrightarrow> drift mx q \<and> lq_len q \<le> mx"

lemma room_enqueue:
  assumes "mq_ok q" "room mx q"
  shows "\<exists>q'. lq_enqueue q d = Inr q' \<and> drift mx q' \<and> lq_len q' \<le> mx + 1"
  using assms
  by (auto simp: lq_enqueue_def mq_ok_def room_def drift_def ahead_def pos_in_def split: pos.splits)

lemma room_dequeue:
  assumes "mq_ok q" "drift mx q" "0 < mx" "lq_len q \<le> mx + 1" "mx < lq_len q"
  shows "\<exists>j q'. lq_dequeue q = Inr (Some j, q') \<and> room mx q' \<and> 0 < ahead q'"
proof -
  obtain f where f: "lq_front q = At f" "f < lq_abs_len q"
    using assms by (auto simp: drift_def ahead_def pos_in_def mq_ok_def split: pos.splits)
  have "lq_len q \<le> lq_abs_len q - f + (mx - 1)" using assms(2) f by (simp add: drift_def ahead_def)
  then have "f + 1 < lq_abs_len q" "lq_len q - 1 \<le> lq_abs_len q - (f + 1) + (mx - 1)" using assms(3,5) by linarith+
  then show ?thesis
    using f assms(4,5) by (auto simp: lq_dequeue_def room_def drift_def ahead_def pos_of_def)
qed

lemma room_traverse:
  "lq_traverse q = Inr (d, q') \<Longrightarrow> room mx q' = room mx q \<and> ahead q' = ahead q \<and> lq_len q' = lq_len q \<and> lq_items q' = lq_items q"
  by (auto simp: lq_traverse_def room_def drift_def ahead_def split: pos.splits)

lemma room_init [simp]: "room mx (lq_init_traversal q) = room mx q" "ahead (lq_init_abs_traversal q) = ahead q"
  "lq_len (lq_init_abs_traversal q) = lq_len q"
  by (simp_all add: room_def drift_def ahead_def lq_init_traversal_def lq_init_abs_traversal_def cong: pos.case_cong)

lemma remove_total:
  assumes mq: "mq_ok q" and t: "lq_trav q = At t" "t + 1 < lq_abs_len q" and a: "0 < ahead q"
  shows "\<exists>d q'. lq_remove_at_traverse q = Inr (d, Some (lq_items q ! t), q') \<and> 0 < ahead q' \<and> lq_len q' \<le> lq_len q"
proof -
  obtain f where f: "lq_front q = At f" "f < lq_abs_len q"
    using a mq by (auto simp: ahead_def pos_in_def mq_ok_def split: pos.splits)
  have l: "length (take t (lq_items q) @ drop (t + 1) (lq_items q)) = lq_abs_len q - 1" using t(2) by simp
  show ?thesis
    using mq t a f unfolding lq_remove_at_traverse_def Let_def l
    by (auto simp: mq_ok_def ahead_def shift_rem_def pos_of_def)
qed

section \<open>Tidying up returns\<close>

definition sys_ok :: "env \<Rightarrow> bool" where
  "sys_ok E \<longleftrightarrow> (\<forall>n. malloc_ok E n) \<and> (\<forall>s n. munmap_ok E s n) \<and>
     (\<forall>s n. 0 \<le> s \<longrightarrow> 0 < n \<longrightarrow> s + n \<le> file_size E \<longrightarrow> mmap_ok E s n)"

lemma freeMapObject_total:
  assumes "sys_ok E" "slook (maps g) i = Inr m"
  shows "\<exists>g'. freeMapObject E i g = (Inr (), g') \<and> map_objects g' = map_objects g"
  using assms
  by (simp add: freeMapObject_def andthen_def get_map_def unmap_def guard_def sys_ok_def put_map_def modify_def ret_def)

lemma nav_clean_total:
  assumes sys: "sys_ok E"
  shows "evict_inv E g1 c i g \<Longrightarrow> map_objects g = Some q \<Longrightarrow> 0 < ahead q \<Longrightarrow> lq_len q \<le> mx \<Longrightarrow>
    \<exists>g' q'. nav_clean E n g = (Inr (), g') \<and> map_objects g' = Some q' \<and> 0 < ahead q' \<and> lq_len q' \<le> mx"
proof (induction n arbitrary: g q)
  case (Suc n)
  note ev = Suc.prems(1) and q = Suc.prems(2)
  have it: "set (lq_items q) = live (maps g)" and mq: "mq_ok q"
    using ev q by (auto simp: evict_inv_def nav_inv_def map_inv_def)
  show ?case
  proof (cases "lq_trav q")
    case (At t)
    then have t: "t < lq_abs_len q" using mq by (simp add: mq_ok_def pos_in_def)
    let ?j = "lq_items q ! t"
    have "?j \<in> live (maps g)" using it t nth_mem by blast
    then obtain m where m: "slook (maps g) ?j = Inr m" by (auto simp: live_def slook_def)
    have peek: "mq_op (\<lambda>q. bnd (lq_peek_traverse q) (\<lambda>d. Inr (d, q))) g = (Inr (Some ?j), g)"
      using q At by (simp add: mq_op_read lq_peek_traverse_def)
    show ?thesis
    proof (cases "num_using m = 0")
      case True
      have nl: "t + 1 < lq_abs_len q" by (rule evict_not_last [OF ev q t m True])
      obtain d q' where r: "lq_remove_at_traverse q = Inr (d, Some ?j, q')" "0 < ahead q'" "lq_len q' \<le> lq_len q"
        using remove_total [OF mq At nl Suc.prems(3)] by blast
      obtain g2 where f: "freeMapObject E ?j (g\<lparr>map_objects := Some q'\<rparr>) = (Inr (), g2)" "map_objects g2 = Some q'"
        using freeMapObject_total [OF sys, of "g\<lparr>map_objects := Some q'\<rparr>" ?j m] m by auto
      have "evict_inv E g1 c i g2" by (rule nav_clean_step [OF ev q At m True r(1) refl f(1)])
      from Suc.IH [OF this f(2) r(2)] r(3) Suc.prems(4) have "\<exists>g' q'. nav_clean E n g2 = (Inr (), g') \<and>
          map_objects g' = Some q' \<and> 0 < ahead q' \<and> lq_len q' \<le> mx" by simp
      moreover have "nav_clean E (Suc n) g = nav_clean E n g2"
        using peek m True q r(1) f(1) by (simp add: andthen_def get_map_def mq_op_def)
      ultimately show ?thesis by simp
    next
      case False
      obtain d q' where r: "lq_traverse q = Inr (d, q')" using At by (simp add: lq_traverse_def)
      note tr = lq_traverse_ok(1,2) [OF mq r] room_traverse [OF r]
      have "evict_inv E g1 c i (g\<lparr>map_objects := Some q'\<rparr>)" by (rule evict_inv_queue [OF ev q tr(1,2)])
      from Suc.IH [OF this] tr(3) Suc.prems(3,4) have "\<exists>g' q''. nav_clean E n (g\<lparr>map_objects := Some q'\<rparr>) = (Inr (), g') \<and>
          map_objects g' = Some q'' \<and> 0 < ahead q'' \<and> lq_len q'' \<le> mx" by simp
      moreover have "nav_clean E (Suc n) g = nav_clean E n (g\<lparr>map_objects := Some q'\<rparr>)"
        using peek m False q r by (simp add: andthen_def get_map_def mq_op_def ret_def)
      ultimately show ?thesis by simp
    qed
  qed (use q mq Suc.prems(3,4) in \<open>auto simp: andthen_def mq_op_def lq_peek_traverse_def ret_def mq_ok_def pos_in_def\<close>)
qed (simp add: ret_def)

lemma nav_evict_total:
  assumes sys: "sys_ok E" and ev: "evict_inv E g1 c i g" and q: "map_objects g = Some q" "drift mx q" "lq_len q \<le> mx + 1"
    and mx: "0 < mx" "max_num_map_objs g = int mx"
  shows "\<exists>g' q'. nav_evict E g = (Inr (), g') \<and> map_objects g' = Some q' \<and> room mx q'"
proof -
  have mq: "mq_ok q" and it: "set (lq_items q) = live (maps g)"
    using ev q by (auto simp: evict_inv_def nav_inv_def map_inv_def)
  show ?thesis
  proof (cases "mx < lq_len q")
    case True
    obtain j q1 where d: "lq_dequeue q = Inr (Some j, q1)" "room mx q1" "0 < ahead q1"
      using room_dequeue [OF mq q(2) mx(1) q(3) True] by blast
    note dq = lq_dequeue_mq [OF mq d(1)]
    then have "j \<in> live (maps g)" using it by simp
    then obtain m where m: "slook (maps g) j = Inr m" by (auto simp: live_def slook_def)
    let ?g = "g\<lparr>map_objects := Some q1\<rparr>"
    let ?un = "if num_using m = 0 \<and> is_mapped m
                  then andthen (unmap E ''getmatvar:badMunmapError'' m) (\<lambda>m. put_map j (Some m)) else ret ()"
    have e1: "evict_inv E g1 c i ?g" by (rule evict_inv_queue [OF ev q(1) dq(1,2)])
    obtain g2 where un: "?un ?g = (Inr (), g2)" "map_objects g2 = Some q1"
    proof (cases "num_using m = 0 \<and> is_mapped m")
      case True
      show thesis
        using True sys by (intro that [of "snd (?un ?g)"]) (simp_all add: andthen_def unmap_def guard_def sys_ok_def put_map_def modify_def ret_def)
    next
      case False
      then show thesis using that [of ?g] by (auto simp: ret_def)
    qed
    have e2: "evict_inv E g1 c i g2"
    proof (cases "num_using m = 0 \<and> is_mapped m")
      case True
      have "nav_inv E g1 c ?g" using e1 by (simp add: evict_inv_def)
      then have "nav_inv E g1 c g2"
        by (rule nav_inv_unmap [of E g1 c _ j m "''getmatvar:badMunmapError''"]) (use m True un in auto)
      then show ?thesis using e1 un(2) by (simp add: evict_inv_def)
    next
      case False
      then show ?thesis using e1 un(1) by (auto simp: ret_def split: if_splits)
    qed
    have step: "nav_evict E g = (if 4 * mx < lq_abs_len q1
        then nav_clean E (lq_abs_len q1) (g2\<lparr>map_objects := Some (lq_init_abs_traversal q1)\<rparr>) else (Inr (), g2))"
      unfolding nav_evict_def using True q(1) d(1) m un(1,2) mx(2)
      by (simp add: andthen_def mq_op_def gets_def nn_def get_map_def ret_def)
    have e3: "evict_inv E g1 c i (g2\<lparr>map_objects := Some (lq_init_abs_traversal q1)\<rparr>)"
      using evict_inv_queue [OF e2 un(2)] lq_init_traversals_ok dq(1) by blast
    obtain g' q' where c: "nav_clean E (lq_abs_len q1) (g2\<lparr>map_objects := Some (lq_init_abs_traversal q1)\<rparr>) = (Inr (), g')"
      "map_objects g' = Some q'" "0 < ahead q'" "lq_len q' \<le> mx"
      using nav_clean_total [OF sys e3, of "lq_init_abs_traversal q1" mx "lq_abs_len q1"] d(2,3) by (auto simp: room_def)
    have "room mx q'" using c(3,4) by (simp add: room_def drift_def)
    then show ?thesis using step c(1,2) un(2) d(2) by (cases "4 * mx < lq_abs_len q1") simp_all
  next
    case False
    then show ?thesis using q mx by (simp add: nav_evict_def andthen_def mq_op_def gets_def ret_def room_def)
  qed
qed

section \<open>A navigation returns\<close>

lemma nav_scan_total:
  assumes inv: "map_inv E g"
  shows "mq_ok q \<Longrightarrow> set (lq_items q) = live (maps g) \<Longrightarrow>
    \<exists>r g'. nav_scan n a b (g\<lparr>map_objects := Some q\<rparr>) = (Inr r, g') \<and> (\<exists>q'. map_objects g' = Some q' \<and> room mx q' = room mx q)"
proof (induction n arbitrary: q)
  case (Suc n)
  have "\<exists>o_id q1. lq_traverse q = Inr (o_id, q1)"
    using Suc.prems by (auto simp: lq_traverse_def mq_ok_def pos_in_def split: pos.splits)
  then obtain o_id q1 where tr: "lq_traverse q = Inr (o_id, q1)" by blast
  note q1 = lq_traverse_ok [OF Suc.prems(1) tr] room_traverse [OF tr, of mx]
  show ?case
  proof (cases o_id)
    case None
    then show ?thesis using tr q1(4) by (simp add: andthen_def mq_op_def ret_def)
  next
    case (Some i)
    then have "i \<in> live (maps g)" using q1(3) Suc.prems(2) by blast
    then obtain m where m: "slook (maps g) i = Inr m" by (auto simp: live_def slook_def)
    show ?thesis
    proof (cases "map_covers m a b")
      case True
      moreover have "map_start_ptr m = Some (map_start m)"
        using True inv m by (auto simp: map_covers_def map_inv_def map_ok_def)
      ultimately show ?thesis using tr Some m q1(4) by (simp add: andthen_def mq_op_def get_map_def nn_def put_map_def modify_def ret_def)
    next
      case False
      then have "nav_scan (Suc n) a b (g\<lparr>map_objects := Some q\<rparr>) = nav_scan n a b (g\<lparr>map_objects := Some q1\<rparr>)"
        using tr Some m by (simp add: andthen_def mq_op_def get_map_def)
      then show ?thesis using Suc.IH [OF q1(1)] q1(2,4) Suc.prems(2) by simp
    qed
  qed
qed (simp add: ret_def)

definition nav_room :: "gstate \<Rightarrow> bool" where
  "nav_room g \<longleftrightarrow> 0 < max_num_map_objs g \<and> (\<exists>q. map_objects g = Some q \<and> room (nat (max_num_map_objs g)) q)"

lemma st_navigateTo_total:
  assumes sys: "sys_ok E" and pre: "nav_pre E g a n" and rm: "nav_room g"
  shows "\<exists>i g'. st_navigateTo E a n g = (Inr i, g') \<and> nav_room g'"
proof -
  have inv: "map_inv E g" "curr_mmap_usage g = u64 (mapped_total g)" using pre by (simp_all add: nav_pre_def)
  define mx where "mx = nat (max_num_map_objs g)"
  have mx: "0 < mx" "max_num_map_objs g = int mx" using rm by (simp_all add: nav_room_def mx_def)
  obtain q where q: "map_objects g = Some q" "room mx q" using rm unfolding nav_room_def mx_def by blast
  have mq: "mq_ok q" "set (lq_items q) = live (maps g)" using inv(1) q(1) by (auto simp: map_inv_def)
  let ?off = "u64 a mod gran E"
  let ?start = "i64 (u64 a - ?off)"
  let ?bytes = "min (u64 (?off + n)) (u64 (file_size E - ?start))"
  let ?q1 = "lq_init_traversal q"
  note w = window [OF pre]
  have q1: "mq_ok ?q1" "lq_items ?q1 = lq_items q" using lq_init_traversals_ok mq by simp_all
  obtain r g1 q2 where scan: "nav_scan (nat (max_num_map_objs g)) a n (g\<lparr>map_objects := Some ?q1\<rparr>) = (Inr r, g1)"
    and q2: "map_objects g1 = Some q2" "room mx q2"
    using nav_scan_total [OF inv(1) q1(1)] q1(2) mq(2) q(2) by fastforce
  have "\<exists>i g'. st_navigateTo E a n g = (Inr i, g') \<and> (\<exists>q. map_objects g' = Some q \<and> room mx q)"
  proof (cases r)
    case (Some i)
    then show ?thesis using scan q2 q(1) by (simp add: st_navigateTo_def Let_def andthen_def gets_def mq_op_def ret_def)
  next
    case None
    then have g1: "g1 = g\<lparr>map_objects := Some q2\<rparr>" "mq_ok q2" "lq_items q2 = lq_items q"
      using nav_scan_run [OF scan, of ?q1] q1 q2 by auto
    obtain q3 where enq: "lq_enqueue q2 (length (maps g)) = Inr q3" "drift mx q3" "lq_len q3 \<le> mx + 1" using room_enqueue [OF g1(2) q2(2)] by blast
    let ?m = "\<lparr>map_start = ?start, map_size = ?bytes, map_start_ptr = Some ?start,
      address_ptr = Some (?start + ?off), num_using = 1, is_mapped = True\<rparr>"
    let ?g2 = "g\<lparr>maps := maps g @ [Some ?m], map_objects := Some q3\<rparr>"
    have mok: "map_ok E ?m" using w(3-5,7) by (simp add: map_ok_def del: min_less_iff_conj)
    have new: "evict_inv E ?g2 ?bytes (length (maps g)) ?g2"
      using new_map_inv [OF inv q(1) g1(2,3) enq(1) mok _ _ refl] by simp
    obtain g3 q4 where ev: "nav_evict E ?g2 = (Inr (), g3)" "map_objects g3 = Some q4" "room mx q4"
      using nav_evict_total [OF sys new, of q3 mx] enq(2,3) mx by auto
    have "malloc_ok E 40" "mmap_ok E ?start ?bytes" using sys w(3-5) by (simp_all add: sys_ok_def)
    then have "st_navigateTo E a n g = (Inr (length (maps g)), g3\<lparr>curr_mmap_usage := u64 (curr_mmap_usage g3 + ?bytes),
         max_mmap_usage := max (u64 (curr_mmap_usage g3 + ?bytes)) (max_mmap_usage g3)\<rparr>)"
      using scan None g1(1) enq(1) ev(1) q(1)
      by (simp add: st_navigateTo_def Let_def andthen_def gets_def mq_op_def ret_def guard_def modify_def)
    then show ?thesis using ev(2,3) by auto
  qed
  then obtain i g' where g': "st_navigateTo E a n g = (Inr i, g')" "\<exists>q. map_objects g' = Some q \<and> room mx q" by blast
  moreover have "max_num_map_objs g' = max_num_map_objs g"
    using keepsD [OF outer_navigate g'(1)] unfolding outer_def by (cases g, cases g') simp
  ultimately show ?thesis using mx by (auto simp: nav_room_def)
qed

text \<open>C9. With memory and a system that maps, a navigation into the file returns, and leaves the queue of mappings such that
  the next one returns too: \<open>length\<close> never gets so far ahead of the pending nodes that \<open>dequeue\<close> finds none.\<close>

theorem navigateTo_returns:
  assumes "sys_ok E" "nav_pre E g a n" "nav_room g"
  shows "\<exists>i g'. st_navigateTo E a n g = (Inr i, g') \<and> nav_room g' \<and> nav_post E g a n i g'"
  using st_navigateTo_total [OF assms] st_navigateTo_inv [OF assms(2)] by blast

lemma navigateTo_returns_witness:
  "\<exists>i g'. st_navigateTo (demo_env [1, 2, 3]) 0 8 demo_state = (Inr i, g') \<and> nav_room g'"
proof -
  have "nav_room demo_state"
    by (simp add: nav_room_def demo_state_def initialize_def room_def drift_def ahead_def lq_init_def)
  moreover have "sys_ok (demo_env [1, 2, 3])" by (simp add: sys_ok_def)
  ultimately show ?thesis using navigateTo_returns [OF _ demo_state_pre] by fastforce
qed

end
