(* ===== verification/TreeTotal.thy ===== *)
theory TreeTotal
  imports NavTotal
begin

text \<open>
  The chunk tree is read to its end: where \<open>leaves_at\<close> finds a tree in the file, \<open>fillNode\<close> returns (with the system's
  help, \<open>sys_ok\<close>), so that \<open>node_run\<close> of theory \<open>ChunkTreeProps\<close> says what it has done.
\<close>

section \<open>Reading through a mapping succeeds\<close>

definition reads_all :: "env \<Rightarrow> byte list \<Rightarrow> int \<Rightarrow> int \<Rightarrow> int \<Rightarrow> bool" where
  "reads_all E m p a N \<longleftrightarrow>
     (\<forall>q k bs. 0 \<le> q \<longrightarrow> 0 < k \<longrightarrow> q + k \<le> N \<longrightarrow> rd (padded E) (a + q) k = Inr bs \<longrightarrow> rd m (p + q) k = Inr bs)"

lemma reads_allD:
  "reads_all E m p a N \<Longrightarrow> 0 \<le> q \<Longrightarrow> 0 < k \<Longrightarrow> q + k \<le> N \<Longrightarrow> rd (padded E) (a + q) k = Inr bs \<Longrightarrow> rd m (p + q) k = Inr bs"
  by (simp add: reads_all_def)

lemma reads_all_shift: "reads_all E m p a N \<Longrightarrow> 0 \<le> d \<Longrightarrow> reads_all E m (p + d) (a + d) (N - d)"
  unfolding reads_all_def
proof (intro allI impI)
  fix q k bs
  assume "\<forall>q k bs. 0 \<le> q \<longrightarrow> 0 < k \<longrightarrow> q + k \<le> N \<longrightarrow> rd (padded E) (a + q) k = Inr bs \<longrightarrow> rd m (p + q) k = Inr bs"
    "0 \<le> d" "0 \<le> q" "0 < k" "q + k \<le> N - d" "rd (padded E) (a + d + q) k = Inr bs"
  then show "rd m (p + d + q) k = Inr bs" by (simp add: add.assoc)
qed

lemma getMeta_total:
  assumes r: "reads_all E m p a N" and q: "0 \<le> q" "0 < n" "q + n \<le> N" and g: "getMeta E (padded E) (a + q) n = Inr v"
  shows "getMeta E m (p + q) n = Inr v"
proof (cases "8 < n")
  case True
  have "rd m (p + (q + (n - 8))) 8 = Inr bs" if "rd (padded E) (a + (q + (n - 8))) 8 = Inr bs" for bs
    using reads_allD [OF r _ _ _ that] q True by simp
  moreover have "rd m (p + q) 8 = Inr bs" if "rd (padded E) (a + q) 8 = Inr bs" for bs
    using reads_allD [OF r q(1) _ _ that] q True by simp
  ultimately show ?thesis
    using g True by (auto simp: getMeta_def getBytesAsNumber_def add.assoc split: if_splits)
next
  case False
  have "rd m (p + q) n = Inr bs" if "rd (padded E) (a + q) n = Inr bs" for bs using reads_allD [OF r q that] .
  then show ?thesis
    using g False by (auto simp: getMeta_def getBytesAsNumber_def Let_def split: if_splits)
qed

lemma nums_total:
  "reads_all E m p a N \<Longrightarrow> 0 \<le> q \<Longrightarrow> 0 < w \<Longrightarrow> q + int n * w \<le> N \<Longrightarrow> read_nums E (padded E) (a + q) w n = Inr xs \<Longrightarrow>
    read_nums E m (p + q) w n = Inr xs"
proof (induction n arbitrary: q xs)
  case (Suc n)
  obtain x ys where x: "getMeta E (padded E) (a + q) w = Inr x" "read_nums E (padded E) (a + (q + w)) w n = Inr ys" "xs = x # ys"
    using Suc.prems(5) by (auto simp: add.assoc)
  have "0 \<le> int n * w" using Suc.prems(3) by simp
  moreover have "q + w + int n * w \<le> N" using Suc.prems(4) by (simp add: algebra_simps)
  ultimately have "q + w \<le> N" "q + w + int n * w \<le> N" by linarith+
  then show ?case
    using getMeta_total [OF Suc.prems(1,2,3) _ x(1)] Suc.IH [OF Suc.prems(1) _ Suc.prems(3) _ x(2)] Suc.prems(2,3) x(3)
    by (simp add: add.assoc)
qed simp

text \<open>A mapping shows all of the pages it is on, so also what follows the end of the file on its last page.\<close>

lemma view_length:
  assumes m: "map_ok E m" "is_mapped m" and gr: "0 < gran E"
  shows "map_start m + map_size m \<le> map_start m + int (length (view_of E m))"
    "map_start m + map_size m = file_size E \<Longrightarrow> map_start m + int (length (view_of E m)) = int (length (padded E))"
proof -
  have ok: "0 \<le> map_start m" "0 < map_size m" "map_start m + map_size m \<le> file_size E" "map_start m mod gran E = 0"
    using m by (simp_all add: map_ok_def)
  have p: "0 \<le> (- file_size E) mod gran E" "0 \<le> (- map_size m) mod gran E" using gr by simp_all
  then have lp: "int (length (padded E)) = file_size E + (- file_size E) mod gran E" by (simp add: padded_def file_size_def)
  have lv: "int (length (view_of E m)) = min (map_size m + (- map_size m) mod gran E) (int (length (padded E)) - map_start m)"
    using ok p lp by (simp add: view_of_def)
  then show "map_start m + map_size m \<le> map_start m + int (length (view_of E m))" using lp p ok by linarith
  assume e: "map_start m + map_size m = file_size E"
  have "(- file_size E) mod gran E = (- map_size m - map_start m) mod gran E" unfolding e [symmetric] by (simp add: algebra_simps)
  also have "\<dots> = (- map_size m) mod gran E" using ok(4) by (metis diff_zero mod_diff_right_eq)
  finally show "map_start m + int (length (view_of E m)) = int (length (padded E))" using lv lp e by linarith
qed

lemma view_total:
  assumes s: "shows_at E g i a (min n (file_size E - a))" and inv: "map_inv E g" and gr: "0 < gran E" and a: "0 \<le> a" "a < file_size E"
  shows "\<exists>m p. st_view E i g = (Inr (m, p), g) \<and> reads_all E m p a n"
proof -
  obtain m where m: "slook (maps g) i = Inr m" "is_mapped m" "address_ptr m = Some a" "map_start m \<le> a"
    "a + min n (file_size E - a) \<le> map_start m + map_size m" using s by (auto simp: shows_at_def)
  have ok: "map_ok E m" using inv m(1) by (auto simp: map_inv_def)
  then have ms: "0 \<le> map_start m" "map_start m + map_size m \<le> file_size E" using m(2) by (simp_all add: map_ok_def)
  have v: "st_view E i g = (Inr (view_of E m, a - map_start m), g)"
    using m by (simp add: st_view_def andthen_def get_map_def guard_def nn_def)
  have "rd (view_of E m) (a - map_start m + q) k = Inr bs"
    if q: "0 \<le> q" "0 < k" "q + k \<le> n" and r: "rd (padded E) (a + q) k = Inr bs" for q k bs
  proof -
    have rb: "bs = take (nat k) (drop (nat (a + q)) (padded E))" "a + q + k \<le> int (length (padded E))"
      using r q a by (auto simp: rd_def split: if_splits)
    have "a + q + k \<le> map_start m + int (length (view_of E m))"
    proof (cases "n \<le> file_size E - a")
      case True
      then show ?thesis using view_length(1) [OF ok m(2) gr] m(5) q by simp
    next
      case False
      then have "map_start m + map_size m = file_size E" using m(5) ms by simp
      then show ?thesis using view_length(2) [OF ok m(2) gr] rb(2) by simp
    qed
    then obtain bs' where bs': "rd (view_of E m) (a - map_start m + q) k = Inr bs'"
      using q m(4) by (auto simp: rd_def)
    then have "bs' = bs" using st_view_padded(2) [OF s inv gr v q(1) bs'] rb(1) by simp
    then show ?thesis using bs' by simp
  qed
  then show ?thesis using v by (auto simp: reads_all_def)
qed

section \<open>Taking and giving back a mapping\<close>

lemma release_total:
  assumes "0 < used g i"
  shows "\<exists>g'. st_releasePages i g = (Inr (), g') \<and> nav_room g' = nav_room g"
proof -
  obtain m where "slook (maps g) i = Inr m" "0 < num_using m" using assms by (auto simp: used_def split: sum.splits)
  then show ?thesis by (simp add: st_releasePages_def andthen_def get_map_def put_map_def modify_def nav_room_def)
qed

lemma look_total:
  assumes env: "env_ok E" and sys: "sys_ok E" and nav: "nav_state E b g" "b < 2 ^ 32 - 1" "nav_room g"
    and a: "0 \<le> a" "a < file_size E" "0 < n" "n < 2 ^ 62"
  shows "\<exists>i g1 m p. navigated E a n g = (Inr i, g1) \<and> st_view E i g1 = (Inr (m, p), g1) \<and> nav_room g1 \<and> reads_all E m p a n \<and>
    (\<forall>h. calm E (b + 1) g1 h \<longrightarrow> (\<exists>k. st_releasePages i h = (Inr (), k) \<and> nav_room k = nav_room h))"
proof -
  have "num_using m < 2 ^ 32 - 1" if "slook (maps g) j = Inr m" for j m
    using nav that unfolding nav_state_def used_def by (metis le_less_trans sum.case(2))
  then have pre: "nav_pre E g a n" using env nav(1) a unfolding nav_pre_def nav_state_def env_ok_def by blast
  obtain i g1 where r: "st_navigateTo E a n g = (Inr i, g1)" "nav_room g1"
    using st_navigateTo_total [OF sys pre nav(3)] by blast
  note v = nav_visit [OF env nav(1,2) a r(1)]
  obtain m p where w: "st_view E i g1 = (Inr (m, p), g1)" "reads_all E m p a n"
    using view_total [OF v(2,3) _ a(1,2)] env by (auto simp: env_ok_def)
  have "0 < used g1 i" using v(5) [of i] used_nonneg [of E g i] nav(1) by (simp add: nav_state_def)
  then have "\<exists>k. st_releasePages i h = (Inr (), k) \<and> nav_room k = nav_room h" if "calm E (b + 1) g1 h" for h
    using that release_total [of h i] by (simp add: calm_def)
  then show ?thesis using r w by (auto simp: navigated_ok)
qed

section \<open>One leaf\<close>

lemma read_key_total:
  assumes "sys_ok E" "reads_all E m kp ka N" "8 + (n + 1) * 8 \<le> N" "0 \<le> n" "key_pair E ka n address = Inr dp"
  shows "read_key E m kp n address g = (Inr dp, g)"
proof -
  obtain cs xs where k: "getMeta E (padded E) ka 4 = Inr cs" "read_nums E (padded E) (ka + 8) 8 (nat n) = Inr xs"
    "dp = \<lparr>dp_address = address, dp_chunk_size = u32 cs, dp_chunk_start = rev (map i64 xs) @ [0]\<rparr>"
    using assms(5) by (auto simp: key_pair_def)
  have "getMeta E m kp 4 = Inr cs" using getMeta_total [OF assms(2), of 0 4 cs] k(1) assms(3,4) by simp
  moreover have "read_nums E m (kp + 8) 8 (nat n) = Inr xs"
    using nums_total [OF assms(2), of 8 8 "nat n" xs] k(2) assms(3,4) by simp
  ultimately show ?thesis
    using assms(1) k(3) by (simp add: read_key_def andthen_def guard_def lift_res_def ret_def sys_ok_def)
qed

lemma add_leaf_total:
  assumes st: "tree_state E ps0 ls g" and k: "k < length ps0" "on_page E k dp"
  shows "\<exists>g'. add_leaf E dp g = (Inr (), g') \<and> nav_room g' = nav_room g"
proof -
  obtain ps bs where ps: "page_objects g = Some ps" "data_page_buckets g = Some bs" "length ps = length ps0" "length bs = length ps0"
    "\<And>i. i < length ps0 \<Longrightarrow> lq_rep (bs ! i) [] (filter (on_page E i) ls)"
    using st unfolding tree_state_def by blast
  obtain b where "lq_enqueue (bs ! k) dp = Inr b" using lqf.enq_law [OF ps(5) [OF k(1)]] by auto
  then show ?thesis
    using ps k by (simp add: add_leaf_def Let_def andthen_def get_page_def put_page_def modify_def bucket_add_def gets_def nn_def
        lift_res_def on_page_def aget_def nav_room_def)
qed

section \<open>The nodes\<close>

definition pages_of :: "env \<Rightarrow> pageObject list \<Rightarrow> DataPair list \<Rightarrow> bool" where
  "pages_of E ps0 ls \<longleftrightarrow> (\<forall>dp \<in> set ls. \<exists>k < length ps0. on_page E k dp)"

definition node_goes :: "env \<Rightarrow> int \<Rightarrow> Superblock \<Rightarrow> pageObject list \<Rightarrow> nat \<Rightarrow> int \<Rightarrow> bool" where
  "node_goes E b sb ps0 fuel n \<longleftrightarrow>
     (\<forall>node g raw ls ls0. nav_state E b g \<longrightarrow> nav_room g \<longrightarrow> s_block g = sb \<longrightarrow> tree_state E ps0 ls0 g \<longrightarrow>
        leaves_at E sb fuel n (node_address node) = Inr (raw, ls) \<longrightarrow> node_type node \<noteq> RAWDATA \<longrightarrow> pages_of E ps0 ls \<longrightarrow>
        (\<exists>node' g'. fillNode E fuel n node g = (Inr node', g') \<and> nav_room g'))"

lemma entries_go:
  assumes env: "env_ok E" and sys: "sys_ok E" and so: "0 < size_of_offsets sb" and n: "0 \<le> n"
    and adds: "node_adds E b sb ps0 fuel n" and goes: "node_goes E b sb ps0 fuel n"
  shows "nav_state E b g \<Longrightarrow> nav_room g \<Longrightarrow> s_block g = sb \<Longrightarrow> tree_state E ps0 ls0 g \<Longrightarrow> reads_file E km kp ka \<Longrightarrow>
    reads_all E km kp ka N \<Longrightarrow> int k * (8 + (n + 1) * 8 + size_of_offsets sb) \<le> N \<Longrightarrow>
    leaf_entries E sb fuel n ka k = Inr ls \<Longrightarrow> pages_of E ps0 ls \<Longrightarrow>
    \<exists>g'. fill_entries E fuel n km kp k g = (Inr (), g') \<and> nav_room g'"
proof (induction k arbitrary: kp ka ls ls0 g N)
  case 0
  then show ?case by (simp add: ret_def)
next
  case (Suc k)
  let ?ks = "8 + (n + 1) * 8" and ?so = "size_of_offsets sb"
  note nav = Suc.prems(1) and room = Suc.prems(2) and sb = Suc.prems(3) and ts = Suc.prems(4) and rf = Suc.prems(5) and ra = Suc.prems(6)
  obtain c raw ls1 dps ls2 where L: "getMeta E (padded E) (ka + ?ks) ?so = Inr c"
    "leaves_at E sb fuel n (i64 (c + base_address sb)) = Inr (raw, ls1)"
    "(if raw then bnd (key_pair E ka n (i64 (c + base_address sb))) (\<lambda>dp. Inr [dp]) else Inr []) = Inr dps"
    "leaf_entries E sb fuel n (ka + ?ks + ?so) k = Inr ls2" "ls = ls1 @ dps @ ls2"
    using Suc.prems(8) by (auto simp: Let_def)
  let ?a = "i64 (c + base_address sb)"
  let ?node = "\<lparr>node_address = ?a, node_type = NODETYPE_UNDEFINED, entries_used = 0\<rparr>"
  have big: "0 \<le> int k * (?ks + ?so)" using n so by simp
  moreover have N: "?ks + ?so + int k * (?ks + ?so) \<le> N" using Suc.prems(7) by (simp add: algebra_simps)
  ultimately have le: "?ks + ?so \<le> N" by linarith
  have pg: "pages_of E ps0 ls1" "pages_of E ps0 dps" "pages_of E ps0 ls2"
    using Suc.prems(9) unfolding L(5) pages_of_def by simp_all
  have m: "getMeta E km (kp + ?ks) ?so = Inr c" using getMeta_total [OF ra _ so le L(1)] n by simp
  obtain sub g1 where f: "fillNode E fuel n ?node g = (Inr sub, g1)" "nav_room g1"
    using goes [unfolded node_goes_def, rule_format, OF nav room sb ts _ _ pg(1), of ?node raw] L(2) by auto
  have ad: "added E b ps0 ls0 ls1 g g1" "node_address sub = ?a" "node_type sub = RAWDATA \<longleftrightarrow> raw"
    using adds [unfolded node_adds_def, rule_format, OF nav sb ts _ _ f(1), of raw ls1] L(2) by simp_all
  then have s1: "nav_state E b g1" "tree_state E ps0 (ls0 @ ls1) g1" "s_block g1 = sb"
    using sb inner_block [of g1 g] by (simp_all add: added_def calm_def)
  let ?leaf = "if node_type sub = RAWDATA then andthen (read_key E km kp n (node_address sub)) (add_leaf E) else ret ()"
  have "\<exists>g2. ?leaf g1 = (Inr (), g2) \<and> nav_room g2 \<and> added E b ps0 (ls0 @ ls1) dps g1 g2"
  proof (cases raw)
    case True
    then obtain dp where dp: "key_pair E ka n ?a = Inr dp" "dps = [dp]" using L(3) by auto
    then obtain j where j: "j < length ps0" "on_page E j dp" using pg(2) by (auto simp: pages_of_def)
    have rk: "read_key E km kp n ?a g1 = (Inr dp, g1)" using read_key_total [OF sys ra _ n dp(1)] le so by simp
    obtain g2 where g2: "add_leaf E dp g1 = (Inr (), g2)" "nav_room g2 = nav_room g1" using add_leaf_total [OF s1(2) j] by blast
    then show ?thesis using added_leaf [OF s1(1,2) g2(1)] rk True ad f(2) dp(2) by (simp add: andthen_def)
  next
    case False
    then show ?thesis using L(3) ad f(2) added_refl [OF s1(1,2)] by (simp add: ret_def)
  qed
  then obtain g2 where g2: "?leaf g1 = (Inr (), g2)" "nav_room g2" "added E b ps0 (ls0 @ ls1) dps g1 g2" by blast
  then have s2: "nav_state E b g2" "tree_state E ps0 ((ls0 @ ls1) @ dps) g2" "s_block g2 = sb"
    using s1 inner_block [of g2 g1] by (simp_all add: added_def calm_def)
  have d: "0 \<le> ?ks + ?so" using n so by simp
  have "int k * (?ks + ?so) \<le> N - (?ks + ?so)" using N by linarith
  then obtain g' where g': "fill_entries E fuel n km (kp + ?ks + ?so) k g2 = (Inr (), g')" "nav_room g'"
    using Suc.IH [OF s2(1) g2(2) s2(3,2) reads_shift [OF rf d, simplified add.assoc [symmetric]]
        reads_all_shift [OF ra d, simplified add.assoc [symmetric]] _ _ pg(3)] L(4) by (simp add: add.assoc) blast
  have "fill_entries E fuel n km kp (Suc k) g = (Inr (), g')"
    using sb m f(1) g2(1) g'(1) by (simp add: Let_def andthen_def gets_def lift_res_def)
  then show ?case using g'(2) by blast
qed

lemma keys_go:
  assumes env: "env_ok E" and sys: "sys_ok E" and so: "0 < size_of_offsets sb" "size_of_offsets sb < 256" and n: "0 \<le> n" "n < 256"
    and adds: "node_adds E (b + 1) sb ps0 fuel n" and goes: "node_goes E (b + 1) sb ps0 fuel n"
    and nav: "nav_state E b g" "b < 2 ^ 32 - 1" "nav_room g" and sb: "s_block g = sb" and ts: "tree_state E ps0 ls0 g"
    and ka: "0 \<le> node_address node" "node_address node + 8 + 2 * size_of_offsets sb < file_size E"
    and L: "leaf_entries E sb fuel n (node_address node + 8 + 2 * size_of_offsets sb) (nat eu) = Inr ls" "pages_of E ps0 ls"
    and eu: "0 \<le> eu" "eu < 65536"
  shows "\<exists>node' g'. keys_of E fuel n node eu (size_of_offsets sb) g = (Inr node', g') \<and> nav_room g'"
proof -
  let ?so = "size_of_offsets sb"
  let ?ka = "node_address node + 8 + 2 * ?so" and ?total = "u64 ((eu + 1) * (8 + (n + 1) * 8) + eu * ?so)"
  note kb = key_bytes_bounds [OF eu n so]
  have k: "0 \<le> ?ka" "i64 ?ka = ?ka" using ka so env by (simp_all add: env_ok_def i64_id)
  obtain ki h1 km kp where N: "navigated E ?ka ?total g = (Inr ki, h1)" "st_view E ki h1 = (Inr (km, kp), h1)" "nav_room h1"
    "reads_all E km kp ?ka ?total" and R: "\<forall>h. calm E (b + 1) h1 h \<longrightarrow> (\<exists>k. st_releasePages ki h = (Inr (), k) \<and> nav_room k = nav_room h)"
    using look_total [OF env sys nav k(1) ka(2) kb(1,2)] by blast
  note lk = look [OF env nav(1,2) k(1) ka(2) kb(1,2) N(1,2)]
  have h1: "s_block h1 = sb" "tree_state E ps0 ls0 h1" using outerD(1) [OF lk(4)] sb ts tree_state_outer [OF lk(4)] by simp_all
  have "int (nat eu) * (8 + (n + 1) * 8 + ?so) \<le> ?total" unfolding kb(3) using eu n by (simp add: algebra_simps)
  then obtain h2 where f: "fill_entries E fuel n km kp (nat eu) h1 = (Inr (), h2)" "nav_room h2"
    using entries_go [OF env sys so(1) n(1) adds goes lk(3) N(3) h1 lk(2) N(4) _ L] by blast
  have "added E (b + 1) ps0 ls0 ls h1 h2" by (rule entries_add [OF env so(1) n(1) adds lk(3) h1 lk(2) L(1) f(1)])
  then obtain g' where "st_releasePages ki h2 = (Inr (), g')" "nav_room g'" using R f(2) by (auto simp: added_def)
  then show ?thesis using N(1,2) f(1) k(2) by (simp add: keys_of_def andthen_def ret_def)
qed

lemma fillNode_step:
  assumes "node_address node \<noteq> UNDEF_ADDR"
    "navigated E (node_address node) (gran E) g = (Inr i, g1)" "st_view E i g1 = (Inr (m, p), g1)" "rd m p 4 = Inr sig"
  shows "sig \<noteq> ascii ''TREE'' \<Longrightarrow> st_releasePages i g1 = (Inr (), g2) \<Longrightarrow> fillNode E (Suc fuel) n node g =
      (Inr (node\<lparr>entries_used := 0, node_type := (if sig = ascii ''SNOD'' then SYMBOL else RAWDATA)\<rparr>), g2)"
    "sig = ascii ''TREE'' \<Longrightarrow> st_releasePages i g1 = (Inr (), g2) \<Longrightarrow> getMeta E m (p + 4) 1 = Inr t \<Longrightarrow>
      getMeta E m (p + 6) 2 = Inr eu \<Longrightarrow> node_cast t = CHUNK \<Longrightarrow>
      fillNode E (Suc fuel) n node g = keys_of E fuel n node (u16 eu) (size_of_offsets (s_block g2)) g2"
  using assms
  by (simp_all add: andthen_def lift_res_def guard_def gets_def Let_def keys_of_def ret_def split: sum.splits)

lemma node_go:
  assumes env: "env_ok E" "8 \<le> gran E" and sys: "sys_ok E" and so: "0 < size_of_offsets sb" "size_of_offsets sb < 256"
    and n: "0 \<le> n" "n < 256"
  shows "0 \<le> b \<Longrightarrow> b + int fuel < 2 ^ 32 - 2 \<Longrightarrow> node_goes E b sb ps0 fuel n"
proof (induction fuel arbitrary: b)
  case 0
  then show ?case by (simp add: node_goes_def)
next
  case (Suc fuel)
  have b1: "b < 2 ^ 32 - 1" "0 \<le> b + 1" "b + 1 + int fuel < 2 ^ 32 - 2" using Suc.prems by simp_all
  note IH = Suc.IH [OF b1(2,3)] and adds = node_run [OF env(1) so n b1(2,3)]
  show ?case
    unfolding node_goes_def
  proof (intro allI impI)
    fix node :: TreeNode and g raw ls ls0
    assume nav: "nav_state E b g" "nav_room g" and sb: "s_block g = sb" and ts: "tree_state E ps0 ls0 g"
      and L: "leaves_at E sb (Suc fuel) n (node_address node) = Inr (raw, ls)" and pg: "pages_of E ps0 ls"
    let ?a = "node_address node"
    show "\<exists>node' g'. fillNode E (Suc fuel) n node g = (Inr node', g') \<and> nav_room g'"
    proof (cases "?a = UNDEF_ADDR")
      case True
      then show ?thesis using nav(2) by (simp add: ret_def)
    next
      case False
      with L obtain sig where a: "0 \<le> ?a" "?a < file_size E" and sig: "rd (padded E) ?a 4 = Inr sig"
        by (auto split: if_splits)
      have gr: "0 < gran E" "gran E < 2 ^ 62" using env by (simp_all add: env_ok_def)
      obtain i g1 m p where N: "navigated E ?a (gran E) g = (Inr i, g1)" "st_view E i g1 = (Inr (m, p), g1)" "nav_room g1"
        "reads_all E m p ?a (gran E)" and R: "\<forall>h. calm E (b + 1) g1 h \<longrightarrow> (\<exists>k. st_releasePages i h = (Inr (), k) \<and> nav_room k = nav_room h)"
        using look_total [OF env(1) sys nav(1) b1(1) nav(2) a gr] by blast
      note lk = look [OF env(1) nav(1) b1(1) a gr N(1,2)]
      have quiet: "calm E (b + 1) g1 g1" using lk(3) by (rule calm_refl)
      then obtain g2 where r: "st_releasePages i g1 = (Inr (), g2)" "nav_room g2" using R N(3) by blast
      have s: "rd m p 4 = Inr sig" using reads_allD [OF N(4), of 0 4 sig] sig env(2) by simp
      note step = fillNode_step [OF False N(1,2) s]
      show ?thesis
      proof (cases "sig = ascii ''TREE''")
        case False
        then show ?thesis using step(1) [OF _ r(1)] r(2) by blast
      next
        case True
        then obtain t eu where M: "getMeta E (padded E) (?a + 4) 1 = Inr t" "getMeta E (padded E) (?a + 6) 2 = Inr eu"
          "node_cast t = CHUNK" "?a + 8 + 2 * size_of_offsets sb < file_size E"
          "leaf_entries E sb fuel n (?a + 8 + 2 * size_of_offsets sb) (nat (u16 eu)) = Inr ls"
          using L sig a \<open>?a \<noteq> UNDEF_ADDR\<close> by (auto simp: Let_def split: if_splits)
        have m: "getMeta E m (p + 4) 1 = Inr t" "getMeta E m (p + 6) 2 = Inr eu"
          using getMeta_total [OF N(4) _ _ _ M(1)] getMeta_total [OF N(4) _ _ _ M(2)] env(2) by simp_all
        have c: "calm E b g g2" "outer g2 = outer g" using lk(5) [OF quiet r(1)] lk(4) by auto
        then have g2: "nav_state E b g2" "s_block g2 = sb" "tree_state E ps0 ls0 g2"
          using outerD(1) [OF c(2)] sb ts tree_state_outer [OF c(2)] by (simp_all add: calm_def)
        have "0 \<le> u16 eu" "u16 eu < 65536" by (simp_all add: u16_def)
        from keys_go [OF env(1) sys so n adds IH g2(1) b1(1) r(2) g2(2,3) a(1) M(4,5) pg this] step(2) [OF True r(1) m M(3)] g2(2)
        show ?thesis by simp
      qed
    qed
  qed
qed

end
