(* ===== verification/ChunkCopy.thy ===== *)
theory ChunkCopy
  imports ChunkGeometry
begin

text \<open>
  The copy loop of \<open>doInflate_\<close> is correct: the carry loop on \<open>chunk_pos\<close> counts through the
  rows of the (clipped) chunk, the updates move both positions from row to row, and so every
  element of the chunk is copied to its place in the array, and nothing else is written.
\<close>

section \<open>The carry loop counts\<close>

lemma carry_none:
  assumes "\<And>k. j \<le> k \<Longrightarrow> k < cmd \<Longrightarrow> k < length cp \<and> k < length T \<and> cp ! k \<noteq> T ! k"
  shows "carry_loop cp T (int j) (int cmd) uu = Inr (cp, int cmd, uu)"
  using assms
proof (induction "cmd - j" arbitrary: j)
  case 0
  then show ?case by (simp add: carry_loop.simps)
next
  case (Suc d)
  then have "j < cmd" by simp
  with Suc(3) [of j] have "carry_loop cp T (int j) (int cmd) uu = carry_loop cp T (int (Suc j)) (int cmd) uu"
    by (subst carry_loop.simps) (simp add: add.commute)
  with Suc(1) [of "Suc j"] Suc(2,3) show ?case by simp
qed

lemma carry_step:
  assumes "j < cmd" "aget cp j = Inr t" "aget T j = Inr t" "aset cp j 0 = Inr cp1"
    "aget cp1 (j + 1) = Inr y" "aset cp1 (j + 1) (i64 (y + 1)) = Inr cp2"
  shows "carry_loop cp T j cmd uu =
    carry_loop cp2 T (j + 1) (if cmd \<le> j + 1 then u8 (cmd + 1) else cmd) (u8 (uu + 1))"
  using assms by (subst carry_loop.simps) simp

definition bump :: "int list \<Rightarrow> int list" where
  "bump xs = (hd xs + 1) # tl xs"

lemma bump_simps [simp]: "bump (x # xs) = (x + 1) # xs"
  by (simp add: bump_def)

lemma carry_run:
  assumes "digits qs ts" "length preT = length pre" "length pre < cmd"
    "cmd \<le> length pre + max 1 (length qs)" "\<forall>k < length qs. cmd \<le> length pre + k \<longrightarrow> qs ! k = 0"
    "\<forall>t \<in> set ts. t < 2 ^ 63" "length pre + length ts < 200" "0 \<le> uu" "uu + int (length ts) < 200"
    "inc qs ts = (m, qs')"
  shows "\<exists>cmd'. carry_loop (pre @ bump (qs @ 0 # zs)) (preT @ ts @ 0 # tz) (int (length pre)) (int cmd) uu
      = Inr (pre @ qs' @ (if m = length ts then 1 else 0) # zs, int cmd', uu + int m) \<and> length pre < cmd' \<and>
     (m < length ts \<longrightarrow> cmd' \<le> length pre + length qs) \<and>
     (\<forall>k < length qs'. cmd' \<le> length pre + k \<longrightarrow> qs' ! k = 0)"
  using assms
proof (induction qs ts arbitrary: pre preT cmd uu m qs' rule: digits.induct)
  case 1
  then have cmd: "cmd = Suc (length pre)" and m: "m = 0" "qs' = []" by auto
  have "carry_loop (pre @ bump ([] @ 0 # zs)) (preT @ [] @ 0 # tz) (int (length pre)) (int cmd) uu =
      Inr (pre @ bump ([] @ 0 # zs), int cmd, uu)"
    by (rule carry_none) (use 1 cmd in \<open>auto simp: nth_append less_Suc_eq_le\<close>)
  then show ?case using m cmd by (intro exI [of _ cmd]) auto
next
  case (2 q qs t ts)
  let ?j = "length pre"
  let ?cp = "pre @ bump ((q # qs) @ 0 # zs)" and ?T = "preT @ (t # ts) @ 0 # tz"
  have g: "aget ?cp (int ?j) = Inr (q + 1)" "aget ?T (int ?j) = Inr t"
    using aget_append [of pre "q + 1"] aget_append [of preT t] 2(3) by simp_all
  show ?case
  proof (cases "q + 1 = t")
    case True
    then obtain k qs1 where k: "inc qs ts = (k, qs1)" "m = Suc k" "qs' = 0 # qs1"
      using 2(11) by (auto split: prod.splits)
    let ?cmd = "if cmd \<le> ?j + 1 then cmd + 1 else cmd"
    obtain y ys where y: "qs @ 0 # zs = y # ys" by (cases qs) auto
    have yb: "0 \<le> y \<and> y < 2 ^ 63 - 1"
    proof (cases qs)
      case (Cons q' qs'')
      with 2(2) y obtain t' ts' where "ts = t' # ts'" "y = q'" "0 \<le> q'" "q' < t'"
        by (cases ts) auto
      with 2(7) show ?thesis by auto
    qed (use y in auto)
    have s1: "aset ?cp (int ?j) 0 = Inr (pre @ 0 # y # ys)"
      using aset_append [of pre "q + 1" "y # ys" 0] y by simp
    have s2: "aget (pre @ 0 # y # ys) (int ?j + 1) = Inr y"
      using aget_append [of "pre @ [0]" y ys] by (simp add: add.commute)
    have s3: "aset (pre @ 0 # y # ys) (int ?j + 1) (i64 (y + 1)) = Inr ((pre @ [0]) @ bump (qs @ 0 # zs))"
      using aset_append [of "pre @ [0]" y ys "y + 1"] y yb by (simp add: add.commute i64_id)
    have c: "(if int cmd \<le> int ?j + 1 then u8 (int cmd + 1) else int cmd) = int ?cmd"
      using 2(5,8) by (auto simp: u8_id)
    have u: "u8 (uu + 1) = uu + 1" using 2(9,10) by (intro u8_id) auto
    have g1: "aget ?cp (int ?j) = Inr t" using g(1) True by simp
    have "carry_loop ?cp ?T (int ?j) (int cmd) uu =
        carry_loop ((pre @ [0]) @ bump (qs @ 0 # zs)) ?T (int ?j + 1)
          (if int cmd \<le> int ?j + 1 then u8 (int cmd + 1) else int cmd) (u8 (uu + 1))"
      using 2(4) by (intro carry_step [OF _ g1 g(2) s1 s2 s3]) simp
    then have "carry_loop ?cp ?T (int ?j) (int cmd) uu =
        carry_loop ((pre @ [0]) @ bump (qs @ 0 # zs)) ?T (int ?j + 1) (int ?cmd) (uu + 1)"
      by (simp only: c u)
    moreover have "?T = (preT @ [t]) @ ts @ 0 # tz" "int ?j + 1 = int (length (pre @ [0]))" by simp_all
    ultimately have step: "carry_loop ?cp ?T (int ?j) (int cmd) uu =
        carry_loop ((pre @ [0]) @ bump (qs @ 0 # zs)) ((preT @ [t]) @ ts @ 0 # tz)
          (int (length (pre @ [0]))) (int ?cmd) (uu + 1)"
      by (simp only:)
    have zero: "\<forall>k < length qs. ?cmd \<le> length (pre @ [0]) + k \<longrightarrow> qs ! k = 0"
    proof (intro allI impI)
      fix k assume "k < length qs" "?cmd \<le> length (pre @ [0]) + k"
      then show "qs ! k = 0" using 2(6) [rule_format, of "Suc k"] by (auto split: if_splits)
    qed
    have "\<exists>cmd'. carry_loop ((pre @ [0]) @ bump (qs @ 0 # zs)) ((preT @ [t]) @ ts @ 0 # tz)
          (int (length (pre @ [0]))) (int ?cmd) (uu + 1)
        = Inr ((pre @ [0]) @ qs1 @ (if k = length ts then 1 else 0) # zs, int cmd', uu + 1 + int k) \<and>
        length (pre @ [0]) < cmd' \<and>
        (k < length ts \<longrightarrow> cmd' \<le> length (pre @ [0]) + length qs) \<and>
        (\<forall>i < length qs1. cmd' \<le> length (pre @ [0]) + i \<longrightarrow> qs1 ! i = 0)"
      by (rule 2(1) [OF _ _ _ _ zero _ _ _ _ k(1)]) (use 2 in \<open>auto simp: max_def split: if_splits\<close>)
    then obtain cmd' where cmd': "carry_loop ?cp ?T (int ?j) (int cmd) uu
        = Inr ((pre @ [0]) @ qs1 @ (if k = length ts then 1 else 0) # zs, int cmd', uu + 1 + int k)"
        "length (pre @ [0]) < cmd'" "k < length ts \<longrightarrow> cmd' \<le> length (pre @ [0]) + length qs"
        "\<forall>i < length qs1. cmd' \<le> length (pre @ [0]) + i \<longrightarrow> qs1 ! i = 0"
      unfolding step by blast
    have "\<forall>i < length qs'. cmd' \<le> ?j + i \<longrightarrow> qs' ! i = 0"
      using cmd'(4) k(3) by (auto simp: nth_Cons split: nat.splits)
    with cmd' k show ?thesis by (intro exI [of _ cmd']) auto
  next
    case False
    then have m: "m = 0" "qs' = (q + 1) # qs" using 2(11) by auto
    have "carry_loop ?cp ?T (int ?j) (int cmd) uu = Inr (?cp, int cmd, uu)"
    proof (rule carry_none)
      fix k assume k: "?j \<le> k" "k < cmd"
      then have "k - ?j < Suc (length qs)" using 2(5) by auto
      moreover have "length qs = length ts" using 2(2) digits_length by simp
      moreover have "digits qs ts" using 2(2) by simp
      then have "\<forall>i < length qs. qs ! i \<noteq> ts ! i"
        by (induction qs ts rule: digits.induct) (auto simp: nth_Cons split: nat.splits)
      ultimately show "k < length ?cp \<and> k < length ?T \<and> ?cp ! k \<noteq> ?T ! k"
        using k(1) False 2(3) by (auto simp: nth_append nth_Cons split: nat.splits)
    qed
    moreover have "\<forall>k < length qs'. cmd \<le> ?j + k \<longrightarrow> qs' ! k = 0"
    proof (intro allI impI)
      fix k assume "k < length qs'" "cmd \<le> ?j + k"
      with 2(4) 2(6) [rule_format, of k] m show "qs' ! k = 0" by (cases k) auto
    qed
    ultimately show ?thesis using m 2(4,5) digits_length [OF 2(2)] by (intro exI [of _ cmd]) auto
  qed
qed simp_all


section \<open>The rows\<close>

lemma set_darr_simps [simp]:
  "set_darr (set_darr object a) b = set_darr object b"
  "num_elems (set_darr object a) = num_elems object"
  "elem_size (set_darr object a) = elem_size object"
  "byte_order (set_darr object a) = byte_order object"
  "matlab_internal_type (set_darr object a) = matlab_internal_type object"
  "darr (data_arrays (set_darr object a)) = a"
  by (simp_all add: set_darr_def)

text \<open>
  A box of dimensions \<open>T\<close> in an array of dimensions \<open>D\<close>, its first element at position \<open>s\<close>; the
  buffer has dimensions \<open>C\<close>. All positions and byte counts are in range.
\<close>

definition box_ok :: "nat \<Rightarrow> int \<Rightarrow> int list \<Rightarrow> int list \<Rightarrow> int list \<Rightarrow> bool" where
  "box_ok es s T D C \<longleftrightarrow> 0 \<le> s \<and> list_all2 (\<le>) T D \<and> list_all2 (\<le>) T C \<and> (\<forall>t \<in> set T. 0 < t) \<and>
     pprod D < 2 ^ 62 \<and> pprod C < 2 ^ 62 \<and> int es * pprod D < 2 ^ 63 \<and> int es * pprod C < 2 ^ 63 \<and>
     (\<forall>p. digits p T \<longrightarrow> s + val p D < pprod D)"

definition obj_ok :: "env \<Rightarrow> Data \<Rightarrow> nat \<Rightarrow> int list \<Rightarrow> bool" where
  "obj_ok E object es D \<longleftrightarrow> num_elems object = pprod D \<and> elem_size object = int es \<and>
     byte_order object = host E \<and> plain_class (matlab_internal_type object)"

text \<open>\<open>written\<close>: what the array holds after the rows from \<open>ps\<close> on have been copied.\<close>

definition written :: "nat \<Rightarrow> int \<Rightarrow> int list \<Rightarrow> int list \<Rightarrow> int list \<Rightarrow> byte list \<Rightarrow> int \<Rightarrow>
    byte list \<Rightarrow> byte list \<Rightarrow> bool" where
  "written es s T D C buf r d d' \<longleftrightarrow> length d' = length d \<and>
     (\<forall>p. digits p T \<longrightarrow> r \<le> val (tl p) (tl T) \<longrightarrow> elem es d' (nat (s + val p D)) = elem es buf (nat (val p C))) \<and>
     (\<forall>i. (\<forall>p. digits p T \<longrightarrow> r \<le> val (tl p) (tl T) \<longrightarrow> int i \<noteq> s + val p D) \<longrightarrow> elem es d' i = elem es d i)"

lemma digits_Cons: "digits p (t # ts) \<longleftrightarrow> (\<exists>q qs. p = q # qs \<and> 0 \<le> q \<and> q < t \<and> digits qs ts)"
  by (cases p) auto

lemma digits_Ts_pos: "digits ps ts \<Longrightarrow> \<forall>t \<in> set ts. 0 < t"
  by (induction ps ts rule: digits.induct) auto

lemma list_all2_pos: "list_all2 (\<le>) T D \<Longrightarrow> \<forall>t \<in> set T. 0 < t \<Longrightarrow> \<forall>t \<in> set D. (0::int) < t"
  by (induction T D rule: list_all2_induct) auto

text \<open>One row copied: it is the first of the rows that \<open>written\<close> speaks of.\<close>

lemma written_row:
  assumes box: "box_ok es s (t0 # ts) (d0 # ds) (c0 # cs)" and ps: "digits ps ts"
    and len: "length d = es * nat (pprod (d0 # ds))" "es * nat (pprod (c0 # cs)) \<le> length buf"
    and d1: "d1 = blit es d (nat (s + d0 * val ps ds))
        (take (es * nat t0) (drop (es * nat (c0 * val ps cs)) buf))"
    and w: "written es s (t0 # ts) (d0 # ds) (c0 # cs) buf (val ps ts + 1) d1 d'"
  shows "written es s (t0 # ts) (d0 # ds) (c0 # cs) buf (val ps ts) d d'"
proof -
  let ?T = "t0 # ts" and ?D = "d0 # ds" and ?C = "c0 # cs"
  let ?bs = "take (es * nat t0) (drop (es * nat (c0 * val ps cs)) buf)"
  let ?i = "nat (s + d0 * val ps ds)"
  have TD: "list_all2 (\<le>) ?T ?D" "list_all2 (\<le>) ?T ?C" and s0: "0 \<le> s" and pos: "0 < t0"
    using box by (auto simp: box_ok_def)
  have nn: "0 \<le> val ps ds" "0 \<le> val ps cs" using val_nonneg [OF ps] TD by auto
  have dp: "0 < d0" "0 < c0" using TD pos by auto
  have "digits ((t0 - 1) # ps) ?T" using ps pos by simp
  then have "s + val ((t0 - 1) # ps) ?D < pprod ?D" "val ((t0 - 1) # ps) ?C < pprod ?C"
    using box val_bounds [OF digits_mono [OF _ TD(2)]] by (simp_all only: box_ok_def)
  then have e: "s + (t0 - 1) + d0 * val ps ds < pprod ?D" "(t0 - 1) + c0 * val ps cs < pprod ?C"
    by simp_all
  have z: "0 \<le> d0 * val ps ds" "0 \<le> c0 * val ps cs" using nn dp by simp_all
  have "?i + nat t0 \<le> nat (pprod ?D)" using e z s0 pos by linarith
  then have ld: "es * (?i + nat t0) \<le> length d" unfolding len(1) by (rule mult_le_mono2)
  have "nat (c0 * val ps cs) + nat t0 \<le> nat (pprod ?C)" using e z pos by linarith
  then have "es * (nat (c0 * val ps cs) + nat t0) \<le> es * nat (pprod ?C)" by (rule mult_le_mono2)
  with len(2) have lb: "es * nat (c0 * val ps cs) + es * nat t0 \<le> length buf"
    by (simp add: distrib_left)
  then have bs: "length ?bs = es * nat t0" by simp
  have l1: "length d1 = length d" unfolding d1 by (rule length_blit [OF bs ld])
  have row: "elem es d1 (nat (s + val (p0 # ps) ?D)) = elem es buf (nat (val (p0 # ps) ?C))"
    if "0 \<le> p0" "p0 < t0" for p0
  proof -
    have "nat p0 < nat t0" using that by simp
    then have "elem es d1 (?i + nat p0) = elem es buf (nat (c0 * val ps cs) + nat p0)"
      unfolding d1 by (simp add: elem_blit_run [OF _ bs ld] elem_take_run)
    moreover have "nat (s + val (p0 # ps) ?D) = ?i + nat p0" using that z s0 by (simp add: nat_add_distrib)
    moreover have "nat (val (p0 # ps) ?C) = nat (c0 * val ps cs) + nat p0" using that z by (simp add: nat_add_distrib)
    ultimately show ?thesis by simp
  qed
  have other: "elem es d1 i = elem es d i" if "\<And>p0. 0 \<le> p0 \<Longrightarrow> p0 < t0 \<Longrightarrow> int i \<noteq> s + val (p0 # ps) ?D" for i
  proof -
    have "i < ?i \<or> ?i + nat t0 \<le> i"
    proof (rule ccontr)
      assume "\<not> ?thesis"
      then have "0 \<le> int i - (s + d0 * val ps ds)" "int i - (s + d0 * val ps ds) < t0"
        using z s0 by linarith+
      with that show False by fastforce
    qed
    then show ?thesis unfolding d1 by (rule elem_blit_other [OF _ bs ld])
  qed
  show ?thesis
    unfolding written_def
  proof (intro conjI allI impI)
    show "length d' = length d" using w l1 by (simp add: written_def)
  next
    fix p assume p: "digits p ?T" "val ps ts \<le> val (tl p) (tl ?T)"
    then obtain p0 qs where q: "p = p0 # qs" "0 \<le> p0" "p0 < t0" "digits qs ts" by (auto simp: digits_Cons)
    show "elem es d' (nat (s + val p ?D)) = elem es buf (nat (val p ?C))"
    proof (cases "val qs ts = val ps ts")
      case False
      with p q have "val ps ts + 1 \<le> val (tl p) (tl ?T)" by simp
      with w p(1) show ?thesis unfolding written_def by blast
    next
      case True
      then have qp: "qs = ps" using val_inj q(4) ps by blast
      have "int (nat (s + val p ?D)) \<noteq> s + val p' ?D"
        if p': "digits p' ?T" "val ps ts + 1 \<le> val (tl p') (tl ?T)" for p'
      proof
        assume "int (nat (s + val p ?D)) = s + val p' ?D"
        moreover have "0 \<le> val p ?D" using val_nonneg [OF p(1) TD(1)] .
        ultimately have "val p ?D = val p' ?D" using s0 by simp
        then have "p = p'" using val_inj digits_mono [OF p(1) TD(1)] digits_mono [OF p'(1) TD(1)] by blast
        with p'(2) q qp show False by simp
      qed
      then have "elem es d' (nat (s + val p ?D)) = elem es d1 (nat (s + val p ?D))"
        using w unfolding written_def by blast
      with row q qp show ?thesis by simp
    qed
  next
    fix i assume i: "\<forall>p. digits p ?T \<longrightarrow> val ps ts \<le> val (tl p) (tl ?T) \<longrightarrow> int i \<noteq> s + val p ?D"
    then have "\<forall>p. digits p ?T \<longrightarrow> val ps ts + 1 \<le> val (tl p) (tl ?T) \<longrightarrow> int i \<noteq> s + val p ?D"
      by (meson add_le_same_cancel1 order_trans zle_add1_eq_le zless_add1_eq less_imp_le)
    then have "elem es d' i = elem es d1 i" using w unfolding written_def by blast
    moreover have "elem es d1 i = elem es d i"
    proof (rule other)
      fix p0 assume "0 \<le> p0" "p0 < t0"
      with ps have "digits (p0 # ps) ?T" by simp
      with i show "int i \<noteq> s + val (p0 # ps) ?D" by fastforce
    qed
    ultimately show "elem es d' i = elem es d i" by simp
  qed
qed


text \<open>Both positions after a row, with the carries \<open>m\<close> that the row's end causes.\<close>

lemma next_pos:
  assumes "digits ps ts" "0 < t0" "inc ps ts = (m, qs)" "length ds = length ts"
    "0 \<le> s" "list_all2 (\<le>) (t0 # ts) (d0 # ds)" "\<And>p. digits p (t0 # ts) \<Longrightarrow> s + val p (d0 # ds) < pprod (d0 # ds)"
    "pprod (d0 # ds) < 2 ^ 62"
  shows "i64 (i64 ((s + d0 * val ps ds) + t0) + i64 (gap (Suc m) (t0 # ts) (d0 # ds))) =
    s + d0 * val qs ds + (if m = length ts then pprod (d0 # ds) else 0)"
proof -
  have q: "digits qs ts" using inc_digits [OF assms(1)] assms(3) by simp
  then have q0: "digits (0 # qs) (t0 # ts)" using assms(2) by simp
  have d0: "0 < d0" using assms(2,6) by simp
  have v: "0 \<le> val qs ds" using val_nonneg [OF q] assms(6) by simp
  then have nn: "0 \<le> d0 * val qs ds" using d0 by simp
  have "val qs ds + (if m = length ts then pprod ds else 0) = val ps ds + 1 + gap m ts ds"
    using inc_val [OF assms(3) digits_length [OF assms(1)] assms(4)] .
  then have "d0 * (val qs ds + (if m = length ts then pprod ds else 0)) = d0 * (val ps ds + 1 + gap m ts ds)"
    by simp
  then have e: "(s + d0 * val ps ds) + t0 + gap (Suc m) (t0 # ts) (d0 # ds) =
      s + d0 * val qs ds + (if m = length ts then pprod (d0 # ds) else 0)"
    by (simp add: algebra_simps split: if_splits)
  have "s + d0 * val qs ds < pprod (d0 # ds)" using assms(7) [OF q0] by simp
  with nn assms(5,8) show ?thesis
    by (simp only: i64_absorb e) (rule i64_id; simp)
qed

lemma i64_digit: "digits ps ts \<Longrightarrow> \<forall>t \<in> set ts. t < 2 ^ 63 \<Longrightarrow> ps @ 0 # zs = x # xs \<Longrightarrow> i64 (x + 1) = x + 1"
  by (cases ps; cases ts) (auto intro!: i64_id)

lemma written_end:
  assumes "digits ps ts" "inc ps ts = (length ts, qs)"
  shows "written es s (t0 # ts) D C buf (val ps ts + 1) d d"
proof -
  have "val qs ts + pprod ts = val ps ts + 1"
    using inc_val [OF assms(2) digits_length [OF assms(1)], of ts] by simp
  moreover have "0 \<le> val qs ts" using inc_digits [OF assms(1)] assms(2) val_bounds by simp
  ultimately have "pprod ts \<le> val ps ts + 1" by simp
  then have "\<not> val ps ts + 1 \<le> val (tl p) ts" if "digits p (t0 # ts)" for p
    using that val_bounds [of "tl p" ts] by (auto simp: digits_Cons)
  then show ?thesis by (auto simp: written_def)
qed

definition updates_ok :: "int list \<Rightarrow> int list \<Rightarrow> int list \<Rightarrow> bool" where
  "updates_ok U T D \<longleftrightarrow> length T \<le> length U \<and> (\<forall>m < length T. U ! m = i64 (gap (Suc m) T D))"

lemma pprod_mono: "list_all2 (\<le>) T D \<Longrightarrow> \<forall>t \<in> set T. 0 < t \<Longrightarrow> pprod T \<le> pprod D"
proof (induction T D rule: list_all2_induct)
  case (Cons t T d D)
  then have "t * pprod T \<le> d * pprod D"
    using pprod_ge_1 [of T] by (intro mult_mono) auto
  then show ?case by simp
qed simp

lemma copy_rows_run:
  assumes box: "box_ok es s (t0 # ts) (d0 # ds) (c0 # cs)" and obj: "obj_ok E object es (d0 # ds)"
    and upd: "updates_ok IU (t0 # ts) (d0 # ds)" "updates_ok CU (t0 # ts) (c0 # cs)"
    and n31: "length ts \<le> 31" and used: "0 < n_these" and buf: "es * nat (pprod (c0 # cs)) \<le> length buf"
    and "digits ps ts" "length d = es * nat (pprod (d0 # ds))" "1 < cmd" "cmd \<le> 1 + max 1 (length ps)"
    "\<forall>k < length ps. cmd \<le> 1 + k \<longrightarrow> ps ! k = 0" "nat (pprod ts - val ps ts) < fuel"
  shows "\<exists>d'. copy_rows fuel E (set_darr object (Some d)) buf ((t0 # ts) @ 0 # tz) IU CU n_these
      (z0 # ps @ 0 # zs) (int cmd) (s + d0 * val ps ds) (c0 * val ps cs)
      = Inr (set_darr object (Some d'), buf) \<and>
    written es s (t0 # ts) (d0 # ds) (c0 # cs) buf (val ps ts) d d'"
  using assms(8-)
proof (induction fuel arbitrary: ps d cmd)
  case (Suc fuel)
  let ?T = "t0 # ts" and ?D = "d0 # ds" and ?C = "c0 # cs"
  have TD: "list_all2 (\<le>) ?T ?D" "list_all2 (\<le>) ?T ?C" and s0: "0 \<le> s" and tpos: "\<forall>t \<in> set ?T. 0 < t"
    and big: "pprod ?D < 2 ^ 62" "pprod ?C < 2 ^ 62" "int es * pprod ?D < 2 ^ 63"
    and box1: "\<And>p. digits p ?T \<Longrightarrow> s + val p ?D < pprod ?D"
    using box unfolding box_ok_def by blast+
  have box2: "0 + val p ?C < pprod ?C" if "digits p ?T" for p
    using val_bounds [OF digits_mono [OF that TD(2)]] by simp
  have lens: "length ds = length ts" "length cs = length ts" using TD by (auto dest: list_all2_lengthD)
  have t0: "0 < t0" and dpos: "0 < d0" "0 < c0" using tpos TD by auto
  have tsb: "\<forall>t \<in> set ts. t < 2 ^ 63"
    using mem_le_pprod [of _ ?T] tpos pprod_mono [OF TD(1) tpos] big by fastforce
  have ps: "digits ps ts" and ld: "length d = es * nat (pprod ?D)" using Suc.prems by auto
  have lps: "length ps = length ts" using digits_length [OF ps] .
  let ?index = "s + d0 * val ps ds" and ?db = "c0 * val ps cs"
  have nn: "0 \<le> d0 * val ps ds" "0 \<le> ?db"
    using val_nonneg [OF ps] TD dpos by simp_all
  have dg: "digits (0 # ps) ?T" "digits ((t0 - 1) # ps) ?T" using ps t0 by simp_all
  have lt: "?index < pprod ?D" using box1 [OF dg(1)] by simp
  have room: "?index + t0 \<le> pprod ?D" "?db + t0 \<le> pprod ?C" using box1 [OF dg(2)] box2 [OF dg(2)] by simp_all
  define d1 where "d1 = blit es d (nat ?index) (take (es * nat t0) (drop (es * nat ?db) buf))"
  define o1 where "o1 = set_darr object (Some d1)"
  have fits: "es * (nat ?index + nat t0) \<le> length d" "es * (nat ?db + nat t0) \<le> length buf"
  proof -
    have "nat ?index + nat t0 \<le> nat (pprod ?D)" "nat ?db + nat t0 \<le> nat (pprod ?C)"
      using room nn s0 t0 by linarith+
    then have "es * (nat ?index + nat t0) \<le> es * nat (pprod ?D)" "es * (nat ?db + nat t0) \<le> es * nat (pprod ?C)"
      by (simp_all only: mult_le_mono2)
    then show "es * (nat ?index + nat t0) \<le> length d" "es * (nat ?db + nat t0) \<le> length buf"
      using ld buf by linarith+
  qed
  have "int es * t0 \<le> int es * pprod ?D" using room nn s0 by (intro mult_left_mono) linarith+
  then have small: "int (es * nat t0) < 2 ^ 64" using big(3) t0 by simp
  have place: "placeData E (set_darr object (Some d)) True buf 0 ?index ?db t0 (int es) (host E) = Inr (o1, buf)"
    using placeData_run [of "set_darr object (Some d)" E "host E" d es "nat ?index" "nat t0" "nat ?db" buf True]
      obj fits small nn s0 t0 by (simp add: obj_ok_def o1_def d1_def)
  obtain x xs where x: "ps @ 0 # zs = x # xs" by (cases ps) auto
  have cp1: "aget (z0 # ps @ 0 # zs) 1 = Inr x" "aset (z0 # ps @ 0 # zs) 1 (i64 (x + 1)) = Inr ([z0] @ bump (ps @ 0 # zs))"
    using x i64_digit [OF ps tsb x] by (simp_all add: aget_def aset_def)
  obtain m qs where inc: "inc ps ts = (m, qs)" by (cases "inc ps ts")
  have mle: "m \<le> length ts" using inc_count [of ps ts] inc by simp
  have qs: "digits qs ts" using inc_digits [OF ps] inc by simp
  obtain cmd' where carry: "carry_loop ([z0] @ bump (ps @ 0 # zs)) (?T @ 0 # tz) 1 (int cmd) 0
      = Inr ([z0] @ qs @ (if m = length ts then 1 else 0) # zs, int cmd', int m)" "1 < cmd'"
      "m < length ts \<longrightarrow> cmd' \<le> 1 + length ps" "\<forall>k < length qs. cmd' \<le> 1 + k \<longrightarrow> qs ! k = 0"
    using carry_run [OF ps, of "[t0]" "[z0]" cmd 0 m qs zs tz] Suc.prems(3-5) tsb n31 inc by auto
  have um: "aget IU (int m) = Inr (i64 (gap (Suc m) ?T ?D))" "aget CU (int m) = Inr (i64 (gap (Suc m) ?T ?C))"
    using upd mle by (auto simp: updates_ok_def aget_def)
  have ni: "i64 (i64 (?index + t0) + i64 (gap (Suc m) ?T ?D)) =
      s + d0 * val qs ds + (if m = length ts then pprod ?D else 0)"
    by (rule next_pos [OF ps t0 inc lens(1) s0 TD(1) box1 big(1)])
  have nd: "i64 (i64 (?db + t0) + i64 (gap (Suc m) ?T ?C)) =
      c0 * val qs cs + (if m = length ts then pprod ?C else 0)"
    using next_pos [OF ps t0 inc lens(2) _ TD(2) box2 big(2)] by simp
  have step: "copy_rows (Suc fuel) E (set_darr object (Some d)) buf (?T @ 0 # tz) IU CU n_these
      (z0 # ps @ 0 # zs) (int cmd) ?index ?db =
    copy_rows fuel E o1 buf (?T @ 0 # tz) IU CU n_these
      (z0 # qs @ (if m = length ts then 1 else 0) # zs) (int cmd')
      (s + d0 * val qs ds + (if m = length ts then pprod ?D else 0))
      (c0 * val qs cs + (if m = length ts then pprod ?C else 0))"
  proof -
    have "aget (?T @ 0 # tz) 0 = Inr t0" by (simp add: aget_def)
    then show ?thesis
      using lt used obj place carry(1)
      by (simp add: obj_ok_def cp1 um ni nd del: i64_absorb i64_absorb_deep bump_simps gap.simps pprod_simps)
  qed
  have l1: "length d1 = length d"
    unfolding d1_def using fits by (intro length_blit) (simp_all add: distrib_left)
  have row: "\<exists>d'. copy_rows (Suc fuel) E (set_darr object (Some d)) buf (?T @ 0 # tz) IU CU n_these
        (z0 # ps @ 0 # zs) (int cmd) ?index ?db = Inr (set_darr object (Some d'), buf) \<and>
      written es s ?T ?D ?C buf (val ps ts + 1) d1 d'"
  proof (cases "m = length ts")
    case True
    have "0 \<le> s + d0 * val qs ds" using val_nonneg [OF qs] TD dpos s0 by simp
    moreover have "0 < fuel" using Suc.prems(6) val_bounds [OF ps] by linarith
    ultimately have "copy_rows fuel E o1 buf (?T @ 0 # tz) IU CU n_these (z0 # qs @ 1 # zs) (int cmd')
        (s + d0 * val qs ds + pprod ?D) (c0 * val qs cs + pprod ?C) = Inr (set_darr object (Some d1), buf)"
      using obj by (cases fuel) (simp_all add: o1_def obj_ok_def)
    with step True written_end [OF ps] inc show ?thesis by auto
  next
    case False
    have v: "val qs ts = val ps ts + 1"
      using inc_val [OF inc lps, of ts] False by simp
    have lq: "length qs = length ps" using digits_length [OF qs] lps by simp
    have "\<exists>d'. copy_rows fuel E (set_darr object (Some d1)) buf (?T @ 0 # tz) IU CU n_these
        (z0 # qs @ 0 # zs) (int cmd') (s + d0 * val qs ds) (c0 * val qs cs)
        = Inr (set_darr object (Some d'), buf) \<and> written es s ?T ?D ?C buf (val qs ts) d1 d'"
      by (rule Suc.IH [OF qs]) (use l1 ld carry mle False lq lps v Suc.prems(6) val_bounds [OF qs] in auto)
    with step False v show ?thesis by (simp add: o1_def)
  qed
  with written_row [OF box ps ld buf d1_def] show ?case by blast
qed simp


section \<open>A whole chunk\<close>

text \<open>The part of a chunk that lies inside the array.\<close>

definition box_dims :: "int list \<Rightarrow> int list \<Rightarrow> int list \<Rightarrow> int list" where
  "box_dims C ss D = map (\<lambda>(c, s, d). min c (d - s)) (zip C (zip ss D))"

text \<open>A chunked object of dimensions \<open>D\<close>, its chunk dimensions \<open>C\<close>, and the start of a chunk.\<close>

definition chunk_ok :: "env \<Rightarrow> Data \<Rightarrow> nat \<Rightarrow> int list \<Rightarrow> int list \<Rightarrow> int list \<Rightarrow> bool" where
  "chunk_ok E object es D C ss \<longleftrightarrow>
     obj_ok E object es D \<and> dims object = Some (D @ [0]) \<and> num_dims object = int (length D) \<and>
     1 \<le> length D \<and> length D \<le> 32 \<and> length C = length D \<and> digits ss D \<and> (\<forall>c \<in> set C. 0 < c) \<and>
     chunked_dims (chunked_info object) = Some (C @ [0]) \<and>
     num_chunked_dims (chunked_info object) = int (length D) \<and>
     num_chunked_elems (chunked_info object) = pprod C \<and>
     (\<exists>u. chunk_update (chunked_info object) =
        Some (map (\<lambda>i. i64 (gap (Suc i) C D)) [0..<length D] @ u)) \<and>
     pprod D < 2 ^ 62 \<and> pprod C < 2 ^ 62 \<and> int es * pprod D < 2 ^ 63 \<and> int es * pprod C < 2 ^ 63"

lemma box_dims_Cons [simp]: "box_dims (c # cs) (s # ss) (d # ds) = min c (d - s) # box_dims cs ss ds"
  by (simp add: box_dims_def)

lemma box_dims_props:
  assumes "digits ss D" "length C = length D" "\<forall>c \<in> set C. 0 < c"
  shows "length (box_dims C ss D) = length D \<and> list_all2 (\<le>) (box_dims C ss D) D \<and>
    list_all2 (\<le>) (box_dims C ss D) C \<and> (\<forall>t \<in> set (box_dims C ss D). 0 < t)"
  using assms
proof (induction ss D arbitrary: C rule: digits.induct)
  case (2 s ss d ds)
  obtain c cs where C: "C = c # cs" using 2(3) by (cases C) simp_all
  have "length (box_dims cs ss ds) = length ds \<and> list_all2 (\<le>) (box_dims cs ss ds) ds \<and>
    list_all2 (\<le>) (box_dims cs ss ds) cs \<and> (\<forall>t \<in> set (box_dims cs ss ds). 0 < t)"
    using 2(2-4) C by (intro 2(1)) simp_all
  with 2(2,4) C show ?case by (auto simp: min_def)
qed (auto simp: box_dims_def)

lemma box_dims_digits:
  "digits ss D \<Longrightarrow> digits p (box_dims C ss D) \<Longrightarrow> length C = length D \<Longrightarrow> digits (map2 (+) ss p) D"
proof (induction ss D arbitrary: C p rule: digits.induct)
  case (2 s ss d ds)
  then show ?case by (cases C) (auto simp: digits_Cons)
qed (auto simp: box_dims_def)

lemma clip_dims_eq:
  assumes "digits ss D" "length C = length D" "\<forall>c \<in> set C. 0 < c \<and> c < 2 ^ 62" "\<forall>d \<in> set D. d < 2 ^ 62"
  shows "map (\<lambda>(c, s, d). clip_dim c s d) (zip C (zip ss D)) = box_dims C ss D"
  using assms
proof (induction ss D arbitrary: C rule: digits.induct)
  case (2 s ss d ds)
  then obtain c cs where C: "C = c # cs" by (cases C) auto
  have "i64 (s + c) = s + c" "i64 (s + c - d) = s + c - d" "i64 (c - (s + c - d)) = c - (s + c - d)" "i64 c = c"
    using 2(2,4,5) C by (simp_all add: i64_id)
  then have "clip_dim c s d = min c (d - s)" by (simp add: clip_dim_def)
  with 2 C show ?case by simp
qed (auto simp: box_dims_def)

lemma gap_append: "m \<le> length C \<Longrightarrow> length C = length D \<Longrightarrow> gap m (C @ xs) (D @ ys) = gap m C D"
proof (induction m arbitrary: C D)
  case (Suc m)
  then show ?case by (cases C; cases D) auto
next
  case 0
  show ?case by (cases "C @ xs"; cases "D @ ys"; cases C; cases D) auto
qed

lemma val_zeros [simp]: "val (replicate n 0) ds = 0"
  by (induction n arbitrary: ds) (simp_all, case_tac ds, simp_all)

lemma digits_zeros: "\<forall>t \<in> set ts. 0 < t \<Longrightarrow> digits (replicate (length ts) 0) ts"
  by (induction ts) auto

text \<open>The updates the code works with are the gaps of the clipped chunk in both arrays.\<close>

lemma chunk_updates:
  assumes "length T = n" "length D = n" "length C = n" "n \<le> 32" "length us = n"
  shows "\<exists>IU CU. makeChunkedUpdates (us @ replicate (32 - n) 0) (T @ z) (D @ dt) (int n) = Inr IU \<and>
    makeChunkedUpdates (replicate 32 0) (T @ z) (C @ ct) (int n) = Inr CU \<and>
    updates_ok IU T D \<and> updates_ok CU T C"
proof -
  have "gap (Suc i) (T @ z) (D @ dt) = gap (Suc i) T D" "gap (Suc i) (T @ z) (C @ ct) = gap (Suc i) T C"
    if "i < n" for i
    using that assms by (simp_all add: gap_append del: gap.simps)
  then show ?thesis
    using assms by (simp add: makeChunkedUpdates_eq updates_ok_def nth_append del: gap.simps)
qed

lemma chunk_updates_full:
  assumes "length C = length D" "length D \<le> 32"
  shows "updates_ok (map (\<lambda>i. i64 (gap (Suc i) C D)) [0..<length D] @ zs) C D"
    "updates_ok (replicate 32 0) C C"
  using assms by (simp_all add: updates_ok_def nth_append i64_def del: gap.simps)

lemma place_chunk_rows:
  assumes ok: "chunk_ok E object es D C ss"
  shows "\<exists>IU CU n_these. 0 < n_these \<and> updates_ok IU (box_dims C ss D) D \<and> updates_ok CU (box_dims C ss D) C \<and>
    place_chunk E object buf (ss @ st) =
      copy_rows (nat (pprod D) + 1) E object buf (box_dims C ss D @ replicate (33 - length D) 0) IU CU n_these
        (replicate 33 0) 2 (val ss D) 0"
proof -
  let ?T = "box_dims C ss D" and ?n = "length D"
  have ss: "digits ss D" and len: "length C = ?n" "?n \<le> 32" "length ss = ?n"
    and pos: "\<forall>c \<in> set C. 0 < c" and D: "pprod D < 2 ^ 62" "pprod C < 2 ^ 62"
    using ok digits_length by (auto simp: chunk_ok_def)
  have Dpos: "\<forall>d \<in> set D. 0 < d" using digits_Ts_pos [OF ss] .
  have small: "\<forall>d \<in> set D. d < 2 ^ 62" "\<forall>c \<in> set C. 0 < c \<and> c < 2 ^ 62"
    using mem_le_pprod [OF _ Dpos] mem_le_pprod [OF _ pos] D pos by fastforce+
  note T = box_dims_props [OF ss len(1) pos]
  have fap: "findArrayPosition (ss @ st) (D @ [0]) (int ?n) = Inr (val ss D)"
  proof -
    have "i64 ((ss @ st) ! i) = (ss @ st) ! i" if "i < ?n" for i
    proof -
      have "ss ! i < D ! i \<and> 0 \<le> ss ! i"
        using ss that by (induction ss D arbitrary: i rule: digits.induct) (auto simp: nth_Cons split: nat.splits)
      moreover have "D ! i < 2 ^ 62" using small(1) that by simp
      ultimately show ?thesis using that len(3) by (simp add: nth_append i64_id)
    qed
    moreover have "i64 (val ss D) = val ss D" using val_bounds [OF ss] D by (intro i64_id) simp_all
    ultimately show ?thesis using findArrayPosition_eq [of ?n "ss @ st" "D @ [0]"] len by simp
  qed
  obtain u where u: "chunk_update (chunked_info object) =
        Some (map (\<lambda>i. i64 (gap (Suc i) C D)) [0..<?n] @ u)" using ok by (auto simp: chunk_ok_def)
  let ?us = "map (\<lambda>i. i64 (gap (Suc i) C D)) [0..<?n]"
  have clip: "map (\<lambda>(c, s, d). clip_dim c s d) (zip C (zip ss D)) = ?T"
    by (rule clip_dims_eq [OF ss len(1) small(2,1)])
  note unf = place_chunk_def ctake_def
  show ?thesis
  proof (cases "?T = C")
    case True
    have "place_chunk E object buf (ss @ st) =
      copy_rows (nat (pprod D) + 1) E object buf (C @ replicate (33 - ?n) 0)
        (?us @ replicate (32 - ?n) 0) (replicate 32 0) (pprod C) (replicate 33 0) 2 (val ss D) 0"
      using ok True clip fap len u by (simp add: unf chunk_ok_def obj_ok_def Let_def del: copy_rows.simps gap.simps)
    moreover have "0 < pprod C" using pprod_ge_1 pos by simp
    ultimately show ?thesis
      using True chunk_updates_full(1) [OF len(1,2), of "replicate (32 - ?n) 0"]
        chunk_updates_full(2) [OF len(1,2)] by metis
  next
    case False
    obtain IU CU where upd: "makeChunkedUpdates (?us @ replicate (32 - ?n) 0) (?T @ replicate (33 - ?n) 0) (D @ [0]) (int ?n) = Inr IU"
      "makeChunkedUpdates (replicate 32 0) (?T @ replicate (33 - ?n) 0) (C @ [0]) (int ?n) = Inr CU"
      "updates_ok IU ?T D" "updates_ok CU ?T C"
      using chunk_updates [of ?T ?n D C ?us "replicate (33 - ?n) 0" "[0]" "[0]"] T len by auto
    have "pprod ?T \<le> pprod C" "0 < pprod ?T" using T pprod_mono pprod_ge_1 by blast+
    then have pr: "prod_loop (?T @ replicate (33 - ?n) 0) ?n = Inr (pprod ?T)"
      using T D by (simp add: prod_loop_eq i64_id)
    have "place_chunk E object buf (ss @ st) =
      copy_rows (nat (pprod D) + 1) E object buf (?T @ replicate (33 - ?n) 0) IU CU (pprod ?T) (replicate 33 0) 2 (val ss D) 0"
      using ok False clip fap len u upd pr
      by (simp add: unf chunk_ok_def obj_ok_def Let_def del: copy_rows.simps gap.simps)
    with upd \<open>0 < pprod ?T\<close> show ?thesis by blast
  qed
qed

lemma place_chunk_run:
  assumes ok: "chunk_ok E object es D C ss" and d: "darr (data_arrays object) = Some d"
    and ld: "length d = es * nat (pprod D)" and buf: "es * nat (pprod C) \<le> length buf"
  obtains d' where "place_chunk E object buf (ss @ st) = Inr (set_darr object (Some d'), buf)"
    "length d' = length d"
    "\<And>p. digits p (box_dims C ss D) \<Longrightarrow>
       elem es d' (nat (val (map2 (+) ss p) D)) = elem es buf (nat (val p C))"
    "\<And>i. (\<forall>p. digits p (box_dims C ss D) \<longrightarrow> int i \<noteq> val (map2 (+) ss p) D) \<Longrightarrow>
       elem es d' i = elem es d i"
proof -
  have ss: "digits ss D" and len: "length C = length D" "length D \<le> 32" "1 \<le> length D"
    and pos: "\<forall>c \<in> set C. 0 < c" and obj: "obj_ok E object es D"
    using ok by (auto simp: chunk_ok_def)
  note T = box_dims_props [OF ss len(1) pos]
  obtain d0 ds where D: "D = d0 # ds" using len(3) by (cases D) auto
  obtain c0 cs where C: "C = c0 # cs" using D len(1) by (cases C) auto
  obtain t0 ts where ts: "box_dims C ss D = t0 # ts" using T D by (cases "box_dims C ss D") auto
  have add: "val (map2 (+) ss p) D = val ss D + val p D" if "digits p (t0 # ts)" for p
    using val_add [of ss D p] digits_length [OF ss] digits_length [OF that] T ts by simp
  have box: "box_ok es (val ss D) (t0 # ts) (d0 # ds) (c0 # cs)"
  proof -
    have "list_all2 (\<le>) (t0 # ts) D \<and> list_all2 (\<le>) (t0 # ts) C \<and> (\<forall>t \<in> set (t0 # ts). 0 < t)"
      using T unfolding ts by blast
    moreover have "0 \<le> val ss D" using val_bounds [OF ss] by simp
    moreover have "val ss D + val p D < pprod D" if "digits p (t0 # ts)" for p
      using val_bounds [OF box_dims_digits [OF ss _ len(1), of p]] that add [OF that] unfolding ts by simp
    ultimately show ?thesis
      using ok unfolding box_ok_def chunk_ok_def D [symmetric] C [symmetric] by blast
  qed
  obtain IU CU n_these where rows: "0 < n_these" "updates_ok IU (t0 # ts) D"
    "updates_ok CU (t0 # ts) C"
    "place_chunk E object buf (ss @ st) =
      copy_rows (nat (pprod D) + 1) E object buf ((t0 # ts) @ replicate (33 - length D) 0) IU CU n_these
        (replicate 33 0) 2 (val ss D) 0"
    using place_chunk_rows [OF ok, of buf st] unfolding ts by blast
  have n: "length D = Suc (length ts)" "length ts \<le> 31" using T ts len by auto
  let ?z = "replicate (length ts) (0::int)" and ?r = "replicate (31 - length ts) (0::int)"
  have "33 = Suc (length ts + Suc (31 - length ts))" using n by simp
  then have cp: "replicate 33 (0::int) = 0 # ?z @ 0 # ?r"
    by (metis replicate_Suc replicate_add)
  have "33 - length D = Suc (31 - length ts)" using n by simp
  then have Tz: "replicate (33 - length D) (0::int) = 0 # ?r" by (simp only: replicate_Suc)
  have tpos: "\<forall>t \<in> set ts. 0 < t" using T ts by simp
  have "pprod ts \<le> pprod (t0 # ts)" "pprod (t0 # ts) \<le> pprod D"
    using T ts pprod_mono [of "t0 # ts" D] pprod_ge_1 [OF tpos] by (simp_all add: mult_le_cancel_right1)
  then have fuel: "nat (pprod ts - val ?z ts) < nat (pprod D) + 1" by simp
  have so: "set_darr object (Some d) = object" using d by (simp add: set_darr_def)
  obtain d' where run: "copy_rows (nat (pprod D) + 1) E (set_darr object (Some d)) buf ((t0 # ts) @ 0 # ?r) IU CU n_these
      (0 # ?z @ 0 # ?r) (int 2) (val ss D + d0 * val ?z ds) (c0 * val ?z cs) = Inr (set_darr object (Some d'), buf)"
    and w: "written es (val ss D) (t0 # ts) (d0 # ds) (c0 # cs) buf (val ?z ts) d d'"
    using copy_rows_run [OF box, of E object IU CU n_these buf ?z d 2 "nat (pprod D) + 1" ?r 0 ?r]
      obj rows n buf ld digits_zeros [OF tpos] fuel unfolding D C by (auto simp del: copy_rows.simps)
  have w': "written es (val ss D) (box_dims C ss D) D C buf 0 d d'"
    unfolding ts using w unfolding val_zeros D C .
  have all: "0 \<le> val (tl p) (tl (box_dims C ss D))" if "digits p (box_dims C ss D)" for p
    using that val_bounds [of "tl p" ts] by (auto simp: digits_Cons ts)
  have "place_chunk E object buf (ss @ st) = Inr (set_darr object (Some d'), buf)"
    using run rows(4) by (simp add: cp Tz so del: copy_rows.simps)
  moreover have "length d' = length d" using w' by (simp add: written_def)
  moreover have "elem es d' (nat (val (map2 (+) ss p) D)) = elem es buf (nat (val p C))"
    if "digits p (box_dims C ss D)" for p
    using w' all that add unfolding written_def ts by simp
  moreover have "elem es d' i = elem es d i"
    if "\<forall>p. digits p (box_dims C ss D) \<longrightarrow> int i \<noteq> val (map2 (+) ss p) D" for i
    using w' all that add unfolding written_def ts by simp
  ultimately show thesis using that by blast
qed

text \<open>C1. The copy loop of \<open>doInflate_\<close> places a decompressed chunk: the element at position \<open>p\<close> of the chunk, \<open>p\<close> within
  the part of the chunk that the array has, goes to position \<open>start + p\<close> of the array, and every other element of the
  array stays as it is, for any number of dimensions and also where the chunk sticks out over the edge.\<close>

theorem place_chunk_correct:
  assumes ok: "chunk_ok E object es D C ss" and d: "darr (data_arrays object) = Some d"
    and ld: "length d = es * nat (pprod D)" and buf: "es * nat (pprod C) \<le> length buf"
  shows "\<exists>d'. place_chunk E object buf (ss @ st) = Inr (set_darr object (Some d'), buf) \<and>
    length d' = length d \<and>
    (\<forall>p. digits p (box_dims C ss D) \<longrightarrow>
       elem es d' (nat (val (map2 (+) ss p) D)) = elem es buf (nat (val p C))) \<and>
    (\<forall>i. (\<forall>p. digits p (box_dims C ss D) \<longrightarrow> int i \<noteq> val (map2 (+) ss p) D) \<longrightarrow>
       elem es d' i = elem es d i)"
  using place_chunk_run [OF assms, of st] by metis

text \<open>A chunk of 2 by 2 at the edge of a 3 by 2 array: its second row is cut off.\<close>

definition demo_chunked :: Data where
  "demo_chunked = (blank_object (lq_init False))\<lparr>matlab_internal_type := mxUINT8_CLASS,
     dims := Some [3, 2, 0], num_dims := 2, num_elems := 6, elem_size := 1,
     chunked_info := \<lparr>num_filters = 0, filters = None, num_chunked_dims = 2, num_chunked_elems = 4,
       chunked_dims = Some [2, 2, 0], chunk_update = Some [1, 1, 0]\<rparr>,
     data_arrays := \<lparr>darr = Some [0, 0, 0, 0, 0, 0], sub_object_header_offsets = None\<rparr>\<rparr>"

lemma place_chunk_correct_witness:
  "\<exists>d'. place_chunk (demo_env []) demo_chunked [1, 2, 3, 4] [2, 0] =
     Inr (set_darr demo_chunked (Some d'), [1, 2, 3, 4]) \<and> length d' = 6 \<and>
     elem 1 d' 2 = [1] \<and> elem 1 d' 5 = [3] \<and> elem 1 d' 0 = [0]"
proof -
  have ok: "chunk_ok (demo_env []) demo_chunked 1 [3, 2] [2, 2] [2, 0]"
    by (simp add: chunk_ok_def obj_ok_def demo_chunked_def blank_object_def plain_class_def i64_def)
  have box: "box_dims [2, 2] [2, 0] [3, 2] = [1, 2]" by (simp add: box_dims_def)
  have "darr (data_arrays demo_chunked) = Some [0, 0, 0, 0, 0, 0]" by (simp add: demo_chunked_def)
  from place_chunk_correct [OF ok this, of "[1, 2, 3, 4]" "[]"] obtain d' where
    d': "place_chunk (demo_env []) demo_chunked [1, 2, 3, 4] [2, 0] =
       Inr (set_darr demo_chunked (Some d'), [1, 2, 3, 4])" "length d' = 6"
    and in_box: "\<And>p. digits p [1, 2] \<Longrightarrow>
       elem 1 d' (nat (val (map2 (+) [2, 0] p) [3, 2])) = elem 1 [1, 2, 3, 4] (nat (val p [2, 2]))"
    and out: "\<And>i. \<forall>p. digits p [1, 2] \<longrightarrow> int i \<noteq> val (map2 (+) [2, 0] p) [3, 2] \<Longrightarrow>
       elem 1 d' i = elem 1 [0, 0, 0, 0, 0, 0] i"
    unfolding box by auto
  have "\<forall>p. digits p [1, 2] \<longrightarrow> int 0 \<noteq> val (map2 (+) [2, 0] p) [3, 2]"
  proof (intro allI impI)
    fix p assume "digits p [1, 2]"
    then obtain a b where "p = [a, b]" "0 \<le> a" "0 \<le> b" by (cases p; cases "tl p"; cases "tl (tl p)") auto
    then show "int 0 \<noteq> val (map2 (+) [2, 0] p) [3, 2]" by simp
  qed
  from out [OF this] in_box [of "[0, 0]"] in_box [of "[0, 1]"] d'
  show ?thesis by (auto simp: elem_def)
qed

end
