(* ===== verification/Inflate.thy ===== *)
theory Inflate
  imports ChunkTree ChunkCopy
begin

text \<open>
  The threads that decompress the chunks: \<open>doInflate_\<close> and \<open>getChunkedData\<close> of
  \<^verbatim>\<open>src/src/placeChunkedData.c\<close>. A worker is a program counter and its buffer; one step of it is
  what the code does between two points at which another thread can interfere: a critical
  section, an unlocked read of a shared variable, or a piece of code on private data (the copy of
  a chunk into the array is one step: chunks do not overlap). \<open>libdeflate_zlib_decompress\<close> is the
  parameter \<open>dec\<close>: from the compressed bytes and the old contents of the output buffer it gives
  the result code and the new contents.

  The error code \<open>err\<close> of the thread object is shared by all workers, as in the code.
\<close>

type_synonym inflater = "byte list \<Rightarrow> byte list \<Rightarrow> int \<times> byte list"

abbreviation (input) LIBDEFLATE_BAD_DATA :: int where "LIBDEFLATE_BAD_DATA \<equiv> 1"
abbreviation (input) LIBDEFLATE_SHORT_OUTPUT :: int where "LIBDEFLATE_SHORT_OUTPUT \<equiv> 2"
abbreviation (input) LIBDEFLATE_INSUFFICIENT_SPACE :: int where "LIBDEFLATE_INSUFFICIENT_SPACE \<equiv> 3"

datatype wpc =
    WStart                  \<comment> \<open>allocate the buffer\<close>
  | WWait                   \<comment> \<open>wait for \<open>main_thread_ready\<close>\<close>
  | WLoop                   \<comment> \<open>the loop condition\<close>
  | WDequeue
  | WTest DataPair          \<comment> \<open>\<open>mt_navigateTo\<close>: is the mapping long enough\<close>
  | WFit DataPair           \<comment> \<open>confirm with the mutex\<close>
  | WIdle DataPair          \<comment> \<open>is the page unused\<close>
  | WLock DataPair          \<comment> \<open>confirm with the mutex and keep it\<close>
  | WMap DataPair           \<comment> \<open>remap\<close>
  | WInflate DataPair
  | WRelease DataPair
  | WSwitch DataPair        \<comment> \<open>look at \<open>err\<close>\<close>
  | WPlace DataPair
  | WDone bool              \<comment> \<open>returned; through the end of the loop or an error branch\<close>

record worker =
  w_pc :: wpc
  w_buf :: "byte list"

record ishared =
  sh :: gstate
  thr_err :: int
  thr_id :: string      \<comment> \<open>\<open>error_id\<close>, which the failing worker sets\<close>
  main_ready :: bool

text \<open>An action on the global variables, and one on the object.\<close>

definition on_g :: "('a, gstate) act \<Rightarrow> ('a, ishared) act" where
  "on_g a s = (case a (sh s) of (r, g) \<Rightarrow> (r, s\<lparr>sh := g\<rparr>))"

definition set_err :: "int \<Rightarrow> (unit, ishared) act" where
  "set_err e = modify (\<lambda>s. s\<lparr>thr_err := e\<rparr>)"

definition set_fail :: "string \<Rightarrow> (unit, ishared) act" where
  "set_fail i = modify (\<lambda>s. s\<lparr>thr_err := 1, thr_id := i\<rparr>)"

definition err_name :: "int \<Rightarrow> string" where
  "err_name e = (if e = LIBDEFLATE_BAD_DATA then ''getmatvar:libdeflateBadData''
     else if e = LIBDEFLATE_SHORT_OUTPUT then ''getmatvar:libdeflateShortOutput''
     else ''getmatvar:libdeflateInsufficientSpace'')"

definition goto :: "wpc \<Rightarrow> byte list \<Rightarrow> (worker option, ishared) act" where
  "goto pc buf = ret (Some \<lparr>w_pc = pc, w_buf = buf\<rparr>)"

definition multithreaded :: "gstate \<Rightarrow> Data \<Rightarrow> bool" where
  "multithreaded g d \<longleftrightarrow> will_multithread g \<and> MIN_MT_ELEMS_THRESH < num_elems d"

text \<open>The queues that are emptied at the end hold the thread's number.\<close>

definition note_buffer :: "nat \<Rightarrow> gstate \<Rightarrow> gstate" where
  "note_buffer j g = g\<lparr>data_buffers := map_option (\<lambda>q. case lq_enqueue q j of Inr q' \<Rightarrow> q' | Inl _ \<Rightarrow> q) (data_buffers g),
     libdeflate_decomps := map_option (\<lambda>q. case lq_enqueue q j of Inr q' \<Rightarrow> q' | Inl _ \<Rightarrow> q) (libdeflate_decomps g)\<rparr>"

definition mtq_length :: "gstate \<Rightarrow> nat res" where
  "mtq_length g = (case mt_data_queue g of None \<Rightarrow> Inl Fault | Some q \<Rightarrow> Inr (lq_len q))"

definition mtq_dequeue :: "(DataPair option, gstate) act" where
  "mtq_dequeue g =
     (case mt_data_queue g of None \<Rightarrow> (Inr None, g)
      | Some q \<Rightarrow> (case lq_dequeue q of Inl e \<Rightarrow> (Inl e, g)
                   | Inr (d, q') \<Rightarrow> (Inr d, g\<lparr>mt_data_queue := Some q'\<rparr>)))"

section \<open>One step of a worker\<close>

text \<open>The result \<open>None\<close>: the worker is blocked and nothing has changed.\<close>

definition step_start :: "env \<Rightarrow> nat \<Rightarrow> nat \<Rightarrow> (worker option, ishared) act" where
  "step_start E oi j =
     andthen (on_g (get_obj oi)) (\<lambda>d.
     let n = u64 (u64 (num_chunked_elems (chunked_info d)) * elem_size d) in
     if \<not> malloc_ok E n then andthen (set_fail ''getmatvar:mallocErrDDBDI'') (\<lambda>_. goto (WDone False) [])
     else
       andthen (on_g (modify (note_buffer j))) (\<lambda>_.
       andthen (gets (\<lambda>s. multithreaded (sh s) d)) (\<lambda>mt.
         goto (if mt then WWait else WLoop) (fresh_mem E n))))"

definition step_loop :: "byte list \<Rightarrow> (worker option, ishared) act" where
  "step_loop buf =
     andthen (gets (\<lambda>s. mtq_length (sh s))) (\<lambda>r.
     andthen (lift_res r) (\<lambda>n.
       if 0 < n then goto WDequeue buf
       else andthen (set_err 0) (\<lambda>_. goto (WDone True) buf)))"

definition step_dequeue :: "byte list \<Rightarrow> (worker option, ishared) act" where
  "step_dequeue buf =
     andthen (on_g mtq_dequeue) (\<lambda>o_dp.
       case o_dp of None \<Rightarrow> andthen (set_err 0) (\<lambda>_. goto (WDone True) buf)
       | Some dp \<Rightarrow>
           andthen (gets (\<lambda>s. is_super_mapped (sh s))) (\<lambda>super.
             goto (if super then WInflate dp else WTest dp) buf))"

definition step_nav :: "env \<Rightarrow> wpc \<Rightarrow> byte list \<Rightarrow> (worker option, ishared) act" where
  "step_nav E pc buf =
     (case pc of
        WTest dp \<Rightarrow> andthen (on_g (mt_test E (dp_address dp) 0)) (\<lambda>b. goto (if b then WFit dp else WIdle dp) buf)
      | WIdle dp \<Rightarrow> andthen (on_g (mt_idle E (dp_address dp))) (\<lambda>b. goto (if b then WLock dp else WTest dp) buf)
      | WFit dp \<Rightarrow> andthen (on_g (mt_fit E (dp_address dp) 0)) (\<lambda>b.
          case b of None \<Rightarrow> ret None | Some b \<Rightarrow> goto (if b then WInflate dp else WTest dp) buf)
      | WLock dp \<Rightarrow> andthen (on_g (mt_lock E (dp_address dp))) (\<lambda>b.
          case b of None \<Rightarrow> ret None | Some b \<Rightarrow> goto (if b then WMap dp else WTest dp) buf)
      | WMap dp \<Rightarrow> andthen (on_g (mt_map E (dp_address dp) 0)) (\<lambda>_. goto (WInflate dp) buf)
      | _ \<Rightarrow> ret None)"

definition step_inflate :: "env \<Rightarrow> inflater \<Rightarrow> DataPair \<Rightarrow> byte list \<Rightarrow> (worker option, ishared) act" where
  "step_inflate E dec dp buf =
     andthen (on_g (mt_view E (dp_address dp))) (\<lambda>(m, p).
     andthen (lift_res (rd m p (dp_chunk_size dp))) (\<lambda>bs.
     case dec bs buf of (code, buf) \<Rightarrow> andthen (set_err code) (\<lambda>_. goto (WRelease dp) buf)))"

definition step_release :: "env \<Rightarrow> DataPair \<Rightarrow> byte list \<Rightarrow> (worker option, ishared) act" where
  "step_release E dp buf =
     andthen (on_g (mt_releasePages E (dp_address dp) 0)) (\<lambda>b.
       if b then goto (WSwitch dp) buf else ret None)"

definition step_switch :: "DataPair \<Rightarrow> byte list \<Rightarrow> (worker option, ishared) act" where
  "step_switch dp buf =
     andthen (gets thr_err) (\<lambda>e.
       if e = LIBDEFLATE_BAD_DATA \<or> e = LIBDEFLATE_SHORT_OUTPUT \<or> e = LIBDEFLATE_INSUFFICIENT_SPACE
       then andthen (set_fail (err_name e)) (\<lambda>_. goto (WDone False) buf)
       else goto (WPlace dp) buf)"

definition step_place :: "env \<Rightarrow> nat \<Rightarrow> DataPair \<Rightarrow> byte list \<Rightarrow> (worker option, ishared) act" where
  "step_place E oi dp buf =
     andthen (on_g (get_obj oi)) (\<lambda>d.
     andthen (lift_res (place_chunk E d buf (dp_chunk_start dp))) (\<lambda>(d, buf).
     andthen (on_g (put_obj oi d)) (\<lambda>_. goto WLoop buf)))"

definition wstep :: "env \<Rightarrow> inflater \<Rightarrow> nat \<Rightarrow> nat \<Rightarrow> worker \<Rightarrow> (worker option, ishared) act" where
  "wstep E dec oi j w =
     (case w_pc w of
        WStart \<Rightarrow> step_start E oi j
      | WWait \<Rightarrow> andthen (gets main_ready) (\<lambda>b. if b then goto WLoop (w_buf w) else ret None)
      | WLoop \<Rightarrow> step_loop (w_buf w)
      | WDequeue \<Rightarrow> step_dequeue (w_buf w)
      | WInflate dp \<Rightarrow> step_inflate E dec dp (w_buf w)
      | WRelease dp \<Rightarrow> step_release E dp (w_buf w)
      | WSwitch dp \<Rightarrow> step_switch dp (w_buf w)
      | WPlace dp \<Rightarrow> step_place E oi dp (w_buf w)
      | WDone ok \<Rightarrow> ret None
      | pc \<Rightarrow> step_nav E pc (w_buf w))"

section \<open>The threads together\<close>

text \<open>The main thread joins the workers in order and looks at the error code each time.\<close>

record pool =
  workers :: "worker list"
  shared :: ishared
  joined :: nat
  main_ret :: int

datatype thread = Main | Worker nat

definition main_step :: "pool \<Rightarrow> pool option" where
  "main_step c =
     (if joined c < length (workers c) then
        (case w_pc (workers c ! joined c) of
           WDone ok \<Rightarrow> Some (c\<lparr>joined := joined c + 1,
             main_ret := (if thr_err (shared c) \<noteq> 0 then 1 else main_ret c)\<rparr>)
         | _ \<Rightarrow> None)
      else None)"

definition pool_step :: "env \<Rightarrow> inflater \<Rightarrow> nat \<Rightarrow> thread \<Rightarrow> pool \<Rightarrow> pool option res" where
  "pool_step E dec oi t c =
     (case t of
        Main \<Rightarrow> Inr (main_step c)
      | Worker j \<Rightarrow>
          if j < length (workers c) then
            (case wstep E dec oi j (workers c ! j) (shared c) of
               (Inl e, s) \<Rightarrow> Inl e
             | (Inr None, s) \<Rightarrow> Inr None
             | (Inr (Some w), s) \<Rightarrow> Inr (Some (c\<lparr>workers := (workers c)[j := w], shared := s\<rparr>)))
          else Inr None)"

inductive pool_reach :: "env \<Rightarrow> inflater \<Rightarrow> nat \<Rightarrow> pool \<Rightarrow> pool \<Rightarrow> bool" for E dec oi c0 where
  here: "pool_reach E dec oi c0 c0"
| more: "pool_reach E dec oi c0 c \<Longrightarrow> pool_step E dec oi t c = Inr (Some c') \<Longrightarrow> pool_reach E dec oi c0 c'"

text \<open>A run under a schedule: a thread that is blocked, or has ended, passes its turn.\<close>

fun pool_run :: "env \<Rightarrow> inflater \<Rightarrow> nat \<Rightarrow> thread list \<Rightarrow> pool \<Rightarrow> pool res" where
  "pool_run E dec oi [] c = Inr c"
| "pool_run E dec oi (t # ts) c =
     bnd (pool_step E dec oi t c) (\<lambda>c'. pool_run E dec oi ts (case c' of Some c' \<Rightarrow> c' | None \<Rightarrow> c))"

definition pool_done :: "pool \<Rightarrow> bool" where
  "pool_done c \<longleftrightarrow> joined c = length (workers c)"

definition new_pool :: "nat \<Rightarrow> gstate \<Rightarrow> pool" where
  "new_pool n g = \<lparr>workers = replicate n \<lparr>w_pc = WStart, w_buf = []\<rparr>,
     shared = \<lparr>sh = g, thr_err = 0, thr_id = [], main_ready = True\<rparr>, joined = 0, main_ret = 0\<rparr>"

section \<open>doInflate\_ in the main thread\<close>

fun solo_loop :: "env \<Rightarrow> inflater \<Rightarrow> nat \<Rightarrow> nat \<Rightarrow> worker \<Rightarrow> (unit, ishared) act" where
  "solo_loop E dec oi 0 w = fail OutOfFuel"
| "solo_loop E dec oi (Suc n) w =
     (case w_pc w of WDone ok \<Rightarrow> ret ()
      | _ \<Rightarrow> andthen (wstep E dec oi 0 w) (\<lambda>w'.
               solo_loop E dec oi n (case w' of Some w' \<Rightarrow> w' | None \<Rightarrow> w)))"

text \<open>A chunk takes at most eleven steps when no other thread interferes.\<close>

definition doInflate :: "env \<Rightarrow> inflater \<Rightarrow> nat \<Rightarrow> (int \<times> string, gstate) act" where
  "doInflate E dec oi g =
     (let n = (case mt_data_queue g of Some q \<Rightarrow> lq_len q | None \<Rightarrow> 0) in
      case solo_loop E dec oi (11 * n + 4) \<lparr>w_pc = WStart, w_buf = []\<rparr> \<lparr>sh = g, thr_err = 0, thr_id = [], main_ready = False\<rparr> of
        (Inl e, s) \<Rightarrow> (Inl e, sh s)
      | (Inr _, s) \<Rightarrow> (Inr (thr_err s, thr_id s), sh s))"

section \<open>getChunkedData\<close>

fun free_and_merge :: "DataPair lqueue \<Rightarrow> DataPair lqueue list \<Rightarrow> DataPair lqueue res" where
  "free_and_merge dst bs = bnd (lq_merge dst bs) (\<lambda>(dst, _). Inr dst)"

definition use_threads :: "gstate \<Rightarrow> nat" where
  "use_threads g = nat (max (if num_threads_user_def g \<noteq> -1 then num_threads_user_def g else num_avail_threads g) 1)"

text \<open>
  \<open>sched\<close> is the order in which the system runs the threads once the tree has been read;
  \<open>depth\<close> bounds the depth of the tree.
\<close>

definition build_tree :: "env \<Rightarrow> nat \<Rightarrow> nat \<Rightarrow> (unit, gstate) act" where
  "build_tree E depth oi =
     andthen (get_obj oi) (\<lambda>d.
     andthen (gets g_num_pages) (\<lambda>np.
     andthen (guard (malloc_ok E (np * sizeof_Queue)) (RetErr ''getmatvar:mallocErrDPBPCD'')) (\<lambda>_.
     andthen (guard (0 < np \<longrightarrow> malloc_ok E sizeof_Queue) (RetErr ''getmatvar:initQueueErr'')) (\<lambda>_.
     andthen (modify (\<lambda>g. g\<lparr>data_page_buckets := Some (replicate (nat np) (lq_init False))\<rparr>)) (\<lambda>_.
     andthen (\<lambda>g. case fillNode E depth (num_chunked_dims (chunked_info d))
                        \<lparr>node_address = data_address d, node_type = NODETYPE_ROOT, entries_used = 0\<rparr> g of
                    (Inl (RetErr e), g') \<Rightarrow> (Inl (RetErr ''getmatvar:internalInvalidNodeType''), g')
                  | r \<Rightarrow> r) (\<lambda>_.
     andthen (gets mt_data_queue) (\<lambda>q.
     andthen (gets data_page_buckets) (\<lambda>bs.
     andthen (nn bs) (\<lambda>bs.
     andthen (case q of None \<Rightarrow> ret () | Some q \<Rightarrow>
               andthen (lift_res (free_and_merge q bs)) (\<lambda>q. modify (\<lambda>g. g\<lparr>mt_data_queue := Some q\<rparr>))) (\<lambda>_.
       modify (\<lambda>g. g\<lparr>data_page_buckets := None\<rparr>)))))))))))"

definition run_threads :: "env \<Rightarrow> inflater \<Rightarrow> thread list \<Rightarrow> nat \<Rightarrow> (int \<times> string, gstate) act" where
  "run_threads E dec sched oi g =
     (case pool_run E dec oi sched (new_pool (use_threads g) g) of
        Inl e \<Rightarrow> (Inl e, g)
      | Inr c \<Rightarrow> if pool_done c then (Inr (main_ret c, thr_id (shared c)), sh (shared c)) else (Inl OutOfFuel, g))"

definition mt_queue_of :: "env \<Rightarrow> 'a lqueue option" where
  "mt_queue_of E = (if malloc_ok E 96 then Some (lq_init True) else None)"

definition getChunkedData :: "env \<Rightarrow> inflater \<Rightarrow> nat \<Rightarrow> thread list \<Rightarrow> nat \<Rightarrow> (unit, gstate) act" where
  "getChunkedData E dec depth sched oi =
     andthen (ignore (initializePageObjects E)) (\<lambda>_.
     andthen (modify (\<lambda>g. g\<lparr>mt_data_queue := mt_queue_of E, data_buffers := mt_queue_of E,
         libdeflate_decomps := mt_queue_of E\<rparr>)) (\<lambda>_.
     andthen (get_obj oi) (\<lambda>d.
     andthen (gets (\<lambda>g. multithreaded g d)) (\<lambda>mt.
     andthen (gets use_threads) (\<lambda>n.
     andthen (guard (mt \<longrightarrow> malloc_ok E (int n * 8)) (RetErr ''getmatvar:mallocErrCTPCDPT'')) (\<lambda>_.
     andthen (build_tree E depth oi) (\<lambda>_.
     andthen (if mt then run_threads E dec sched oi else doInflate E dec oi) (\<lambda>(code, err_id).
     andthen (modify (\<lambda>g. g\<lparr>data_buffers := None, libdeflate_decomps := None, mt_data_queue := None\<rparr>)) (\<lambda>_.
       if code \<noteq> 0 then fail (RetErr '''') else ret ())))))))))"

end
