(* ===== verification/Parallel.thy ===== *)
theory Parallel
  imports Inflate QueueSpec
begin

text \<open>
  What the threads of theory \<open>Inflate\<close> do together, for every order in which the system runs
  them: no thread ever touches memory that is not mapped, a mapping is removed exactly when the
  last chunk of its page has been read, every chunk is decompressed and copied once, and when all
  threads have ended the array holds every chunk in its place. The proof is an invariant of
  \<open>pool_step\<close>, and counts for every page the threads that wait for it, map it and read it.
\<close>

section \<open>Counting workers\<close>

definition cnt :: "('a \<Rightarrow> bool) \<Rightarrow> 'a list \<Rightarrow> int" where
  "cnt P xs = int (length (filter P xs))"

lemma cnt_simps [simp]: "cnt P [] = 0" "cnt P (x # xs) = of_bool (P x) + cnt P xs"
  by (simp_all add: cnt_def)

lemma cnt_nonneg [simp]: "0 \<le> cnt P xs"
  by (simp add: cnt_def)

lemma cnt_le: "cnt P xs \<le> int (length xs)"
  by (simp add: cnt_def)

lemma cnt_append [simp]: "cnt P (xs @ ys) = cnt P xs + cnt P ys"
  by (simp add: cnt_def)

lemma cnt_upd: "j < length xs \<Longrightarrow> cnt P (xs[j := x]) = cnt P xs - of_bool (P (xs ! j)) + of_bool (P x)"
proof (induction xs arbitrary: j)
  case (Cons y ys)
  then show ?case by (cases j) auto
qed simp

lemma cnt_pos: "j < length xs \<Longrightarrow> P (xs ! j) \<Longrightarrow> 1 \<le> cnt P xs"
proof (induction xs arbitrary: j)
  case (Cons y ys)
  then show ?case using cnt_nonneg [of P ys] by (cases j) (auto simp del: cnt_nonneg)
qed simp

lemma cnt_zero: "cnt P xs = 0 \<longleftrightarrow> (\<forall>x \<in> set xs. \<not> P x)"
  by (auto simp: cnt_def filter_empty_conv)

lemma cnt_disjoint: "\<forall>x \<in> set xs. \<not> (P x \<and> Q x) \<Longrightarrow> cnt P xs + cnt Q xs \<le> int (length xs)"
  by (induction xs) auto

section \<open>The job\<close>

record job =
  jb_es :: nat
  jb_D :: "int list"
  jb_C :: "int list"
  jb_pairs :: "DataPair list"
  jb_obj :: Data
  jb_data :: "byte list"
  jb_plain :: "DataPair \<Rightarrow> byte list"
  jb_max :: "nat \<Rightarrow> int"
  jb_np :: nat
  jb_n :: nat

definition pg :: "env \<Rightarrow> DataPair \<Rightarrow> nat" where
  "pg E dp = nat (page_of E (dp_address dp))"

definition raw :: "env \<Rightarrow> DataPair \<Rightarrow> byte list" where
  "raw E dp = take (nat (dp_chunk_size dp)) (drop (nat (dp_address dp)) (file_bytes E))"

definition start_of :: "job \<Rightarrow> DataPair \<Rightarrow> int list" where
  "start_of J dp = take (length (jb_D J)) (dp_chunk_start dp)"

definition box_of :: "job \<Rightarrow> DataPair \<Rightarrow> int list" where
  "box_of J dp = box_dims (jb_C J) (start_of J dp) (jb_D J)"

definition cells :: "job \<Rightarrow> DataPair \<Rightarrow> nat set" where
  "cells J dp = {i. \<exists>p. digits p (box_of J dp) \<and> int i = val (map2 (+) (start_of J dp) p) (jb_D J)}"

text \<open>The elements of the chunk are in their places in the array \<open>a\<close>.\<close>

definition right :: "job \<Rightarrow> DataPair \<Rightarrow> byte list \<Rightarrow> bool" where
  "right J dp a \<longleftrightarrow> (\<forall>p. digits p (box_of J dp) \<longrightarrow>
     elem (jb_es J) a (nat (val (map2 (+) (start_of J dp) p) (jb_D J))) =
     elem (jb_es J) (jb_plain J dp) (nat (val p (jb_C J))))"

definition buf_size :: "job \<Rightarrow> nat" where
  "buf_size J = jb_es J * nat (pprod (jb_C J))"

text \<open>
  A chunk of the job: its bytes are in the file and inside what will be mapped for its page, its
  start is a position of the array, and the library decompresses it to a whole chunk.
\<close>

definition pair_ok :: "env \<Rightarrow> inflater \<Rightarrow> job \<Rightarrow> DataPair \<Rightarrow> bool" where
  "pair_ok E dec J dp \<longleftrightarrow>
     0 \<le> dp_address dp \<and> 0 < dp_chunk_size dp \<and> dp_address dp + dp_chunk_size dp \<le> file_size E \<and>
     dp_address dp mod gran E + dp_chunk_size dp \<le> jb_max J (pg E dp) \<and> pg E dp < jb_np J \<and>
     chunk_ok E (jb_obj J) (jb_es J) (jb_D J) (jb_C J) (start_of J dp) \<and>
     length (jb_plain J dp) = buf_size J \<and>
     (\<forall>buf. length buf = buf_size J \<longrightarrow> dec (raw E dp) buf = (0, jb_plain J dp))"

definition job_ok :: "env \<Rightarrow> inflater \<Rightarrow> job \<Rightarrow> bool" where
  "job_ok E dec J \<longleftrightarrow>
     0 < gran E \<and> gran E < 2 ^ 62 \<and> file_size E < 2 ^ 62 \<and> malloc_ok E (int (buf_size J)) \<and>
     (\<forall>a n. mmap_ok E a n) \<and> (\<forall>a n. munmap_ok E a n) \<and> 0 < jb_n J \<and> jb_n J \<le> 255 \<and>
     (\<forall>i < jb_np J. 0 \<le> jb_max J i \<and> (jb_max J i = 0 \<or> gran E * int i + jb_max J i \<le> file_size E)) \<and>
     length (jb_pairs J) < 2 ^ 31 \<and> distinct (jb_pairs J) \<and> jb_pairs J \<noteq> [] \<and>
     length (jb_data J) = jb_es J * nat (pprod (jb_D J)) \<and>
     (\<forall>dp \<in> set (jb_pairs J). pair_ok E dec J dp) \<and>
     (\<forall>dp \<in> set (jb_pairs J). \<forall>dq \<in> set (jb_pairs J). dp \<noteq> dq \<longrightarrow> cells J dp \<inter> cells J dq = {})"

text \<open>The state in which \<open>build_tree\<close> leaves the program for such a job.\<close>

definition idle_page :: "env \<Rightarrow> job \<Rightarrow> nat \<Rightarrow> pageObject \<Rightarrow> bool" where
  "idle_page E J i p \<longleftrightarrow> \<not> pg_lock p \<and> pg_num_using p = 0 \<and> \<not> pg_is_mapped p \<and> pg_map_size p = 0 \<and>
     pg_start_a p = gran E * int i \<and> max_map_size p = jb_max J i \<and>
     total_num_mappings p = cnt (\<lambda>dp. pg E dp = i) (jb_pairs J)"

definition job_state :: "env \<Rightarrow> job \<Rightarrow> nat \<Rightarrow> gstate \<Rightarrow> bool" where
  "job_state E J oi g \<longleftrightarrow> \<not> is_super_mapped g \<and>
     (\<exists>q. mt_data_queue g = Some q \<and> lq_rep q [] (jb_pairs J)) \<and>
     (\<exists>ps. page_objects g = Some ps \<and> length ps = jb_np J \<and> (\<forall>i < jb_np J. idle_page E J i (ps ! i))) \<and>
     slook (objs g) oi = Inr (set_darr (jb_obj J) (Some (jb_data J)))"

section \<open>The invariant\<close>

datatype stage = Waiting | Mapping | Reading | After

fun wst :: "wpc \<Rightarrow> (stage \<times> DataPair) option" where
  "wst (WTest dp) = Some (Waiting, dp)"
| "wst (WFit dp) = Some (Waiting, dp)"
| "wst (WIdle dp) = Some (Waiting, dp)"
| "wst (WLock dp) = Some (Waiting, dp)"
| "wst (WMap dp) = Some (Mapping, dp)"
| "wst (WInflate dp) = Some (Reading, dp)"
| "wst (WRelease dp) = Some (Reading, dp)"
| "wst (WSwitch dp) = Some (After, dp)"
| "wst (WPlace dp) = Some (After, dp)"
| "wst _ = None"

definition at_stage :: "env \<Rightarrow> stage \<Rightarrow> nat \<Rightarrow> worker \<Rightarrow> bool" where
  "at_stage E s i w \<longleftrightarrow> (\<exists>dp. wst (w_pc w) = Some (s, dp) \<and> pg E dp = i)"

definition holds :: "worker \<Rightarrow> DataPair option" where
  "holds w = map_option snd (wst (w_pc w))"

text \<open>
  A page with \<open>k\<close> threads mapping it, \<open>r\<close> reading it and \<open>b\<close> chunks that still need it.
\<close>

definition page_inv :: "env \<Rightarrow> job \<Rightarrow> nat \<Rightarrow> int \<Rightarrow> int \<Rightarrow> int \<Rightarrow> pageObject \<Rightarrow> bool" where
  "page_inv E J i k r b p \<longleftrightarrow>
     pg_num_using p = k + r \<and> pg_lock p = (0 < k) \<and> (0 < k \<longrightarrow> k + r = 1) \<and>
     total_num_mappings p = k + r + b \<and> pg_start_a p = gran E * int i \<and> max_map_size p = jb_max J i \<and>
     (if pg_is_mapped p then pg_map_size p = jb_max J i \<and> pg_start_p p = Some (gran E * int i) \<and> 0 < k + r + b
      else pg_map_size p = 0) \<and>
     (0 < r \<and> k = 0 \<longrightarrow> pg_is_mapped p)"

definition pages_inv :: "env \<Rightarrow> job \<Rightarrow> worker list \<Rightarrow> DataPair list \<Rightarrow> gstate \<Rightarrow> bool" where
  "pages_inv E J ws pd g \<longleftrightarrow>
     (\<exists>ps. page_objects g = Some ps \<and> length ps = jb_np J \<and>
       (\<forall>i < jb_np J. page_inv E J i (cnt (at_stage E Mapping i) ws) (cnt (at_stage E Reading i) ws)
          (cnt (at_stage E Waiting i) ws + cnt (\<lambda>dp. pg E dp = i) pd) (ps ! i)))"

definition buf_ok :: "job \<Rightarrow> worker \<Rightarrow> bool" where
  "buf_ok J w \<longleftrightarrow> (case w_pc w of WStart \<Rightarrow> True | WDone b \<Rightarrow> b
     | WRelease dp \<Rightarrow> w_buf w = jb_plain J dp | WSwitch dp \<Rightarrow> w_buf w = jb_plain J dp
     | WPlace dp \<Rightarrow> w_buf w = jb_plain J dp | _ \<Rightarrow> length (w_buf w) = buf_size J)"

definition held_inv :: "worker list \<Rightarrow> DataPair list \<Rightarrow> bool" where
  "held_inv ws dn \<longleftrightarrow>
     (\<forall>i < length ws. \<forall>dp. holds (ws ! i) = Some dp \<longrightarrow> dp \<in> set dn) \<and>
     (\<forall>i < length ws. \<forall>j < length ws. \<forall>dp. holds (ws ! i) = Some dp \<and> holds (ws ! j) = Some dp \<longrightarrow> i = j)"

definition data_inv :: "job \<Rightarrow> nat \<Rightarrow> worker list \<Rightarrow> DataPair list \<Rightarrow> gstate \<Rightarrow> bool" where
  "data_inv J oi ws dn g \<longleftrightarrow>
     (\<exists>a. slook (objs g) oi = Inr (set_darr (jb_obj J) (Some a)) \<and> length a = length (jb_data J) \<and>
       (\<forall>dp \<in> set dn. (\<forall>i < length ws. holds (ws ! i) \<noteq> Some dp) \<longrightarrow> right J dp a) \<and>
       (\<forall>i. (\<forall>dp \<in> set (jb_pairs J). i \<notin> cells J dp) \<longrightarrow> elem (jb_es J) a i = elem (jb_es J) (jb_data J) i))"

definition pinv :: "env \<Rightarrow> job \<Rightarrow> nat \<Rightarrow> worker list \<Rightarrow> gstate \<Rightarrow> DataPair list \<Rightarrow> DataPair list \<Rightarrow> bool" where
  "pinv E J oi ws g dn pd \<longleftrightarrow>
     length ws = jb_n J \<and> \<not> is_super_mapped g \<and>
     (\<exists>q. mt_data_queue g = Some q \<and> lq_rep q dn pd) \<and> dn @ pd = jb_pairs J \<and>
     pages_inv E J ws pd g \<and> held_inv ws dn \<and> (\<forall>i < length ws. buf_ok J (ws ! i)) \<and>
     data_inv J oi ws dn g \<and> (\<forall>i < length ws. \<forall>b. w_pc (ws ! i) = WDone b \<longrightarrow> pd = [])"

definition pool_inv :: "env \<Rightarrow> job \<Rightarrow> nat \<Rightarrow> pool \<Rightarrow> bool" where
  "pool_inv E J oi c \<longleftrightarrow> thr_err (shared c) = 0 \<and> main_ready (shared c) \<and> main_ret c = 0 \<and>
     (\<exists>dn pd. pinv E J oi (workers c) (sh (shared c)) dn pd)"

section \<open>One step keeps the invariant\<close>

lemma at_stage_holds: "at_stage E s i w \<Longrightarrow> \<exists>dp. holds w = Some dp \<and> pg E dp = i"
  by (auto simp: at_stage_def holds_def)

lemma pages_upd:
  assumes inv: "pages_inv E J ws pd g" and ps: "page_objects g = Some ps" and j: "j < length ws"
    and oth: "\<And>s i'. i' \<noteq> i \<Longrightarrow> at_stage E s i' w = at_stage E s i' (ws ! j)"
    and new: "i < jb_np J \<Longrightarrow> page_inv E J i
       (cnt (at_stage E Mapping i) ws - of_bool (at_stage E Mapping i (ws ! j)) + of_bool (at_stage E Mapping i w))
       (cnt (at_stage E Reading i) ws - of_bool (at_stage E Reading i (ws ! j)) + of_bool (at_stage E Reading i w))
       (cnt (at_stage E Waiting i) ws - of_bool (at_stage E Waiting i (ws ! j)) + of_bool (at_stage E Waiting i w) +
        cnt (\<lambda>dp. pg E dp = i) pd) p"
    and g': "page_objects g' = Some (ps[i := p])"
  shows "pages_inv E J (ws[j := w]) pd g'"
proof -
  have len: "length ps = jb_np J" using inv ps by (simp add: pages_inv_def)
  have "page_inv E J i' (cnt (at_stage E Mapping i') (ws[j := w])) (cnt (at_stage E Reading i') (ws[j := w]))
      (cnt (at_stage E Waiting i') (ws[j := w]) + cnt (\<lambda>dp. pg E dp = i') pd) (ps[i := p] ! i')"
    if i': "i' < jb_np J" for i'
  proof (cases "i' = i")
    case True
    then show ?thesis using new i' len by (simp add: cnt_upd [OF j])
  next
    case False
    have "page_inv E J i' (cnt (at_stage E Mapping i') ws) (cnt (at_stage E Reading i') ws)
      (cnt (at_stage E Waiting i') ws + cnt (\<lambda>dp. pg E dp = i') pd) (ps ! i')"
      using inv ps i' by (simp add: pages_inv_def)
    then show ?thesis using oth [OF False] False by (simp add: cnt_upd [OF j])
  qed
  then show ?thesis using g' len by (simp add: pages_inv_def)
qed

lemma pages_same:
  assumes "pages_inv E J ws pd g" "j < length ws" "page_objects g' = page_objects g"
    "\<And>s i. at_stage E s i w = at_stage E s i (ws ! j)"
  shows "pages_inv E J (ws[j := w]) pd g'"
  using assms by (simp add: pages_inv_def cnt_upd)

lemma held_inv_cong:
  "length ws' = length ws \<Longrightarrow> (\<And>i. i < length ws \<Longrightarrow> holds (ws' ! i) = holds (ws ! i)) \<Longrightarrow> held_inv ws' dn = held_inv ws dn"
  by (simp add: held_inv_def)

lemma data_inv_cong:
  "length ws' = length ws \<Longrightarrow> (\<And>i. i < length ws \<Longrightarrow> holds (ws' ! i) = holds (ws ! i)) \<Longrightarrow> objs g' = objs g \<Longrightarrow>
   data_inv J oi ws' dn g' = data_inv J oi ws dn g"
  by (simp add: data_inv_def)

lemma pinvD:
  assumes "pinv E J oi ws g dn pd"
  shows "length ws = jb_n J" "\<not> is_super_mapped g" "\<exists>q. mt_data_queue g = Some q \<and> lq_rep q dn pd"
    "dn @ pd = jb_pairs J" "pages_inv E J ws pd g" "held_inv ws dn" "\<And>i. i < length ws \<Longrightarrow> buf_ok J (ws ! i)"
    "data_inv J oi ws dn g" "\<And>i b. i < length ws \<Longrightarrow> w_pc (ws ! i) = WDone b \<Longrightarrow> pd = []"
  using assms unfolding pinv_def by blast+

lemma pinv_keep:
  assumes inv: "pinv E J oi ws g dn pd" and j: "j < length ws" and h: "holds w = holds (ws ! j)"
    and b: "buf_ok J w" and e: "\<And>b. w_pc w = WDone b \<Longrightarrow> pd = []"
    and pages: "pages_inv E J (ws[j := w]) pd g'"
    and g': "mt_data_queue g' = mt_data_queue g" "objs g' = objs g" "is_super_mapped g' = is_super_mapped g"
  shows "pinv E J oi (ws[j := w]) g' dn pd"
proof -
  have eq: "holds (ws[j := w] ! i) = holds (ws ! i)" if "i < length ws" for i
    using h by (cases "i = j") (simp_all add: j)
  have "held_inv (ws[j := w]) dn" using held_inv_cong [of "ws[j := w]" ws dn] eq pinvD(6) [OF inv] by simp
  moreover have "data_inv J oi (ws[j := w]) dn g'"
    using data_inv_cong [of "ws[j := w]" ws g' g J oi dn] eq pinvD(8) [OF inv] g'(2) by simp
  moreover have "buf_ok J (ws[j := w] ! i)" if "i < length ws" for i
    using pinvD(7) [OF inv that] b by (cases "i = j") (simp_all add: j)
  moreover have "pd = []" if "i < length ws" "w_pc (ws[j := w] ! i) = WDone b" for i b
    using pinvD(9) [OF inv that(1), of b] e [of b] that by (cases "i = j") (simp_all add: j)
  ultimately show ?thesis
    using pinvD(1-4) [OF inv] pages g' unfolding pinv_def by auto
qed

definition step_good :: "env \<Rightarrow> job \<Rightarrow> nat \<Rightarrow> worker list \<Rightarrow> nat \<Rightarrow> worker option res \<times> ishared \<Rightarrow> bool" where
  "step_good E J oi ws j r \<longleftrightarrow>
     (case r of (Inl e, s) \<Rightarrow> False
      | (Inr None, s) \<Rightarrow> True
      | (Inr (Some w), s) \<Rightarrow> thr_err s = 0 \<and> main_ready s \<and> (\<exists>dn pd. pinv E J oi (ws[j := w]) (sh s) dn pd))"

lemma step_goodI:
  "r = (Inr (Some w), s) \<Longrightarrow> thr_err s = 0 \<Longrightarrow> main_ready s \<Longrightarrow> pinv E J oi (ws[j := w]) (sh s) dn pd \<Longrightarrow>
   step_good E J oi ws j r"
  by (auto simp: step_good_def)

lemma on_g_apply: "on_g a s = (fst (a (sh s)), s\<lparr>sh := snd (a (sh s))\<rparr>)"
  by (simp add: on_g_def split: prod.splits)

lemma pair_page:
  assumes "job_ok E dec J" "dp \<in> set (jb_pairs J)"
  shows "page_of E (dp_address dp) = int (pg E dp)" "pg E dp < jb_np J"
    "gran E * int (pg E dp) + dp_address dp mod gran E = dp_address dp" "u64 (dp_address dp) = dp_address dp"
proof -
  have p: "pair_ok E dec J dp" and g: "0 < gran E" "file_size E < 2 ^ 62" using assms by (simp_all add: job_ok_def)
  then show u: "u64 (dp_address dp) = dp_address dp" by (simp add: u64_id pair_ok_def)
  have n: "0 \<le> dp_address dp div gran E" using p g by (simp add: pair_ok_def pos_imp_zdiv_nonneg_iff)
  then show pe: "page_of E (dp_address dp) = int (pg E dp)" by (simp add: pg_def page_of_def u)
  show "pg E dp < jb_np J" using p by (simp add: pair_ok_def)
  have "int (pg E dp) = dp_address dp div gran E" using n by (simp add: pg_def page_of_def u)
  then show "gran E * int (pg E dp) + dp_address dp mod gran E = dp_address dp" by simp
qed

text \<open>What the invariant says of the page of the chunk that worker \<open>j\<close> holds.\<close>

lemma held_page:
  assumes job: "job_ok E dec J" and inv: "pinv E J oi ws g dn pd" and j: "j < length ws"
    and st: "wst (w_pc (ws ! j)) = Some (stg, dp)"
  obtains ps where "page_objects g = Some ps" "length ps = jb_np J" "dp \<in> set (jb_pairs J)" "pg E dp < jb_np J"
    "page_of E (dp_address dp) = int (pg E dp)" "get_page (page_of E (dp_address dp)) g = (Inr (ps ! pg E dp), g)"
    "page_inv E J (pg E dp) (cnt (at_stage E Mapping (pg E dp)) ws) (cnt (at_stage E Reading (pg E dp)) ws)
       (cnt (at_stage E Waiting (pg E dp)) ws + cnt (\<lambda>dq. pg E dq = pg E dp) pd) (ps ! pg E dp)"
    "1 \<le> cnt (at_stage E stg (pg E dp)) ws"
proof -
  have h: "holds (ws ! j) = Some dp" using st by (simp add: holds_def)
  then have "dp \<in> set dn" using pinvD(6) [OF inv] j unfolding held_inv_def by blast
  then have d: "dp \<in> set (jb_pairs J)" using pinvD(4) [OF inv] by (metis Un_iff set_append)
  note pp = pair_page [OF job d]
  obtain ps where ps: "page_objects g = Some ps" "length ps = jb_np J"
    "\<forall>i < jb_np J. page_inv E J i (cnt (at_stage E Mapping i) ws) (cnt (at_stage E Reading i) ws)
          (cnt (at_stage E Waiting i) ws + cnt (\<lambda>dp. pg E dp = i) pd) (ps ! i)"
    using pinvD(5) [OF inv] unfolding pages_inv_def by blast
  have "1 \<le> cnt (at_stage E stg (pg E dp)) ws"
    using j st by (intro cnt_pos) (auto simp: at_stage_def)
  moreover have "get_page (page_of E (dp_address dp)) g = (Inr (ps ! pg E dp), g)"
    using ps(1,2) pp(1,2) by (simp add: get_page_def)
  ultimately show thesis using that [OF ps(1,2) d pp(2,1)] ps(3) pp(2) by simp
qed

lemma wst_None: "wst pc = None \<Longrightarrow> w_pc w = pc \<Longrightarrow> \<not> at_stage E s i w" "wst pc = None \<Longrightarrow> w_pc w = pc \<Longrightarrow> holds w = None"
  by (auto simp: at_stage_def holds_def)

text \<open>A step that stays at its stage, or between stages where no chunk is held, and leaves the pages alone.\<close>

lemma step_quiet:
  assumes inv: "pinv E J oi ws (sh s) dn pd" and j: "j < length ws" and s: "thr_err s' = 0" "main_ready s'"
    and st: "wst (w_pc w) = wst (w_pc (ws ! j))" and b: "buf_ok J w" and e: "\<And>b. w_pc w = WDone b \<Longrightarrow> pd = []"
    and g': "mt_data_queue (sh s') = mt_data_queue (sh s)" "objs (sh s') = objs (sh s)"
      "is_super_mapped (sh s') = is_super_mapped (sh s)" "page_objects (sh s') = page_objects (sh s)"
    and r: "r = (Inr (Some w), s')"
  shows "step_good E J oi ws j r"
proof (rule step_goodI [OF r s])
  have "pages_inv E J (ws[j := w]) pd (sh s')"
    by (rule pages_same [OF pinvD(5) [OF inv] j g'(4)]) (simp add: at_stage_def st)
  then show "pinv E J oi (ws[j := w]) (sh s') dn pd"
    using pinv_keep [OF inv j _ b e _ g'(1-3)] st by (simp add: holds_def)
qed

lemma job_chunk: "job_ok E dec J \<Longrightarrow> \<exists>ss. chunk_ok E (jb_obj J) (jb_es J) (jb_D J) (jb_C J) ss"
  by (cases "jb_pairs J") (auto simp: job_ok_def pair_ok_def)

lemma set_darr_fields [simp]:
  "chunked_info (set_darr d a) = chunked_info d" "elem_size (set_darr d a) = elem_size d"
  "num_elems (set_darr d a) = num_elems d" "set_darr (set_darr d a) b = set_darr d b"
  "darr (data_arrays (set_darr d a)) = a" "dims (set_darr d a) = dims d" "num_dims (set_darr d a) = num_dims d"
  "byte_order (set_darr d a) = byte_order d" "matlab_internal_type (set_darr d a) = matlab_internal_type d"
  by (simp_all add: set_darr_def)

lemma chunk_ok_set_darr [simp]: "chunk_ok E (set_darr d a) es D C ss = chunk_ok E d es D C ss"
  by (simp add: chunk_ok_def obj_ok_def)

lemma step_start_ok:
  assumes job: "job_ok E dec J" and inv: "pinv E J oi ws (sh s) dn pd" and j: "j < length ws"
    and pc: "w_pc (ws ! j) = WStart" and s: "thr_err s = 0" "main_ready s"
  shows "step_good E J oi ws j (wstep E dec oi j (ws ! j) s)"
proof -
  obtain a where d: "slook (objs (sh s)) oi = Inr (set_darr (jb_obj J) (Some a))"
    using pinvD(8) [OF inv] unfolding data_inv_def by blast
  obtain ss where c: "chunk_ok E (jb_obj J) (jb_es J) (jb_D J) (jb_C J) ss" using job_chunk [OF job] by blast
  then have f: "num_chunked_elems (chunked_info (jb_obj J)) = pprod (jb_C J)" "elem_size (jb_obj J) = int (jb_es J)"
    "pprod (jb_C J) < 2 ^ 62" "int (jb_es J) * pprod (jb_C J) < 2 ^ 63" "0 < pprod (jb_C J)"
    using pprod_ge_1 [of "jb_C J"] by (simp_all add: chunk_ok_def obj_ok_def)
  then have "u64 (u64 (pprod (jb_C J)) * int (jb_es J)) = int (buf_size J)"
    by (simp add: u64_id buf_size_def mult.commute)
  moreover have "malloc_ok E (int (buf_size J))" using job by (simp add: job_ok_def)
  ultimately obtain pc' where w: "wstep E dec oi j (ws ! j) s =
      (Inr (Some \<lparr>w_pc = pc', w_buf = fresh_mem E (int (buf_size J))\<rparr>), s\<lparr>sh := note_buffer j (sh s)\<rparr>)"
    "pc' = WWait \<or> pc' = WLoop"
    using pc d f by (simp add: wstep_def step_start_def get_obj_def on_g_apply goto_def Let_def andthen_def modify_def gets_def ret_def)
  show ?thesis
    using pc w s by (intro step_quiet [OF inv j _ _ _ _ _ _ _ _ _ w(1)]) (auto simp: buf_ok_def fresh_mem_def note_buffer_def)
qed

lemma step_loop_ok:
  assumes inv: "pinv E J oi ws (sh s) dn pd" and j: "j < length ws"
    and pc: "w_pc (ws ! j) = WWait \<or> w_pc (ws ! j) = WLoop" and s: "thr_err s = 0" "main_ready s"
  shows "step_good E J oi ws j (wstep E dec oi j (ws ! j) s)"
proof -
  obtain q where q: "mt_data_queue (sh s) = Some q" "lq_rep q dn pd" using pinvD(3) [OF inv] by blast
  then have len: "lq_len q = length pd" using lq_len_pending [of q] by (simp add: lq_rep_def)
  have b: "length (w_buf (ws ! j)) = buf_size J" using pinvD(7) [OF inv j] pc by (auto simp: buf_ok_def)
  let ?nx = "if w_pc (ws ! j) = WWait then WLoop else if pd = [] then WDone True else WDequeue"
  have w: "wstep E dec oi j (ws ! j) s = (Inr (Some \<lparr>w_pc = ?nx, w_buf = w_buf (ws ! j)\<rparr>), s)"
    using pc q(1) len s
    by (auto simp: wstep_def step_loop_def mtq_length_def goto_def set_err_def)
  show ?thesis
    using pc s b by (intro step_quiet [OF inv j _ _ _ _ _ _ _ _ _ w]) (auto simp: buf_ok_def split: if_splits)
qed

lemma step_dequeue_ok:
  assumes job: "job_ok E dec J" and inv: "pinv E J oi ws (sh s) dn pd" and j: "j < length ws"
    and pc: "w_pc (ws ! j) = WDequeue" and s: "thr_err s = 0" "main_ready s"
  shows "step_good E J oi ws j (wstep E dec oi j (ws ! j) s)"
proof -
  obtain q where q: "mt_data_queue (sh s) = Some q" "lq_rep q dn pd" using pinvD(3) [OF inv] by blast
  have b: "length (w_buf (ws ! j)) = buf_size J" using pinvD(7) [OF inv j] pc by (simp add: buf_ok_def)
  have h0: "holds (ws ! j) = None" and a0: "\<And>st i. \<not> at_stage E st i (ws ! j)"
    using wst_None [OF _ pc] by simp_all
  show ?thesis
  proof (cases pd)
    case Nil
    then have "lq_dequeue q = Inr (None, q)" using lqf.deq_empty q(2) by blast
    then have w: "wstep E dec oi j (ws ! j) s = (Inr (Some \<lparr>w_pc = WDone True, w_buf = w_buf (ws ! j)\<rparr>),
        s\<lparr>sh := (sh s)\<lparr>mt_data_queue := Some q\<rparr>\<rparr>)"
      using pc q(1) s
      by (simp add: wstep_def step_dequeue_def mtq_dequeue_def on_g_apply goto_def set_err_def andthen_def ret_def modify_def)
    show ?thesis
      using pc s b q(1) Nil by (intro step_quiet [OF inv j _ _ _ _ _ _ _ _ _ w]) (auto simp: buf_ok_def)
  next
    case (Cons dp pd')
    obtain q' where q': "lq_dequeue q = Inr (Some dp, q')" "lq_rep q' (dn @ [dp]) pd'"
      using lqf.deq_law [of q dn dp pd'] q(2) Cons by blast
    let ?g = "(sh s)\<lparr>mt_data_queue := Some q'\<rparr>" and ?w = "\<lparr>w_pc = WTest dp, w_buf = w_buf (ws ! j)\<rparr>"
    have w: "wstep E dec oi j (ws ! j) s = (Inr (Some ?w), s\<lparr>sh := ?g\<rparr>)"
      using pc q(1) q'(1) pinvD(2) [OF inv]
      by (simp add: wstep_def step_dequeue_def mtq_dequeue_def on_g_apply goto_def andthen_def ret_def gets_def)
    have dist: "distinct (dn @ dp # pd')" using job pinvD(4) [OF inv] Cons by (simp add: job_ok_def)
    have hw: "holds (ws[j := ?w] ! i) = (if i = j then Some dp else holds (ws ! i))" if "i < length ws" for i
      using that by (simp add: holds_def nth_list_update)
    have "held_inv (ws[j := ?w]) (dn @ [dp])"
      unfolding held_inv_def
    proof (intro conjI allI impI)
      fix i dq assume "i < length (ws[j := ?w])" "holds (ws[j := ?w] ! i) = Some dq"
      then show "dq \<in> set (dn @ [dp])"
        using hw [of i] pinvD(6) [OF inv] by (auto simp: held_inv_def split: if_splits)
    next
      fix i k dq assume *: "i < length (ws[j := ?w])" "k < length (ws[j := ?w])"
        "holds (ws[j := ?w] ! i) = Some dq \<and> holds (ws[j := ?w] ! k) = Some dq"
      have "dq \<in> set dn" if "n < length ws" "holds (ws ! n) = Some dq" for n
        using that pinvD(6) [OF inv] by (simp add: held_inv_def)
      moreover have "dp \<notin> set dn" using dist by simp
      ultimately show "i = k"
        using * hw [of i] hw [of k] pinvD(6) [OF inv] by (auto simp: held_inv_def split: if_splits)
    qed
    moreover have "data_inv J oi (ws[j := ?w]) (dn @ [dp]) ?g"
    proof -
      obtain a where a: "slook (objs (sh s)) oi = Inr (set_darr (jb_obj J) (Some a))" "length a = length (jb_data J)"
        "\<And>dq. dq \<in> set dn \<Longrightarrow> \<forall>i < length ws. holds (ws ! i) \<noteq> Some dq \<Longrightarrow> right J dq a"
        "\<forall>i. (\<forall>dp \<in> set (jb_pairs J). i \<notin> cells J dp) \<longrightarrow> elem (jb_es J) a i = elem (jb_es J) (jb_data J) i"
        using pinvD(8) [OF inv] unfolding data_inv_def by blast
      have "right J dq a" if "dq \<in> set (dn @ [dp])" "\<forall>i < length (ws[j := ?w]). holds (ws[j := ?w] ! i) \<noteq> Some dq" for dq
      proof (rule a(3))
        have "dq \<noteq> dp" using that(2) hw [OF j] j by auto
        then show "dq \<in> set dn" using that(1) by simp
        show "\<forall>i < length ws. holds (ws ! i) \<noteq> Some dq"
          using that(2) hw h0 by (metis length_list_update option.distinct(1))
      qed
      then show ?thesis using a(1,2,4) unfolding data_inv_def by auto
    qed
    moreover have "pages_inv E J (ws[j := ?w]) pd' ?g"
    proof -
      obtain ps where ps: "page_objects (sh s) = Some ps" "length ps = jb_np J"
        "\<forall>i < jb_np J. page_inv E J i (cnt (at_stage E Mapping i) ws) (cnt (at_stage E Reading i) ws)
          (cnt (at_stage E Waiting i) ws + cnt (\<lambda>dp. pg E dp = i) pd) (ps ! i)"
        using pinvD(5) [OF inv] unfolding pages_inv_def by blast
      have "at_stage E st i ?w \<longleftrightarrow> st = Waiting \<and> pg E dp = i" for st i by (auto simp: at_stage_def)
      then show ?thesis using ps Cons a0 unfolding pages_inv_def by (simp add: cnt_upd [OF j] add.assoc)
    qed
    moreover have "buf_ok J (ws[j := ?w] ! i)" if "i < length ws" for i
      using pinvD(7) [OF inv that] b that by (cases "i = j") (simp_all add: buf_ok_def)
    moreover have "w_pc (ws[j := ?w] ! i) \<noteq> WDone e" if "i < length ws" for i e
      using pinvD(9) [OF inv that, of e] Cons that by (cases "i = j") auto
    ultimately have "pinv E J oi (ws[j := ?w]) ?g (dn @ [dp]) pd'"
      using pinvD(1,2,4) [OF inv] Cons q'(2) unfolding pinv_def by auto
    then show ?thesis using step_goodI [OF w] s by simp
  qed
qed

section \<open>Navigating\<close>

lemma rd_shown:
  assumes "0 \<le> a" "a \<le> x" "0 \<le> k" "x + k \<le> a + n" "a + n \<le> file_size E" "0 < gran E"
  shows "rd (shown E a n) (x - a) k = Inr (take (nat k) (drop (nat x) (file_bytes E)))"
proof -
  define P where "P = nat (n + (- n) mod gran E)"
  have "0 \<le> (- n) mod gran E" using assms(6) by simp
  then have P: "nat n \<le> P" unfolding P_def by (intro nat_mono) simp
  have fs: "nat a + nat (x - a) + nat k \<le> length (file_bytes E)" "nat (x - a) + nat k \<le> nat n"
    "nat a + nat (x - a) = nat x"
    using assms by (simp_all add: file_size_def)
  have "take (nat k) (drop (nat (x - a)) (shown E a n)) = take (nat k) (drop (nat x) (file_bytes E))"
    unfolding shown_def padded_def P_def [symmetric] fs(3) [symmetric]
    using fs P by (intro slice_padded) simp_all
  moreover have "nat (x - a) + nat k \<le> length (shown E a n)"
    unfolding shown_def padded_def P_def [symmetric] using P fs(1,2)
    by (simp only: length_take length_drop length_append min.bounded_iff) linarith
  ultimately show ?thesis using assms(2,3) by (simp add: rd_def)
qed

lemma job_page:
  assumes "job_ok E dec J" "dp \<in> set (jb_pairs J)"
  shows "0 < jb_max J (pg E dp)" "gran E * int (pg E dp) + jb_max J (pg E dp) \<le> file_size E"
    "gran E * int (pg E dp) \<le> dp_address dp" "0 \<le> gran E * int (pg E dp)" "0 < gran E"
    "dp_address dp + dp_chunk_size dp \<le> gran E * int (pg E dp) + jb_max J (pg E dp)" "0 < dp_chunk_size dp"
proof -
  have p: "pair_ok E dec J dp" and g: "0 < gran E" using assms by (simp_all add: job_ok_def)
  then have r: "0 \<le> dp_address dp mod gran E" by simp
  show m: "0 < jb_max J (pg E dp)" using p r unfolding pair_ok_def by linarith
  note pp = pair_page [OF assms]
  show "gran E * int (pg E dp) + jb_max J (pg E dp) \<le> file_size E"
    using assms(1) pp(2) m unfolding job_ok_def by fastforce
  show "gran E * int (pg E dp) \<le> dp_address dp" using pp(3) r by linarith
  show "dp_address dp + dp_chunk_size dp \<le> gran E * int (pg E dp) + jb_max J (pg E dp)"
    using p pp(3) unfolding pair_ok_def by linarith
  show "0 < gran E" "0 \<le> gran E * int (pg E dp)" "0 < dp_chunk_size dp" using g p by (simp_all add: pair_ok_def)
qed

lemma stage_cnt:
  assumes "pinv E J oi ws g dn pd" "job_ok E dec J" "s \<noteq> t"
  shows "cnt (at_stage E s i) ws + cnt (at_stage E t i) ws \<le> 255"
proof -
  have "cnt (at_stage E s i) ws + cnt (at_stage E t i) ws \<le> int (length ws)"
    using assms(3) by (intro cnt_disjoint) (auto simp: at_stage_def)
  then show ?thesis using pinvD(1) [OF assms(1)] assms(2) by (simp add: job_ok_def)
qed

text \<open>Worker \<open>j\<close> moves to \<open>pc'\<close>, another stage of the same chunk, and the page becomes \<open>p'\<close>.\<close>

lemma step_page:
  assumes inv: "pinv E J oi ws (sh s) dn pd" and j: "j < length ws" and s: "thr_err s' = 0" "main_ready s'"
    and st: "wst (w_pc (ws ! j)) = Some (stg, dp)" and st': "wst pc' = Some (stg', dp)"
    and b: "buf_ok J \<lparr>w_pc = pc', w_buf = buf\<rparr>" and ps: "page_objects (sh s) = Some ps"
    and p': "page_inv E J (pg E dp)
       (cnt (at_stage E Mapping (pg E dp)) ws - of_bool (stg = Mapping) + of_bool (stg' = Mapping))
       (cnt (at_stage E Reading (pg E dp)) ws - of_bool (stg = Reading) + of_bool (stg' = Reading))
       (cnt (at_stage E Waiting (pg E dp)) ws - of_bool (stg = Waiting) + of_bool (stg' = Waiting) +
        cnt (\<lambda>dq. pg E dq = pg E dp) pd) p'"
    and g': "page_objects (sh s') = Some (ps[pg E dp := p'])" "mt_data_queue (sh s') = mt_data_queue (sh s)"
      "objs (sh s') = objs (sh s)" "is_super_mapped (sh s') = is_super_mapped (sh s)"
    and r: "r = (Inr (Some \<lparr>w_pc = pc', w_buf = buf\<rparr>), s')"
  shows "step_good E J oi ws j r"
proof (rule step_goodI [OF r s])
  let ?w = "\<lparr>w_pc = pc', w_buf = buf\<rparr>"
  have at: "at_stage E t i (ws ! j) \<longleftrightarrow> t = stg \<and> i = pg E dp" "at_stage E t i ?w \<longleftrightarrow> t = stg' \<and> i = pg E dp" for t i
    using st st' by (auto simp: at_stage_def)
  have "pages_inv E J (ws[j := ?w]) pd (sh s')"
    by (rule pages_upd [OF pinvD(5) [OF inv] ps j _ _ g'(1)]) (use p' in \<open>auto simp: at eq_commute\<close>)
  then show "pinv E J oi (ws[j := ?w]) (sh s') dn pd"
    using pinv_keep [OF inv j _ b _ _ g'(2-4)] st st' by (cases pc') (auto simp: holds_def)
qed

lemma step_wait_ok:
  assumes job: "job_ok E dec J" and inv: "pinv E J oi ws (sh s) dn pd" and j: "j < length ws"
    and pc: "w_pc (ws ! j) = WTest dp \<or> w_pc (ws ! j) = WIdle dp" and s: "thr_err s = 0" "main_ready s"
  shows "step_good E J oi ws j (wstep E dec oi j (ws ! j) s)"
proof -
  have st: "wst (w_pc (ws ! j)) = Some (Waiting, dp)" using pc by auto
  obtain ps where ps: "get_page (page_of E (dp_address dp)) (sh s) = (Inr (ps ! pg E dp), sh s)"
    using held_page [OF job inv j st] by metis
  have b: "length (w_buf (ws ! j)) = buf_size J" using pinvD(7) [OF inv j] pc by (auto simp: buf_ok_def)
  obtain pc' where w: "wstep E dec oi j (ws ! j) s = (Inr (Some \<lparr>w_pc = pc', w_buf = w_buf (ws ! j)\<rparr>), s)"
    and pc': "pc' \<in> {WFit dp, WIdle dp, WLock dp, WTest dp}"
    using pc ps
    by (auto simp: wstep_def step_nav_def mt_test_def mt_idle_def on_g_apply goto_def andthen_def ret_def)
  show ?thesis
    using pc' b s st by (intro step_quiet [OF inv j _ _ _ _ _ _ _ _ _ w]) (auto simp: buf_ok_def)
qed

lemma put_page_run: "page_objects g = Some ps \<Longrightarrow> put_page (int i) p g = (Inr (), g\<lparr>page_objects := Some (ps[i := p])\<rparr>)"
  by (simp add: put_page_def)

lemma step_fit_ok:
  assumes job: "job_ok E dec J" and inv: "pinv E J oi ws (sh s) dn pd" and j: "j < length ws"
    and pc: "w_pc (ws ! j) = WFit dp" and s: "thr_err s = 0" "main_ready s"
  shows "step_good E J oi ws j (wstep E dec oi j (ws ! j) s)"
proof -
  have st: "wst (w_pc (ws ! j)) = Some (Waiting, dp)" using pc by auto
  obtain ps where ps: "page_objects (sh s) = Some ps" "length ps = jb_np J" "dp \<in> set (jb_pairs J)" "pg E dp < jb_np J"
    "page_of E (dp_address dp) = int (pg E dp)" "get_page (page_of E (dp_address dp)) (sh s) = (Inr (ps ! pg E dp), sh s)"
    and pi: "page_inv E J (pg E dp) (cnt (at_stage E Mapping (pg E dp)) ws) (cnt (at_stage E Reading (pg E dp)) ws)
       (cnt (at_stage E Waiting (pg E dp)) ws + cnt (\<lambda>dq. pg E dq = pg E dp) pd) (ps ! pg E dp)"
    and one: "1 \<le> cnt (at_stage E Waiting (pg E dp)) ws"
    by (rule held_page [OF job inv j st])
  let ?p = "ps ! pg E dp" and ?r = "cnt (at_stage E Reading (pg E dp)) ws"
  have b: "length (w_buf (ws ! j)) = buf_size J" using pinvD(7) [OF inv j] pc by (auto simp: buf_ok_def)
  have need: "bytes_for E (dp_address dp) 0 ?p = jb_max J (pg E dp)" using pi by (simp add: bytes_for_def page_inv_def)
  consider "pg_lock ?p" | "\<not> pg_lock ?p" "jb_max J (pg E dp) \<le> pg_map_size ?p"
    | "\<not> pg_lock ?p" "\<not> jb_max J (pg E dp) \<le> pg_map_size ?p" by blast
  then show ?thesis
  proof cases
    case 1
    then have "wstep E dec oi j (ws ! j) s = (Inr None, s)"
      using pc ps(6) by (simp add: wstep_def step_nav_def mt_fit_def on_g_apply andthen_def ret_def)
    then show ?thesis by (simp add: step_good_def)
  next
    case 2
    then have k: "cnt (at_stage E Mapping (pg E dp)) ws = 0" using pi cnt_nonneg [of "at_stage E Mapping (pg E dp)" ws]
      by (simp add: page_inv_def)
    have m: "pg_is_mapped ?p" using pi 2 job_page(1) [OF job ps(3)] by (auto simp: page_inv_def split: if_splits)
    have "?r + 1 \<le> 255" using stage_cnt [OF inv job, of Reading Waiting "pg E dp"] one by simp
    then have u: "u8 (pg_num_using ?p + 1) = ?r + 1" using pi k cnt_nonneg [of "at_stage E Reading (pg E dp)" ws]
      by (simp add: page_inv_def u8_id)
    let ?p' = "?p\<lparr>pg_num_using := ?r + 1\<rparr>"
    have w: "wstep E dec oi j (ws ! j) s = (Inr (Some \<lparr>w_pc = WInflate dp, w_buf = w_buf (ws ! j)\<rparr>),
        s\<lparr>sh := (sh s)\<lparr>page_objects := Some (ps[pg E dp := ?p'])\<rparr>\<rparr>)"
      using pc ps(6) 2 need u
      by (simp add: wstep_def step_nav_def mt_fit_def on_g_apply andthen_def goto_def ret_def ps(5) put_page_run [OF ps(1)])
    show ?thesis
    proof (rule step_page [OF inv j _ _ st _ _ ps(1) _ _ _ _ _ w])
      show "page_inv E J (pg E dp)
       (cnt (at_stage E Mapping (pg E dp)) ws - of_bool (Waiting = Mapping) + of_bool (Reading = Mapping))
       (?r - of_bool (Waiting = Reading) + of_bool (Reading = Reading))
       (cnt (at_stage E Waiting (pg E dp)) ws - of_bool (Waiting = Waiting) + of_bool (Reading = Waiting) +
        cnt (\<lambda>dq. pg E dq = pg E dp) pd) ?p'"
        using pi k m by (simp add: page_inv_def)
    qed (use s b in \<open>simp_all add: buf_ok_def\<close>)
  next
    case 3
    then have w: "wstep E dec oi j (ws ! j) s = (Inr (Some \<lparr>w_pc = WTest dp, w_buf = w_buf (ws ! j)\<rparr>), s)"
      using pc ps(6) need by (simp add: wstep_def step_nav_def mt_fit_def on_g_apply andthen_def goto_def ret_def)
    show ?thesis
      using b s st by (intro step_quiet [OF inv j _ _ _ _ _ _ _ _ _ w]) (auto simp: buf_ok_def)
  qed
qed

lemma step_lock_ok:
  assumes job: "job_ok E dec J" and inv: "pinv E J oi ws (sh s) dn pd" and j: "j < length ws"
    and pc: "w_pc (ws ! j) = WLock dp" and s: "thr_err s = 0" "main_ready s"
  shows "step_good E J oi ws j (wstep E dec oi j (ws ! j) s)"
proof -
  have st: "wst (w_pc (ws ! j)) = Some (Waiting, dp)" using pc by auto
  obtain ps where ps: "page_objects (sh s) = Some ps" "length ps = jb_np J" "dp \<in> set (jb_pairs J)" "pg E dp < jb_np J"
    "page_of E (dp_address dp) = int (pg E dp)" "get_page (page_of E (dp_address dp)) (sh s) = (Inr (ps ! pg E dp), sh s)"
    and pi: "page_inv E J (pg E dp) (cnt (at_stage E Mapping (pg E dp)) ws) (cnt (at_stage E Reading (pg E dp)) ws)
       (cnt (at_stage E Waiting (pg E dp)) ws + cnt (\<lambda>dq. pg E dq = pg E dp) pd) (ps ! pg E dp)"
    and one: "1 \<le> cnt (at_stage E Waiting (pg E dp)) ws"
    by (rule held_page [OF job inv j st])
  let ?p = "ps ! pg E dp"
  have b: "length (w_buf (ws ! j)) = buf_size J" using pinvD(7) [OF inv j] pc by (auto simp: buf_ok_def)
  consider "pg_lock ?p" | "\<not> pg_lock ?p" "pg_num_using ?p = 0" | "\<not> pg_lock ?p" "pg_num_using ?p \<noteq> 0" by blast
  then show ?thesis
  proof cases
    case 1
    then have "wstep E dec oi j (ws ! j) s = (Inr None, s)"
      using pc ps(6) by (simp add: wstep_def step_nav_def mt_lock_def on_g_apply andthen_def ret_def)
    then show ?thesis by (simp add: step_good_def)
  next
    case 2
    then have k: "cnt (at_stage E Mapping (pg E dp)) ws = 0" "cnt (at_stage E Reading (pg E dp)) ws = 0"
      using pi cnt_nonneg [of "at_stage E Mapping (pg E dp)" ws] cnt_nonneg [of "at_stage E Reading (pg E dp)" ws]
      by (simp_all add: page_inv_def)
    let ?p' = "?p\<lparr>pg_lock := True, pg_num_using := 1\<rparr>"
    have w: "wstep E dec oi j (ws ! j) s = (Inr (Some \<lparr>w_pc = WMap dp, w_buf = w_buf (ws ! j)\<rparr>),
        s\<lparr>sh := (sh s)\<lparr>page_objects := Some (ps[pg E dp := ?p'])\<rparr>\<rparr>)"
      using pc ps(6) 2
      by (simp add: wstep_def step_nav_def mt_lock_def on_g_apply andthen_def goto_def ret_def ps(5) put_page_run [OF ps(1)] u8_def)
    show ?thesis
    proof (rule step_page [OF inv j _ _ st _ _ ps(1) _ _ _ _ _ w])
      show "page_inv E J (pg E dp)
       (cnt (at_stage E Mapping (pg E dp)) ws - of_bool (Waiting = Mapping) + of_bool (Mapping = Mapping))
       (cnt (at_stage E Reading (pg E dp)) ws - of_bool (Waiting = Reading) + of_bool (Mapping = Reading))
       (cnt (at_stage E Waiting (pg E dp)) ws - of_bool (Waiting = Waiting) + of_bool (Mapping = Waiting) +
        cnt (\<lambda>dq. pg E dq = pg E dp) pd) ?p'"
        using pi k by (auto simp: page_inv_def split: if_splits)
    qed (use s b in \<open>simp_all add: buf_ok_def\<close>)
  next
    case 3
    then have w: "wstep E dec oi j (ws ! j) s = (Inr (Some \<lparr>w_pc = WTest dp, w_buf = w_buf (ws ! j)\<rparr>), s)"
      using pc ps(6) by (simp add: wstep_def step_nav_def mt_lock_def on_g_apply andthen_def goto_def ret_def)
    show ?thesis
      using b s st by (intro step_quiet [OF inv j _ _ _ _ _ _ _ _ _ w]) (auto simp: buf_ok_def)
  qed
qed

definition same_rest :: "gstate \<Rightarrow> gstate \<Rightarrow> bool" where
  "same_rest g g' \<longleftrightarrow> mt_data_queue g' = mt_data_queue g \<and> objs g' = objs g \<and> is_super_mapped g' = is_super_mapped g"

lemma freePage_run:
  assumes "page_objects g = Some ps" "i < length ps" "\<And>a n. munmap_ok E a n"
  obtains g' where "freePageObject E (int i) g = (Inr (), g')" "same_rest g g'"
    "page_objects g' = Some (ps[i := (if pg_is_mapped (ps ! i) then page_gone (ps ! i) else ps ! i)])"
  using assms that
  by (cases "pg_is_mapped (ps ! i)") (simp_all add: freePageObject_def get_page_def put_page_def andthen_def guard_def
      same_rest_def modify_def)

lemma mt_map_run:
  assumes ps: "page_objects g = Some ps" "i < length ps" and i: "page_of E a = int i"
    and ok: "\<And>a n. munmap_ok E a n" "\<And>a n. mmap_ok E a n"
  obtains g' where "mt_map E a 0 g = (Inr (), g')" "same_rest g g'"
    "page_objects g' = Some (ps[i := (ps ! i)\<lparr>pg_start_p := Some (pg_start_a (ps ! i)), pg_is_mapped := True,
        pg_map_size := max_map_size (ps ! i), pg_lock := False\<rparr>])"
proof -
  obtain g1 where g1: "freePageObject E (int i) g = (Inr (), g1)" "same_rest g g1"
    "page_objects g1 = Some (ps[i := (if pg_is_mapped (ps ! i) then page_gone (ps ! i) else ps ! i)])"
    using freePage_run [OF ps ok(1)] .
  have "get_page (int i) g = (Inr (ps ! i), g)" using ps by (simp add: get_page_def)
  then show thesis
    using that ps ok(2) g1
    by (simp add: mt_map_def i Let_def andthen_def bytes_for_def guard_def get_page_def put_page_def page_gone_def
        same_rest_def modify_def split: if_splits)
qed

lemma step_map_ok:
  assumes job: "job_ok E dec J" and inv: "pinv E J oi ws (sh s) dn pd" and j: "j < length ws"
    and pc: "w_pc (ws ! j) = WMap dp" and s: "thr_err s = 0" "main_ready s"
  shows "step_good E J oi ws j (wstep E dec oi j (ws ! j) s)"
proof -
  have st: "wst (w_pc (ws ! j)) = Some (Mapping, dp)" using pc by auto
  obtain ps where ps: "page_objects (sh s) = Some ps" "length ps = jb_np J" "dp \<in> set (jb_pairs J)" "pg E dp < jb_np J"
    "page_of E (dp_address dp) = int (pg E dp)" "get_page (page_of E (dp_address dp)) (sh s) = (Inr (ps ! pg E dp), sh s)"
    and pi: "page_inv E J (pg E dp) (cnt (at_stage E Mapping (pg E dp)) ws) (cnt (at_stage E Reading (pg E dp)) ws)
       (cnt (at_stage E Waiting (pg E dp)) ws + cnt (\<lambda>dq. pg E dq = pg E dp) pd) (ps ! pg E dp)"
    and one: "1 \<le> cnt (at_stage E Mapping (pg E dp)) ws"
    by (rule held_page [OF job inv j st])
  let ?p = "ps ! pg E dp"
  have b: "length (w_buf (ws ! j)) = buf_size J" using pinvD(7) [OF inv j] pc by (auto simp: buf_ok_def)
  have k: "cnt (at_stage E Mapping (pg E dp)) ws = 1" "cnt (at_stage E Reading (pg E dp)) ws = 0"
    using pi one cnt_nonneg [of "at_stage E Reading (pg E dp)" ws] unfolding page_inv_def by linarith+
  let ?p' = "?p\<lparr>pg_start_p := Some (pg_start_a ?p), pg_is_mapped := True,
        pg_map_size := max_map_size ?p, pg_lock := False\<rparr>"
  obtain g' where g': "mt_map E (dp_address dp) 0 (sh s) = (Inr (), g')" "same_rest (sh s) g'"
    "page_objects g' = Some (ps[pg E dp := ?p'])"
    using mt_map_run [OF ps(1) _ ps(5)] ps(2,4) job by (auto simp: job_ok_def)
  then have w: "wstep E dec oi j (ws ! j) s = (Inr (Some \<lparr>w_pc = WInflate dp, w_buf = w_buf (ws ! j)\<rparr>), s\<lparr>sh := g'\<rparr>)"
    using pc by (simp add: wstep_def step_nav_def on_g_apply andthen_def goto_def ret_def)
  show ?thesis
  proof (rule step_page [OF inv j _ _ st _ _ ps(1) _ _ _ _ _ w])
    show "page_inv E J (pg E dp)
       (cnt (at_stage E Mapping (pg E dp)) ws - of_bool (Mapping = Mapping) + of_bool (Reading = Mapping))
       (cnt (at_stage E Reading (pg E dp)) ws - of_bool (Mapping = Reading) + of_bool (Reading = Reading))
       (cnt (at_stage E Waiting (pg E dp)) ws - of_bool (Mapping = Waiting) + of_bool (Reading = Waiting) +
        cnt (\<lambda>dq. pg E dq = pg E dp) pd) ?p'"
      using pi k by (auto simp: page_inv_def add_pos_nonneg)
  qed (use s b g' in \<open>simp_all add: buf_ok_def same_rest_def\<close>)
qed

lemma step_inflate_ok:
  assumes job: "job_ok E dec J" and inv: "pinv E J oi ws (sh s) dn pd" and j: "j < length ws"
    and pc: "w_pc (ws ! j) = WInflate dp" and s: "thr_err s = 0" "main_ready s"
  shows "step_good E J oi ws j (wstep E dec oi j (ws ! j) s)"
proof -
  have st: "wst (w_pc (ws ! j)) = Some (Reading, dp)" using pc by auto
  obtain ps where ps: "page_objects (sh s) = Some ps" "length ps = jb_np J" "dp \<in> set (jb_pairs J)" "pg E dp < jb_np J"
    "page_of E (dp_address dp) = int (pg E dp)" "get_page (page_of E (dp_address dp)) (sh s) = (Inr (ps ! pg E dp), sh s)"
    and pi: "page_inv E J (pg E dp) (cnt (at_stage E Mapping (pg E dp)) ws) (cnt (at_stage E Reading (pg E dp)) ws)
       (cnt (at_stage E Waiting (pg E dp)) ws + cnt (\<lambda>dq. pg E dq = pg E dp) pd) (ps ! pg E dp)"
    and one: "1 \<le> cnt (at_stage E Reading (pg E dp)) ws"
    by (rule held_page [OF job inv j st])
  let ?p = "ps ! pg E dp" and ?a = "gran E * int (pg E dp)" and ?n = "jb_max J (pg E dp)"
  have b: "length (w_buf (ws ! j)) = buf_size J" using pinvD(7) [OF inv j] pc by (auto simp: buf_ok_def)
  have k: "cnt (at_stage E Mapping (pg E dp)) ws = 0"
    using pi one cnt_nonneg [of "at_stage E Mapping (pg E dp)" ws] unfolding page_inv_def by linarith
  then have m: "pg_start_p ?p = Some ?a" "pg_map_size ?p = ?n" "pg_start_a ?p = ?a"
    using pi one by (auto simp: page_inv_def split: if_splits)
  note jp = job_page [OF job ps(3)]
  have view: "mt_view E (dp_address dp) (sh s) = (Inr (shown E ?a ?n, dp_address dp - ?a), sh s)"
    using ps(6) m pinvD(2) [OF inv] by (simp add: mt_view_def andthen_def gets_def nn_def)
  have "rd (shown E ?a ?n) (dp_address dp - ?a) (dp_chunk_size dp) = Inr (raw E dp)"
    unfolding raw_def using jp by (intro rd_shown) simp_all
  moreover have "dec (raw E dp) (w_buf (ws ! j)) = (0, jb_plain J dp)"
    using job ps(3) b by (simp add: job_ok_def pair_ok_def)
  ultimately have w: "wstep E dec oi j (ws ! j) s = (Inr (Some \<lparr>w_pc = WRelease dp, w_buf = jb_plain J dp\<rparr>),
      s\<lparr>thr_err := 0\<rparr>)"
    using pc view by (simp add: wstep_def step_inflate_def on_g_apply andthen_def goto_def set_err_def)
  show ?thesis
    using s st by (intro step_quiet [OF inv j _ _ _ _ _ _ _ _ _ w]) (auto simp: buf_ok_def)
qed

lemma step_switch_ok:
  assumes inv: "pinv E J oi ws (sh s) dn pd" and j: "j < length ws"
    and pc: "w_pc (ws ! j) = WSwitch dp" and s: "thr_err s = 0" "main_ready s"
  shows "step_good E J oi ws j (wstep E dec oi j (ws ! j) s)"
proof -
  have b: "w_buf (ws ! j) = jb_plain J dp" using pinvD(7) [OF inv j] pc by (auto simp: buf_ok_def)
  have w: "wstep E dec oi j (ws ! j) s = (Inr (Some \<lparr>w_pc = WPlace dp, w_buf = jb_plain J dp\<rparr>), s)"
    using pc s b by (simp add: wstep_def step_switch_def goto_def)
  show ?thesis
    using s pc by (intro step_quiet [OF inv j _ _ _ _ _ _ _ _ _ w]) (auto simp: buf_ok_def)
qed

section \<open>Releasing a page and copying a chunk\<close>

lemma step_release_ok:
  assumes job: "job_ok E dec J" and inv: "pinv E J oi ws (sh s) dn pd" and j: "j < length ws"
    and pc: "w_pc (ws ! j) = WRelease dp" and s: "thr_err s = 0" "main_ready s"
  shows "step_good E J oi ws j (wstep E dec oi j (ws ! j) s)"
proof -
  have st: "wst (w_pc (ws ! j)) = Some (Reading, dp)" using pc by auto
  obtain ps where ps: "page_objects (sh s) = Some ps" "length ps = jb_np J" "dp \<in> set (jb_pairs J)" "pg E dp < jb_np J"
    "page_of E (dp_address dp) = int (pg E dp)" "get_page (page_of E (dp_address dp)) (sh s) = (Inr (ps ! pg E dp), sh s)"
    and pi: "page_inv E J (pg E dp) (cnt (at_stage E Mapping (pg E dp)) ws) (cnt (at_stage E Reading (pg E dp)) ws)
       (cnt (at_stage E Waiting (pg E dp)) ws + cnt (\<lambda>dq. pg E dq = pg E dp) pd) (ps ! pg E dp)"
    and one: "1 \<le> cnt (at_stage E Reading (pg E dp)) ws"
    by (rule held_page [OF job inv j st])
  let ?p = "ps ! pg E dp" and ?r = "cnt (at_stage E Reading (pg E dp)) ws"
    and ?b = "cnt (at_stage E Waiting (pg E dp)) ws + cnt (\<lambda>dq. pg E dq = pg E dp) pd"
  have b: "w_buf (ws ! j) = jb_plain J dp" using pinvD(7) [OF inv j] pc by (auto simp: buf_ok_def)
  have super: "\<not> is_super_mapped (sh s)" by (rule pinvD(2) [OF inv])
  show ?thesis
  proof (cases "pg_lock ?p")
    case True
    then have "wstep E dec oi j (ws ! j) s = (Inr None, s)"
      using pc ps(6) super
      by (simp add: wstep_def step_release_def mt_releasePages_def on_g_apply andthen_def ret_def gets_def Let_def)
    then show ?thesis by (simp add: step_good_def)
  next
    case False
    then have k: "cnt (at_stage E Mapping (pg E dp)) ws = 0" using pi cnt_nonneg [of "at_stage E Mapping (pg E dp)" ws]
      by (simp add: page_inv_def)
    have b0: "0 \<le> ?b" by (simp add: add_nonneg_nonneg)
    have m: "pg_is_mapped ?p" using pi k one by (simp add: page_inv_def)
    have "?r + cnt (at_stage E Waiting (pg E dp)) ws \<le> 255" by (rule stage_cnt [OF inv job]) simp
    moreover have "cnt (\<lambda>dq. pg E dq = pg E dp) pd < 2147483648"
    proof -
      have "length pd \<le> length (jb_pairs J)" using pinvD(4) [OF inv] by (metis length_append le_add2)
      then have "int (length pd) < 2147483648" using job by (simp add: job_ok_def)
      then show ?thesis using cnt_le [of "\<lambda>dq. pg E dq = pg E dp" pd] by linarith
    qed
    ultimately have "0 \<le> ?r + ?b - 1" "?r + ?b - 1 < 4294967296" "0 \<le> ?r - 1" "?r - 1 < 256"
      using one b0 cnt_nonneg [of "at_stage E Waiting (pg E dp)" ws] by linarith+
    then have "u32 (?r + ?b - 1) = ?r + ?b - 1" "u8 (?r - 1) = ?r - 1"
      by (simp_all only: u32_def u8_def mod_pos_pos_trivial) simp_all
    then have u: "u32 (total_num_mappings ?p - 1) = ?r + ?b - 1" "u8 (pg_num_using ?p - 1) = ?r - 1"
      using pi k by (simp_all add: page_inv_def)
    define t1 where "t1 = ?r + ?b - 1"
    have u: "u32 (total_num_mappings ?p - 1) = t1" "u8 (pg_num_using ?p - 1) = ?r - 1"
      using u by (simp_all add: t1_def)
    define p1 where "p1 = ?p\<lparr>pg_num_using := ?r - 1, total_num_mappings := t1\<rparr>"
    define g1 where "g1 = (sh s)\<lparr>page_objects := Some (ps[pg E dp := p1])\<rparr>"
    define p' where "p' = (if t1 = 0 then page_gone p1 else p1)"
    have put: "put_page (int (pg E dp)) (?p\<lparr>pg_num_using := ?r - 1, total_num_mappings := t1\<rparr>) (sh s) = (Inr (), g1)"
      by (simp add: put_page_run [OF ps(1)] g1_def p1_def)
    have g1: "page_objects g1 = Some (ps[pg E dp := p1])" "same_rest (sh s) g1" "pg_is_mapped p1"
      using m by (simp_all add: g1_def p1_def same_rest_def)
    have "\<exists>g'. mt_releasePages E (dp_address dp) 0 (sh s) = (Inr True, g') \<and> same_rest (sh s) g' \<and>
       page_objects g' = Some (ps[pg E dp := p'])"
    proof (cases "t1 = 0")
      case True
      obtain g' where g': "freePageObject E (int (pg E dp)) g1 = (Inr (), g')" "same_rest g1 g'"
        "page_objects g' = Some (ps[pg E dp := page_gone p1])"
        using freePage_run [OF g1(1), of "pg E dp" E] ps(2,4) job g1(3) by (auto simp: job_ok_def)
      then show ?thesis
        using ps(6) super False u put True g1(2)
        by (intro exI [of _ g']) (simp add: mt_releasePages_def andthen_def ret_def gets_def Let_def ps(5)
            p'_def same_rest_def)
    next
      case nz: False
      then show ?thesis
        using ps(6) super False u put g1
        by (intro exI [of _ g1]) (simp add: mt_releasePages_def andthen_def ret_def gets_def Let_def ps(5)
            p'_def)
    qed
    then obtain g' where g': "mt_releasePages E (dp_address dp) 0 (sh s) = (Inr True, g')" "same_rest (sh s) g'"
       "page_objects g' = Some (ps[pg E dp := p'])" by blast
    have w: "wstep E dec oi j (ws ! j) s = (Inr (Some \<lparr>w_pc = WSwitch dp, w_buf = w_buf (ws ! j)\<rparr>), s\<lparr>sh := g'\<rparr>)"
      using pc g'(1) by (simp add: wstep_def step_release_def on_g_apply andthen_def goto_def ret_def)
    show ?thesis
    proof (rule step_page [OF inv j _ _ st _ _ ps(1) _ _ _ _ _ w])
      show "page_inv E J (pg E dp)
       (cnt (at_stage E Mapping (pg E dp)) ws - of_bool (Reading = Mapping) + of_bool (After = Mapping))
       (?r - of_bool (Reading = Reading) + of_bool (After = Reading))
       (cnt (at_stage E Waiting (pg E dp)) ws - of_bool (Reading = Waiting) + of_bool (After = Waiting) +
        cnt (\<lambda>dq. pg E dq = pg E dp) pd) p'"
      proof -
        define r bb where "r = ?r" and "bb = ?b"
        have n: "1 \<le> r" "0 \<le> bb" using one b0 by (simp_all add: r_def bb_def)
        then have "page_inv E J (pg E dp) 0 (r - 1) bb p'"
          using pi k m by (auto simp: page_inv_def p'_def p1_def t1_def r_def [symmetric] bb_def [symmetric] page_gone_def split: if_splits)
        then show ?thesis using k by (simp add: r_def bb_def)
      qed
    qed (use s b g' in \<open>simp_all add: buf_ok_def same_rest_def\<close>)
  qed
qed

lemma right_cells:
  assumes "chunk_ok E d es (jb_D J) (jb_C J) (start_of J dq)" "right J dq a" "jb_es J = es"
    "\<And>i. i \<in> cells J dq \<Longrightarrow> elem es a' i = elem es a i"
  shows "right J dq a'"
  unfolding right_def
proof (intro allI impI)
  fix p assume p: "digits p (box_of J dq)"
  let ?v = "val (map2 (+) (start_of J dq) p) (jb_D J)"
  have "digits (map2 (+) (start_of J dq) p) (jb_D J)"
    using assms(1) p box_dims_digits unfolding box_of_def chunk_ok_def by blast
  then have "0 \<le> ?v" using val_bounds by blast
  then have "nat ?v \<in> cells J dq" using p by (auto simp: cells_def)
  then show "elem (jb_es J) a' (nat ?v) = elem (jb_es J) (jb_plain J dq) (nat (val p (jb_C J)))"
    using assms(2-4) p by (simp add: right_def)
qed

text \<open>Copying a chunk is the step after which the worker holds it no longer.\<close>

lemma step_place_ok:
  assumes job: "job_ok E dec J" and inv: "pinv E J oi ws (sh s) dn pd" and j: "j < length ws"
    and pc: "w_pc (ws ! j) = WPlace dp" and s: "thr_err s = 0" "main_ready s"
  shows "step_good E J oi ws j (wstep E dec oi j (ws ! j) s)"
proof -
  have h: "holds (ws ! j) = Some dp" using pc by (simp add: holds_def)
  have din: "dp \<in> set dn" using pinvD(6) [OF inv] j h unfolding held_inv_def by blast
  then have d: "dp \<in> set (jb_pairs J)" using pinvD(4) [OF inv] by (metis Un_iff set_append)
  have b: "w_buf (ws ! j) = jb_plain J dp" using pinvD(7) [OF inv j] pc by (auto simp: buf_ok_def)
  note D = pinvD(8) [OF inv, unfolded data_inv_def]
  obtain a where a: "slook (objs (sh s)) oi = Inr (set_darr (jb_obj J) (Some a))" "length a = length (jb_data J)"
    "\<And>dq. dq \<in> set dn \<Longrightarrow> \<forall>i < length ws. holds (ws ! i) \<noteq> Some dq \<Longrightarrow> right J dq a"
    "\<And>i. \<forall>dq \<in> set (jb_pairs J). i \<notin> cells J dq \<Longrightarrow> elem (jb_es J) a i = elem (jb_es J) (jb_data J) i"
    using D by blast
  have P: "pair_ok E dec J dp" and lenJ: "length (jb_data J) = jb_es J * nat (pprod (jb_D J))"
    using job d by (simp_all add: job_ok_def)
  have ok: "chunk_ok E (set_darr (jb_obj J) (Some a)) (jb_es J) (jb_D J) (jb_C J) (start_of J dp)"
    and plain: "length (jb_plain J dp) = buf_size J" using P by (simp_all add: pair_ok_def)
  obtain a' where a': "place_chunk E (set_darr (jb_obj J) (Some a)) (jb_plain J dp)
        (start_of J dp @ drop (length (jb_D J)) (dp_chunk_start dp)) = Inr (set_darr (jb_obj J) (Some a'), jb_plain J dp)"
    "length a' = length a"
    and here: "\<And>p. digits p (box_of J dp) \<Longrightarrow>
       elem (jb_es J) a' (nat (val (map2 (+) (start_of J dp) p) (jb_D J))) = elem (jb_es J) (jb_plain J dp) (nat (val p (jb_C J)))"
    and there: "\<And>i. i \<notin> cells J dp \<Longrightarrow> elem (jb_es J) a' i = elem (jb_es J) a i"
    using place_chunk_run [OF ok, of a "jb_plain J dp" "drop (length (jb_D J)) (dp_chunk_start dp)"] a(2) lenJ plain
    unfolding buf_size_def box_of_def cells_def by auto
  have st: "start_of J dp @ drop (length (jb_D J)) (dp_chunk_start dp) = dp_chunk_start dp" by (simp add: start_of_def)
  let ?g = "(sh s)\<lparr>objs := (objs (sh s))[oi := Some (set_darr (jb_obj J) (Some a'))]\<rparr>"
    and ?w = "\<lparr>w_pc = WLoop, w_buf = jb_plain J dp\<rparr>"
  have w: "wstep E dec oi j (ws ! j) s = (Inr (Some ?w), s\<lparr>sh := ?g\<rparr>)"
    using pc a(1) a'(1) b unfolding st
    by (simp add: wstep_def step_place_def on_g_apply goto_def andthen_def ret_def get_obj_def put_obj_def modify_def lift_res_def)
  have hw: "holds (ws[j := ?w] ! i) = (if i = j then None else holds (ws ! i))" if "i < length ws" for i
    using that by (simp add: holds_def nth_list_update)
  have "held_inv (ws[j := ?w]) dn"
    using pinvD(6) [OF inv] hw unfolding held_inv_def by (auto split: if_splits)
  moreover have "data_inv J oi (ws[j := ?w]) dn ?g"
    unfolding data_inv_def
  proof (intro exI [of _ a'] conjI ballI allI impI)
    show "slook (objs ?g) oi = Inr (set_darr (jb_obj J) (Some a'))" using slook_range [OF a(1)] by simp
    show "length a' = length (jb_data J)" using a' a(2) by simp
  next
    fix dq assume dq: "dq \<in> set dn" "\<forall>i < length (ws[j := ?w]). holds (ws[j := ?w] ! i) \<noteq> Some dq"
    show "right J dq a'"
    proof (cases "dq = dp")
      case True
      then show ?thesis using here by (simp add: right_def)
    next
      case False
      have dJ: "dq \<in> set (jb_pairs J)" using dq(1) pinvD(4) [OF inv] by (metis Un_iff set_append)
      have "holds (ws ! i) \<noteq> Some dq" if "i < length ws" for i
        using dq(2) hw [OF that] that h False by (cases "i = j") auto
      then have r: "right J dq a" using a(3) dq(1) by blast
      have "cells J dq \<inter> cells J dp = {}" using job dJ d False by (simp add: job_ok_def)
      then have "elem (jb_es J) a' i = elem (jb_es J) a i" if "i \<in> cells J dq" for i using there that by blast
      moreover have "chunk_ok E (jb_obj J) (jb_es J) (jb_D J) (jb_C J) (start_of J dq)"
        using job dJ by (simp add: job_ok_def pair_ok_def)
      ultimately show ?thesis using right_cells r by blast
    qed
  next
    fix i assume "\<forall>dq \<in> set (jb_pairs J). i \<notin> cells J dq"
    then show "elem (jb_es J) a' i = elem (jb_es J) (jb_data J) i" using there a(4) d by simp
  qed
  moreover have "pages_inv E J (ws[j := ?w]) pd ?g"
  proof -
    have "\<not> at_stage E st i ?w" "st \<noteq> After \<Longrightarrow> \<not> at_stage E st i (ws ! j)" for st i
      using pc by (simp_all add: at_stage_def)
    then show ?thesis using pinvD(5) [OF inv] unfolding pages_inv_def by (simp add: cnt_upd [OF j])
  qed
  moreover have "buf_ok J (ws[j := ?w] ! i)" if "i < length ws" for i
    using pinvD(7) [OF inv that] plain that by (cases "i = j") (simp_all add: buf_ok_def)
  moreover have "pd = []" if "i < length ws" "w_pc (ws[j := ?w] ! i) = WDone e" for i e
    using pinvD(9) [OF inv that(1), of e] that by (cases "i = j") auto
  ultimately have "pinv E J oi (ws[j := ?w]) ?g dn pd"
    using pinvD(1-4) [OF inv] unfolding pinv_def by auto
  then show ?thesis using step_goodI [OF w] s by simp
qed

section \<open>All steps\<close>

lemma wstep_ok:
  assumes job: "job_ok E dec J" and inv: "pinv E J oi ws (sh s) dn pd" and j: "j < length ws"
    and s: "thr_err s = 0" "main_ready s"
  shows "step_good E J oi ws j (wstep E dec oi j (ws ! j) s)"
proof (cases "w_pc (ws ! j)")
  case WStart
  then show ?thesis by (rule step_start_ok [OF job inv j _ s])
next
  case WWait
  then show ?thesis by (intro step_loop_ok [OF inv j _ s]) simp
next
  case WLoop
  then show ?thesis by (intro step_loop_ok [OF inv j _ s]) simp
next
  case WDequeue
  then show ?thesis by (rule step_dequeue_ok [OF job inv j _ s])
next
  case (WTest dp)
  then show ?thesis by (intro step_wait_ok [OF job inv j _ s]) simp
next
  case (WFit dp)
  then show ?thesis by (rule step_fit_ok [OF job inv j _ s])
next
  case (WIdle dp)
  then show ?thesis by (intro step_wait_ok [OF job inv j _ s]) simp
next
  case (WLock dp)
  then show ?thesis by (rule step_lock_ok [OF job inv j _ s])
next
  case (WMap dp)
  then show ?thesis by (rule step_map_ok [OF job inv j _ s])
next
  case (WInflate dp)
  then show ?thesis by (rule step_inflate_ok [OF job inv j _ s])
next
  case (WRelease dp)
  then show ?thesis by (rule step_release_ok [OF job inv j _ s])
next
  case (WSwitch dp)
  then show ?thesis by (rule step_switch_ok [OF inv j _ s])
next
  case (WPlace dp)
  then show ?thesis by (rule step_place_ok [OF job inv j _ s])
next
  case (WDone b)
  then show ?thesis by (simp add: wstep_def step_good_def ret_def)
qed

lemma pool_step_ok:
  assumes job: "job_ok E dec J" and inv: "pool_inv E J oi c"
  shows "\<exists>r. pool_step E dec oi t c = Inr r \<and> (\<forall>c'. r = Some c' \<longrightarrow> pool_inv E J oi c')"
proof (cases t)
  case Main
  then show ?thesis using inv by (auto simp: pool_step_def main_step_def pool_inv_def split: wpc.splits if_splits)
next
  case (Worker j)
  obtain dn pd where i: "pinv E J oi (workers c) (sh (shared c)) dn pd" "thr_err (shared c) = 0"
    "main_ready (shared c)" "main_ret c = 0" using inv by (auto simp: pool_inv_def)
  show ?thesis
  proof (cases "j < length (workers c)")
    case True
    note g = wstep_ok [OF job i(1) True i(2,3)]
    obtain r s where w: "wstep E dec oi j (workers c ! j) (shared c) = (r, s)" by fastforce
    show ?thesis
      using g [unfolded w step_good_def] i(4) True w unfolding Worker pool_step_def
      by (auto simp: pool_inv_def split: sum.splits option.splits)
  qed (simp add: Worker pool_step_def)
qed

lemma new_pool_inv:
  assumes job: "job_ok E dec J" and st: "job_state E J oi g"
  shows "pool_inv E J oi (new_pool (jb_n J) g)"
proof -
  let ?ws = "replicate (jb_n J) \<lparr>w_pc = WStart, w_buf = []\<rparr>"
  have pc: "w_pc (?ws ! i) = WStart" if "i < jb_n J" for i using that by simp
  have h: "holds (?ws ! i) = None" if "i < jb_n J" for i using pc [OF that] by (simp add: holds_def)
  have z: "cnt (at_stage E stg i) ?ws = 0" for stg i
    by (simp add: cnt_zero at_stage_def)
  obtain q ps where q: "mt_data_queue g = Some q" "lq_rep q [] (jb_pairs J)"
    and ps: "page_objects g = Some ps" "length ps = jb_np J" "\<And>i. i < jb_np J \<Longrightarrow> idle_page E J i (ps ! i)"
    and d: "slook (objs g) oi = Inr (set_darr (jb_obj J) (Some (jb_data J)))" and sm: "\<not> is_super_mapped g"
    using st unfolding job_state_def by blast
  have "pages_inv E J ?ws (jb_pairs J) g"
    using ps by (simp add: pages_inv_def z page_inv_def idle_page_def)
  moreover have "held_inv ?ws []" using h by (simp add: held_inv_def)
  moreover have "data_inv J oi ?ws [] g" unfolding data_inv_def
    by (intro exI [of _ "jb_data J"]) (simp add: d)
  moreover have "buf_ok J (?ws ! i)" if "i < jb_n J" for i using pc [OF that] by (simp add: buf_ok_def)
  ultimately have "pinv E J oi ?ws g [] (jb_pairs J)"
    using q sm pc unfolding pinv_def by auto
  then show ?thesis unfolding pool_inv_def new_pool_def by auto
qed

lemma reach_inv:
  assumes "pool_reach E dec oi (new_pool (jb_n J) g) c" "job_ok E dec J" "job_state E J oi g"
  shows "pool_inv E J oi c"
  using assms(1)
proof (induction rule: pool_reach.induct)
  case here
  show ?case by (rule new_pool_inv [OF assms(2,3)])
next
  case (more c t c')
  then show ?case using pool_step_ok [OF assms(2) more.IH, of t] by auto
qed

text \<open>The main thread has joined only workers that have ended.\<close>

lemma reach_joined:
  assumes "pool_reach E dec oi c0 c" "joined c0 = 0"
  shows "\<forall>i < joined c. i < length (workers c) \<and> (\<exists>b. w_pc (workers c ! i) = WDone b)"
  using assms(1)
proof (induction rule: pool_reach.induct)
  case here
  then show ?case using assms(2) by simp
next
  case (more c t c')
  show ?case
  proof (cases t)
    case Main
    then show ?thesis
      using more by (auto simp: pool_step_def main_step_def less_Suc_eq split: if_splits wpc.splits)
  next
    case (Worker j)
    obtain w s where w: "j < length (workers c)" "wstep E dec oi j (workers c ! j) (shared c) = (Inr (Some w), s)"
      "c' = c\<lparr>workers := (workers c)[j := w], shared := s\<rparr>"
      using more.hyps(2) unfolding Worker by (auto simp: pool_step_def split: if_splits prod.splits sum.splits option.splits)
    have "w_pc (workers c ! j) \<noteq> WDone b" for b
      using w(2) by (auto simp: wstep_def ret_def)
    then have "\<not> j < joined c" using more.IH by blast
    then show ?thesis using more.IH w(1,3) by (auto simp: nth_list_update)
  qed
qed

lemma done_inv:
  assumes job: "job_ok E dec J" and inv: "pinv E J oi ws g dn pd"
    and dn: "\<forall>i < length ws. \<exists>b. w_pc (ws ! i) = WDone b"
  shows "dn = jb_pairs J" "pd = []" "\<And>i. i < length ws \<Longrightarrow> holds (ws ! i) = None"
    "\<And>ps i. page_objects g = Some ps \<Longrightarrow> i < jb_np J \<Longrightarrow> page_inv E J i 0 0 0 (ps ! i)"
proof -
  have "0 < length ws" using pinvD(1) [OF inv] job by (simp add: job_ok_def)
  then show pd: "pd = []" using dn pinvD(9) [OF inv, of 0] by blast
  then show "dn = jb_pairs J" using pinvD(4) [OF inv] by simp
  show "holds (ws ! i) = None" if "i < length ws" for i using dn that by (fastforce simp: holds_def)
  have "cnt (at_stage E stg i) ws = 0" for stg i
    using dn by (fastforce simp: cnt_zero at_stage_def in_set_conv_nth)
  then show "page_inv E J i 0 0 0 (ps ! i)" if "page_objects g = Some ps" "i < jb_np J" for ps i
    using pinvD(5) [OF inv] that unfolding pages_inv_def by (auto simp: pd)
qed

end
