(* ===== verification/ParallelProps.thy ===== *)
theory ParallelProps
  imports Parallel
begin

text \<open>
  What is proved of the decompressing threads: under the invariant of theory \<open>Parallel\<close> every
  schedule is safe and gives the right array; and, for chunks that do not decompress, runs that show
  that the error code shared by the threads loses errors.
\<close>

section \<open>Every schedule\<close>

text \<open>C3. In every state the threads can reach no step of any thread fails: the mapping a chunk is read from is
  there and long enough, the queue and the pages are as the code expects them, and the copy stays inside the array.\<close>

theorem inflate_threads_safe:
  assumes "job_ok E dec J" "job_state E J oi g" "pool_reach E dec oi (new_pool (jb_n J) g) c"
  shows "\<exists>r. pool_step E dec oi t c = Inr r"
  using pool_step_ok [OF assms(1) reach_inv [OF assms(3,1,2)], of t] by blast

lemma joined_result:
  assumes job: "job_ok E dec J" and st: "job_state E J oi g"
    and run: "pool_reach E dec oi (new_pool (jb_n J) g) c" and fin: "pool_done c"
  shows "main_ret c = 0 \<and> (\<exists>a. slook (objs (sh (shared c))) oi = Inr (set_darr (jb_obj J) (Some a)) \<and>
      length a = length (jb_data J) \<and> (\<forall>dp \<in> set (jb_pairs J). right J dp a) \<and>
      (\<forall>i. (\<forall>dp \<in> set (jb_pairs J). i \<notin> cells J dp) \<longrightarrow> elem (jb_es J) a i = elem (jb_es J) (jb_data J) i)) \<and>
    (\<exists>ps. page_objects (sh (shared c)) = Some ps \<and>
      (\<forall>i < jb_np J. \<not> pg_is_mapped (ps ! i) \<and> pg_num_using (ps ! i) = 0 \<and> \<not> pg_lock (ps ! i)))"
proof -
  obtain dn pd where i: "pinv E J oi (workers c) (sh (shared c)) dn pd" "main_ret c = 0"
    using reach_inv [OF run job st] by (auto simp: pool_inv_def)
  have "\<exists>b. w_pc (workers c ! k) = WDone b" if "k < length (workers c)" for k
    using reach_joined [OF run] fin that by (simp add: pool_done_def new_pool_def)
  then have ended: "\<forall>k < length (workers c). \<exists>b. w_pc (workers c ! k) = WDone b" by blast
  note d = done_inv [OF job i(1) ended]
  obtain ps where ps: "page_objects (sh (shared c)) = Some ps"
    using pinvD(5) [OF i(1)] unfolding pages_inv_def by blast
  have "\<not> pg_is_mapped (ps ! k) \<and> pg_num_using (ps ! k) = 0 \<and> \<not> pg_lock (ps ! k)" if "k < jb_np J" for k
    using d(4) [OF ps that] by (simp add: page_inv_def split: if_splits)
  moreover have "\<exists>a. slook (objs (sh (shared c))) oi = Inr (set_darr (jb_obj J) (Some a)) \<and>
      length a = length (jb_data J) \<and> (\<forall>dp \<in> set (jb_pairs J). right J dp a) \<and>
      (\<forall>i. (\<forall>dp \<in> set (jb_pairs J). i \<notin> cells J dp) \<longrightarrow> elem (jb_es J) a i = elem (jb_es J) (jb_data J) i)"
    using pinvD(8) [OF i(1)] d(1,3) unfolding data_inv_def by (metis option.distinct(1))
  ultimately show ?thesis using i(2) ps by blast
qed

text \<open>C2. For every order in which the threads run: when the main thread has joined them all, its return value is 0,
  every chunk is in its place in the array, the other elements are unchanged, and every page is unmapped and unused.\<close>

theorem inflate_threads_correct:
  assumes job: "job_ok E dec J" and st: "job_state E J oi g"
    and run: "pool_reach E dec oi (new_pool (jb_n J) g) c" and fin: "pool_done c"
  shows "main_ret c = 0 \<and> (\<exists>a. slook (objs (sh (shared c))) oi = Inr (set_darr (jb_obj J) (Some a)) \<and>
      length a = length (jb_data J) \<and> (\<forall>dp \<in> set (jb_pairs J). right J dp a) \<and>
      (\<forall>i. (\<forall>dp \<in> set (jb_pairs J). i \<notin> cells J dp) \<longrightarrow> elem (jb_es J) a i = elem (jb_es J) (jb_data J) i)) \<and>
    (\<exists>ps. page_objects (sh (shared c)) = Some ps \<and>
      (\<forall>i < jb_np J. \<not> pg_is_mapped (ps ! i) \<and> pg_num_using (ps ! i) = 0 \<and> \<not> pg_lock (ps ! i)))"
  using joined_result [OF assms] .

section \<open>Schedules and runs\<close>

lemma pool_run_reach:
  "pool_run E dec oi ts c = Inr c' \<Longrightarrow> pool_reach E dec oi c0 c \<Longrightarrow> pool_reach E dec oi c0 c'"
proof (induction ts arbitrary: c)
  case (Cons t ts)
  obtain o' where o: "pool_step E dec oi t c = Inr o'"
    "pool_run E dec oi ts (case o' of Some c' \<Rightarrow> c' | None \<Rightarrow> c) = Inr c'"
    using Cons.prems(1) by (auto)
  have "pool_reach E dec oi c0 (case o' of Some c' \<Rightarrow> c' | None \<Rightarrow> c)"
    using Cons.prems(2) o(1) by (cases o') (auto intro: pool_reach.more)
  then show ?case by (rule Cons.IH [OF o(2)])
qed simp

section \<open>Three chunks on two pages\<close>

definition demo_file :: "byte list" where
  "demo_file = replicate 4 0 @ [1, 2] @ replicate 2 0 @ [3, 4] @ replicate 10 0 @ [5, 6] @ replicate 10 0"

definition demo_vector :: Data where
  "demo_vector = (blank_object (lq_init False))\<lparr>matlab_internal_type := mxUINT8_CLASS,
     dims := Some [6, 0], num_dims := 1, num_elems := 6, elem_size := 1,
     chunked_info := \<lparr>num_filters = 0, filters = None, num_chunked_dims = 1, num_chunked_elems = 2,
       chunked_dims = Some [2, 0], chunk_update = Some [4, 0]\<rparr>,
     data_arrays := \<lparr>darr = Some (replicate 6 0), sub_object_header_offsets = None\<rparr>\<rparr>"

definition demo_pair :: "int \<Rightarrow> int \<Rightarrow> DataPair" where
  "demo_pair a st = \<lparr>dp_address = a, dp_chunk_size = 2, dp_chunk_start = [st, 0]\<rparr>"

abbreviation demo_pairs :: "DataPair list" where
  "demo_pairs \<equiv> [demo_pair 4 0, demo_pair 8 2, demo_pair 20 4]"

definition demo_plain :: "DataPair \<Rightarrow> byte list" where
  "demo_plain dp = raw (demo_env demo_file) dp"

definition store_dec :: inflater where
  "store_dec bs buf = (0, bs)"

definition demo_job :: job where
  "demo_job = \<lparr>jb_es = 1, jb_D = [6], jb_C = [2], jb_pairs = demo_pairs, jb_obj = demo_vector,
     jb_data = replicate 6 0, jb_plain = demo_plain, jb_max = (\<lambda>i. if i = 0 then 10 else 6), jb_np = 2, jb_n = 2\<rparr>"

definition demo_page :: "int \<Rightarrow> int \<Rightarrow> int \<Rightarrow> pageObject" where
  "demo_page a n t = \<lparr>pg_lock = False, pg_is_mapped = False, pg_start_a = a, pg_end_a = a + 16,
     pg_map_size = 0, max_map_size = n, pg_start_p = None, pg_num_using = 0, total_num_mappings = t\<rparr>"

definition demo_queue :: "DataPair list \<Rightarrow> DataPair lqueue" where
  "demo_queue ps = \<lparr>lq_items = ps, lq_front = At 0, lq_trav = PNull, lq_back_ok = True, lq_head_ok = True,
     lq_free = True, lq_len = length ps, lq_tlen = 0\<rparr>"

definition demo_threads :: gstate where
  "demo_threads = demo_state\<lparr>objs := [Some demo_vector], num_threads_user_def := 2, g_num_pages := 2,
     page_objects := Some [demo_page 0 10 2, demo_page 16 6 1], mt_data_queue := Some (demo_queue demo_pairs)\<rparr>"

definition demo_schedule :: "thread list" where
  "demo_schedule = concat (replicate 26 [Worker 0, Worker 1]) @ [Main, Main]"

text \<open>The job and its state meet the hypotheses.\<close>

lemma demo_chunk_ok:
  "0 \<le> st \<Longrightarrow> st < 6 \<Longrightarrow> chunk_ok (demo_env demo_file) demo_vector 1 [6] [2] [st]"
  by (simp add: chunk_ok_def obj_ok_def demo_vector_def blank_object_def plain_class_def i64_def)

lemma demo_pages: "pg (demo_env demo_file) (demo_pair 4 st) = 0" "pg (demo_env demo_file) (demo_pair 8 st) = 0"
  "pg (demo_env demo_file) (demo_pair 20 st) = 1"
  by (simp_all add: pg_def page_of_def demo_pair_def u64_def)

lemma demo_cells: "i \<in> cells demo_job (demo_pair a st) \<Longrightarrow> st \<le> int i \<and> int i \<le> st + 1"
proof -
  assume "i \<in> cells demo_job (demo_pair a st)"
  then obtain p where p: "digits p [min 2 (6 - st)]" "int i = val (map2 (+) [st] p) [6]"
    by (auto simp: cells_def box_of_def box_dims_def start_of_def demo_job_def demo_pair_def)
  then obtain x where "p = [x]" "0 \<le> x" "x < 2" by (cases p; cases "tl p") auto
  with p show ?thesis by auto
qed

lemma demo_job_ok: "job_ok (demo_env demo_file) store_dec demo_job"
proof -
  have "pair_ok (demo_env demo_file) store_dec demo_job dp" if "dp \<in> set demo_pairs" for dp
    using that demo_chunk_ok [of 0] demo_chunk_ok [of 2] demo_chunk_ok [of 4] demo_pages
    by (auto simp: pair_ok_def demo_job_def start_of_def demo_plain_def raw_def buf_size_def store_dec_def demo_file_def
        demo_pair_def)
  moreover have "cells demo_job dp \<inter> cells demo_job dq = {}" if "dp \<in> set demo_pairs" "dq \<in> set demo_pairs" "dp \<noteq> dq" for dp dq
    using that by (auto dest!: demo_cells)
  moreover have "distinct demo_pairs" by (simp add: demo_pair_def)
  ultimately show ?thesis
    unfolding job_ok_def
    by (auto simp: demo_job_def buf_size_def demo_file_def)
qed

lemma demo_threads_ok: "job_state (demo_env demo_file) demo_job 0 demo_threads"
proof -
  have "lq_rep (demo_queue demo_pairs) [] demo_pairs"
    by (simp add: lq_rep_def demo_queue_def lq_ok_def lq_done_def lq_pending_def)
  moreover have "idle_page (demo_env demo_file) demo_job i ([demo_page 0 10 2, demo_page 16 6 1] ! i)" if "i < 2" for i
    using that demo_pages by (auto simp: idle_page_def demo_page_def demo_job_def less_Suc_eq numeral_2_eq_2)
  ultimately show ?thesis
    by (auto simp: job_state_def demo_threads_def demo_job_def demo_state_def initialize_def demo_vector_def set_darr_def slook_def)
qed

lemma demo_run: "\<exists>c. pool_run (demo_env demo_file) store_dec 0 demo_schedule (new_pool 2 demo_threads) = Inr c \<and> pool_done c"
proof -
  have "case pool_run (demo_env demo_file) store_dec 0 demo_schedule (new_pool 2 demo_threads) of
      Inr c \<Rightarrow> pool_done c | Inl e \<Rightarrow> False"
    by code_simp
  then show ?thesis by (auto split: sum.splits)
qed

lemma demo_n: "jb_n demo_job = 2" by (simp add: demo_job_def)

lemma inflate_threads_safe_witness:
  "\<exists>r. pool_step (demo_env demo_file) store_dec 0 (Worker 1) (new_pool 2 demo_threads) = Inr r"
  using inflate_threads_safe [OF demo_job_ok demo_threads_ok pool_reach.here] unfolding demo_n .

lemma inflate_threads_correct_witness:
  "\<exists>c a. pool_run (demo_env demo_file) store_dec 0 demo_schedule (new_pool 2 demo_threads) = Inr c \<and> main_ret c = 0 \<and>
     slook (objs (sh (shared c))) 0 = Inr (set_darr demo_vector (Some a)) \<and> (\<forall>dp \<in> set demo_pairs. right demo_job dp a)"
proof -
  obtain c where c: "pool_run (demo_env demo_file) store_dec 0 demo_schedule (new_pool 2 demo_threads) = Inr c" "pool_done c"
    using demo_run by blast
  have "pool_reach (demo_env demo_file) store_dec 0 (new_pool (jb_n demo_job) demo_threads) c"
    unfolding demo_n by (rule pool_run_reach [OF c(1) pool_reach.here])
  from inflate_threads_correct [OF demo_job_ok demo_threads_ok this c(2)] c(1) show ?thesis
    by (auto simp: demo_job_def)
qed

section \<open>The shared error code loses errors\<close>

text \<open>
  The first chunk, whose bytes are 1 and 2, does not decompress. In one order of the threads the
  error is reported; in another the second worker, which finds its chunk in order, overwrites the
  code before the main thread looks at it, and in a third before the first worker itself does,
  which then copies whatever its buffer holds.
\<close>

definition bad_dec :: inflater where
  "bad_dec bs buf = (if bs = [1, 2] then (1, buf) else (0, bs))"

definition race_env :: env where
  "race_env = (demo_env demo_file)\<lparr>junk := \<lambda>_. 170\<rparr>"

definition race_start :: gstate where
  "race_start = demo_state\<lparr>objs := [Some demo_vector], num_threads_user_def := 2, g_num_pages := 2,
     page_objects := Some [demo_page 0 10 2, demo_page 16 6 0], mt_data_queue := Some (demo_queue [demo_pair 4 0, demo_pair 8 2])\<rparr>"

definition turns :: "nat \<Rightarrow> nat \<Rightarrow> thread list" where
  "turns n j = replicate n (Worker j)"

text \<open>What the main thread sees and what the array holds.\<close>

definition outcome :: "thread list \<Rightarrow> (int \<times> string \<times> byte list option) res" where
  "outcome sched = (case run_threads race_env bad_dec sched 0 race_start of
     (Inl e, g) \<Rightarrow> Inl e
   | (Inr (code, err_id), g) \<Rightarrow> bnd (slook (objs g) 0) (\<lambda>d. Inr (code, err_id, darr (data_arrays d))))"

lemma race_reported:
  "outcome (turns 10 0 @ [Main] @ turns 15 1 @ [Main]) =
     Inr (1, ''getmatvar:libdeflateBadData'', Some [0, 0, 3, 4, 0, 0])"
  by code_simp

lemma race_late_main:
  "outcome (turns 10 0 @ turns 15 1 @ [Main, Main]) =
     Inr (0, ''getmatvar:libdeflateBadData'', Some [0, 0, 3, 4, 0, 0])"
  by code_simp

lemma race_garbage:
  "outcome (turns 8 0 @ turns 15 1 @ turns 5 0 @ [Main, Main]) = Inr (0, [], Some [170, 170, 3, 4, 0, 0])"
  by code_simp


end
