(* ===== verification/ParallelLive.thy ===== *)
theory ParallelLive
  imports ParallelProps
begin

text \<open>
  The decompressing threads come to an end. The threads spin: one that finds the mapping of its page too
  short, and the page in use, tests again. \<open>todo\<close> is what is left to be done apart from such tests: a
  step lowers it, or is a test that changes nothing (\<open>step_todo\<close>). In every state some thread, the \<open>key\<close>
  thread, lowers it within four turns, whatever the others do in between; so every schedule of enough rounds
  in which each thread has a turn finishes the work.
\<close>

section \<open>What is left to be done\<close>

fun rank :: "wpc \<Rightarrow> nat" where
  "rank (WDone b) = 0"
| "rank WDequeue = 1"
| "rank WLoop = 2"
| "rank WWait = 3"
| "rank WStart = 4"
| "rank (WPlace dp) = 3"
| "rank (WSwitch dp) = 4"
| "rank (WRelease dp) = 5"
| "rank (WInflate dp) = 6"
| "rank (WMap dp) = 7"
| "rank (WTest dp) = 8"
| "rank (WFit dp) = 8"
| "rank (WIdle dp) = 8"
| "rank (WLock dp) = 8"

lemma rank_0: "rank pc = 0 \<longleftrightarrow> (\<exists>b. pc = WDone b)"
  by (cases pc) auto

lemma rank_8: "rank pc = 8 \<longleftrightarrow> (\<exists>dp. wst pc = Some (Waiting, dp))"
  by (cases pc) auto

definition qlen :: "gstate \<Rightarrow> nat" where
  "qlen g = (case mt_data_queue g of None \<Rightarrow> 0 | Some q \<Rightarrow> lq_len q)"

definition todo :: "pool \<Rightarrow> nat" where
  "todo c = sum_list (map (\<lambda>w. rank (w_pc w)) (workers c)) + 8 * qlen (sh (shared c)) + (length (workers c) - joined c)"

lemma sum_list_upd_nat: "j < length ws \<Longrightarrow> sum_list (map f (ws[j := w])) + f (ws ! j) = sum_list (map f ws) + (f w :: nat)"
proof (induction ws arbitrary: j)
  case (Cons v vs)
  then show ?case by (cases j) force+
qed simp

section \<open>One step\<close>

lemma put_page_queue: "put_page i p g = (Inr x, g') \<Longrightarrow> mt_data_queue g' = mt_data_queue g"
  by (auto simp: put_page_def modify_def)

lemma freePage_queue: "freePageObject E i g = (Inr x, g') \<Longrightarrow> mt_data_queue g' = mt_data_queue g"
  by (auto simp: freePageObject_def andthen_Inr get_page_Inr guard_def modify_def ret_def put_page_def split: if_splits)

lemma mt_test_Inr: "mt_test E a n g = (Inr b, g') \<Longrightarrow> g' = g"
  by (auto simp: mt_test_def andthen_Inr get_page_Inr ret_def)

lemma mt_idle_Inr: "mt_idle E a g = (Inr b, g') \<Longrightarrow> g' = g"
  by (auto simp: mt_idle_def andthen_Inr get_page_Inr ret_def)

lemma mt_fit_Inr: "mt_fit E a n g = (Inr b, g') \<Longrightarrow> mt_data_queue g' = mt_data_queue g \<and> (b \<noteq> Some True \<longrightarrow> g' = g)"
  by (auto simp: mt_fit_def andthen_Inr get_page_Inr ret_def put_page_def modify_def split: if_splits)

lemma mt_lock_Inr: "mt_lock E a g = (Inr b, g') \<Longrightarrow> mt_data_queue g' = mt_data_queue g \<and> (b \<noteq> Some True \<longrightarrow> g' = g)"
  by (auto simp: mt_lock_def andthen_Inr get_page_Inr ret_def put_page_def modify_def split: if_splits)

lemma mt_map_queue: "mt_map E a n g = (Inr x, g') \<Longrightarrow> mt_data_queue g' = mt_data_queue g"
  by (auto simp: mt_map_def Let_def andthen_Inr get_page_Inr guard_def modify_def put_page_def split: if_splits
      dest!: freePage_queue)

lemma mt_release_queue: "mt_releasePages E a n g = (Inr x, g') \<Longrightarrow> mt_data_queue g' = mt_data_queue g"
  by (auto simp: mt_releasePages_def Let_def gets_def andthen_Inr get_page_Inr ret_def put_page_def modify_def
      split: if_splits dest!: freePage_queue)

lemma mt_view_Inr: "mt_view E a g = (Inr x, g') \<Longrightarrow> g' = g"
  by (auto simp: mt_view_def gets_def andthen_Inr get_page_Inr nn_def fail_def ret_def split: if_splits option.splits)

lemma on_g_Inr: "on_g a s = (Inr x, s') \<longleftrightarrow> (\<exists>g. a (sh s) = (Inr x, g) \<and> s' = s\<lparr>sh := g\<rparr>)"
  by (auto simp: on_g_def split: prod.splits)

lemma goto_Inr: "goto pc buf s = (Inr x, s') \<longleftrightarrow> s' = s \<and> x = Some \<lparr>w_pc = pc, w_buf = buf\<rparr>"
  by (auto simp: goto_def ret_def)

lemmas step_simps = wstep_def andthen_Inr on_g_Inr goto_Inr gets_def modify_def set_err_def set_fail_def lift_res_def

lemma nav_todo:
  assumes "rank (w_pc w) = 8" "wstep E dec oi j w s = (Inr (Some w'), s')"
  shows "rank (w_pc w') + 8 * qlen (sh s') < 8 + 8 * qlen (sh s) \<or>
    (\<exists>dp. wst (w_pc w) = Some (Waiting, dp) \<and> wst (w_pc w') = Some (Waiting, dp)) \<and> s' = s"
proof (cases "w_pc w")
  case (WTest dp)
  obtain b g where r: "mt_test E (dp_address dp) 0 (sh s) = (Inr b, g)" "s' = s\<lparr>sh := g\<rparr>" "w_pc w' = (if b then WFit dp else WIdle dp)"
    using assms(2) WTest by (auto simp: step_simps step_nav_def ret_def)
  show ?thesis using mt_test_Inr [OF r(1)] r(2,3) WTest by (cases b) auto
next
  case (WIdle dp)
  obtain b g where r: "mt_idle E (dp_address dp) (sh s) = (Inr b, g)" "s' = s\<lparr>sh := g\<rparr>" "w_pc w' = (if b then WLock dp else WTest dp)"
    using assms(2) WIdle by (auto simp: step_simps step_nav_def ret_def)
  show ?thesis using mt_idle_Inr [OF r(1)] r(2,3) WIdle by (cases b) auto
next
  case (WFit dp)
  obtain b g where r: "mt_fit E (dp_address dp) 0 (sh s) = (Inr (Some b), g)" "s' = s\<lparr>sh := g\<rparr>"
    "w_pc w' = (if b then WInflate dp else WTest dp)"
    using assms(2) WFit by (auto simp: step_simps step_nav_def ret_def split: option.splits)
  show ?thesis using mt_fit_Inr [OF r(1)] r(2,3) WFit by (cases b) (auto simp: qlen_def)
next
  case (WLock dp)
  obtain b g where r: "mt_lock E (dp_address dp) (sh s) = (Inr (Some b), g)" "s' = s\<lparr>sh := g\<rparr>"
    "w_pc w' = (if b then WMap dp else WTest dp)"
    using assms(2) WLock by (auto simp: step_simps step_nav_def ret_def split: option.splits)
  show ?thesis using mt_lock_Inr [OF r(1)] r(2,3) WLock by (cases b) (auto simp: qlen_def)
qed (use assms in auto)

lemma dequeue_qlen: "mtq_dequeue g = (Inr (Some d), g') \<Longrightarrow> qlen g = Suc (qlen g')"
  by (auto simp: mtq_dequeue_def qlen_def lq_dequeue_def split: option.splits sum.splits if_splits pos.splits)

lemma dequeue_None: "mtq_dequeue g = (Inr None, g') \<Longrightarrow> qlen g' = qlen g"
  by (auto simp: mtq_dequeue_def qlen_def lq_dequeue_def split: option.splits sum.splits if_splits pos.splits)

lemma wstep_todo:
  assumes "rank (w_pc w) \<noteq> 8" "wstep E dec oi j w s = (Inr (Some w'), s')"
  shows "rank (w_pc w') + 8 * qlen (sh s') < rank (w_pc w) + 8 * qlen (sh s)"
proof (cases "w_pc w")
  case WStart
  then show ?thesis using assms(2)
    by (auto simp: step_simps step_start_def Let_def get_obj_def note_buffer_def qlen_def ret_def
        split: if_splits)
next
  case WDequeue
  obtain x g where x: "mtq_dequeue (sh s) = (Inr x, g)" "sh s' = g"
    "w_pc w' = (case x of None \<Rightarrow> WDone True | Some dp \<Rightarrow> if is_super_mapped g then WInflate dp else WTest dp)"
    using assms(2) WDequeue by (auto simp: step_simps step_dequeue_def ret_def split: option.splits)
  show ?thesis using x dequeue_qlen dequeue_None WDequeue by (cases x) fastforce+
next
  case (WMap dp)
  then show ?thesis using assms(2) mt_map_queue
    by (fastforce simp: step_simps step_nav_def ret_def qlen_def)
next
  case (WRelease dp)
  then show ?thesis using assms(2) mt_release_queue
    by (fastforce simp: step_simps step_release_def ret_def qlen_def split: if_splits)
next
  case (WInflate dp)
  then show ?thesis using assms(2)
    by (auto simp: step_simps step_inflate_def ret_def qlen_def case_prod_beta dest!: mt_view_Inr)
next
  case (WPlace dp)
  then show ?thesis using assms(2)
    by (auto simp: step_simps step_place_def ret_def qlen_def get_obj_def put_obj_def)
qed (use assms in \<open>auto simp: step_simps step_loop_def step_switch_def ret_def qlen_def split: if_splits\<close>)

text \<open>A worker is blocked only when it has ended, or at the mutex of its page.\<close>

lemma wstep_blocked:
  assumes "wstep E dec oi j w s = (Inr None, s')" "main_ready s" "\<not> is_super_mapped (sh s)"
  shows "rank (w_pc w) = 0 \<or> (\<exists>stg dp p. wst (w_pc w) = Some (stg, dp) \<and>
    get_page (page_of E (dp_address dp)) (sh s) = (Inr p, sh s) \<and> pg_lock p)"
proof (cases "w_pc w")
  case (WFit dp)
  then show ?thesis using assms(1)
    by (auto simp: step_simps step_nav_def ret_def mt_fit_def get_page_Inr split: option.splits if_splits)
next
  case (WLock dp)
  then show ?thesis using assms(1)
    by (auto simp: step_simps step_nav_def ret_def mt_lock_def get_page_Inr split: option.splits if_splits)
next
  case (WRelease dp)
  then show ?thesis using assms(1,3)
    by (auto simp: step_simps step_release_def ret_def mt_releasePages_def Let_def get_page_Inr split: if_splits)
qed (use assms in \<open>auto simp: step_simps step_start_def step_loop_def step_dequeue_def step_nav_def step_inflate_def
  step_switch_def step_place_def Let_def ret_def case_prod_beta split: if_splits option.splits\<close>)

definition fits :: "env \<Rightarrow> gstate \<Rightarrow> DataPair \<Rightarrow> bool" where
  "fits E g dp \<longleftrightarrow> fst (mt_test E (dp_address dp) 0 g) = Inr True"

text \<open>The turns a waiting worker needs to get on, when nobody else uses its page.\<close>

fun tests :: "env \<Rightarrow> gstate \<Rightarrow> wpc \<Rightarrow> nat" where
  "tests E g (WTest dp) = (if fits E g dp then 1 else 2)"
| "tests E g (WFit dp) = (if fits E g dp then 0 else 3)"
| "tests E g (WIdle dp) = 1"
| "tests E g _ = 0"

lemma tests_le: "tests E g pc \<le> 3"
  by (cases pc) auto

lemma wait_tests:
  assumes "wst (w_pc w) = Some (Waiting, dp)" "get_page (page_of E (dp_address dp)) (sh s) = (Inr p, sh s)"
    "pg_num_using p = 0" "\<not> pg_lock p" "wstep E dec oi j w s = (Inr (Some w'), s')" "rank (w_pc w') = 8"
  shows "tests E (sh s) (w_pc w') < tests E (sh s) (w_pc w)"
proof -
  have f: "fits E (sh s) dp \<longleftrightarrow> bytes_for E (dp_address dp) 0 p \<le> pg_map_size p"
    using assms(2) by (simp add: fits_def mt_test_def andthen_def ret_def)
  show ?thesis
  proof (cases "w_pc w")
    case (WTest dq)
    then show ?thesis using assms f
      by (auto simp: step_simps step_nav_def mt_test_def ret_def split: if_splits)
  next
    case (WFit dq)
    then have "dq = dp" using assms(1) by simp
    obtain b g where r: "mt_fit E (dp_address dp) 0 (sh s) = (Inr (Some b), g)" "b = (fits E (sh s) dp)"
      using assms(2-4) f by (auto simp: mt_fit_def andthen_def put_page_def modify_def ret_def)
    have "w_pc w' = (if b then WInflate dp else WTest dp)"
      using assms(5) WFit r(1) \<open>dq = dp\<close> by (auto simp: step_simps step_nav_def)
    then show ?thesis using assms(6) WFit r(2) \<open>dq = dp\<close> by auto
  next
    case (WIdle dq)
    then show ?thesis using assms f
      by (auto simp: step_simps step_nav_def mt_idle_def ret_def split: if_splits)
  next
    case (WLock dq)
    then have "dq = dp" using assms(1) by simp
    obtain b g where r: "mt_lock E (dp_address dp) (sh s) = (Inr (Some b), g)" "b = (True)"
      using assms(2-4) f by (auto simp: mt_lock_def andthen_def put_page_def modify_def ret_def)
    have "w_pc w' = (if b then WMap dp else WTest dp)"
      using assms(5) WLock r(1) \<open>dq = dp\<close> by (auto simp: step_simps step_nav_def)
    then show ?thesis using assms(6) WLock r(2) \<open>dq = dp\<close> by auto
  qed (use assms(1) in auto)
qed

section \<open>The key thread\<close>

lemma todo_upd:
  "j < length (workers c) \<Longrightarrow> rank (w_pc w) = rank (w_pc (workers c ! j)) \<Longrightarrow> todo (c\<lparr>workers := (workers c)[j := w]\<rparr>) = todo c"
  using sum_list_upd_nat [of j "workers c" "\<lambda>w. rank (w_pc w)" w] by (simp add: todo_def)

lemma pool_step_todo:
  assumes "pool_step E dec oi u c = Inr (Some c')"
  shows "todo c' < todo c \<or> (\<exists>j w'. u = Worker j \<and> j < length (workers c) \<and> rank (w_pc (workers c ! j)) = 8 \<and>
    rank (w_pc w') = 8 \<and> wstep E dec oi j (workers c ! j) (shared c) = (Inr (Some w'), shared c) \<and>
    c' = c\<lparr>workers := (workers c)[j := w']\<rparr>)"
proof (cases u)
  case Main
  then show ?thesis using assms
    by (auto simp: pool_step_def main_step_def todo_def split: if_splits wpc.splits)
next
  case (Worker j)
  obtain w' s' where w: "j < length (workers c)" "wstep E dec oi j (workers c ! j) (shared c) = (Inr (Some w'), s')"
    "c' = c\<lparr>workers := (workers c)[j := w'], shared := s'\<rparr>"
    using assms unfolding Worker by (auto simp: pool_step_def split: if_splits prod.splits sum.splits option.splits)
  let ?w = "workers c ! j"
  have drop: "todo c' < todo c"
    if "rank (w_pc w') + 8 * qlen (sh s') < rank (w_pc ?w) + 8 * qlen (sh (shared c))"
    using that sum_list_upd_nat [OF w(1), of "\<lambda>w. rank (w_pc w)" w'] by (simp add: todo_def w(3))
  show ?thesis
  proof (cases "rank (w_pc ?w) = 8")
    case True
    from nav_todo [OF True w(2)] show ?thesis
    proof
      assume "rank (w_pc w') + 8 * qlen (sh s') < 8 + 8 * qlen (sh (shared c))"
      then show ?thesis using drop True by simp
    next
      assume "(\<exists>dp. wst (w_pc ?w) = Some (Waiting, dp) \<and> wst (w_pc w') = Some (Waiting, dp)) \<and> s' = shared c"
      then have "s' = shared c" "rank (w_pc w') = 8" unfolding rank_8 by blast+
      then show ?thesis using Worker w True by auto
    qed
  next
    case False
    then show ?thesis using drop wstep_todo [OF False w(2)] by blast
  qed
qed

definition key :: "env \<Rightarrow> pool \<Rightarrow> thread \<Rightarrow> nat \<Rightarrow> bool" where
  "key E c t m \<longleftrightarrow>
     (case t of
        Main \<Rightarrow> (\<forall>w \<in> set (workers c). rank (w_pc w) = 0) \<and> joined c < length (workers c)
      | Worker j \<Rightarrow> j < length (workers c) \<and>
          (rank (w_pc (workers c ! j)) = 7 \<or>
           (\<forall>w \<in> set (workers c). rank (w_pc w) \<noteq> 7) \<and> rank (w_pc (workers c ! j)) \<notin> {0, 8} \<or>
           (\<forall>w \<in> set (workers c). rank (w_pc w) \<in> {0, 8}) \<and> rank (w_pc (workers c ! j)) = 8 \<and>
             tests E (sh (shared c)) (w_pc (workers c ! j)) \<le> m))"

lemma key_mono: "key E c t m \<Longrightarrow> m \<le> n \<Longrightarrow> key E c t n"
  by (auto simp: key_def split: thread.splits)

lemma key_exists:
  assumes "joined c < length (workers c)"
  obtains t where "key E c t 3" "t = Main \<or> (\<exists>j < length (workers c). t = Worker j)"
proof (cases "\<exists>j < length (workers c). rank (w_pc (workers c ! j)) = 7")
  case True
  then obtain j where "j < length (workers c)" "rank (w_pc (workers c ! j)) = 7" by blast
  then show ?thesis by (intro that [of "Worker j"]) (auto simp: key_def)
next
  case no7: False
  then have n7: "\<forall>w \<in> set (workers c). rank (w_pc w) \<noteq> 7" by (auto simp: in_set_conv_nth)
  show ?thesis
  proof (cases "\<exists>j < length (workers c). rank (w_pc (workers c ! j)) \<notin> {0, 8}")
    case True
    then obtain j where "j < length (workers c)" "rank (w_pc (workers c ! j)) \<notin> {0, 8}" by blast
    then show ?thesis using n7 by (intro that [of "Worker j"]) (auto simp: key_def)
  next
    case False
    then have a: "\<forall>w \<in> set (workers c). rank (w_pc w) \<in> {0, 8}" by (auto simp: in_set_conv_nth)
    show ?thesis
    proof (cases "\<exists>j < length (workers c). rank (w_pc (workers c ! j)) = 8")
      case True
      then obtain j where "j < length (workers c)" "rank (w_pc (workers c ! j)) = 8" by blast
      then show ?thesis using a tests_le by (intro that [of "Worker j"]) (auto simp: key_def)
    next
      case False
      then have "\<forall>w \<in> set (workers c). rank (w_pc w) = 0" using a by (metis in_set_conv_nth insertE singletonD)
      then show ?thesis using assms by (intro that [of Main]) (auto simp: key_def)
    qed
  qed
qed

text \<open>When nobody maps a page its mutex is free; when, besides, nobody reads it, it is not in use.\<close>

lemma free_page:
  assumes job: "job_ok E dec J" and inv: "pool_inv E J oi c" and j: "j < length (workers c)"
    and st: "wst (w_pc (workers c ! j)) = Some (stg, dp)" and n7: "\<forall>w \<in> set (workers c). rank (w_pc w) \<noteq> 7"
  obtains p where "get_page (page_of E (dp_address dp)) (sh (shared c)) = (Inr p, sh (shared c))" "\<not> pg_lock p"
    "(\<forall>w \<in> set (workers c). rank (w_pc w) \<in> {0, 8}) \<Longrightarrow> pg_num_using p = 0"
proof -
  obtain dn pd where i: "pinv E J oi (workers c) (sh (shared c)) dn pd" using inv by (auto simp: pool_inv_def)
  obtain p where p: "get_page (page_of E (dp_address dp)) (sh (shared c)) = (Inr p, sh (shared c))"
    "page_inv E J (pg E dp) (cnt (at_stage E Mapping (pg E dp)) (workers c)) (cnt (at_stage E Reading (pg E dp)) (workers c))
       (cnt (at_stage E Waiting (pg E dp)) (workers c) + cnt (\<lambda>dq. pg E dq = pg E dp) pd) p"
    using held_page [OF job i j st] by metis
  have stage_7: "wst pc = Some (Mapping, dq) \<Longrightarrow> rank pc = 7" for pc dq by (cases pc) auto
  have stage_r: "wst pc = Some (Reading, dq) \<Longrightarrow> rank pc \<notin> {0, 8}" for pc dq by (cases pc) auto
  have m0: "cnt (at_stage E Mapping (pg E dp)) (workers c) = 0"
    using n7 stage_7 unfolding cnt_zero at_stage_def by blast
  have "cnt (at_stage E Reading (pg E dp)) (workers c) = 0" if "\<forall>w \<in> set (workers c). rank (w_pc w) \<in> {0, 8}"
    using that stage_r unfolding cnt_zero at_stage_def by blast
  then show thesis using that [OF p(1)] p(2) m0 by (simp add: page_inv_def)
qed

lemma key_kept:
  assumes k: "key E c t m" and t: "t \<noteq> Worker i" and i: "i < length (workers c)"
    and r: "rank (w_pc (workers c ! i)) = 8" "rank (w_pc w') = 8"
  shows "key E (c\<lparr>workers := (workers c)[i := w']\<rparr>) t m"
proof (cases t)
  case Main
  then have "rank (w_pc (workers c ! i)) = 0" using k i by (simp add: key_def)
  then show ?thesis using r(1) by simp
next
  case (Worker j)
  then have j: "j \<noteq> i" "j < length (workers c)" using t k by (auto simp: key_def)
  have s: "\<forall>w \<in> set ((workers c)[i := w']). P (w_pc w)" if "\<forall>w \<in> set (workers c). P (w_pc w)" "P (w_pc w')" for P
    using that by (auto dest!: set_update_subset_insert [THEN subsetD])
  show ?thesis
    using k j s [of "\<lambda>pc. rank pc \<noteq> 7"] s [of "\<lambda>pc. rank pc \<in> {0, 8}"] r(2)
    unfolding key_def Worker by fastforce
qed

lemma key_step:
  assumes job: "job_ok E dec J" and inv: "pool_inv E J oi c" and k: "key E c t m"
    and st: "pool_step E dec oi u c = Inr r" and c': "c' = (case r of Some c' \<Rightarrow> c' | None \<Rightarrow> c)"
  shows "todo c' < todo c \<or> todo c' = todo c \<and> key E c' t m \<and> (u = t \<longrightarrow> 0 < m \<and> key E c' t (m - 1))"
proof (cases r)
  case (Some d)
  have st': "pool_step E dec oi u c = Inr (Some c')" using st Some c' by simp
  from pool_step_todo [OF st'] show ?thesis
  proof
    assume "\<exists>j w'. u = Worker j \<and> j < length (workers c) \<and> rank (w_pc (workers c ! j)) = 8 \<and> rank (w_pc w') = 8 \<and>
      wstep E dec oi j (workers c ! j) (shared c) = (Inr (Some w'), shared c) \<and>
      c' = c\<lparr>workers := (workers c)[j := w']\<rparr>"
    then obtain j w' where w: "u = Worker j" "j < length (workers c)" "rank (w_pc (workers c ! j)) = 8"
      "rank (w_pc w') = 8" "wstep E dec oi j (workers c ! j) (shared c) = (Inr (Some w'), shared c)"
      "c' = c\<lparr>workers := (workers c)[j := w']\<rparr>" by blast
    have todo: "todo c' = todo c" using todo_upd [OF w(2)] w(3,4,6) by simp
    show ?thesis
    proof (cases "u = t")
      case False
      then show ?thesis using key_kept [OF k _ w(2-4)] w(1,6) todo by auto
    next
      case True
      then have a: "\<forall>w \<in> set (workers c). rank (w_pc w) \<in> {0, 8}" "tests E (sh (shared c)) (w_pc (workers c ! j)) \<le> m"
        using k w(1,3) by (auto simp: key_def)
      obtain dp where dp: "wst (w_pc (workers c ! j)) = Some (Waiting, dp)" using w(3) unfolding rank_8 by blast
      have "\<forall>w \<in> set (workers c). rank (w_pc w) \<noteq> 7" using a(1) by auto
      from free_page [OF job inv w(2) dp this] obtain p where
        "get_page (page_of E (dp_address dp)) (sh (shared c)) = (Inr p, sh (shared c))" "\<not> pg_lock p" "pg_num_using p = 0"
        using a(1) by metis
      then have less: "tests E (sh (shared c)) (w_pc w') < tests E (sh (shared c)) (w_pc (workers c ! j))"
        using wait_tests [OF dp] w(4,5) by blast
      have "\<forall>w \<in> set ((workers c)[j := w']). rank (w_pc w) \<in> {0, 8}"
        using a(1) w(4) by (auto dest!: set_update_subset_insert [THEN subsetD])
      then have "key E c' t (m - 1)" using w(1,2,4,6) True a(2) less by (auto simp: key_def)
      moreover have "0 < m" using less a(2) by simp
      ultimately show ?thesis using todo key_mono [of E c' t "m - 1" m] True by simp
    qed
  qed blast
next
  case None
  have "u \<noteq> t"
  proof
    assume u: "u = t"
    show False
    proof (cases t)
      case Main
      then have "joined c < length (workers c)" "rank (w_pc (workers c ! joined c)) = 0" using k by (auto simp: key_def)
      then show False using st None u Main unfolding rank_0 by (auto simp: pool_step_def main_step_def)
    next
      case (Worker j)
      have j: "j < length (workers c)" "rank (w_pc (workers c ! j)) \<noteq> 0" using k Worker by (auto simp: key_def)
      obtain s' where b: "wstep E dec oi j (workers c ! j) (shared c) = (Inr None, s')"
        using st None u Worker j(1) by (auto simp: pool_step_def split: prod.splits sum.splits option.splits)
      have "main_ready (shared c)" "\<not> is_super_mapped (sh (shared c))"
        using inv by (auto simp: pool_inv_def dest: pinvD(2))
      from wstep_blocked [OF b this] j(2) obtain stg dp p where p: "wst (w_pc (workers c ! j)) = Some (stg, dp)"
        "get_page (page_of E (dp_address dp)) (sh (shared c)) = (Inr p, sh (shared c))" "pg_lock p" by blast
      show False
      proof (cases "rank (w_pc (workers c ! j)) = 7")
        case True
        then obtain dq where "w_pc (workers c ! j) = WMap dq" by (cases "w_pc (workers c ! j)") auto
        then show False using b by (auto simp: step_simps step_nav_def)
      next
        case False
        then have "\<forall>w \<in> set (workers c). rank (w_pc w) \<noteq> 7" using k Worker by (auto simp: key_def)
        from free_page [OF job inv j(1) p(1) this] p(2,3) show False by (metis Inr_inject fst_conv)
      qed
    qed
  qed
  then show ?thesis using k c' None by simp
qed

section \<open>Rounds\<close>

lemma run_keeps:
  assumes job: "job_ok E dec J"
  shows "pool_inv E J oi c \<Longrightarrow> joined c \<le> length (workers c) \<Longrightarrow>
    \<exists>c'. pool_run E dec oi ts c = Inr c' \<and> pool_inv E J oi c' \<and> todo c' \<le> todo c \<and> joined c' \<le> length (workers c') \<and>
      length (workers c') = length (workers c) \<and> (pool_done c \<longrightarrow> pool_done c')"
proof (induction ts arbitrary: c)
  case (Cons u ts)
  obtain r where r: "pool_step E dec oi u c = Inr r" "\<forall>c'. r = Some c' \<longrightarrow> pool_inv E J oi c'"
    using pool_step_ok [OF job Cons.prems(1)] by blast
  let ?d = "case r of Some c' \<Rightarrow> c' | None \<Rightarrow> c"
  have "pool_inv E J oi ?d" using r(2) Cons.prems(1) by (cases r) auto
  moreover have "todo ?d \<le> todo c"
  proof (cases r)
    case (Some d)
    then have "pool_step E dec oi u c = Inr (Some d)" using r(1) by simp
    from pool_step_todo [OF this] have "todo d \<le> todo c" using todo_upd [of _ c] by auto
    then show ?thesis using Some by simp
  qed simp
  moreover have "joined ?d \<le> length (workers ?d) \<and> length (workers ?d) = length (workers c) \<and> (pool_done c \<longrightarrow> pool_done ?d)"
    using r(1) Cons.prems(2)
    by (cases u) (auto simp: pool_step_def main_step_def pool_done_def split: if_splits wpc.splits prod.splits sum.splits option.splits)
  ultimately show ?case using Cons.IH [of ?d] r(1) by fastforce
qed simp

lemma run_key:
  assumes job: "job_ok E dec J"
  shows "pool_inv E J oi c \<Longrightarrow> joined c \<le> length (workers c) \<Longrightarrow> key E c t m \<Longrightarrow> pool_run E dec oi ts c = Inr c' \<Longrightarrow>
    todo c' < todo c \<or> todo c' = todo c \<and> key E c' t m \<and> (t \<in> set ts \<longrightarrow> 0 < m \<and> key E c' t (m - 1))"
proof (induction ts arbitrary: c m)
  case (Cons u ts)
  obtain r where r: "pool_step E dec oi u c = Inr r" using pool_step_ok [OF job Cons.prems(1)] by blast
  define d where "d = (case r of Some c' \<Rightarrow> c' | None \<Rightarrow> c)"
  have run: "pool_run E dec oi [u] c = Inr d" "pool_run E dec oi ts d = Inr c'" using r Cons.prems(4) by (simp_all add: d_def)
  have dI: "pool_inv E J oi d" "joined d \<le> length (workers d)" using run_keeps [OF job Cons.prems(1,2), of "[u]"] run(1) by auto
  have mono: "todo c' \<le> todo d" using run_keeps [OF job dI, of ts] run(2) by auto
  from key_step [OF job Cons.prems(1,3) r d_def] show ?case
  proof
    assume "todo d < todo c"
    then show ?thesis using mono by simp
  next
    assume s: "todo d = todo c \<and> key E d t m \<and> (u = t \<longrightarrow> 0 < m \<and> key E d t (m - 1))"
    show ?thesis
    proof (cases "u = t")
      case True
      then have "key E d t (m - 1)" "0 < m" using s by auto
      from Cons.IH [OF dI this(1) run(2)] s this(2) key_mono [of E c' t "m - 1" m] show ?thesis by auto
    next
      case False
      then show ?thesis using Cons.IH [OF dI _ run(2), of m] s by auto
    qed
  qed
qed simp

definition fair_round :: "nat \<Rightarrow> thread list \<Rightarrow> bool" where
  "fair_round n r \<longleftrightarrow> Main \<in> set r \<and> (\<forall>j < n. Worker j \<in> set r)"

lemma pool_run_append: "pool_run E dec oi (ts @ us) c = bnd (pool_run E dec oi ts c) (pool_run E dec oi us)"
  by (induction ts arbitrary: c) (auto simp: bnd_def split: sum.splits)

lemma rounds_finish:
  assumes job: "job_ok E dec J"
  shows "pool_inv E J oi c \<Longrightarrow> joined c \<le> length (workers c) \<Longrightarrow> \<forall>r \<in> set rounds. fair_round (length (workers c)) r \<Longrightarrow>
    pool_done c \<or> (\<exists>t m. (t = Main \<or> (\<exists>j < length (workers c). t = Worker j)) \<and> key E c t m \<and> 4 * todo c + m < length rounds) \<Longrightarrow>
    \<exists>c'. pool_run E dec oi (concat rounds) c = Inr c' \<and> pool_done c'"
proof (induction rounds arbitrary: c)
  case (Cons r rounds)
  obtain d where d: "pool_run E dec oi r c = Inr d" "pool_inv E J oi d" "joined d \<le> length (workers d)"
    "length (workers d) = length (workers c)" "pool_done c \<longrightarrow> pool_done d"
    using run_keeps [OF job Cons.prems(1,2)] by blast
  have "pool_done d \<or> (\<exists>t m. (t = Main \<or> (\<exists>j < length (workers d). t = Worker j)) \<and> key E d t m \<and> 4 * todo d + m < length rounds)"
  proof (cases "pool_done d")
    case False
    then have j: "joined d < length (workers d)" using d(3) by (simp add: pool_done_def)
    obtain t m where t: "t = Main \<or> (\<exists>j < length (workers c). t = Worker j)" "key E c t m" "4 * todo c + m < Suc (length rounds)"
      using Cons.prems(4) d(5) False by auto
    have "t \<in> set r" using t(1) Cons.prems(3) by (auto simp: fair_round_def)
    with run_key [OF job Cons.prems(1,2) t(2) d(1)]
    have "todo d < todo c \<or> todo d = todo c \<and> 0 < m \<and> key E d t (m - 1)" by blast
    then show ?thesis
    proof
      assume "todo d < todo c"
      moreover obtain t' where "key E d t' 3" "t' = Main \<or> (\<exists>j < length (workers d). t' = Worker j)" using key_exists [OF j] by blast
      moreover have "4 * todo d + 3 < length rounds" using \<open>todo d < todo c\<close> t(3) by simp
      ultimately show ?thesis by blast
    next
      assume s: "todo d = todo c \<and> 0 < m \<and> key E d t (m - 1)"
      then have "4 * todo d + (m - 1) < length rounds" using t(3) by linarith
      then show ?thesis using s t(1) d(4) by metis
    qed
  qed simp
  then obtain c' where "pool_run E dec oi (concat rounds) d = Inr c'" "pool_done c'"
    using Cons.IH [OF d(2,3)] Cons.prems(3) d(4) by auto
  then show ?case using d(1) by (simp add: pool_run_append)
qed simp

lemma threads_finish:
  assumes job: "job_ok E dec J" and st: "job_state E J oi g" and fair: "\<forall>r \<in> set rounds. fair_round (jb_n J) r"
    and long: "20 * jb_n J + 32 * length (jb_pairs J) + 4 \<le> length rounds"
  shows "\<exists>c a. pool_run E dec oi (concat rounds) (new_pool (jb_n J) g) = Inr c \<and> pool_done c \<and> main_ret c = 0 \<and>
    slook (objs (sh (shared c))) oi = Inr (set_darr (jb_obj J) (Some a)) \<and> (\<forall>dp \<in> set (jb_pairs J). right J dp a)"
proof -
  let ?c = "new_pool (jb_n J) g"
  have n: "0 < jb_n J" using job by (simp add: job_ok_def)
  have c: "length (workers ?c) = jb_n J" "joined ?c = 0" by (simp_all add: new_pool_def)
  obtain q where q: "mt_data_queue g = Some q" "lq_rep q [] (jb_pairs J)" using st by (auto simp: job_state_def)
  have "qlen g = length (jb_pairs J)" using q lq_len_pending [of q] by (simp add: qlen_def lq_rep_def)
  then have "todo ?c = 5 * jb_n J + 8 * length (jb_pairs J)" by (simp add: todo_def new_pool_def sum_list_replicate)
  moreover obtain t where "key E ?c t 3" "t = Main \<or> (\<exists>j < length (workers ?c). t = Worker j)"
    using key_exists [of ?c] c n by auto
  moreover have "4 * (5 * jb_n J + 8 * length (jb_pairs J)) + 3 < length rounds" using long by simp
  ultimately have "pool_done ?c \<or> (\<exists>t m. (t = Main \<or> (\<exists>j < length (workers ?c). t = Worker j)) \<and> key E ?c t m \<and>
      4 * todo ?c + m < length rounds)" by metis
  then obtain d where d: "pool_run E dec oi (concat rounds) ?c = Inr d" "pool_done d"
    using rounds_finish [OF job new_pool_inv [OF job st], of rounds] fair c by auto
  from joined_result [OF job st pool_run_reach [OF d(1) pool_reach.here] d(2)] d show ?thesis by blast
qed

text \<open>C6. The threads come to an end: a schedule of \<open>20 n + 32 k + 4\<close> rounds, for \<open>n\<close> workers and \<open>k\<close> chunks, in
  each of which every thread has a turn, in any order and as often as the system likes, ends with all workers joined, the
  return value 0 and every chunk in its place.\<close>

theorem inflate_threads_finish:
  assumes job: "job_ok E dec J" and st: "job_state E J oi g" and fair: "\<forall>r \<in> set rounds. fair_round (jb_n J) r"
    and long: "20 * jb_n J + 32 * length (jb_pairs J) + 4 \<le> length rounds"
  shows "\<exists>c a. pool_run E dec oi (concat rounds) (new_pool (jb_n J) g) = Inr c \<and> pool_done c \<and> main_ret c = 0 \<and>
    slook (objs (sh (shared c))) oi = Inr (set_darr (jb_obj J) (Some a)) \<and> (\<forall>dp \<in> set (jb_pairs J). right J dp a)"
  using threads_finish [OF assms] .

lemma inflate_threads_finish_witness:
  "\<exists>c. pool_run (demo_env demo_file) store_dec 0 (concat (replicate 140 [Worker 1, Main, Worker 0])) (new_pool 2 demo_threads) = Inr c \<and>
    pool_done c"
proof -
  let ?r = "replicate 140 [Worker 1, Main, Worker 0]"
  have "\<forall>r \<in> set ?r. fair_round (jb_n demo_job) r"
    by (auto simp: demo_job_def fair_round_def less_Suc_eq numeral_2_eq_2 simp del: replicate.simps)
  moreover have "20 * jb_n demo_job + 32 * length (jb_pairs demo_job) + 4 \<le> length ?r" by (simp add: demo_job_def)
  ultimately show ?thesis
    using inflate_threads_finish [OF demo_job_ok demo_threads_ok, of ?r] unfolding demo_n by blast
qed

end
