(* ===== verification/ChunkedProps.thy ===== *)
theory ChunkedProps
  imports TreeTotal ParallelLive
begin

text \<open>
  The whole of \<open>getChunkedData\<close>: the chunk tree of the file is read into the buckets of the pages,
  the buckets are merged into the queue of the threads, and the threads place the chunks.
\<close>

section \<open>From the tree to the queue\<close>

lemma drain_rep:
  "lq_rep dst dn pd \<Longrightarrow> lq_rep src dn' ds \<Longrightarrow>
   \<exists>dst' src'. lq_drain_into (length ds) dst src = Inr (dst', src') \<and> lq_rep dst' dn (pd @ ds)"
proof (induction ds arbitrary: dst src pd dn')
  case (Cons d ds)
  obtain src1 where s: "lq_dequeue src = Inr (Some d, src1)" "lq_rep src1 (dn' @ [d]) ds" using lqf.deq_law [OF Cons.prems(2)] by blast
  obtain dst1 where d: "lq_enqueue dst d = Inr dst1" "lq_rep dst1 dn (pd @ [d])" using lqf.enq_law [OF Cons.prems(1)] by blast
  from Cons.IH [OF d(2) s(2)] s(1) d(1) show ?case by auto
qed simp

lemma merge_rep:
  "lq_rep dst dn pd \<Longrightarrow> length bs = length dss \<Longrightarrow> \<forall>i < length bs. lq_rep (bs ! i) [] (dss ! i) \<Longrightarrow>
   \<exists>dst' bs'. lq_merge dst bs = Inr (dst', bs') \<and> lq_rep dst' dn (pd @ concat dss)"
proof (induction bs arbitrary: dst pd dss)
  case (Cons b bs)
  obtain ds dss' where dss: "dss = ds # dss'" using Cons.prems(2) by (cases dss) auto
  have b: "lq_rep b [] ds" using Cons.prems(3) dss by fastforce
  then have len: "lq_len b = length ds" using lq_len_pending [of b] by (simp add: lq_rep_def)
  obtain dst1 b1 where 1: "lq_drain_into (length ds) dst b = Inr (dst1, b1)" "lq_rep dst1 dn (pd @ ds)"
    using drain_rep [OF Cons.prems(1) b] by blast
  have "\<forall>i < length bs. lq_rep (bs ! i) [] (dss' ! i)" using Cons.prems(3) dss by fastforce
  from Cons.IH [OF 1(2) _ this] Cons.prems(2) dss 1(1) len show ?case by auto
qed simp

text \<open>The order in which the chunks come out of the buckets.\<close>

definition page_order :: "env \<Rightarrow> nat \<Rightarrow> DataPair list \<Rightarrow> DataPair list" where
  "page_order E np ls = concat (map (\<lambda>i. filter (on_page E i) ls) [0..<np])"

text \<open>Pages that nobody uses, as \<open>initializePageObjects\<close> makes them and as a former run leaves them.\<close>

definition quiet_pages :: "env \<Rightarrow> pageObject list \<Rightarrow> bool" where
  "quiet_pages E ps \<longleftrightarrow> (\<forall>i < length ps. \<not> pg_lock (ps ! i) \<and> pg_num_using (ps ! i) = 0 \<and> \<not> pg_is_mapped (ps ! i) \<and>
     pg_map_size (ps ! i) = 0 \<and> pg_start_a (ps ! i) = gran E * int i \<and> total_num_mappings (ps ! i) = 0)"

lemma fresh_quiet: "quiet_pages E (map (fresh_page E) [0..<n])"
  by (simp add: quiet_pages_def fresh_page_def)

lemma empty_rep: "lq_rep (lq_init fr) [] []"
  by (simp add: lq_rep_def)

lemma tree_state_start:
  assumes "page_objects g = Some ps" "quiet_pages E ps" "data_page_buckets g = Some (replicate (length ps) (lq_init False))"
  shows "tree_state E ps [] g"
  using assms empty_rep by (auto simp: tree_state_def quiet_pages_def reach_def u32_def intro!: exI [of _ ps])

lemma page_order_count:
  assumes "\<forall>dp \<in> set ls. \<exists>k < np. on_page E k dp" "i < np"
  shows "filter (on_page E i) (page_order E np ls) = filter (on_page E i) ls"
proof -
  have one: "on_page E i dp \<Longrightarrow> on_page E j dp \<Longrightarrow> i = j" for i j dp by (simp add: on_page_def)
  have "filter (on_page E i) (filter (on_page E j) ls) = (if j = i then filter (on_page E i) ls else [])" for j
    using one by (auto simp: filter_empty_conv)
  then have e: "map (\<lambda>j. filter (on_page E i) (filter (on_page E j) ls)) [0..<np] =
      map (\<lambda>j. if j = i then filter (on_page E i) ls else []) [0..<np]" by (simp only:)
  have "concat (map (\<lambda>j. if j = i then xs else []) [0..<n]) = (if i < n then xs else [])" for n and xs :: "DataPair list"
    by (induction n) auto
  from this [of "filter (on_page E i) ls" np] show ?thesis
    using assms(2) unfolding page_order_def filter_concat map_map comp_def e by simp
qed

lemma page_order_set:
  assumes "\<forall>dp \<in> set ls. \<exists>k < np. on_page E k dp"
  shows "set (page_order E np ls) = set ls"
  using assms by (fastforce simp: page_order_def)

lemma idle_after_tree:
  assumes ts: "tree_state E ps0 ls g" and q: "quiet_pages E ps0" and np: "length ps0 = jb_np J"
    and pairs: "jb_pairs J = page_order E (jb_np J) ls"
    and mx: "\<And>i. i < jb_np J \<Longrightarrow> jb_max J i = reach E i ls (max_map_size (ps0 ! i))" and small: "length ls < 2 ^ 31"
  shows "\<exists>ps. page_objects g = Some ps \<and> length ps = jb_np J \<and> (\<forall>i < jb_np J. idle_page E J i (ps ! i))"
proof -
  obtain ps where ps: "page_objects g = Some ps" "length ps = length ps0"
    "\<And>i. i < length ps0 \<Longrightarrow> ps ! i = (ps0 ! i)\<lparr>total_num_mappings := u32 (total_num_mappings (ps0 ! i) + int (length (filter (on_page E i) ls))),
          max_map_size := reach E i ls (max_map_size (ps0 ! i))\<rparr>"
    using ts unfolding tree_state_def by blast
  have on: "\<forall>dp \<in> set ls. \<exists>k < jb_np J. on_page E k dp" using ts by (simp add: tree_state_def np)
  have "idle_page E J i (ps ! i)" if i: "i < jb_np J" for i
  proof -
    have pg: "pg E dp = i \<longleftrightarrow> on_page E i dp" if "dp \<in> set (jb_pairs J)" for dp
      using that on page_order_set [OF on] pairs by (auto simp: pg_def on_page_def)
    have "cnt (\<lambda>dp. pg E dp = i) (jb_pairs J) = int (length (filter (on_page E i) (jb_pairs J)))"
    proof -
      have "filter (\<lambda>dp. pg E dp = i) (jb_pairs J) = filter (on_page E i) (jb_pairs J)" by (rule filter_cong) (simp_all add: pg)
      then show ?thesis by (simp add: cnt_def)
    qed
    also have "\<dots> = int (length (filter (on_page E i) ls))" unfolding pairs page_order_count [OF on i] ..
    finally have c: "cnt (\<lambda>dp. pg E dp = i) (jb_pairs J) = int (length (filter (on_page E i) ls))" .
    have "length (filter (on_page E i) ls) < 2 ^ 31" using small le_less_trans [OF length_filter_le] by blast
    then have "u32 (int (length (filter (on_page E i) ls))) = int (length (filter (on_page E i) ls))" by (simp add: u32_def)
    then show ?thesis
      using ps(3) [of i] q i np mx [OF i] c by (simp add: idle_page_def quiet_pages_def)
  qed
  then show ?thesis using ps(1,2) np by auto
qed

section \<open>Reading the tree\<close>

lemma build_tree_total:
  assumes env: "env_ok E" "8 \<le> gran E" "sys_ok E" and so: "0 < size_of_offsets (s_block g)" "size_of_offsets (s_block g) < 256"
    and nav: "nav_state E b g" "nav_room g" "0 \<le> b" "b + int depth < 2 ^ 32 - 2"
    and d: "slook (objs g) oi = Inr d" "0 \<le> num_chunked_dims (chunked_info d)" "num_chunked_dims (chunked_info d) < 256"
    and L: "leaves_at E (s_block g) depth (num_chunked_dims (chunked_info d)) (data_address d) = Inr (rw, ls)" "pages_of E ps0 ls"
    and ps: "page_objects g = Some ps0" "quiet_pages E ps0" "length ps0 = nat (g_num_pages g)"
    and q: "mt_data_queue g = Some q0" "lq_rep q0 [] []"
  shows "\<exists>g' h. build_tree E depth oi g = (Inr (), g') \<and> tree_state E ps0 ls h \<and> page_objects g' = page_objects h \<and>
    objs g' = objs g \<and> is_super_mapped g' = is_super_mapped g \<and> use_threads g' = use_threads g \<and>
    (\<exists>q. mt_data_queue g' = Some q \<and> lq_rep q [] (page_order E (length ps0) ls))"
proof -
  let ?n = "num_chunked_dims (chunked_info d)" and ?node = "\<lparr>node_address = data_address d, node_type = NODETYPE_ROOT, entries_used = 0\<rparr>"
    and ?g = "g\<lparr>data_page_buckets := Some (replicate (length ps0) (lq_init False))\<rparr>"
  have same: "s_block ?g = s_block g" "page_objects ?g = Some ps0" "nav_room ?g" using nav(2) by (simp_all add: ps nav_room_def)
  have nav': "nav_state E b ?g" using nav(1) by (simp add: nav_state_def map_inv_def mapped_total_def used_def)
  have ts: "tree_state E ps0 [] ?g" by (rule tree_state_start [OF same(2) ps(2)]) simp
  obtain node' h where F: "fillNode E depth ?n ?node ?g = (Inr node', h)"
    using node_go [OF env so d(2,3) nav(3,4), unfolded node_goes_def, rule_format, OF nav' same(3,1) ts _ _ L(2), of ?node rw] L(1)
    by auto
  have "added E b ps0 [] ls ?g h"
    using node_run [OF env(1) so d(2,3) nav(3,4), unfolded node_adds_def, rule_format, OF nav' same(1) ts _ _ F, of rw ls] L(1) by simp
  then have h: "tree_state E ps0 ls h" "inner h = inner ?g" by (simp_all add: added_def)
  then have h': "objs h = objs g" "is_super_mapped h = is_super_mapped g" "num_threads_user_def h = num_threads_user_def g"
    "num_avail_threads h = num_avail_threads g" "mt_data_queue h = Some q0"
    using q(1) unfolding inner_def outer_def by (cases h, cases g, simp)+
  obtain bs where bs: "data_page_buckets h = Some bs" "length bs = length ps0"
    "\<forall>i < length ps0. lq_rep (bs ! i) [] (filter (on_page E i) ls)"
    using h(1) unfolding tree_state_def by blast
  obtain q' bs' where m: "lq_merge q0 bs = Inr (q', bs')" "lq_rep q' [] (page_order E (length ps0) ls)"
    using merge_rep [OF q(2), of bs "map (\<lambda>i. filter (on_page E i) ls) [0..<length ps0]"] bs(2,3)
    by (auto simp: page_order_def)
  have "build_tree E depth oi g = (Inr (), h\<lparr>mt_data_queue := Some q', data_page_buckets := None\<rparr>)"
    unfolding build_tree_def andthen_def get_obj_def gets_def guard_def modify_def
    using d(1) ps(3) F h'(5) bs(1) m(1) env(3) by (simp add: nn_def lift_res_def sys_ok_def)
  then show ?thesis using h(1) h' m(2) by (auto simp: use_threads_def intro!: exI [of _ h])
qed

section \<open>getChunkedData\<close>

text \<open>What the program has when it comes to a chunked dataset: the object, with space for its data, and the pages.\<close>

definition chunked_start :: "env \<Rightarrow> job \<Rightarrow> nat \<Rightarrow> nat \<Rightarrow> DataPair list \<Rightarrow> pageObject list \<Rightarrow> gstate \<Rightarrow> bool" where
  "chunked_start E J depth oi ls ps0 g \<longleftrightarrow>
     env_ok E \<and> 8 \<le> gran E \<and> sys_ok E \<and> nav_state E 255 g \<and> nav_room g \<and> depth < 2 ^ 31 \<and>
     0 < size_of_offsets (s_block g) \<and> size_of_offsets (s_block g) < 256 \<and>
     \<not> is_super_mapped g \<and> slook (objs g) oi = Inr (set_darr (jb_obj J) (Some (jb_data J))) \<and>
     multithreaded g (jb_obj J) \<and> num_chunked_dims (chunked_info (jb_obj J)) \<in> {0..255} \<and>
     (\<exists>rw. leaves_at E (s_block g) depth (num_chunked_dims (chunked_info (jb_obj J))) (data_address (jb_obj J)) = Inr (rw, ls)) \<and>
     length ls < 2 ^ 31 \<and> pages_of E ps0 ls \<and>
     (case page_objects g of Some ps \<Rightarrow> ps = ps0 | None \<Rightarrow> ps0 = map (fresh_page E) [0..<nat (g_num_pages g)]) \<and>
     quiet_pages E ps0 \<and> length ps0 = nat (g_num_pages g) \<and>
     jb_n J = use_threads g \<and> jb_np J = length ps0 \<and> jb_pairs J = page_order E (length ps0) ls \<and>
     (\<forall>i < length ps0. jb_max J i = reach E i ls (max_map_size (ps0 ! i)))"

lemma set_darr_more [simp]:
  "data_address (set_darr d a) = data_address d" "multithreaded g (set_darr d a) = multithreaded g d"
  by (simp_all add: set_darr_def multithreaded_def)

lemma getChunkedData_run:
  assumes job: "job_ok E dec J" and st: "chunked_start E J depth oi ls ps0 g"
    and fair: "\<forall>r \<in> set rounds. fair_round (jb_n J) r" and long: "20 * jb_n J + 32 * length (jb_pairs J) + 4 \<le> length rounds"
  shows "\<exists>g' a. getChunkedData E dec depth (concat rounds) oi g = (Inr (), g') \<and>
    slook (objs g') oi = Inr (set_darr (jb_obj J) (Some a)) \<and> (\<forall>dp \<in> set (jb_pairs J). right J dp a)"
proof -
  let ?d = "set_darr (jb_obj J) (Some (jb_data J))"
  let ?g = "g\<lparr>page_objects := Some ps0, mt_data_queue := Some (lq_init True),
         data_buffers := Some (lq_init True), libdeflate_decomps := Some (lq_init True)\<rparr>"
  note S = st [unfolded chunked_start_def]
  have sys: "malloc_ok E n" for n using S by (simp add: sys_ok_def)
  have nav: "nav_state E 255 ?g" "nav_room ?g" using S by (simp_all add: nav_state_def map_inv_def mapped_total_def used_def nav_room_def)
  obtain rw where L: "leaves_at E (s_block ?g) depth (num_chunked_dims (chunked_info ?d)) (data_address ?d) = Inr (rw, ls)"
    using S by auto
  have pre: "env_ok E" "8 \<le> gran E" "sys_ok E" "0 < size_of_offsets (s_block ?g)" "size_of_offsets (s_block ?g) < 256"
    "slook (objs ?g) oi = Inr ?d" "0 \<le> num_chunked_dims (chunked_info ?d)" "num_chunked_dims (chunked_info ?d) < 256"
    "page_objects ?g = Some ps0" "quiet_pages E ps0" "length ps0 = nat (g_num_pages ?g)" "mt_data_queue ?g = Some (lq_init True)"
    "255 + int depth < 2 ^ 32 - 2" "pages_of E ps0 ls"
    using S by simp_all
  obtain g2 h where g2: "build_tree E depth oi ?g = (Inr (), g2)" "tree_state E ps0 ls h" "page_objects g2 = page_objects h"
    "objs g2 = objs ?g" "is_super_mapped g2 = is_super_mapped ?g" "use_threads g2 = use_threads ?g"
    "\<exists>q. mt_data_queue g2 = Some q \<and> lq_rep q [] (page_order E (length ps0) ls)"
    using build_tree_total [OF pre(1-5) nav _ pre(13) pre(6-8) L pre(14,9-12) empty_rep] by fastforce
  have n: "use_threads g = jb_n J" "use_threads ?g = jb_n J" using S by (simp_all add: use_threads_def)
  have "\<exists>ps. page_objects g2 = Some ps \<and> length ps = jb_np J \<and> (\<forall>i < jb_np J. idle_page E J i (ps ! i))"
    unfolding g2(3) by (rule idle_after_tree [OF g2(2)]) (use S in auto)
  then have "job_state E J oi g2" using g2(4,5,7) S by (simp add: job_state_def)
  from threads_finish [OF job this fair long]
  obtain c a where c: "pool_run E dec oi (concat rounds) (new_pool (jb_n J) g2) = Inr c" "pool_done c" "main_ret c = 0"
    "slook (objs (sh (shared c))) oi = Inr (set_darr (jb_obj J) (Some a))" "\<forall>dp \<in> set (jb_pairs J). right J dp a" by blast
  have init: "ignore (initializePageObjects E) g = (Inr (), g\<lparr>page_objects := Some ps0\<rparr>)"
    using S sys by (auto simp: ignore_def initializePageObjects_def andthen_def gets_def guard_def modify_def ret_def split: option.splits)
  have mt: "multithreaded ?g ?d" using S by (simp add: multithreaded_def)
  have q0: "mt_queue_of E = Some (lq_init True)" using sys by (simp add: mt_queue_of_def)
  have "run_threads E dec (concat rounds) oi g2 = (Inr (0, thr_id (shared c)), sh (shared c))"
    using c(1-3) g2(6) n by (simp add: run_threads_def)
  then have "getChunkedData E dec depth (concat rounds) oi g =
      (Inr (), (sh (shared c))\<lparr>data_buffers := None, libdeflate_decomps := None, mt_data_queue := None\<rparr>)"
    unfolding getChunkedData_def andthen_def modify_def get_obj_def gets_def guard_def
    using init pre(6) g2(1) sys n mt by (simp add: ret_def q0)
  then show ?thesis using c(4,5) by auto
qed

section \<open>A tree of two chunks\<close>

text \<open>The node of the tree is at 0 and has two keys, at 24 and 56; the chunks are at 112 and 128.\<close>

definition tree_file :: "byte list" where
  "tree_file = [84, 82, 69, 69, 1, 0, 2, 0] @ replicate 16 255 @
     [2, 0, 0, 0] @ replicate 20 0 @ [112] @ replicate 7 0 @
     [2, 0, 0, 0] @ replicate 4 0 @ [160, 134, 1] @ replicate 13 0 @ [128] @ replicate 7 0 @
     replicate 24 0 @ [7, 1] @ replicate 14 0 @ [9, 2] @ replicate 14 0"

definition tree_pair :: "int \<Rightarrow> int \<Rightarrow> DataPair" where
  "tree_pair a st = \<lparr>dp_address = a, dp_chunk_size = 2, dp_chunk_start = [st, 0]\<rparr>"

definition tree_start :: gstate where
  "tree_start = demo_state\<lparr>num_threads_user_def := 2, g_num_pages := 9,
     page_objects := Some (map (fresh_page (demo_env tree_file)) [0..<9]),
     data_page_buckets := Some (replicate 9 (lq_init False))\<rparr>"

lemma tree_len: "length tree_file = 144"
  by (simp add: tree_file_def)

lemma tree_leaves:
  "leaves_at (demo_env tree_file) (s_block demo_state) 2 1 0 = Inr (False, [tree_pair 112 0, tree_pair 128 100000])"
  by code_simp

lemma tree_env: "env_ok (demo_env tree_file)" "sys_ok (demo_env tree_file)"
  by (simp_all add: env_ok_def sys_ok_def tree_len)

lemma tree_nav: "0 \<le> b \<Longrightarrow> maps g = maps demo_state \<Longrightarrow> map_objects g = map_objects demo_state \<Longrightarrow>
    curr_mmap_usage g = curr_mmap_usage demo_state \<Longrightarrow> nav_state (demo_env bs) b g"
  by (simp add: nav_state_def map_inv_def mq_ok_def live_def demo_state_def initialize_def lq_init_def
      pos_in_def slook_def mapped_total_def u64_def used_def)

lemma tree_room: "map_objects g = map_objects demo_state \<Longrightarrow> max_num_map_objs g = max_num_map_objs demo_state \<Longrightarrow> nav_room g"
  by (simp add: nav_room_def demo_state_def initialize_def room_def drift_def ahead_def lq_init_def)

lemma tree_pages: "page_of (demo_env bs) (dp_address (tree_pair 112 x)) = 7" "page_of (demo_env bs) (dp_address (tree_pair 128 x)) = 8"
  by (simp_all add: page_of_def tree_pair_def u64_def)

lemma tree_pages_of: "length ps0 = 9 \<Longrightarrow> pages_of (demo_env bs) ps0 [tree_pair 112 0, tree_pair 128 100000]"
  by (auto simp: pages_of_def on_page_def tree_pages intro: exI [of _ 7] exI [of _ 8])

text \<open>An array of 200000 bytes in two chunks, which the decompressor fills with their first byte.\<close>

definition zeros :: "nat \<Rightarrow> byte list" where
  "zeros n = map (\<lambda>_. 0) [0..<n]"

lemma zeros_len [simp]: "length (zeros n) = n" by (simp add: zeros_def)

definition fill_dec :: inflater where
  "fill_dec bs buf = (0, map (\<lambda>_. hd bs) buf)"

definition tree_vector :: Data where
  "tree_vector = (blank_object (lq_init False))\<lparr>matlab_internal_type := mxUINT8_CLASS,
     dims := Some [200000, 0], num_dims := 1, num_elems := 200000, elem_size := 1, data_address := 0,
     chunked_info := \<lparr>num_filters = 0, filters = None, num_chunked_dims = 1, num_chunked_elems = 100000,
       chunked_dims = Some [100000, 0], chunk_update = Some [100000, 0]\<rparr>\<rparr>"

definition tree_job :: job where
  "tree_job = \<lparr>jb_es = 1, jb_D = [200000], jb_C = [100000], jb_pairs = [tree_pair 112 0, tree_pair 128 100000], jb_obj = tree_vector,
     jb_data = zeros 200000, jb_plain = (\<lambda>dp. map (\<lambda>_. hd (raw (demo_env tree_file) dp)) (zeros 100000)),
     jb_max = (\<lambda>i. if i = 7 \<or> i = 8 then 2 else 0), jb_np = 9, jb_n = 2\<rparr>"

definition tree_program :: gstate where
  "tree_program = demo_state\<lparr>num_threads_user_def := 2, g_num_pages := 9,
     objs := [Some (set_darr tree_vector (Some (zeros 200000)))]\<rparr>"

lemma tree_cells: "i \<in> cells tree_job (tree_pair a st) \<Longrightarrow> st \<le> int i \<and> int i < st + 100000"
proof -
  assume "i \<in> cells tree_job (tree_pair a st)"
  then obtain p where p: "digits p [min 100000 (200000 - st)]" "int i = val (map2 (+) [st] p) [200000]"
    by (auto simp: cells_def box_of_def box_dims_def start_of_def tree_job_def tree_pair_def)
  then obtain x where "p = [x]" "0 \<le> x" "x < 100000" by (cases p; cases "tl p") auto
  with p show ?thesis by auto
qed

lemma tree_chunk_ok:
  "0 \<le> st \<Longrightarrow> st < 200000 \<Longrightarrow> chunk_ok (demo_env tree_file) tree_vector 1 [200000] [100000] [st]"
  by (simp add: chunk_ok_def obj_ok_def tree_vector_def blank_object_def plain_class_def i64_def)

lemma tree_job_ok: "job_ok (demo_env tree_file) fill_dec tree_job"
proof -
  have size: "buf_size tree_job = 100000" by (simp add: buf_size_def tree_job_def)
  have "\<forall>buf. length buf = buf_size tree_job \<longrightarrow> fill_dec (raw (demo_env tree_file) dp) buf = (0, jb_plain tree_job dp)" for dp
    unfolding size unfolding tree_job_def fill_dec_def job.simps by (intro allI impI) (simp only: map_replicate_const zeros_len)
  moreover have "length (jb_plain tree_job dp) = buf_size tree_job" for dp unfolding size by (simp add: tree_job_def)
  moreover have "chunk_ok (demo_env tree_file) (jb_obj tree_job) (jb_es tree_job) (jb_D tree_job) (jb_C tree_job) (start_of tree_job (tree_pair a st))"
    if "0 \<le> st" "st < 200000" for a st
    using tree_chunk_ok [OF that] by (simp add: start_of_def tree_pair_def) (simp add: tree_job_def)
  ultimately have "pair_ok (demo_env tree_file) fill_dec tree_job dp" if "dp \<in> {tree_pair 112 0, tree_pair 128 100000}" for dp
    using that tree_len tree_pages unfolding pair_ok_def
    by (elim insertE emptyE) (simp_all add: pg_def, simp_all add: tree_pair_def tree_job_def)
  moreover have "cells tree_job (tree_pair 112 0) \<inter> cells tree_job (tree_pair 128 100000) = {}"
    by (auto dest!: tree_cells)
  moreover have "tree_pair 112 0 \<noteq> tree_pair 128 100000" by (simp add: tree_pair_def)
  ultimately show ?thesis
    unfolding job_ok_def
    using size tree_len by (auto simp: tree_job_def)
qed

lemma tree_program_ok:
  "chunked_start (demo_env tree_file) tree_job 2 0 [tree_pair 112 0, tree_pair 128 100000]
     (map (fresh_page (demo_env tree_file)) [0..<9]) tree_program"
proof -
  let ?ls = "[tree_pair 112 0, tree_pair 128 100000]" and ?ps = "map (fresh_page (demo_env tree_file)) [0..<9]"
  have nav: "nav_state (demo_env tree_file) 255 tree_program" "nav_room tree_program"
    by (intro tree_nav tree_room; simp add: tree_program_def)+
  have sb: "s_block tree_program = s_block demo_state" by (simp add: tree_program_def)
  have on: "on_page (demo_env tree_file) i (tree_pair 112 0) \<longleftrightarrow> i = 7" "on_page (demo_env tree_file) i (tree_pair 128 100000) \<longleftrightarrow> i = 8" for i
    by (auto simp: on_page_def tree_pages)
  have order: "page_order (demo_env tree_file) (length ?ps) ?ls = ?ls"
    by (simp add: page_order_def on upt_rec)
  have mx: "reach (demo_env tree_file) i ?ls (max_map_size (?ps ! i)) = jb_max tree_job i" if "i < 9" for i
    using that by (simp add: reach_def on fresh_page_def tree_job_def) (simp add: tree_pair_def u64_def)
  have par: "multithreaded tree_program tree_vector" "use_threads tree_program = 2" "\<not> is_super_mapped tree_program"
    "page_objects tree_program = None" "g_num_pages tree_program = 9" "objs tree_program = [Some (set_darr tree_vector (Some (zeros 200000)))]"
    by (simp_all add: multithreaded_def use_threads_def tree_program_def tree_vector_def demo_state_def initialize_def)
  have so: "size_of_offsets (s_block tree_program) = 8" by (simp add: sb demo_state_def initialize_def)
  have job: "jb_obj tree_job = tree_vector" "jb_data tree_job = zeros 200000" "jb_n tree_job = 2" "jb_np tree_job = 9"
    "jb_pairs tree_job = ?ls" "num_chunked_dims (chunked_info tree_vector) = 1" "data_address tree_vector = 0"
    by (simp_all add: tree_job_def tree_vector_def)
  show ?thesis
    unfolding chunked_start_def job sb tree_leaves
    using tree_env nav par so order mx fresh_quiet [of "demo_env tree_file" 9] tree_pages_of [of ?ps] sb
    by (simp add: slook_def) (rule exI [of _ False], simp)
qed

section \<open>Properties\<close>

text \<open>C8. Where the file holds a chunk tree, \<open>fillNode\<close> returns, whatever mappings it has to reuse, evict and clean on the
  way: each page then knows how many chunks start there and how far they reach, its bucket holds exactly these chunks in the
  order of the tree, and every mapping that was taken has been given back.\<close>

theorem fillNode_reads_tree:
  assumes "env_ok E" "8 \<le> gran E" "sys_ok E" "0 < size_of_offsets (s_block g)" "size_of_offsets (s_block g) < 256" "0 \<le> n" "n < 256"
    "0 \<le> b" "b + int fuel < 2 ^ 32 - 2" "nav_state E b g" "nav_room g" "tree_state E ps0 [] g" "node_type node \<noteq> RAWDATA"
    "leaves_at E (s_block g) fuel n (node_address node) = Inr (rw, ls)" "pages_of E ps0 ls"
  shows "\<exists>node' g'. fillNode E fuel n node g = (Inr node', g') \<and> tree_state E ps0 ls g' \<and> nav_room g' \<and> calm E b g g' \<and>
    (node_type node' = RAWDATA \<longleftrightarrow> rw)"
proof -
  obtain node' g' where F: "fillNode E fuel n node g = (Inr node', g')" "nav_room g'"
    using node_go [of E _ n b fuel ps0, unfolded node_goes_def] assms by metis
  have "added E b ps0 [] ls g g' \<and> (node_type node' = RAWDATA \<longleftrightarrow> rw)"
    using node_run [of E _ n b fuel ps0, unfolded node_adds_def] assms F(1) by metis
  then show ?thesis using F by (auto simp: added_def)
qed

lemma fillNode_reads_tree_witness:
  "\<exists>node' g'. fillNode (demo_env tree_file) 2 1 \<lparr>node_address = 0, node_type = NODETYPE_ROOT, entries_used = 0\<rparr> tree_start = (Inr node', g') \<and>
     tree_state (demo_env tree_file) (map (fresh_page (demo_env tree_file)) [0..<9]) [tree_pair 112 0, tree_pair 128 100000] g'"
proof -
  let ?E = "demo_env tree_file" and ?ps = "map (fresh_page (demo_env tree_file)) [0..<9]"
  have "nav_state ?E 0 tree_start" "nav_room tree_start" by (intro tree_nav tree_room; simp add: tree_start_def)+
  moreover have "tree_state ?E ?ps [] tree_start" by (rule tree_state_start) (simp_all add: tree_start_def fresh_quiet)
  moreover have "s_block tree_start = s_block demo_state" "size_of_offsets (s_block demo_state) = 8"
    by (simp_all add: tree_start_def demo_state_def initialize_def)
  ultimately show ?thesis
    using fillNode_reads_tree [of ?E tree_start 1 0 2 ?ps "\<lparr>node_address = 0, node_type = NODETYPE_ROOT, entries_used = 0\<rparr>" False
        "[tree_pair 112 0, tree_pair 128 100000]"] tree_env tree_leaves tree_pages_of [of ?ps]
    by (simp del: fillNode.simps) blast
qed

text \<open>C7. A chunked dataset is read: \<open>getChunkedData\<close> walks the tree of the file, hands the chunks to the threads and, for
  every schedule in which all threads have their turns, returns without an error with every element of every chunk at its place
  in the array of the object.\<close>

theorem getChunkedData_correct:
  assumes "job_ok E dec J" "chunked_start E J depth oi ls ps0 g" "\<forall>r \<in> set rounds. fair_round (jb_n J) r"
    "20 * jb_n J + 32 * length (jb_pairs J) + 4 \<le> length rounds"
  shows "\<exists>g' a. getChunkedData E dec depth (concat rounds) oi g = (Inr (), g') \<and>
    slook (objs g') oi = Inr (set_darr (jb_obj J) (Some a)) \<and> (\<forall>dp \<in> set (jb_pairs J). right J dp a)"
  using getChunkedData_run [OF assms] .

lemma getChunkedData_correct_witness:
  "\<exists>g' a. getChunkedData (demo_env tree_file) fill_dec 2 (concat (replicate 108 [Worker 1, Main, Worker 0])) 0 tree_program = (Inr (), g') \<and>
     slook (objs g') 0 = Inr (set_darr tree_vector (Some a)) \<and> (\<forall>dp \<in> {tree_pair 112 0, tree_pair 128 100000}. right tree_job dp a)"
proof -
  let ?r = "replicate 108 [Worker 1, Main, Worker 0]"
  have j: "jb_n tree_job = 2" "jb_pairs tree_job = [tree_pair 112 0, tree_pair 128 100000]" "jb_obj tree_job = tree_vector"
    by (simp_all add: tree_job_def)
  have "\<forall>r \<in> set ?r. fair_round (jb_n tree_job) r"
    by (auto simp: j fair_round_def less_Suc_eq numeral_2_eq_2 simp del: replicate.simps)
  moreover have "20 * jb_n tree_job + 32 * length (jb_pairs tree_job) + 4 \<le> length ?r" by (simp add: j)
  ultimately show ?thesis
    using getChunkedData_correct [OF tree_job_ok tree_program_ok, of ?r] unfolding j by simp
qed

end
