(* ===== verification/Cleanup.thy ===== *)
theory Cleanup
  imports PageObjects
begin

text \<open>
  \<^verbatim>\<open>src/src/cleanup.c\<close>: what is freed, and when. The objects and the tokens of a variable name
  live in stores, and \<open>free\<close> makes their entry \<^const>\<open>None\<close>, so that a second \<open>free\<close> is a
  \<^const>\<open>Fault\<close>; which of the blocks that belong to an object are freed with it is written out as
  a list. Every queue that holds objects has one operation that applies a queue operation to it.
\<close>

section \<open>The queues\<close>

definition sub_op :: "nat \<Rightarrow> (nat lqueue \<Rightarrow> ('a \<times> nat lqueue) res) \<Rightarrow> ('a, gstate) act" where
  "sub_op i f =
     andthen (get_obj i) (\<lambda>d.
     andthen (nn (sub_objects d)) (\<lambda>q.
     andthen (lift_res (f q)) (\<lambda>(x, q).
     andthen (put_obj i (d\<lparr>sub_objects := Some q\<rparr>)) (\<lambda>_. ret x))))"

definition queue_op :: "(gstate \<Rightarrow> nat lqueue option) \<Rightarrow> (nat lqueue \<Rightarrow> gstate \<Rightarrow> gstate) \<Rightarrow>
    (nat lqueue \<Rightarrow> ('a \<times> nat lqueue) res) \<Rightarrow> ('a, gstate) act" where
  "queue_op look upd f =
     andthen (gets look) (\<lambda>o_q.
     andthen (nn o_q) (\<lambda>q.
     andthen (lift_res (f q)) (\<lambda>(x, q).
     andthen (modify (upd q)) (\<lambda>_. ret x))))"

definition oq_op :: "(nat lqueue \<Rightarrow> ('a \<times> nat lqueue) res) \<Rightarrow> ('a, gstate) act" where
  "oq_op = queue_op object_queue (\<lambda>q g. g\<lparr>object_queue := Some q\<rparr>)"

definition tq_op :: "(nat lqueue \<Rightarrow> ('a \<times> nat lqueue) res) \<Rightarrow> ('a, gstate) act" where
  "tq_op = queue_op top_level_objects (\<lambda>q g. g\<lparr>top_level_objects := Some q\<rparr>)"

definition vq_op :: "(nat lqueue \<Rightarrow> ('a \<times> nat lqueue) res) \<Rightarrow> ('a, gstate) act" where
  "vq_op = queue_op varname_queue (\<lambda>q g. g\<lparr>varname_queue := Some q\<rparr>)"

text \<open>The operations as \<open>f\<close>; one that gives NULL where the code uses the result is a fault.\<close>

definition put_back :: "nat \<Rightarrow> nat lqueue \<Rightarrow> (unit \<times> nat lqueue) res" where
  "put_back x q = bnd (lq_enqueue q x) (\<lambda>q. Inr ((), q))"

definition some_or_fault :: "(nat lqueue \<Rightarrow> (nat option \<times> nat lqueue) res) \<Rightarrow> nat lqueue \<Rightarrow> (nat \<times> nat lqueue) res" where
  "some_or_fault f q = bnd (f q) (\<lambda>(x, q). case x of None \<Rightarrow> Inl Fault | Some x \<Rightarrow> Inr (x, q))"

definition quiet :: "(nat lqueue \<Rightarrow> nat lqueue) \<Rightarrow> nat lqueue \<Rightarrow> (unit \<times> nat lqueue) res" where
  "quiet f q = Inr ((), f q)"

definition peek :: "(nat lqueue \<Rightarrow> 'a) \<Rightarrow> nat lqueue \<Rightarrow> ('a \<times> nat lqueue) res" where
  "peek f q = Inr (f q, q)"

section \<open>Tokens\<close>

definition freeVarname :: "nat \<Rightarrow> (unit, gstate) act" where
  "freeVarname i g = (case slook (tokens g) i of Inl e \<Rightarrow> (Inl e, g) | Inr t \<Rightarrow> (Inr (), g\<lparr>tokens := (tokens g)[i := None]\<rparr>))"

section \<open>Objects\<close>

text \<open>The blocks of memory an object has.\<close>

datatype block = BData | BShortName | BLongName | BOffsets | BClient nat | BFilters | BDims | BChunkedDims
  | BUpdate | BClass | BSubObjects | BObject

definition present :: "'a option \<Rightarrow> block \<Rightarrow> block list" where
  "present x b = (case x of None \<Rightarrow> [] | Some _ \<Rightarrow> [b])"

definition client_blocks :: "ChunkedInfo \<Rightarrow> block list res" where
  "client_blocks c =
     (case filters c of None \<Rightarrow> Inr []
      | Some fs \<Rightarrow> if num_filters c \<le> int (length fs) then Inr (map BClient [0..<nat (num_filters c)] @ [BFilters])
                  else Inl Fault)"

definition freed_blocks :: "Data \<Rightarrow> block list res" where
  "freed_blocks d =
     bnd (client_blocks (chunked_info d)) (\<lambda>fs.
       Inr ((if is_mx_used (data_flags d) then [] else present (darr (data_arrays d)) BData) @
         (if short_name_length (names d) \<noteq> 0 then present (short_name (names d)) BShortName else []) @
         (if long_name_length (names d) \<noteq> 0 then present (long_name (names d)) BLongName else []) @
         present (sub_object_header_offsets (data_arrays d)) BOffsets @ fs @
         present (dims d) BDims @
         present (chunked_dims (chunked_info d)) BChunkedDims @
         present (chunk_update (chunked_info d)) BUpdate @
         present (matlab_class d) BClass @ present (sub_objects d) BSubObjects @ [BObject]))"

definition freeDataObject :: "nat \<Rightarrow> (block list, gstate) act" where
  "freeDataObject i =
     andthen (get_obj i) (\<lambda>d.
     andthen (lift_res (freed_blocks d)) (\<lambda>bs.
     andthen (modify (\<lambda>g. g\<lparr>objs := (objs g)[i := None]\<rparr>)) (\<lambda>_. ret bs)))"

text \<open>
  \<open>freeDataObjectTree\<close> frees the names without a look at the pointers, the filters' data but not the
  filters, and none of the dimensions, the update table and the class name.
\<close>

definition tree_blocks :: "Data \<Rightarrow> block list res" where
  "tree_blocks d =
     (let c = chunked_info d in
      if 0 < num_filters c \<and> (case filters c of None \<Rightarrow> True | Some fs \<Rightarrow> int (length fs) < num_filters c) then Inl Fault
      else Inr ((if is_mx_used (data_flags d) then [] else present (darr (data_arrays d)) BData) @
         (if short_name_length (names d) \<noteq> 0 then present (short_name (names d)) BShortName else []) @
         (if long_name_length (names d) \<noteq> 0 then present (long_name (names d)) BLongName else []) @
         present (sub_object_header_offsets (data_arrays d)) BOffsets @ map BClient [0..<nat (num_filters c)]))"

fun freeDataObjectTree :: "nat \<Rightarrow> nat \<Rightarrow> ((nat \<times> block) list, gstate) act"
and free_sub_objects :: "nat \<Rightarrow> nat \<Rightarrow> nat \<Rightarrow> ((nat \<times> block) list, gstate) act" where
  "freeDataObjectTree 0 i = fail OutOfFuel"
| "freeDataObjectTree (Suc fuel) i =
     andthen (get_obj i) (\<lambda>d.
     andthen (lift_res (tree_blocks d)) (\<lambda>bs.
     andthen (case sub_objects d of None \<Rightarrow> ret []
              | Some _ \<Rightarrow> andthen (free_sub_objects fuel i (nat (num_sub_objs d))) (\<lambda>fs. ret (fs @ [(i, BSubObjects)]))) (\<lambda>fs.
     andthen (modify (\<lambda>g. g\<lparr>objs := (objs g)[i := None]\<rparr>)) (\<lambda>_.
       ret (map (Pair i) bs @ fs @ [(i, BObject)])))))"
| "free_sub_objects fuel i 0 = ret []"
| "free_sub_objects fuel i (Suc n) =
     andthen (sub_op i (some_or_fault lq_dequeue)) (\<lambda>j.
     andthen (freeDataObjectTree fuel j) (\<lambda>fs.
     andthen (free_sub_objects fuel i n) (\<lambda>fs'. ret (fs @ fs'))))"

section \<open>endHooks\<close>

fun free_each :: "(nat \<Rightarrow> (unit, gstate) act) \<Rightarrow> nat list \<Rightarrow> (unit, gstate) act" where
  "free_each f [] = ret ()"
| "free_each f (x # xs) = andthen (f x) (\<lambda>_. free_each f xs)"

definition free_queue :: "(gstate \<Rightarrow> nat lqueue option) \<Rightarrow> (nat \<Rightarrow> (unit, gstate) act) \<Rightarrow> (unit, gstate) act" where
  "free_queue look f =
     andthen (gets look) (\<lambda>o_q. case o_q of None \<Rightarrow> ret () | Some q \<Rightarrow> free_each f (fst (lq_flush q)))"

text \<open>The buffers and the chunks still in the queues of the threads are memory nobody else points to.\<close>

definition endHooks :: "env \<Rightarrow> (unit, gstate) act" where
  "endHooks E =
     andthen (free_queue varname_queue freeVarname) (\<lambda>_.
     andthen (free_queue object_queue (\<lambda>i. andthen (freeDataObject i) (\<lambda>_. ret ()))) (\<lambda>_.
     andthen (free_queue top_level_objects (\<lambda>i. ret ())) (\<lambda>_.
     andthen (free_queue map_objects (freeMapObject E)) (\<lambda>_.
     andthen (modify (\<lambda>g. g\<lparr>varname_queue := None, object_queue := None, top_level_objects := None, map_objects := None,
         mt_data_queue := None, data_buffers := None, libdeflate_decomps := None, data_page_buckets := None\<rparr>)) (\<lambda>_.
     andthen (gets parameters) (\<lambda>ps.
     andthen (guard (case full_variable_names ps of None \<Rightarrow> True | Some vs \<Rightarrow> num_vars ps \<le> int (length vs)) Fault) (\<lambda>_.
     andthen (modify (\<lambda>g. g\<lparr>parameters := ps\<lparr>full_variable_names := None, filename := None\<rparr>\<rparr>)) (\<lambda>_.
     andthen (destroyPageObjects E) (\<lambda>_.
       modify (\<lambda>g. g\<lparr>fd := -1\<rparr>))))))))))"

section \<open>Lemmas\<close>

text \<open>What an object owns: the blocks behind the pointers that are not NULL.\<close>

definition owned_blocks :: "Data \<Rightarrow> block list" where
  "owned_blocks d =
     present (darr (data_arrays d)) BData @ present (short_name (names d)) BShortName @
     present (long_name (names d)) BLongName @ present (sub_object_header_offsets (data_arrays d)) BOffsets @
     (case filters (chunked_info d) of None \<Rightarrow> [] | Some fs \<Rightarrow> map BClient [0..<length fs] @ [BFilters]) @
     present (dims d) BDims @ present (chunked_dims (chunked_info d)) BChunkedDims @
     present (chunk_update (chunked_info d)) BUpdate @ present (matlab_class d) BClass @
     present (sub_objects d) BSubObjects @ [BObject]"

text \<open>
  The names of an object that has them have a length, the filters are as many as counted, and the data is not
  MATLAB's.
\<close>

definition wf_blocks :: "Data \<Rightarrow> bool" where
  "wf_blocks d \<longleftrightarrow> \<not> is_mx_used (data_flags d) \<and> (short_name (names d) \<noteq> None \<longrightarrow> short_name_length (names d) \<noteq> 0) \<and>
     (long_name (names d) \<noteq> None \<longrightarrow> long_name_length (names d) \<noteq> 0) \<and>
     (\<forall>fs. filters (chunked_info d) = Some fs \<longrightarrow> num_filters (chunked_info d) = int (length fs))"

lemma in_present [simp]: "y \<in> set (present x b) \<longleftrightarrow> x \<noteq> None \<and> y = b"
  by (cases x) (auto simp: present_def)

lemma distinct_present [simp]: "distinct (present x b)"
  by (cases x) (simp_all add: present_def)

lemma present_if: "(x \<noteq> None \<Longrightarrow> c) \<Longrightarrow> (if c then present x b else []) = present x b"
  by (cases x) (simp_all add: present_def)

lemma freed_owned:
  assumes "wf_blocks d"
  shows "freed_blocks d = Inr (owned_blocks d)"
proof -
  note w = assms [unfolded wf_blocks_def]
  have "client_blocks (chunked_info d) =
      Inr (case filters (chunked_info d) of None \<Rightarrow> [] | Some fs \<Rightarrow> map BClient [0..<length fs] @ [BFilters])"
    using w by (cases "filters (chunked_info d)") (simp_all add: client_blocks_def)
  moreover have "(if short_name_length (names d) \<noteq> 0 then present (short_name (names d)) BShortName else []) =
      present (short_name (names d)) BShortName"
    "(if long_name_length (names d) \<noteq> 0 then present (long_name (names d)) BLongName else []) =
      present (long_name (names d)) BLongName"
    using w by (intro present_if; blast)+
  ultimately show ?thesis using w by (simp add: freed_blocks_def owned_blocks_def)
qed

lemma distinct_owned: "distinct (owned_blocks d)"
proof -
  let ?fs = "case filters (chunked_info d) of None \<Rightarrow> [] | Some fs \<Rightarrow> map BClient [0..<length fs] @ [BFilters]"
  have "distinct ?fs" "\<And>b. b \<in> set ?fs \<Longrightarrow> b = BFilters \<or> (\<exists>n. b = BClient n)"
    by (auto simp: distinct_map inj_on_def split: option.splits)
  then show ?thesis unfolding owned_blocks_def by (fastforce simp: disjoint_iff)
qed

text \<open>C26. \<open>freeDataObject\<close> gives back every block the object has, each once, and the object with them; freeing the object
  again is a fault.\<close>

theorem freeDataObject_frees_all:
  assumes "slook (objs g) i = Inr d" "wf_blocks d"
  shows "\<exists>bs g'. freeDataObject i g = (Inr bs, g') \<and> distinct bs \<and> bs = owned_blocks d \<and>
    objs g' = (objs g)[i := None] \<and> fst (freeDataObject i g') = Inl Fault"
  using assms freed_owned [OF assms(2)] distinct_owned [of d] slook_range [OF assms(1)]
  by (auto simp: freeDataObject_def get_obj_def andthen_def slook_def)

lemma freeDataObject_frees_all_witness:
  "\<exists>bs g'. freeDataObject 0 (demo_state\<lparr>objs := [Some (blank_object (lq_init False))]\<rparr>) = (Inr bs, g') \<and> distinct bs \<and>
    bs = [BSubObjects, BObject]"
  using freeDataObject_frees_all [of "demo_state\<lparr>objs := [Some (blank_object (lq_init False))]\<rparr>" 0 "blank_object (lq_init False)"]
  by (auto simp: slook_def wf_blocks_def blank_object_def owned_blocks_def present_def)

end
