(* ===== verification/Utils.thy ===== *)
theory Utils
  imports Cleanup ReadMessage
begin

text \<open>
  \<^verbatim>\<open>src/src/utils.c\<close>: looking objects up, copying them, and taking the name of a variable apart.
  Recursions over the objects have a bound, \<open>fuel\<close>, because references in the file can make their
  graph cyclic. Two loops of the name parser count with a \<open>uint8_t\<close>, so that they never end on a name
  of 256 digits; their bound is 256 rounds, the most that any run that ends takes.
\<close>

section \<open>Looking up objects\<close>

fun find_short :: "nat \<Rightarrow> cstr \<Rightarrow> nat \<Rightarrow> (nat option, gstate) act" where
  "find_short object name 0 = ret None"
| "find_short object name (Suc n) =
     andthen (sub_op object (some_or_fault lq_traverse)) (\<lambda>i.
     andthen (get_obj i) (\<lambda>obj.
     andthen (nn (short_name (names obj))) (\<lambda>s.
       if s = name then ret (Some i) else find_short object name n)))"

definition findSubObjectByShortName :: "nat \<Rightarrow> cstr \<Rightarrow> (nat option, gstate) act" where
  "findSubObjectByShortName object name =
     andthen (sub_op object (quiet lq_init_traversal)) (\<lambda>_.
     andthen (sub_op object (peek lq_tlen)) (\<lambda>n. find_short object name n))"

fun find_sc :: "nat \<Rightarrow> int \<Rightarrow> nat \<Rightarrow> (nat option, gstate) act" where
  "find_sc object index 0 = ret None"
| "find_sc object index (Suc n) =
     andthen (sub_op object (some_or_fault lq_traverse)) (\<lambda>i.
     andthen (get_obj i) (\<lambda>obj.
       if s_c_array_index obj = index then ret (Some i) else find_sc object index n))"

definition findSubObjectBySCIndex :: "nat \<Rightarrow> int \<Rightarrow> (nat option, gstate) act" where
  "findSubObjectBySCIndex object index =
     andthen (sub_op object (quiet lq_init_traversal)) (\<lambda>_.
     andthen (sub_op object (peek lq_tlen)) (\<lambda>n. find_sc object index n))"

fun find_header :: "int \<Rightarrow> nat \<Rightarrow> (nat option, gstate) act" where
  "find_header obj_address 0 = ret None"
| "find_header obj_address (Suc n) =
     andthen (oq_op (some_or_fault lq_traverse)) (\<lambda>i.
     andthen (get_obj i) (\<lambda>obj.
       if this_obj_address obj = obj_address then ret (Some i) else find_header obj_address n))"

definition findObjectByHeaderAddress :: "int \<Rightarrow> (nat option, gstate) act" where
  "findObjectByHeaderAddress obj_address =
     andthen (oq_op (quiet lq_init_traversal)) (\<lambda>_.
     andthen (oq_op (peek lq_tlen)) (\<lambda>n. find_header obj_address n))"

text \<open>Is \<open>obj\<close> the object \<open>cmp_obj\<close> or below it? The loop's condition is read again in each round.\<close>

fun checkTree :: "nat \<Rightarrow> nat \<Rightarrow> nat \<Rightarrow> (bool, gstate) act"
and check_subs :: "nat \<Rightarrow> nat \<Rightarrow> nat \<Rightarrow> (bool, gstate) act" where
  "checkTree 0 cmp_obj obj = fail OutOfFuel"
| "checkTree (Suc fuel) cmp_obj obj =
     andthen (get_obj cmp_obj) (\<lambda>c.
     andthen (if num_sub_objs c \<noteq> 0
              then andthen (sub_op cmp_obj (quiet lq_init_traversal)) (\<lambda>_. check_subs fuel cmp_obj obj)
              else ret False) (\<lambda>found. ret (found \<or> cmp_obj = obj)))"
| "check_subs 0 cmp_obj obj = fail OutOfFuel"
| "check_subs (Suc fuel) cmp_obj obj =
     andthen (sub_op cmp_obj (peek lq_tlen)) (\<lambda>n.
       if n = 0 then ret False
       else
         andthen (sub_op cmp_obj (some_or_fault lq_traverse)) (\<lambda>i.
         andthen (checkTree fuel i obj) (\<lambda>found.
           if found then ret True else check_subs fuel cmp_obj obj)))"

section \<open>cloneData\<close>

text \<open>\<open>malloc\<close> and \<open>memcpy\<close> of an array of \<open>n\<close> entries of \<open>w\<close> bytes.\<close>

definition clone_array :: "env \<Rightarrow> int \<Rightarrow> int \<Rightarrow> 'a list option \<Rightarrow> ('a list option, gstate) act" where
  "clone_array E w n a =
     (case a of None \<Rightarrow> ret None
      | Some xs \<Rightarrow>
          andthen (guard (malloc_ok E (u64 (n * w))) Fault) (\<lambda>_.
          andthen (lift_res (ctake (u64 n) xs)) (\<lambda>ys. ret (Some ys))))"

fun clone_filters :: "env \<Rightarrow> Filter list \<Rightarrow> nat \<Rightarrow> (Filter list, gstate) act" where
  "clone_filters E fs 0 = ret []"
| "clone_filters E fs (Suc n) =
     andthen (clone_filters E fs n) (\<lambda>cs.
     andthen (lift_res (aget fs (int n))) (\<lambda>f.
     andthen (guard (malloc_ok E (num_client_vals f * 4)) Fault) (\<lambda>_.
     andthen (lift_res (ctake (num_client_vals f) (client_data f))) (\<lambda>vs.
       ret (cs @ [f\<lparr>client_data := vs\<rparr>])))))"

definition clone_chunked :: "env \<Rightarrow> ChunkedInfo \<Rightarrow> (ChunkedInfo, gstate) act" where
  "clone_chunked E c =
     (let n = num_chunked_dims c + 1 in
     andthen (case filters c of None \<Rightarrow> ret None
              | Some fs \<Rightarrow>
                  andthen (guard (malloc_ok E (num_filters c * sizeof_Filter)) Fault) (\<lambda>_.
                  andthen (clone_filters E fs (nat (num_filters c))) (\<lambda>fs. ret (Some fs)))) (\<lambda>fs.
     andthen (clone_array E 8 n (chunked_dims c)) (\<lambda>cd.
     andthen (clone_array E 8 n (chunk_update c)) (\<lambda>cu.
       ret (c\<lparr>filters := fs, chunked_dims := cd, chunk_update := cu\<rparr>)))))"

text \<open>\<open>strcpy\<close> into a fresh block of \<open>len + 1\<close> bytes.\<close>

definition clone_name :: "env \<Rightarrow> int \<Rightarrow> cstr option \<Rightarrow> (cstr option, gstate) act" where
  "clone_name E len s =
     andthen (guard (malloc_ok E (len + 1)) Fault) (\<lambda>_.
     andthen (nn s) (\<lambda>s.
     andthen (guard (strlen s \<le> len) Fault) (\<lambda>_. ret (Some s))))"

text \<open>
  After a failed allocation the code frees the new object twice: the faults above. A copy of a
  member that could not be made is NULL, and NULL is put into \<open>sub_objects\<close>; every reader of the
  queue dereferences it, and the model faults at once. \<open>matlab_class\<close> is not copied.
\<close>

definition clone_fields :: "env \<Rightarrow> Data \<Rightarrow> Data \<Rightarrow> (Data, gstate) act" where
  "clone_fields E old new =
     (let n = u64 (u64 (num_elems old) * elem_size old) in
     andthen (clone_array E 1 n (darr (data_arrays old))) (\<lambda>a.
     andthen (clone_array E 1 n (sub_object_header_offsets (data_arrays old))) (\<lambda>offs.
     andthen (clone_chunked E (chunked_info old)) (\<lambda>c.
     andthen (clone_array E 8 (num_dims old + 1) (dims old)) (\<lambda>ds.
       ret (new\<lparr>layout_class := layout_class old, datatype_bit_field := datatype_bit_field old,
         byte_order := byte_order old, hdf5_internal_type := hdf5_internal_type old,
         matlab_internal_type := matlab_internal_type old, matlab_sparse_type := matlab_sparse_type old,
         complexity_flag := complexity_flag old, num_dims := num_dims old, num_elems := num_elems old,
         elem_size := elem_size old, num_sub_objs := num_sub_objs old, s_c_array_index := s_c_array_index old,
         data_address := data_address old, this_obj_address := this_obj_address old, data_flags := data_flags old,
         data_arrays := \<lparr>darr = a, sub_object_header_offsets = offs\<rparr>, chunked_info := c, dims := ds,
         super_object := super_object old\<rparr>))))))"

text \<open>The second function is the loop over the members, \<open>n\<close> of them.\<close>

fun cloneData :: "nat \<Rightarrow> env \<Rightarrow> nat \<Rightarrow> (nat, gstate) act"
and clone_subs :: "nat \<Rightarrow> env \<Rightarrow> nat \<Rightarrow> nat \<Rightarrow> (unit, gstate) act" where
  "cloneData 0 E old_object = fail OutOfFuel"
| "cloneData (Suc fuel) E old_object =
     andthen (guard (malloc_ok E sizeof_Data) (RetErr ''getmatvar:mallocErrNewObjCD'')) (\<lambda>_.
     andthen (lift_res (initializeObject E)) (\<lambda>new.
     andthen (get_obj old_object) (\<lambda>old.
     andthen (clone_fields E old new) (\<lambda>new.
     andthen (new_obj new) (\<lambda>new_object.
     andthen (sub_op old_object (quiet lq_init_traversal)) (\<lambda>_.
     andthen (clone_subs fuel E old_object new_object) (\<lambda>_.
     andthen (get_obj old_object) (\<lambda>old.
     andthen (clone_name E (long_name_length (names old)) (long_name (names old))) (\<lambda>ln.
     andthen (clone_name E (short_name_length (names old)) (short_name (names old))) (\<lambda>sn.
     andthen (get_obj new_object) (\<lambda>new.
     andthen (put_obj new_object (new\<lparr>matlab_internal_attributes := matlab_internal_attributes old,
         names := (names old)\<lparr>long_name := ln, short_name := sn\<rparr>\<rparr>)) (\<lambda>_.
     andthen (oq_op (put_back new_object)) (\<lambda>_.
       ret new_object)))))))))))))"
| "clone_subs 0 E old_object new_object = fail OutOfFuel"
| "clone_subs (Suc fuel) E old_object new_object =
     andthen (sub_op old_object (peek lq_tlen)) (\<lambda>n.
       if n = 0 then ret ()
       else
         andthen (sub_op old_object (some_or_fault lq_traverse)) (\<lambda>i.
         andthen (\<lambda>g. case cloneData fuel E i g of (Inl (RetErr e), g') \<Rightarrow> (Inl Fault, g') | r \<Rightarrow> r) (\<lambda>c.
         andthen (sub_op new_object (put_back c)) (\<lambda>_.
           clone_subs fuel E old_object new_object))))"

section \<open>Names of variables\<close>

text \<open>\<open>strtok\<close> called until it gives NULL.\<close>

fun split_at :: "cstr \<Rightarrow> cstr \<Rightarrow> cstr \<Rightarrow> cstr list" where
  "split_at delim [] acc = (if acc = [] then [] else [rev acc])"
| "split_at delim (c # cs) acc =
     (if c \<in> set delim then (if acc = [] then [] else [rev acc]) @ split_at delim cs [] else split_at delim cs (c # acc))"

definition strtok_all :: "cstr \<Rightarrow> cstr \<Rightarrow> cstr list" where
  "strtok_all delim s = split_at delim s []"

text \<open>\<open>removeSpaces\<close> works in place with two pointers into the string.\<close>

fun remove_loop :: "nat \<Rightarrow> byte list \<Rightarrow> int \<Rightarrow> int \<Rightarrow> byte list res" where
  "remove_loop 0 source i j = Inl OutOfFuel"
| "remove_loop (Suc n) source i j =
     bnd (aget source j) (\<lambda>c.
       if c = 0 then aset source i 0
       else bnd (aset source i c) (\<lambda>source.
         remove_loop n source (if c \<noteq> 32 then i + 1 else i) (j + 1)))"

definition removeSpaces :: "byte list \<Rightarrow> byte list res" where
  "removeSpaces source = remove_loop (Suc (length source)) source 0 0"

text \<open>A character's value is that of a signed \<open>char\<close>.\<close>

definition digit_val :: "byte \<Rightarrow> int" where
  "digit_val c = sint c - 48"

text \<open>The number that digits stand for.\<close>

fun dec_value :: "cstr \<Rightarrow> int \<Rightarrow> int" where
  "dec_value [] acc = acc"
| "dec_value (c # cs) acc = dec_value cs (acc * 10 + digit_val c)"

fun number_loop :: "nat \<Rightarrow> cstr \<Rightarrow> int \<Rightarrow> int \<Rightarrow> int res" where
  "number_loop 0 s j acc = Inl OutOfFuel"
| "number_loop (Suc n) s j acc =
     (if j < strlen s then bnd (aget s j) (\<lambda>c. number_loop n s (u8 (j + 1)) (i64 (acc * 10 + digit_val c)))
      else Inr acc)"

fun coords_loop :: "cstr list \<Rightarrow> int \<Rightarrow> int list \<Rightarrow> int list res" where
  "coords_loop [] i xs = Inr xs"
| "coords_loop (s # ss) i xs =
     bnd (number_loop 257 s 0 0) (\<lambda>x.
     bnd (aset xs i x) (\<lambda>xs. coords_loop ss (i + 1) xs))"

definition get_token :: "nat \<Rightarrow> (VariableNameToken, gstate) act" where
  "get_token i g = (slook (tokens g) i, g)"

definition put_token :: "nat \<Rightarrow> VariableNameToken \<Rightarrow> (unit, gstate) act" where
  "put_token i t = modify (\<lambda>g. g\<lparr>tokens := (tokens g)[i := Some t]\<rparr>)"

definition parseCoordinates :: "env \<Rightarrow> nat \<Rightarrow> (unit, gstate) act" where
  "parseCoordinates E i =
     andthen (get_token i) (\<lambda>vnt.
     andthen (guard (malloc_ok E (strlen (variable_local_name vnt) + 1)) (RetErr ''getmatvar:mallocErrVNCcoord'')) (\<lambda>_.
     andthen (lift_res (coords_loop (strtok_all (ascii '','') (variable_local_name vnt)) 0 (variable_local_coordinates vnt))) (\<lambda>xs.
       put_token i (vnt\<lparr>variable_local_coordinates := xs\<rparr>))))"

text \<open>What a piece of the name is: an index, coordinates (at the first comma) or a name.\<close>

fun classify :: "nat \<Rightarrow> cstr \<Rightarrow> int \<Rightarrow> int \<Rightarrow> (VariableNameType \<times> int) res" where
  "classify 0 s i idx = Inl OutOfFuel"
| "classify (Suc n) s i idx =
     (if i < strlen s then
        bnd (aget s i) (\<lambda>c.
          if digit_val c < 0 \<or> 9 < digit_val c then
            (if c = 44 then Inr (VT_LOCAL_COORDINATES, idx) else Inr (VT_LOCAL_NAME, 0))
          else classify n s (u8 (i + 1)) (i64 (idx * 10 + digit_val c)))
      else Inr (VT_LOCAL_INDEX, i64 (idx - 1)))"

fun make_tokens :: "env \<Rightarrow> cstr list \<Rightarrow> (unit, gstate) act" where
  "make_tokens E [] = ret ()"
| "make_tokens E (s # ss) =
     andthen (guard (malloc_ok E 280) (RetErr ''getmatvar:mallocErrVNT'')) (\<lambda>_.
     andthen (guard (malloc_ok E (strlen s + 1)) (RetErr ''getmatvar:mallocErrVNTvln'')) (\<lambda>_.
     andthen (lift_res (classify 257 s 0 0)) (\<lambda>(t, idx).
     andthen (gets (\<lambda>g. length (tokens g))) (\<lambda>i.
     andthen (modify (\<lambda>g. g\<lparr>tokens := tokens g @ [Some \<lparr>variable_name_type = t, variable_local_index = idx,
         variable_local_coordinates = fresh_ints E 32, variable_local_name = s\<rparr>]\<rparr>)) (\<lambda>_.
     andthen (vq_op (put_back i)) (\<lambda>_.
       make_tokens E ss))))))"

fun parse_all :: "env \<Rightarrow> nat \<Rightarrow> (unit, gstate) act" where
  "parse_all E 0 = ret ()"
| "parse_all E (Suc n) =
     andthen (vq_op (some_or_fault lq_dequeue)) (\<lambda>i.
     andthen (get_token i) (\<lambda>vnt.
     andthen (if variable_name_type vnt = VT_LOCAL_COORDINATES then parseCoordinates E i else ret ()) (\<lambda>_.
       parse_all E n)))"

definition makeVarnameQueue :: "env \<Rightarrow> cstr \<Rightarrow> (unit, gstate) act" where
  "makeVarnameQueue E variable_name =
     andthen (vq_op (\<lambda>q. Inr (lq_flush q))) (\<lambda>old.
     andthen (free_each freeVarname old) (\<lambda>_.
     andthen (guard (malloc_ok E (strlen variable_name + 1)) Fault) (\<lambda>_.
     andthen (lift_res (removeSpaces (variable_name @ [0]))) (\<lambda>buf.
     andthen (lift_res (cstr_at buf 0)) (\<lambda>s.
     andthen (make_tokens E (strtok_all (ascii ''.{}()'') s)) (\<lambda>_.
     andthen (vq_op (peek lq_len)) (\<lambda>n.
     andthen (parse_all E n) (\<lambda>_.
       vq_op (quiet lq_restart)))))))))"

section \<open>Warnings\<close>

text \<open>The identifiers of the warnings written are collected in order.\<close>

definition readMXWarn :: "string \<Rightarrow> gstate \<Rightarrow> string list \<Rightarrow> string list" where
  "readMXWarn warn_id g ws = (if will_suppress_warnings g then ws else ws @ [warn_id])"

end
