(* ===== verification/CreateObjects.thy ===== *)
theory CreateObjects
  imports Cleanup
begin

text \<open>
  \<^verbatim>\<open>src/src/createDataObjects.c\<close>: the skeleton of objects is made from the group tree of the file.
  \<open>readTreeNode\<close> reads the addresses of a node's children, \<open>readSnod\<close> makes an object for every symbol
  of a leaf, in reverse, and goes on into a group; \<open>connectSubObject\<close> makes one object below another.
  The file can send the code round a cycle, so the recursion has a bound, \<open>fuel\<close>.
\<close>

section \<open>Names\<close>

text \<open>\<open>strcpy\<close> of \<open>s\<close> into a block of \<open>room\<close> bytes at \<open>off\<close>.\<close>

definition copy_fits :: "int \<Rightarrow> int \<Rightarrow> cstr \<Rightarrow> (unit, gstate) act" where
  "copy_fits room off s = guard (off + strlen s + 1 \<le> room) Fault"

text \<open>The string in the block after the three writes of the long name.\<close>

definition joined_name :: "cstr \<Rightarrow> int \<Rightarrow> cstr \<Rightarrow> cstr" where
  "joined_name super n s = (if strlen super < n then super else take (nat n) super @ ascii ''.'' @ s)"

definition long_name_of :: "env \<Rightarrow> NameStruct \<Rightarrow> int \<Rightarrow> cstr \<Rightarrow> (int \<times> cstr, gstate) act" where
  "long_name_of E super n s =
     (if long_name_length super \<noteq> 0 then
        let len = u16 (long_name_length super + 1 + n) in
        andthen (guard (malloc_ok E (len + 1)) (RetErr ''getmatvar:mallocErrLoNaCSO1'')) (\<lambda>_.
        andthen (nn (long_name super)) (\<lambda>l.
        andthen (copy_fits (len + 1) 0 l) (\<lambda>_.
        andthen (copy_fits (len + 1) (long_name_length super + 1) s) (\<lambda>_.
          ret (len, joined_name l (long_name_length super) s)))))
      else
        andthen (guard (malloc_ok E (n + 1)) (RetErr ''getmatvar:mallocErrLoNaCSO2'')) (\<lambda>_.
          ret (n, s)))"

text \<open>Objects below a group whose name starts with \<open>#\<close>, and below those, are references.\<close>

definition below_refs :: "Data \<Rightarrow> (bool, gstate) act" where
  "below_refs super =
     (if is_reference (data_flags super) then ret True
      else if short_name_length (names super) = 0 then ret False
      else andthen (nn (short_name (names super))) (\<lambda>s. ret (s \<noteq> [] \<and> hd s = 35)))"

definition connectSubObject :: "env \<Rightarrow> nat \<Rightarrow> int \<Rightarrow> cstr \<Rightarrow> (nat, gstate) act" where
  "connectSubObject E sup_obj sub_obj_address sub_obj_name =
     andthen (guard (malloc_ok E sizeof_Data) (RetErr ''getmatvar:mallocErrCSO'')) (\<lambda>_.
     andthen (lift_res (initializeObject E)) (\<lambda>blank.
     andthen (new_obj (blank\<lparr>this_obj_address := sub_obj_address\<rparr>)) (\<lambda>i.
     andthen (sub_op sup_obj (put_back i)) (\<lambda>_.
     andthen (get_obj sup_obj) (\<lambda>super.
     andthen (put_obj sup_obj (super\<lparr>num_sub_objs := u32 (num_sub_objs super + 1)\<rparr>)) (\<lambda>_.
     andthen (get_obj i) (\<lambda>d.
     andthen (below_refs super) (\<lambda>rf.
     let n = u16 (strlen sub_obj_name);
         d = d\<lparr>super_object := Some sup_obj, data_flags := (data_flags d)\<lparr>is_reference := rf\<rparr>,
               names := (names d)\<lparr>short_name_length := n\<rparr>\<rparr> in
     andthen (put_obj i d) (\<lambda>_.
     andthen (guard (malloc_ok E (n + 1)) (RetErr ''getmatvar:mallocErrShNaCSO'')) (\<lambda>_.
     andthen (copy_fits (n + 1) 0 sub_obj_name) (\<lambda>_.
     andthen (long_name_of E (names super) n sub_obj_name) (\<lambda>(len, l).
     andthen (put_obj i (d\<lparr>names := \<lparr>long_name_length = len, long_name = Some l, short_name_length = n,
         short_name = Some sub_obj_name\<rparr>\<rparr>)) (\<lambda>_.
       ret i)))))))))))))"

section \<open>The tree\<close>

text \<open>
  A mapping together with the pointer into it, taken when the mapping was asked for: what is shown,
  and the offset in it. (A later navigation can move the \<open>address_ptr\<close> of the same map object.)
\<close>

record held =
  held_map :: nat
  held_view :: "byte list"
  held_ptr :: int

definition hold :: "env \<Rightarrow> int \<Rightarrow> int \<Rightarrow> (held, gstate) act" where
  "hold E a n =
     andthen (navigated E a n) (\<lambda>i.
     andthen (st_view E i) (\<lambda>(m, p). ret \<lparr>held_map = i, held_view = m, held_ptr = p\<rparr>))"

text \<open>One symbol: the fields of entry \<open>i\<close> of a leaf whose bytes are \<open>m\<close> from \<open>p\<close>.\<close>

record symbol =
  name_offset :: int
  sub_obj_address :: int
  cache_type :: int

definition read_symbol :: "env \<Rightarrow> Superblock \<Rightarrow> byte list \<Rightarrow> int \<Rightarrow> symbol res" where
  "read_symbol E sb m q =
     (let so = size_of_offsets sb in
      bnd (getMeta E m q so) (\<lambda>nm.
      bnd (getMeta E m (q + so) so) (\<lambda>a.
      bnd (getMeta E m (q + 2 * so) 4) (\<lambda>c.
        Inr \<lparr>name_offset = i64 nm, sub_obj_address = i64 (i64 a + base_address sb), cache_type = u32 c\<rparr>))))"

definition read_scratch :: "env \<Rightarrow> Superblock \<Rightarrow> byte list \<Rightarrow> int \<Rightarrow> (int \<times> int) res" where
  "read_scratch E sb m q =
     (let so = size_of_offsets sb in
      bnd (getMeta E m (q + 2 * so + 8) so) (\<lambda>t.
      bnd (getMeta E m (q + 3 * so + 8) so) (\<lambda>h.
        Inr (i64 (i64 t + base_address sb), i64 (i64 h + base_address sb)))))"

text \<open>The addresses of the children, read one by one.\<close>

fun read_children :: "env \<Rightarrow> int \<Rightarrow> int \<Rightarrow> int \<Rightarrow> nat \<Rightarrow> (int list, gstate) act" where
  "read_children E node_address total_size key_address 0 = ret []"
| "read_children E node_address total_size key_address (Suc n) =
     andthen (navigated E key_address (u64 (total_size - (key_address - node_address)))) (\<lambda>key_map_obj.
     andthen (st_view E key_map_obj) (\<lambda>(m, p).
     andthen (gets s_block) (\<lambda>sb.
     andthen (lift_res (getMeta E m (p + size_of_lengths sb) (size_of_offsets sb))) (\<lambda>a.
     andthen (st_releasePages key_map_obj) (\<lambda>_.
     andthen (read_children E node_address total_size (i64 (key_address + size_of_lengths sb + size_of_offsets sb)) n) (\<lambda>as.
       ret (i64 (i64 a + base_address sb) # as)))))))"

text \<open>Where the names of a group are: the local heap's data segment.\<close>

definition read_heap :: "env \<Rightarrow> int \<Rightarrow> (int \<times> int, gstate) act" where
  "read_heap E heap_address =
     andthen (gets s_block) (\<lambda>sb.
     andthen (navigated E heap_address (u64 (8 + 2 * size_of_lengths sb + size_of_offsets sb))) (\<lambda>heap_map_obj.
     andthen (st_view E heap_map_obj) (\<lambda>(m, p).
     andthen (lift_res (getMeta E m (p + 8) (size_of_lengths sb))) (\<lambda>n.
     andthen (lift_res (getMeta E m (p + 8 + 2 * size_of_lengths sb) (size_of_offsets sb))) (\<lambda>a.
     andthen (st_releasePages heap_map_obj) (\<lambda>_.
       ret (i64 (i64 a + base_address sb), u64 n)))))))"

text \<open>
  \<open>read_symbols E tree object node hp hs i\<close> is the loop of \<open>readSnod\<close> for the symbols below \<open>i\<close>; \<open>node\<close>
  and \<open>hp\<close> are the places of the leaf and of the names, \<open>hs\<close> the mappings of the two, and \<open>tree\<close> is
  \<open>readTreeNode\<close>. The result of \<open>readTreeNode\<close> on a node found by \<open>readSnod\<close> is ignored.
\<close>

type_synonym tree_reader = "nat \<Rightarrow> int \<Rightarrow> int \<Rightarrow> (unit, gstate) act"

fun read_symbols :: "env \<Rightarrow> tree_reader \<Rightarrow> nat \<Rightarrow> int \<times> int \<Rightarrow> int \<times> int \<Rightarrow> held \<times> held \<Rightarrow> nat \<Rightarrow> (held \<times> held, gstate) act" where
  "read_symbols E tree object node hp hs 0 = ret hs"
| "read_symbols E tree object node hp hs (Suc i) =
     andthen (gets s_block) (\<lambda>sb.
     let m = held_view (fst hs); q = held_ptr (fst hs) + 8 + int i * sym_table_entry_size sb in
     andthen (lift_res (read_symbol E sb m q)) (\<lambda>sym.
     andthen (lift_res (cstr_at (held_view (snd hs)) (held_ptr (snd hs) + name_offset sym))) (\<lambda>name.
     andthen (connectSubObject E object (sub_obj_address sym) name) (\<lambda>sub_object.
     andthen (oq_op (put_back sub_object)) (\<lambda>_.
       if cache_type sym = 1 then
         andthen (lift_res (read_scratch E sb m q)) (\<lambda>st.
         andthen (st_releasePages (held_map (fst hs))) (\<lambda>_.
         andthen (st_releasePages (held_map (snd hs))) (\<lambda>_.
         andthen (tree sub_object (fst st) (snd st)) (\<lambda>_.
         andthen (hold E (fst node) (snd node)) (\<lambda>snod.
         andthen (hold E (fst hp) (snd hp)) (\<lambda>seg.
           read_symbols E tree object node hp (snod, seg) i))))))
       else if cache_type sym = 2 then fail (RetErr ''getmatvar:unexpectedCacheType'')
       else read_symbols E tree object node hp hs i)))))"

definition readSnod :: "env \<Rightarrow> tree_reader \<Rightarrow> nat \<Rightarrow> int \<Rightarrow> int \<Rightarrow> (unit, gstate) act" where
  "readSnod E tree object node_address heap_address =
     andthen (hold E node_address 8) (\<lambda>h.
     andthen (lift_res (rd (held_view h) (held_ptr h) 4)) (\<lambda>sig.
       if sig = ascii ''TREE'' then
         andthen (st_releasePages (held_map h)) (\<lambda>_. ignore (tree object node_address heap_address))
       else
         andthen (lift_res (getMeta E (held_view h) (held_ptr h + 6) 2)) (\<lambda>ns.
         andthen (gets s_block) (\<lambda>sb.
         let num_symbols = u16 ns;
             total = u64 (8 + (num_symbols - 1) * sym_table_entry_size sb + 3 * size_of_offsets sb + 8 + size_of_offsets sb) in
         andthen (st_releasePages (held_map h)) (\<lambda>_.
         andthen (hold E node_address total) (\<lambda>snod.
         andthen (read_heap E heap_address) (\<lambda>hp.
         andthen (hold E (fst hp) (snd hp)) (\<lambda>seg.
         andthen (read_symbols E tree object (node_address, total) hp (snod, seg) (nat num_symbols)) (\<lambda>hs.
         andthen (st_releasePages (held_map (fst hs))) (\<lambda>_.
           st_releasePages (held_map (snd hs))))))))))))"

fun read_snods :: "env \<Rightarrow> tree_reader \<Rightarrow> nat \<Rightarrow> int list \<Rightarrow> int \<Rightarrow> (unit, gstate) act" where
  "read_snods E tree object [] heap_address = ret ()"
| "read_snods E tree object (a # as) heap_address =
     andthen (readSnod E tree object a heap_address) (\<lambda>_. read_snods E tree object as heap_address)"

definition read_node :: "env \<Rightarrow> tree_reader \<Rightarrow> tree_reader" where
  "read_node E tree object node_address heap_address =
     andthen (hold E node_address 8) (\<lambda>h.
     andthen (lift_res (getMeta E (held_view h) (held_ptr h + 6) 2)) (\<lambda>eu.
     andthen (st_releasePages (held_map h)) (\<lambda>_.
     andthen (gets s_block) (\<lambda>sb.
     let n = u16 eu;
         total_size = u64 (n * (size_of_lengths sb + size_of_offsets sb) + 8 + 2 * size_of_offsets sb) in
     andthen (guard (0 < n) (RetErr ''getmatvar:invalidTree'')) (\<lambda>_.
     andthen (guard (malloc_ok E (n * 8)) (RetErr ''getmatvar:mallocErrSUNAL'')) (\<lambda>_.
     andthen (read_children E node_address total_size (i64 (node_address + 8 + 2 * size_of_offsets sb)) (nat n)) (\<lambda>as.
       read_snods E tree object as heap_address)))))))"

fun readTreeNode :: "env \<Rightarrow> nat \<Rightarrow> tree_reader" where
  "readTreeNode E 0 = (\<lambda>object node_address heap_address. fail OutOfFuel)"
| "readTreeNode E (Suc fuel) = read_node E (readTreeNode E fuel)"

definition makeObjectTreeSkeleton :: "env \<Rightarrow> nat \<Rightarrow> (unit, gstate) act" where
  "makeObjectTreeSkeleton E fuel =
     andthen (gets s_block) (\<lambda>sb.
     andthen (gets virtual_super_object) (\<lambda>v.
     andthen (nn v) (\<lambda>v.
       readTreeNode E fuel v (root_tree_address sb) (root_heap_address sb))))"

end
