(* ===== verification/FillObject.thy ===== *)
theory FillObject
  imports Utils Inflate CreateObjects
begin

text \<open>
  \<^verbatim>\<open>src/src/fillDataObjects.c\<close>: the messages of an object's header are read (\<open>interpretMessages\<close>,
  \<open>collectMetaData\<close>), its array is allocated and filled, and the elements of a cell array are found by
  their addresses and named (\<open>fillObject\<close>); a variable is found by its name and everything below it
  is filled (\<open>fillVariable\<close>, \<open>fillDataTree\<close>).
\<close>

section \<open>Numbers as text\<close>

function dec_nat :: "nat \<Rightarrow> cstr" where
  "dec_nat n = (if n < 10 then [of_nat (48 + n)] else dec_nat (n div 10) @ [of_nat (48 + n mod 10)])"
  by pat_completeness auto
termination by (relation "measure id") auto

declare dec_nat.simps [simp del]

text \<open>\<open>%d\<close>\<close>

definition dec_int :: "int \<Rightarrow> cstr" where
  "dec_int n = (if n < 0 then ascii ''-'' else []) @ dec_nat (nat \<bar>n\<bar>)"

text \<open>The loop that counts the digits, \<open>do { n /= 10; num_digits++; } while (n != 0)\<close>.\<close>

function digit_count :: "nat \<Rightarrow> int" where
  "digit_count n = (if n div 10 = 0 then 1 else 1 + digit_count (n div 10))"
  by pat_completeness auto
termination by (relation "measure id") auto

declare digit_count.simps [simp del]

definition num_digits :: "int \<Rightarrow> int" where
  "num_digits n = u16 (digit_count (nat \<bar>n\<bar>))"

section \<open>Header messages\<close>

text \<open>A message is read into the object; \<open>True\<close> when \<open>*err_flag\<close> has been set.\<close>

definition read_msg :: "nat \<Rightarrow> (unit, Data) act \<Rightarrow> (bool, gstate) act" where
  "read_msg oi a =
     andthen (get_obj oi) (\<lambda>d.
       case a d of
         (Inr _, d) \<Rightarrow> andthen (put_obj oi d) (\<lambda>_. ret False)
       | (Inl (RetErr e), d) \<Rightarrow> andthen (put_obj oi d) (\<lambda>_. ret True)
       | (Inl e, d) \<Rightarrow> fail e)"

text \<open>
  The types that are read once (\<open>rp\<close> is the set of the types already read), and the attribute. The
  result has the flag and the types read.
\<close>

definition simple_msg :: "env \<Rightarrow> Superblock \<Rightarrow> nat \<Rightarrow> int \<Rightarrow> byte list \<Rightarrow> int \<Rightarrow> int \<Rightarrow> int list \<Rightarrow>
    (bool \<times> int list, gstate) act" where
  "simple_msg E sb oi t m p address rp =
     (let once = (\<lambda>a. if t \<in> set rp then ret (False, rp) else andthen (read_msg oi a) (\<lambda>e. ret (e, t # rp))) in
      if t = 1 then once (readDataSpaceMessage E sb m p)
      else if t = 3 then once (readDataTypeMessage E m p)
      else if t = 8 then once (readDataLayoutMessage E sb m p address)
      else if t = 11 then once (readDataStoragePipelineMessage E m p)
      else if t = 12 then andthen (read_msg oi (readAttributeMessage E m p)) (\<lambda>e. ret (e, rp))
      else ret (False, rp))"

text \<open>
  The loop of \<open>interpretMessages\<close>; a continuation message makes it call itself. The result is the
  function's and the flag. The bound is on the number of rounds; \<open>num_msgs + 1\<close> of them are enough.
\<close>

primrec msg_loop :: "nat \<Rightarrow> env \<Rightarrow> nat \<Rightarrow> int \<times> int \<Rightarrow> held \<Rightarrow> int \<Rightarrow> int \<Rightarrow> int \<Rightarrow> int list \<Rightarrow>
    (int \<times> bool, gstate) act" where
  "msg_loop 0 E oi place h num_msgs message_num bytes_read rp = fail OutOfFuel"
| "msg_loop (Suc fuel) E oi place h num_msgs message_num bytes_read rp =
     (if message_num < num_msgs \<and> bytes_read < snd place then
        let m = held_view h; p = held_ptr h + bytes_read in
        andthen (gets s_block) (\<lambda>sb.
        andthen (lift_res (getMeta E m p 2)) (\<lambda>ty.
        andthen (lift_res (getMeta E m (p + 2) 2)) (\<lambda>sz.
        let msg_type = u16 ty; msg_size = u16 sz; next = u32 (bytes_read + msg_size + 8) in
        if msg_type = 16 then
          andthen (lift_res (rd m (p + 8) 4)) (\<lambda>sig.
            if sig = ascii ''OCHK'' then andthen (st_releasePages (held_map h)) (\<lambda>_. ret (num_msgs, True))
            else
              andthen (lift_res (getMeta E m (p + 8) (size_of_offsets sb))) (\<lambda>a.
              andthen (lift_res (getMeta E m (p + 8 + size_of_offsets sb) (size_of_lengths sb))) (\<lambda>n.
              let place' = (i64 (i64 a + base_address sb), u32 n) in
              andthen (st_releasePages (held_map h)) (\<lambda>_.
              andthen (hold E (fst place') (snd place')) (\<lambda>h'.
              andthen (msg_loop fuel E oi place' h' num_msgs (u16 (message_num + 1)) 0 rp) (\<lambda>r.
              andthen (hold E (fst place) (snd place)) (\<lambda>h.
                if snd r then andthen (st_releasePages (held_map h)) (\<lambda>_. ret (num_msgs, True))
                else msg_loop fuel E oi place h num_msgs (u16 (fst r + 1)) next rp)))))))
        else
          andthen (simple_msg E sb oi msg_type m (p + 8) (i64 (fst place + bytes_read + 8)) rp) (\<lambda>r.
            if fst r then andthen (st_releasePages (held_map h)) (\<lambda>_. ret (num_msgs, True))
            else msg_loop fuel E oi place h num_msgs (u16 (message_num + 1)) next (snd r)))))
      else andthen (st_releasePages (held_map h)) (\<lambda>_. ret (u16 (message_num - 1), False)))"

definition interpretMessages :: "env \<Rightarrow> nat \<Rightarrow> int \<Rightarrow> int \<Rightarrow> int \<Rightarrow> (int \<times> bool, gstate) act" where
  "interpretMessages E oi msgs_start_address msgs_length num_msgs =
     andthen (hold E msgs_start_address msgs_length) (\<lambda>h.
       msg_loop (nat num_msgs + 1) E oi (msgs_start_address, msgs_length) h num_msgs 0 0 [])"

text \<open>An empty object gets a \<open>dims\<close> of two entries, of which the second is not set.\<close>

definition make_empty :: "env \<Rightarrow> nat \<Rightarrow> (unit, gstate) act" where
  "make_empty E oi =
     andthen (get_obj oi) (\<lambda>d.
     andthen (put_obj oi (d\<lparr>num_elems := 0, dims := None\<rparr>)) (\<lambda>_.
     andthen (guard (malloc_ok E 16) (RetErr ''getmatvar:mallocErrODCMD'')) (\<lambda>_.
       put_obj oi (d\<lparr>num_elems := 0, dims := Some [0, hd (fresh_ints E 1)], num_dims := 0\<rparr>))))"

text \<open>A field of a struct array: the struct takes over its dimensions.\<close>

definition make_struct_array :: "env \<Rightarrow> nat \<Rightarrow> nat \<Rightarrow> (unit, gstate) act" where
  "make_struct_array E oi si =
     andthen (get_obj oi) (\<lambda>d.
     andthen (put_obj oi (d\<lparr>data_flags := (data_flags d)\<lparr>is_struct_array := True\<rparr>, matlab_internal_type := mxCELL_CLASS\<rparr>)) (\<lambda>_.
     andthen (get_obj oi) (\<lambda>d.
     andthen (get_obj si) (\<lambda>super.
     andthen (put_obj si (super\<lparr>num_dims := num_dims d, dims := None\<rparr>)) (\<lambda>_.
     andthen (guard (malloc_ok E ((num_dims d + 1) * 8)) (RetErr ''getmatvar:mallocErrSODCMD'')) (\<lambda>_.
     andthen (lift_res (ctake (num_dims d) (case dims d of None \<Rightarrow> [] | Some ds \<Rightarrow> ds))) (\<lambda>ds.
       put_obj si (super\<lparr>num_dims := num_dims d, dims := Some (ds @ [0])\<rparr>))))))))"

definition super_of :: "nat \<Rightarrow> (nat, gstate) act" where
  "super_of oi = andthen (get_obj oi) (\<lambda>d. nn (super_object d))"

text \<open>The class of a sparse matrix, and of the index arrays below one.\<close>

definition sparse_types :: "nat \<Rightarrow> (unit, gstate) act" where
  "sparse_types oi =
     andthen (get_obj oi) (\<lambda>d.
       if MATLAB_sparse (matlab_internal_attributes d) then
         put_obj oi (d\<lparr>matlab_sparse_type := matlab_internal_type d, matlab_internal_type := mxSPARSE_CLASS\<rparr>)
       else
         andthen (super_of oi) (\<lambda>si.
         andthen (get_obj si) (\<lambda>super.
           if MATLAB_sparse (matlab_internal_attributes super) then put_obj oi (d\<lparr>matlab_internal_type := mxUINT64_CLASS\<rparr>)
           else ret ())))"

definition collectMetaData :: "env \<Rightarrow> nat \<Rightarrow> int \<Rightarrow> int \<Rightarrow> int \<Rightarrow> (unit, gstate) act" where
  "collectMetaData E oi header_address num_msgs header_length =
     andthen (interpretMessages E oi header_address header_length num_msgs) (\<lambda>r.
     andthen (guard (\<not> snd r) (RetErr '''')) (\<lambda>_.
     andthen (get_obj oi) (\<lambda>d.
       if MATLAB_empty (matlab_internal_attributes d) then make_empty E oi
       else
         andthen (if hdf5_internal_type d = HDF5_REFERENCE \<and> matlab_internal_type d = mxUNKNOWN_CLASS
                  then andthen (super_of oi) (\<lambda>si.
                       andthen (get_obj si) (\<lambda>super.
                         if matlab_internal_type super = mxSTRUCT_CLASS then make_struct_array E oi si else ret ()))
                  else ret ()) (\<lambda>_.
           sparse_types oi))))"

section \<open>The elements of a cell array\<close>

text \<open>The names a referenced object had are freed; those that have no length are left as they are.\<close>

definition drop_names :: "NameStruct \<Rightarrow> NameStruct" where
  "drop_names n =
     n\<lparr>short_name := (if short_name_length n \<noteq> 0 then None else short_name n), short_name_length := 0,
       long_name := (if long_name_length n \<noteq> 0 then None else long_name n), long_name_length := 0\<rparr>"

text \<open>A block of \<open>len + 1\<close> bytes and the text printed into it.\<close>

definition print_name :: "env \<Rightarrow> bool \<Rightarrow> string \<Rightarrow> int \<Rightarrow> cstr \<Rightarrow> (cstr, gstate) act" where
  "print_name E checked err len s =
     andthen (guard (malloc_ok E (len + 1)) (if checked then RetErr err else Fault)) (\<lambda>_.
     andthen (copy_fits (len + 1) 0 s) (\<lambda>_. ret s))"

definition name_cell :: "env \<Rightarrow> nat \<Rightarrow> nat \<Rightarrow> int \<Rightarrow> (unit, gstate) act" where
  "name_cell E object ref i =
     (let n = i32 (i + 1); nd = num_digits n; len = u16 (nd + 1) in
     andthen (print_name E True ''getmatvar:mallocErrShNaRefFO'' len (dec_int n @ ascii ''}'')) (\<lambda>s.
     andthen (get_obj ref) (\<lambda>r.
     andthen (put_obj ref (r\<lparr>names := (names r)\<lparr>short_name_length := len, short_name := Some s\<rparr>\<rparr>)) (\<lambda>_.
     andthen (get_obj object) (\<lambda>d.
     let len = u16 (long_name_length (names d) + 1 + nd + 1) in
     andthen (nn (long_name (names d))) (\<lambda>l.
     andthen (print_name E True ''getmatvar:mallocErrLoNaRefFO'' len (l @ ascii ''{'' @ dec_int n @ ascii ''}'')) (\<lambda>s.
     andthen (get_obj ref) (\<lambda>r.
       put_obj ref (r\<lparr>names := (names r)\<lparr>long_name_length := len, long_name := Some s\<rparr>\<rparr>)))))))))"

text \<open>In a struct array the result of the allocations is not looked at, the object's own names are.\<close>

definition name_struct_elem :: "env \<Rightarrow> nat \<Rightarrow> nat \<Rightarrow> int \<Rightarrow> (unit, gstate) act" where
  "name_struct_elem E object ref i =
     (let n = i32 (i + 1); nd = num_digits n in
     andthen (get_obj object) (\<lambda>d.
     let len = u16 (short_name_length (names d)) in
     andthen (guard (short_name (names d) \<noteq> None) (RetErr ''getmatvar:mallocErrShNaFO'')) (\<lambda>_.
     andthen (nn (short_name (names d))) (\<lambda>sn.
     andthen (print_name E False '''' len sn) (\<lambda>s.
     andthen (get_obj ref) (\<lambda>r.
     andthen (put_obj ref (r\<lparr>names := (names r)\<lparr>short_name_length := len, short_name := Some s\<rparr>\<rparr>)) (\<lambda>_.
     andthen (super_of object) (\<lambda>si.
     andthen (get_obj si) (\<lambda>super.
     andthen (get_obj object) (\<lambda>d.
     let len = u16 (long_name_length (names super) + 1 + nd + 1 + 1 + short_name_length (names d)) in
     andthen (guard (long_name (names d) \<noteq> None) (RetErr ''getmatvar:mallocErrLoNaFO'')) (\<lambda>_.
     andthen (nn (long_name (names super))) (\<lambda>l.
     andthen (nn (short_name (names d))) (\<lambda>sn.
     andthen (print_name E False '''' len (l @ ascii ''('' @ dec_int n @ ascii '').'' @ sn)) (\<lambda>s.
     andthen (get_obj ref) (\<lambda>r.
       put_obj ref (r\<lparr>names := (names r)\<lparr>long_name_length := len, long_name := Some s\<rparr>\<rparr>))))))))))))))))"

text \<open>An object that is a member already is copied (and the copy is looked for among the rest).\<close>

fun copy_if_member :: "nat \<Rightarrow> env \<Rightarrow> nat \<Rightarrow> nat \<Rightarrow> nat \<Rightarrow> (nat, gstate) act" where
  "copy_if_member depth E object ref 0 = ret ref"
| "copy_if_member depth E object ref (Suc n) =
     andthen (sub_op object (some_or_fault lq_dequeue)) (\<lambda>obj.
     andthen (if obj = ref then cloneData depth E obj else ret ref) (\<lambda>ref.
       copy_if_member depth E object ref n))"

definition read_offset :: "env \<Rightarrow> nat \<Rightarrow> int \<Rightarrow> (int, gstate) act" where
  "read_offset E object i =
     andthen (get_obj object) (\<lambda>d.
     andthen (nn (sub_object_header_offsets (data_arrays d))) (\<lambda>a.
     andthen (lift_res (rd a (8 * i) 8)) (\<lambda>bs.
     andthen (gets s_block) (\<lambda>sb. ret (i64 (mem_num (host E) bs + base_address sb))))))"

definition add_cell :: "nat \<Rightarrow> env \<Rightarrow> nat \<Rightarrow> int \<Rightarrow> (unit, gstate) act" where
  "add_cell depth E object i =
     andthen (read_offset E object i) (\<lambda>a.
     andthen (findObjectByHeaderAddress a) (\<lambda>o_ref.
     andthen (case o_ref of None \<Rightarrow> fail (RetErr ''getmatvar:internalError'') | Some ref \<Rightarrow> ret ref) (\<lambda>ref.
     andthen (sub_op object (peek lq_len)) (\<lambda>n.
     andthen (copy_if_member depth E object ref n) (\<lambda>ref.
     andthen (sub_op object (quiet lq_restart)) (\<lambda>_.
     andthen (get_obj ref) (\<lambda>r.
     andthen (put_obj ref (r\<lparr>s_c_array_index := i\<rparr>)) (\<lambda>_.
     andthen (sub_op object (put_back ref)) (\<lambda>_.
     andthen (get_obj ref) (\<lambda>r.
     andthen (put_obj ref (r\<lparr>names := drop_names (names r)\<rparr>)) (\<lambda>_.
     andthen (get_obj object) (\<lambda>d.
     andthen (if is_struct_array (data_flags d) then name_struct_elem E object ref i else name_cell E object ref i) (\<lambda>_.
     andthen (get_obj ref) (\<lambda>r.
       put_obj ref (r\<lparr>super_object := Some object\<rparr>)))))))))))))))"

fun add_cells :: "nat \<Rightarrow> env \<Rightarrow> nat \<Rightarrow> int \<Rightarrow> nat \<Rightarrow> (unit, gstate) act" where
  "add_cells depth E object i 0 = ret ()"
| "add_cells depth E object i (Suc n) =
     andthen (add_cell depth E object i) (\<lambda>_. add_cells depth E object (i + 1) n)"

section \<open>fillObject\<close>

text \<open>
  What the run of the program depends on besides the file: the decompressor, the order of the
  threads (for each object), and the bounds on the depth of the chunk tree and of the copies.
\<close>

record rt =
  rt_dec :: inflater
  rt_sched :: "nat \<Rightarrow> thread list"
  rt_depth :: nat

definition read_header :: "env \<Rightarrow> nat \<Rightarrow> int \<Rightarrow> (int \<times> int, gstate) act" where
  "read_header E object address =
     andthen (hold E address 12) (\<lambda>h.
     andthen (lift_res (getMeta E (held_view h) (held_ptr h + 8) 4)) (\<lambda>n.
     andthen (lift_res (getMeta E (held_view h) (held_ptr h + 2) 2)) (\<lambda>k.
     andthen (get_obj object) (\<lambda>d.
     andthen (put_obj object (d\<lparr>this_obj_address := address\<rparr>)) (\<lambda>_.
     andthen (st_releasePages (held_map h)) (\<lambda>_.
       ret (u32 n, u16 k)))))))"

text \<open>Compact and contiguous storage: one run of elements from a mapping.\<close>

definition place_mapping :: "env \<Rightarrow> nat \<Rightarrow> (unit, gstate) act" where
  "place_mapping E object =
     andthen (get_obj object) (\<lambda>d.
     andthen (hold E (data_address d) (u64 (u64 (num_elems d) * elem_size d))) (\<lambda>h.
     andthen (get_obj object) (\<lambda>d.
     andthen (lift_res (placeData E d False (held_view h) (held_ptr h) 0 0 (num_elems d) (elem_size d) (byte_order d))) (\<lambda>(d, _).
     andthen (put_obj object d) (\<lambda>_.
       st_releasePages (held_map h))))))"

definition fetch_data :: "env \<Rightarrow> rt \<Rightarrow> nat \<Rightarrow> (unit, gstate) act" where
  "fetch_data E R object =
     andthen (get_obj object) (\<lambda>d.
       if layout_class d = 0 \<or> layout_class d = 1 then place_mapping E object
       else if layout_class d = 2 then getChunkedData E (rt_dec R) (rt_depth R) (rt_sched R object) object
       else if layout_class d = 3 then ret ()
       else fail (RetErr ''getmatvar:unknownLayoutClassError''))"

definition fill_cells :: "env \<Rightarrow> rt \<Rightarrow> nat \<Rightarrow> (unit, gstate) act" where
  "fill_cells E R object =
     andthen (get_obj object) (\<lambda>d.
       if sub_object_header_offsets (data_arrays d) \<noteq> None \<and> hdf5_internal_type d = HDF5_REFERENCE then
         andthen (sub_op object (\<lambda>q. Inr (lq_flush q))) (\<lambda>_.
         andthen (get_obj object) (\<lambda>d.
         andthen (put_obj object (d\<lparr>num_sub_objs := u32 (num_elems d)\<rparr>)) (\<lambda>_.
           add_cells (rt_depth R) E object 0 (nat (num_elems d)))))
       else ret ())"

text \<open>The result of \<open>collectMetaData\<close> is ignored: an object whose header is not understood is filled from what was read.\<close>

definition fillObject :: "env \<Rightarrow> rt \<Rightarrow> nat \<Rightarrow> int \<Rightarrow> (unit, gstate) act" where
  "fillObject E R object address =
     andthen (get_obj object) (\<lambda>d.
       if is_filled (data_flags d) then ret ()
       else
         andthen (put_obj object (d\<lparr>data_flags := (data_flags d)\<lparr>is_filled := True\<rparr>\<rparr>)) (\<lambda>_.
         andthen (read_header E object address) (\<lambda>(header_length, num_msgs).
         andthen (ignore (collectMetaData E object (i64 (address + 16)) num_msgs header_length)) (\<lambda>_.
         andthen (get_obj object) (\<lambda>d.
           if MATLAB_empty (matlab_internal_attributes d) then ret ()
           else
             andthen (guard (\<not> (hdf5_internal_type d = HDF5_UNKNOWN \<and> matlab_internal_type d = mxUNKNOWN_CLASS))
                (RetErr ''getmatvar:unknownDataTypeError'')) (\<lambda>_.
             andthen (lift_res (allocateSpace E d)) (\<lambda>d.
             andthen (put_obj object d) (\<lambda>_.
             andthen (fetch_data E R object) (\<lambda>_.
               fill_cells E R object))))))))) "

end
