(* ===== verification/FillVariable.thy ===== *)
theory FillVariable
  imports FillObject
begin

text \<open>
  The second half of \<^verbatim>\<open>src/src/fillDataObjects.c\<close>: \<open>fillDataTree\<close> fills an object and all below
  it, \<open>fillVariable\<close> goes down the pieces of a variable's name and fills what it names, or fills
  everything when the name is empty. Each step along the name is a definition of its own.
\<close>

section \<open>fillDataTree\<close>

fun fill_subs :: "(nat \<Rightarrow> (unit, gstate) act) \<Rightarrow> nat \<Rightarrow> nat \<Rightarrow> (unit, gstate) act" where
  "fill_subs fill object 0 = ret ()"
| "fill_subs fill object (Suc n) =
     andthen (sub_op object (some_or_fault lq_traverse)) (\<lambda>obj.
     andthen (fill obj) (\<lambda>_. fill_subs fill object n))"

definition fill_tree_step :: "env \<Rightarrow> rt \<Rightarrow> (nat \<Rightarrow> (unit, gstate) act) \<Rightarrow> nat \<Rightarrow> (unit, gstate) act" where
  "fill_tree_step E R fill object =
     andthen (get_obj object) (\<lambda>d.
     andthen (fillObject E R object (this_obj_address d)) (\<lambda>_.
     andthen (sub_op object (quiet lq_init_traversal)) (\<lambda>_.
     andthen (get_obj object) (\<lambda>d.
       fill_subs fill object (nat (num_sub_objs d))))))"

fun fillDataTree :: "nat \<Rightarrow> env \<Rightarrow> rt \<Rightarrow> nat \<Rightarrow> (unit, gstate) act" where
  "fillDataTree 0 E R = (\<lambda>object. fail OutOfFuel)"
| "fillDataTree (Suc fuel) E R = fill_tree_step E R (fillDataTree fuel E R)"

section \<open>fillVariable\<close>

text \<open>Everything: the members of the root, except those whose name starts with \<open>#\<close>.\<close>

fun fill_all :: "env \<Rightarrow> rt \<Rightarrow> nat \<Rightarrow> nat \<Rightarrow> nat \<Rightarrow> (unit, gstate) act" where
  "fill_all E R fuel v 0 = ret ()"
| "fill_all E R fuel v (Suc n) =
     andthen (sub_op v (some_or_fault lq_dequeue)) (\<lambda>obj.
     andthen (get_obj obj) (\<lambda>d.
     andthen (nn (short_name (names d))) (\<lambda>s.
     andthen (if s \<noteq> [] \<and> hd s = 35 then ret ()
              else andthen (fillDataTree fuel E R obj) (\<lambda>_. tq_op (put_back obj))) (\<lambda>_.
       fill_all E R fuel v n))))"

definition notFound :: "int \<Rightarrow> cstr \<Rightarrow> string \<Rightarrow> error" where
  "notFound overhead variable_name err =
     (if overhead + strlen variable_name + 1 \<le> 1000 then Abort err else Fault)"

text \<open>The member found, or the error: a message with the name is printed into a buffer of 1000 bytes.\<close>

definition must_find :: "cstr \<Rightarrow> (nat option, gstate) act \<Rightarrow> (nat, gstate) act" where
  "must_find variable_name look =
     andthen look (\<lambda>o_i. case o_i of Some i \<Rightarrow> ret i | None \<Rightarrow> fail (notFound 27 variable_name ''getmatvar:variableNotFound''))"

definition fill_here :: "env \<Rightarrow> rt \<Rightarrow> nat \<Rightarrow> (unit, gstate) act" where
  "fill_here E R object = andthen (get_obj object) (\<lambda>d. fillObject E R object (this_obj_address d))"

definition next_token :: "(nat, gstate) act" where
  "next_token = vq_op (some_or_fault lq_dequeue)"

text \<open>The element of \<open>object\<close> the token \<open>ti\<close> selects; coordinates are turned into an index, which is stored.\<close>

definition select_elem :: "cstr \<Rightarrow> nat \<Rightarrow> nat \<Rightarrow> (nat, gstate) act" where
  "select_elem variable_name ti object =
     andthen (get_token ti) (\<lambda>t.
     andthen (if variable_name_type t = VT_LOCAL_COORDINATES then
                andthen (get_obj object) (\<lambda>d.
                andthen (lift_res (coordToInd (variable_local_coordinates t)
                    (case dims d of None \<Rightarrow> [] | Some ds \<Rightarrow> ds) (num_dims d))) (\<lambda>k.
                andthen (put_token ti (t\<lparr>variable_local_index := k\<rparr>)) (\<lambda>_. ret k)))
              else ret (variable_local_index t)) (\<lambda>k.
       must_find variable_name (findSubObjectBySCIndex object k)))"

text \<open>\<open>MATLAB\<close> writes \<open>my_struct(3).dog\<close>, the file has \<open>my_struct.dog(3)\<close>.\<close>

definition step_index :: "env \<Rightarrow> rt \<Rightarrow> cstr \<Rightarrow> nat \<Rightarrow> nat \<Rightarrow> (nat, gstate) act" where
  "step_index E R variable_name ti object =
     andthen (fill_here E R object) (\<lambda>_.
     andthen (get_obj object) (\<lambda>d.
       if matlab_internal_type d = mxSTRUCT_CLASS then
         andthen (vq_op (peek lq_len)) (\<lambda>n.
         andthen (guard (n \<noteq> 0) (notFound 67 variable_name ''getmatvar:arrayElementError'')) (\<lambda>_.
         andthen next_token (\<lambda>fi.
         andthen (get_token fi) (\<lambda>field.
         andthen (must_find variable_name (findSubObjectByShortName object (variable_local_name field))) (\<lambda>object.
         andthen (fill_here E R object) (\<lambda>_.
         andthen (get_obj object) (\<lambda>d.
           if is_struct_array (data_flags d) then select_elem variable_name ti object else ret object)))))))
       else select_elem variable_name ti object))"

definition step_name :: "env \<Rightarrow> rt \<Rightarrow> cstr \<Rightarrow> cstr \<Rightarrow> nat \<Rightarrow> (nat, gstate) act" where
  "step_name E R variable_name piece object =
     andthen (must_find variable_name (findSubObjectByShortName object piece)) (\<lambda>object.
     andthen (fill_here E R object) (\<lambda>_.
     andthen (get_obj object) (\<lambda>d.
     andthen (guard (\<not> is_struct_array (data_flags d)) (notFound 27 variable_name ''getmatvar:variableNotFound'')) (\<lambda>_.
       ret object))))"

definition select_step :: "env \<Rightarrow> rt \<Rightarrow> cstr \<Rightarrow> nat \<Rightarrow> (nat, gstate) act" where
  "select_step E R variable_name object =
     andthen next_token (\<lambda>ti.
     andthen (get_token ti) (\<lambda>t.
       case variable_name_type t of
         VT_LOCAL_NAME \<Rightarrow> step_name E R variable_name (variable_local_name t) object
       | VT_UNKNOWN \<Rightarrow> ret object
       | _ \<Rightarrow> step_index E R variable_name ti object))"

text \<open>\<open>do ... while(varname_queue->length > 0)\<close>; each round takes a token, so the length bounds the rounds.\<close>

fun select_loop :: "env \<Rightarrow> rt \<Rightarrow> cstr \<Rightarrow> nat \<Rightarrow> nat \<Rightarrow> (nat, gstate) act" where
  "select_loop E R variable_name 0 object = fail OutOfFuel"
| "select_loop E R variable_name (Suc fuel) object =
     andthen (select_step E R variable_name object) (\<lambda>object.
     andthen (vq_op (peek lq_len)) (\<lambda>n.
       if 0 < n then select_loop E R variable_name fuel object else ret object))"

text \<open>An object that is below one selected before is copied.\<close>

fun already_selected :: "nat \<Rightarrow> nat \<Rightarrow> nat \<Rightarrow> (bool, gstate) act" where
  "already_selected depth object 0 = ret False"
| "already_selected depth object (Suc n) =
     andthen (tq_op (some_or_fault lq_traverse)) (\<lambda>cmp_obj.
     andthen (checkTree depth cmp_obj object) (\<lambda>b.
       if b then ret True else already_selected depth object n))"

definition add_top :: "env \<Rightarrow> rt \<Rightarrow> nat \<Rightarrow> (unit, gstate) act" where
  "add_top E R object =
     andthen (tq_op (quiet lq_init_traversal)) (\<lambda>_.
     andthen (tq_op (peek lq_tlen)) (\<lambda>n.
     andthen (already_selected (rt_depth R) object n) (\<lambda>b.
     andthen (if b then (\<lambda>g. case cloneData (rt_depth R) E object g of (Inl (RetErr e), g') \<Rightarrow> (Inl Fault, g') | r \<Rightarrow> r)
              else ret object) (\<lambda>object.
       tq_op (put_back object)))))"

text \<open>The result of \<open>makeVarnameQueue\<close> is ignored too.\<close>

definition fillVariable :: "env \<Rightarrow> rt \<Rightarrow> nat \<Rightarrow> cstr \<Rightarrow> (unit, gstate) act" where
  "fillVariable E R fuel variable_name =
     andthen (gets is_done) (\<lambda>is_d.
     andthen (gets virtual_super_object) (\<lambda>v.
       if is_d then ret ()
       else
         andthen (nn v) (\<lambda>v.
           if variable_name = [] then
             andthen (modify (\<lambda>g. g\<lparr>is_getting_everything := True\<rparr>)) (\<lambda>_.
             andthen (get_obj v) (\<lambda>d.
             andthen (fill_all E R fuel v (nat (num_sub_objs d))) (\<lambda>_.
             andthen (sub_op v (quiet lq_restart)) (\<lambda>_.
               modify (\<lambda>g. g\<lparr>is_done := True\<rparr>)))))
           else
             andthen (modify (\<lambda>g. g\<lparr>is_getting_everything := False\<rparr>)) (\<lambda>_.
             andthen (ignore (makeVarnameQueue E variable_name)) (\<lambda>_.
             andthen (vq_op (peek lq_len)) (\<lambda>n.
             andthen (select_loop E R variable_name (n + 1) v) (\<lambda>object.
             andthen (fillDataTree fuel E R object) (\<lambda>_.
               add_top E R object))))))))"

end
