(* ===== verification/NameProps.thy ===== *)
theory NameProps
  imports FillVariable
begin

text \<open>
  What is proved of the names: spaces are removed in place, a number of at most 255 digits is read
  and a longer one never, printed numbers are read back, and the buffers for the printed names of
  cells are as long as they have to be.
\<close>

section \<open>removeSpaces\<close>

lemma remove_loop_run:
  "0 \<notin> set rest \<Longrightarrow> length rest < n \<Longrightarrow>
   \<exists>mid'. remove_loop n (pre @ mid @ rest @ 0 # post) (int (length pre)) (int (length (pre @ mid))) =
     Inr (pre @ filter (\<lambda>c. c \<noteq> 32) rest @ 0 # mid') \<and>
     length (pre @ filter (\<lambda>c. c \<noteq> 32) rest @ 0 # mid') = length (pre @ mid @ rest @ 0 # post)"
proof (induction rest arbitrary: n pre mid)
  case Nil
  then obtain k where n: "n = Suc k" by (cases n) auto
  have get: "aget (pre @ mid @ 0 # post) (int (length (pre @ mid))) = Inr 0"
    using aget_append [of "pre @ mid" 0 post] by simp
  obtain g gs where g: "mid @ 0 # post = g # gs" "length gs = length mid + length post" by (cases mid) auto
  have "aset (pre @ mid @ 0 # post) (int (length pre)) 0 = Inr (pre @ 0 # gs)"
    unfolding g(1) by simp
  then show ?case using get g(2) by (intro exI [of _ gs]) (simp add: n)
next
  case (Cons c rest)
  then obtain k where n: "n = Suc k" by (cases n) auto
  have c: "c \<noteq> 0" "0 \<notin> set rest" "length rest < k" using Cons.prems n by auto
  have get: "aget (pre @ mid @ c # rest @ 0 # post) (int (length (pre @ mid))) = Inr c"
    using aget_append [of "pre @ mid" c] by simp
  obtain gs where g: "aset (pre @ mid @ c # rest @ 0 # post) (int (length pre)) c = Inr (pre @ c # gs @ rest @ 0 # post)"
    "length gs = length mid"
  proof (cases mid)
    case Nil
    show ?thesis by (rule that [of "[]"]) (simp_all add: Nil)
  next
    case (Cons g gs)
    show ?thesis by (rule that [of "gs @ [c]"]) (simp_all add: Cons)
  qed
  let ?i = "int (length pre)" and ?j = "int (length (pre @ mid))"
  have step: "remove_loop n (pre @ mid @ (c # rest) @ 0 # post) ?i ?j =
      remove_loop k (pre @ c # gs @ rest @ 0 # post) (if c \<noteq> 32 then ?i + 1 else ?i) (?j + 1)"
    using get g(1) c(1) by (simp add: n)
  show ?case
  proof (cases "c = 32")
    case True
    have "remove_loop n (pre @ mid @ (c # rest) @ 0 # post) ?i ?j =
        remove_loop k (pre @ (c # gs) @ rest @ 0 # post) ?i (int (length (pre @ (c # gs))))"
      using step True g(2) by (simp add: algebra_simps)
    then show ?thesis using Cons.IH [OF c(2,3), of pre "c # gs"] True g(2) by simp
  next
    case False
    have "remove_loop n (pre @ mid @ (c # rest) @ 0 # post) ?i ?j =
        remove_loop k ((pre @ [c]) @ gs @ rest @ 0 # post) (int (length (pre @ [c]))) (int (length ((pre @ [c]) @ gs)))"
      using step False g(2) by (simp add: algebra_simps)
    then show ?thesis using Cons.IH [OF c(2,3), of "pre @ [c]" gs] False g(2) by simp
  qed
qed

text \<open>C30. \<open>removeSpaces\<close>, which works in place with two pointers, leaves the string without its spaces.\<close>

theorem removeSpaces_filters:
  assumes "0 \<notin> set s"
  shows "\<exists>buf. removeSpaces (s @ [0]) = Inr buf \<and> length buf = length s + 1 \<and> cstr_at buf 0 = Inr (filter (\<lambda>c. c \<noteq> 32) s)"
proof -
  obtain mid' where r: "removeSpaces (s @ [0]) = Inr (filter (\<lambda>c. c \<noteq> 32) s @ 0 # mid')"
    "length (filter (\<lambda>c. c \<noteq> 32) s @ 0 # mid') = length (s @ [0])"
    using remove_loop_run [OF assms, of "Suc (length (s @ [0]))" "[]" "[]" "[]"] by (auto simp: removeSpaces_def simp del: remove_loop.simps)
  have "0 \<notin> set (filter (\<lambda>c. c \<noteq> 32) s)" using assms by simp
  then show ?thesis
    using r cstr_at_zero [of "filter (\<lambda>c. c \<noteq> 32) s" "[]" mid'] by auto
qed

lemma removeSpaces_filters_witness:
  "\<exists>buf. removeSpaces (ascii ''a b '' @ [0]) = Inr buf \<and> cstr_at buf 0 = Inr (ascii ''ab'')"
  using removeSpaces_filters [of "ascii ''a b ''"] by (auto simp: ascii_def of_char_def)

section \<open>Numbers\<close>

definition is_digit :: "byte \<Rightarrow> bool" where
  "is_digit c \<longleftrightarrow> 0 \<le> digit_val c \<and> digit_val c \<le> 9"

lemma i64_shift_digit: "i64 (i64 x * 10 + y) = i64 (x * 10 + y)"
  by (metis i64_absorb(1,5))

lemma number_loop_run:
  "length s \<le> 255 \<Longrightarrow> k \<le> length s \<Longrightarrow> length s - k < n \<Longrightarrow>
   number_loop n s (int k) (i64 acc) = Inr (i64 (dec_value (drop k s) acc))"
proof (induction n arbitrary: k acc)
  case (Suc n)
  show ?case
  proof (cases "k < length s")
    case True
    have u: "u8 (int k + 1) = int (Suc k)" using True Suc.prems(1) by (simp add: u8_def)
    have d: "drop k s = s ! k # drop (Suc k) s" using True by (rule Cons_nth_drop_Suc [symmetric])
    have "number_loop (Suc n) s (int k) (i64 acc) = number_loop n s (int (Suc k)) (i64 (acc * 10 + digit_val (s ! k)))"
      using True u by (simp add: strlen_def i64_shift_digit)
    also have "\<dots> = Inr (i64 (dec_value (drop (Suc k) s) (acc * 10 + digit_val (s ! k))))"
      using Suc.prems True by (intro Suc.IH) auto
    finally show ?thesis by (simp add: d)
  next
    case False
    then show ?thesis using Suc.prems(2) by (simp add: strlen_def)
  qed
qed simp

lemma number_loop_stuck:
  "256 \<le> length s \<Longrightarrow> 0 \<le> j \<Longrightarrow> j \<le> 255 \<Longrightarrow> number_loop n s j acc = Inl OutOfFuel"
proof (induction n arbitrary: j acc)
  case (Suc n)
  have u: "0 \<le> u8 (j + 1)" "u8 (j + 1) \<le> 255" by (simp_all add: u8_def)
  have "aget s j = Inr (s ! nat j)" using Suc.prems by (intro aget_ok) auto
  then show ?case using Suc.prems Suc.IH [OF Suc.prems(1) u] by (simp add: strlen_def)
qed simp

lemma classify_stuck:
  "256 \<le> length s \<Longrightarrow> \<forall>c \<in> set (take 256 s). is_digit c \<Longrightarrow> 0 \<le> i \<Longrightarrow> i \<le> 255 \<Longrightarrow> classify n s i idx = Inl OutOfFuel"
proof (induction n arbitrary: i idx)
  case (Suc n)
  have u: "0 \<le> u8 (i + 1)" "u8 (i + 1) \<le> 255" by (simp_all add: u8_def)
  have g: "aget s i = Inr (s ! nat i)" using Suc.prems by (intro aget_ok) auto
  have "s ! nat i \<in> set (take 256 s)" using Suc.prems by (auto simp: in_set_conv_nth intro!: exI [of _ "nat i"])
  then have "is_digit (s ! nat i)" using Suc.prems(2) by blast
  then show ?case using Suc.prems g Suc.IH [OF Suc.prems(1,2) u] by (simp add: strlen_def is_digit_def)
qed simp

text \<open>C38. The counters of the two loops that read digits have eight bits: on 256 digits neither of them ends, whatever
  number of rounds is granted.\<close>

theorem long_number_never_read:
  assumes "256 \<le> length s" "\<forall>c \<in> set (take 256 s). is_digit c"
  shows "classify n s 0 0 = Inl OutOfFuel \<and> number_loop n s 0 0 = Inl OutOfFuel"
  using classify_stuck [OF assms, of 0] number_loop_stuck [OF assms(1), of 0] by simp

lemma long_number_never_read_witness:
  "classify 1000 (replicate 256 49) 0 0 = Inl OutOfFuel \<and> number_loop 1000 (replicate 256 49) 0 0 = Inl OutOfFuel"
  using long_number_never_read [of "replicate 256 49" 1000] by (simp add: is_digit_def digit_val_def)

lemma classify_digits:
  "length s \<le> 255 \<Longrightarrow> k \<le> length s \<Longrightarrow> length s - k < n \<Longrightarrow> \<forall>c \<in> set s. is_digit c \<Longrightarrow>
   classify n s (int k) (i64 acc) = Inr (VT_LOCAL_INDEX, i64 (dec_value (drop k s) acc - 1))"
proof (induction n arbitrary: k acc)
  case (Suc n)
  show ?case
  proof (cases "k < length s")
    case True
    have u: "u8 (int k + 1) = int (Suc k)" using True Suc.prems(1) by (simp add: u8_def)
    have d: "drop k s = s ! k # drop (Suc k) s" using True by (rule Cons_nth_drop_Suc [symmetric])
    have "is_digit (s ! k)" using True Suc.prems(4) by simp
    then have "classify (Suc n) s (int k) (i64 acc) = classify n s (int (Suc k)) (i64 (acc * 10 + digit_val (s ! k)))"
      using True u by (simp add: strlen_def is_digit_def i64_shift_digit)
    also have "\<dots> = Inr (VT_LOCAL_INDEX, i64 (dec_value (drop (Suc k) s) (acc * 10 + digit_val (s ! k)) - 1))"
      using Suc.prems True by (intro Suc.IH) auto
    finally show ?thesis by (simp add: d)
  next
    case False
    then show ?thesis using Suc.prems(2) by (simp add: strlen_def)
  qed
qed simp

section \<open>Printing and reading numbers\<close>

lemma digit_val_digit: "d < 10 \<Longrightarrow> digit_val (of_nat (48 + d)) = int d"
proof -
  assume "d < 10"
  then have "d \<in> {0, 1, 2, 3, 4, 5, 6, 7, 8, 9}" by auto
  then show ?thesis by (auto simp: digit_val_def)
qed

lemma dec_value_append: "dec_value (s @ [c]) acc = dec_value s acc * 10 + digit_val c"
  by (induction s acc rule: dec_value.induct) simp_all

lemma dec_value_dec_nat: "dec_value (dec_nat n) 0 = int n"
proof (induction n rule: dec_nat.induct)
  case (1 n)
  show ?case
  proof (cases "n < 10")
    case True
    then show ?thesis using digit_val_digit [of n] by (subst dec_nat.simps) simp
  next
    case False
    have "dec_value (dec_nat n) 0 = int (n div 10) * 10 + int (n mod 10)"
      using 1 False digit_val_digit [of "n mod 10"] by (subst dec_nat.simps) (simp add: dec_value_append)
    then show ?thesis by (metis div_mult_mod_eq of_nat_add of_nat_mult of_nat_numeral)
  qed
qed

lemma dec_nat_digits: "\<forall>c \<in> set (dec_nat n). is_digit c"
proof (induction n rule: dec_nat.induct)
  case (1 n)
  show ?case
    using 1 digit_val_digit [of n] digit_val_digit [of "n mod 10"] by (subst dec_nat.simps) (auto simp: is_digit_def)
qed

lemma length_dec_nat: "int (length (dec_nat n)) = digit_count n"
proof (induction n rule: dec_nat.induct)
  case (1 n)
  then show ?case by (subst dec_nat.simps, subst digit_count.simps) auto
qed

lemma digit_count_le: "n < 10 ^ k \<Longrightarrow> 0 < k \<Longrightarrow> digit_count n \<le> int k"
proof (induction k arbitrary: n)
  case (Suc k)
  show ?case
  proof (cases "n div 10 = 0")
    case True
    then show ?thesis by (subst digit_count.simps) simp
  next
    case False
    have "n div 10 < 10 ^ k" using Suc.prems(1) by (auto simp: div_less_iff_less_mult ac_simps)
    moreover have "0 < k" using False Suc.prems(1) by (cases k) auto
    ultimately show ?thesis using Suc.IH [of "n div 10"] False by (subst digit_count.simps) simp
  qed
qed simp

text \<open>C31. The number a cell is printed with (\<open>i + 1\<close>) is read back as the index \<open>i\<close> of the cell.\<close>

theorem printed_index_read_back:
  assumes "n < 2 ^ 63 - 1"
  shows "classify 257 (dec_int (int n + 1)) 0 0 = Inr (VT_LOCAL_INDEX, int n)"
proof -
  have s: "dec_int (int n + 1) = dec_nat (Suc n)" by (simp add: dec_int_def nat_add_distrib)
  have "Suc n < 10 ^ 19" using assms by simp
  then have "length (dec_nat (Suc n)) \<le> 19" using digit_count_le [of "Suc n" 19] length_dec_nat [of "Suc n"] by simp
  then have "classify 257 (dec_nat (Suc n)) (int 0) (i64 0) = Inr (VT_LOCAL_INDEX, i64 (dec_value (drop 0 (dec_nat (Suc n))) 0 - 1))"
    by (intro classify_digits) (simp_all add: dec_nat_digits)
  then show ?thesis using assms by (simp add: s dec_value_dec_nat i64_def)
qed

lemma printed_index_read_back_witness: "classify 257 (dec_int 42) 0 0 = Inr (VT_LOCAL_INDEX, 41)"
  using printed_index_read_back [of 41] by simp

section \<open>A name without pieces\<close>

lemma split_at_empty: "set s \<subseteq> set delim \<Longrightarrow> split_at delim s [] = []"
  by (induction s) auto

text \<open>C37. A name that has only dots, brackets and spaces has no pieces, and the code then uses the token it does not get:
  the program crashes.\<close>

theorem empty_selection_faults:
  assumes name: "variable_name \<noteq> []" "set variable_name \<subseteq> insert 32 (set (ascii ''.{}()''))"
    and g: "\<not> is_done g" "virtual_super_object g = Some v" "varname_queue g = Some (lq_init True)"
    and ok: "malloc_ok E (strlen variable_name + 1)"
  shows "fst (fillVariable E R fuel variable_name g) = Inl Fault"
proof -
  have "0 \<notin> set variable_name" using name(2) by (auto simp: ascii_def of_char_def)
  then obtain buf where buf: "removeSpaces (variable_name @ [0]) = Inr buf"
    "cstr_at buf 0 = Inr (filter (\<lambda>c. c \<noteq> 32) variable_name)"
    using remove_loop_run [of variable_name "Suc (length (variable_name @ [0]))" "[]" "[]" "[]"]
      cstr_at_zero [of "filter (\<lambda>c. c \<noteq> 32) variable_name" "[]"]
    by (fastforce simp: removeSpaces_def simp del: remove_loop.simps)
  have "strtok_all (ascii ''.{}()'') (filter (\<lambda>c. c \<noteq> 32) variable_name) = []"
    using name(2) by (auto simp: strtok_all_def intro!: split_at_empty)
  then have "makeVarnameQueue E variable_name (g\<lparr>is_getting_everything := False\<rparr>) =
      (Inr (), g\<lparr>is_getting_everything := False, varname_queue := Some (lq_init True)\<rparr>)"
    using buf g(3) ok
    by (simp add: makeVarnameQueue_def vq_op_def queue_op_def lq_flush_def lq_init_def andthen_def gets_def nn_def guard_def
        peek_def quiet_def lq_restart_def pos_of_def)
  then show ?thesis
    using g name(1)
    by (simp add: fillVariable_def ignore_def vq_op_def queue_op_def peek_def lq_init_def select_step_def next_token_def
        some_or_fault_def lq_dequeue_def andthen_def gets_def nn_def)
qed

lemma empty_selection_faults_witness:
  "fst (fillVariable (demo_env []) \<lparr>rt_dec = \<lambda>a b. (0, a), rt_sched = \<lambda>i. [], rt_depth = 1\<rparr> 1 (ascii ''. ()'')
     (demo_state\<lparr>virtual_super_object := Some 0, varname_queue := Some (lq_init True)\<rparr>)) = Inl Fault"
  using empty_selection_faults [of "ascii ''. ()''" "demo_state\<lparr>virtual_super_object := Some 0, varname_queue := Some (lq_init True)\<rparr>" 0]
  by (simp add: ascii_def of_char_def demo_state_def initialize_def)

section \<open>Names of cells\<close>

lemma num_digits_of: "0 \<le> n \<Longrightarrow> n < 2 ^ 31 \<Longrightarrow> num_digits n = strlen (dec_int n) \<and> 1 \<le> num_digits n \<and> num_digits n \<le> 10"
proof -
  assume n: "0 \<le> n" "n < 2 ^ 31"
  then have "nat n < 10 ^ 10" by simp
  then have "digit_count (nat n) \<le> 10" using digit_count_le [of "nat n" 10] by simp
  moreover have "1 \<le> digit_count (nat n)" using length_dec_nat [of "nat n"] by (subst (asm) dec_nat.simps) (auto split: if_splits)
  ultimately show ?thesis using n length_dec_nat [of "nat n"] by (simp add: num_digits_def dec_int_def strlen_def u16_def)
qed

text \<open>C32. Cell \<open>i\<close> of a variable \<open>l\<close> is called \<open>i+1}\<close> and \<open>l{i+1}\<close>: the lengths that are computed before the text is
  printed are the lengths of the texts, so neither block is overrun.\<close>

theorem name_cell_fits:
  assumes i: "0 \<le> i" "i < 2 ^ 31 - 1" and ref: "slook (objs g) ref = Inr r" and obj: "slook (objs g) object = Inr d"
    and ne: "object \<noteq> ref" and l: "long_name (names d) = Some l" "long_name_length (names d) = strlen l" "strlen l < 65000"
    and ok: "\<And>n. malloc_ok E n"
  shows "\<exists>g' r'. name_cell E object ref i g = (Inr (), g') \<and> slook (objs g') ref = Inr r' \<and>
    short_name (names r') = Some (dec_int (i + 1) @ ascii ''}'') \<and>
    long_name (names r') = Some (l @ ascii ''{'' @ dec_int (i + 1) @ ascii ''}'') \<and>
    short_name_length (names r') = strlen (dec_int (i + 1) @ ascii ''}'') \<and>
    long_name_length (names r') = strlen (l @ ascii ''{'' @ dec_int (i + 1) @ ascii ''}'')"
proof -
  have n: "i32 (i + 1) = i + 1" using i by (simp add: i32_id)
  obtain nd where nd: "nd = num_digits (i + 1)" "nd = strlen (dec_int (i + 1))" "1 \<le> nd" "nd \<le> 10"
    using num_digits_of [of "i + 1"] i by simp
  have b: "strlen (ascii ''}'') = 1" "strlen (ascii ''{'') = 1" by (simp_all add: strlen_def ascii_def)
  have sl: "0 \<le> strlen l" by (simp add: strlen_def)
  have len: "u16 (nd + 1) = nd + 1" "u16 (strlen l + 1 + nd + 1) = strlen l + 1 + nd + 1"
    using nd l(3) sl by (simp_all add: u16_def)
  have len': "u16 (strlen (dec_int (i + 1)) + 1) = strlen (dec_int (i + 1)) + 1"
    "u16 (2 + (strlen l + strlen (dec_int (i + 1)))) = 2 + (strlen l + strlen (dec_int (i + 1)))"
    using nd l(3) sl by (simp_all add: u16_def)
  have app: "strlen (xs @ ys) = strlen xs + strlen ys" for xs ys by (simp add: strlen_def)
  show ?thesis
    using ref obj ne l nd ok b slook_range [OF ref]
    by (simp add: name_cell_def n Let_def print_name_def copy_fits_def get_obj_def put_obj_def andthen_def guard_def
        nn_def nd(1) [symmetric] len len' app slook_upd_other [OF ne [symmetric]])
qed

lemma name_cell_fits_witness:
  "\<exists>g' r'. name_cell (demo_env []) 0 1 9 (demo_state\<lparr>objs := [Some ((blank_object (lq_init False))\<lparr>names :=
      \<lparr>long_name_length = 1, long_name = Some (ascii ''c''), short_name_length = 1, short_name = Some (ascii ''c'')\<rparr>\<rparr>),
      Some (blank_object (lq_init False))]\<rparr>) = (Inr (), g') \<and> slook (objs g') 1 = Inr r' \<and>
    long_name (names r') = Some (ascii ''c'' @ ascii ''{'' @ dec_int 10 @ ascii ''}'')"
proof -
  let ?d = "(blank_object (lq_init False))\<lparr>names :=
      \<lparr>long_name_length = 1, long_name = Some (ascii ''c''), short_name_length = 1, short_name = Some (ascii ''c'')\<rparr>\<rparr>"
  let ?g = "demo_state\<lparr>objs := [Some ?d, Some (blank_object (lq_init False))]\<rparr>"
  have "slook (objs ?g) 1 = Inr (blank_object (lq_init False))" "slook (objs ?g) 0 = Inr ?d" by (simp_all add: slook_def)
  from name_cell_fits [OF _ _ this, of 9 "ascii ''c''" "demo_env []"] show ?thesis
    by (auto simp: strlen_def ascii_def)
qed

end
