(* ===== verification/HeaderProps.thy ===== *)
theory HeaderProps
  imports FillObject
begin

text \<open>
  The header of an object is read in a bounded number of rounds, whatever the file holds: the loop of
  \<open>interpretMessages\<close> counts the messages, over the continuation blocks too, so \<open>num_msgs + 1\<close> rounds
  are enough. \<open>ends\<close> says of an action that it never runs out of its bound; its rules are collected.
\<close>

named_theorems ends

definition ends_res :: "'a res \<Rightarrow> bool" where
  "ends_res r \<longleftrightarrow> r \<noteq> Inl OutOfFuel"

definition ends :: "('a, 's) act \<Rightarrow> bool" where
  "ends m \<longleftrightarrow> (\<forall>s. fst (m s) \<noteq> Inl OutOfFuel)"

lemma ends_res_simps [simp]: "ends_res (Inr x)" "ends_res (Inl e) \<longleftrightarrow> e \<noteq> OutOfFuel"
  by (simp_all add: ends_res_def)

lemma ends_bnd [ends]: "ends_res m \<Longrightarrow> (\<And>x. ends_res (f x)) \<Longrightarrow> ends_res (bnd m f)"
  by (cases m) (auto simp: ends_res_def)

lemma ends_simps [simp]: "ends (ret x)" "ends (modify f)" "ends (gets h)" "ends (fail e) \<longleftrightarrow> e \<noteq> OutOfFuel"
  "ends (Pair (Inr x))" "ends (guard b e) \<longleftrightarrow> b \<or> e \<noteq> OutOfFuel" "ends (lift_res r) \<longleftrightarrow> ends_res r"
  by (auto simp: ends_def gets_def guard_def ends_res_def)

lemma ends_andthen [ends]: "ends m \<Longrightarrow> (\<And>x. ends (f x)) \<Longrightarrow> ends (andthen m f)"
  by (auto simp: ends_def andthen_def split: prod.splits sum.splits) (metis fst_conv)+

lemma ends_nn [simp]: "ends (nn x)"
  by (simp add: nn_def split: option.splits)

lemma ends_if [ends]: "(b \<Longrightarrow> ends m) \<Longrightarrow> (\<not> b \<Longrightarrow> ends m') \<Longrightarrow> ends (if b then m else m')"
  by simp

lemma ends_res_if [ends]: "(b \<Longrightarrow> ends_res m) \<Longrightarrow> (\<not> b \<Longrightarrow> ends_res m') \<Longrightarrow> ends_res (if b then m else m')"
  by simp

lemma ends_prod [ends]: "(\<And>x y. ends (f x y)) \<Longrightarrow> ends (case p of (x, y) \<Rightarrow> f x y)"
  by (cases p) simp

lemma ends_res_prod [ends]: "(\<And>x y. ends_res (f x y)) \<Longrightarrow> ends_res (case p of (x, y) \<Rightarrow> f x y)"
  by (cases p) simp

lemma ends_option [ends]: "ends m \<Longrightarrow> (\<And>x. ends (f x)) \<Longrightarrow> ends (case p of None \<Rightarrow> m | Some x \<Rightarrow> f x)"
  by (cases p) simp_all

lemma ends_let [ends]: "ends (f x) \<Longrightarrow> ends (let y = x in f y)" "ends_res (h x) \<Longrightarrow> ends_res (let y = x in h y)"
  by simp_all

section \<open>Numbers and messages\<close>

lemma ends_mem [simp]: "ends_res (rd m p n)" "ends_res (wr m p bs)" "ends_res (aget xs i)" "ends_res (aset xs i x)"
  "ends_res (ctake n xs)" "ends_res (cstr_at m p)" "ends_res (slook st k)"
  by (simp_all add: rd_def wr_def aget_def aset_def ctake_def cstr_at_def slook_def split: option.splits)

lemma ends_reverse [simp]: "ends_res (reverse_loop m a b)"
proof (induction m a b rule: reverse_loop.induct)
  case (1 m a b)
  then show ?case by (subst reverse_loop.simps) (auto intro!: ends simp: bnd_def split: sum.splits)
qed

lemma ends_getMeta [simp]: "ends_res (getMeta E m p n)" "ends_res (byte_at m p)"
  by (auto simp: getMeta_def getBytesAsNumber_def reverseBytes_def byte_at_def intro!: ends)

lemma ends_read_nums [simp]: "ends_res (read_nums E m p w n)"
  by (induction n arbitrary: p) (auto intro!: ends)

lemma ends_count_elems [simp]: "ends_res (count_elems ds acc)"
  by (induction ds acc rule: count_elems.induct) auto

lemma ends_prod_loop [simp]: "ends_res (prod_loop xs n)"
  by (induction n) (auto intro!: ends)

lemma ends_mcu_inner [simp]: "ends_res (mcu_inner C D k)"
  by (induction k) (auto intro!: ends)

lemma ends_mcu [simp]: "ends_res (makeChunkedUpdates upd C D n)"
proof -
  have "ends_res (mcu_outer upd C D k)" for k by (induction k) (auto intro!: ends)
  then show ?thesis by (simp add: makeChunkedUpdates_def)
qed

lemma ends_dataspace [simp]: "ends (readDataSpaceMessage E sb m p)"
  unfolding readDataSpaceMessage_def by (intro ends) simp_all

lemma ends_datatype [simp]: "ends (readDataTypeMessage E m p)"
  by (simp add: ends_def readDataTypeMessage_ends)

lemma ends_layout [simp]: "ends (readDataLayoutMessage E sb m p a)"
  unfolding readDataLayoutMessage_def by (intro ends) simp_all

lemma ends_filters: "(\<And>hp. ends_res (one hp)) \<Longrightarrow> ends (read_filters one n hp)"
  by (induction one n hp rule: read_filters.induct) (auto intro!: ends)

lemma ends_pipeline [simp]: "ends (readDataStoragePipelineMessage E m p)"
  unfolding readDataStoragePipelineMessage_def read_filter_v1_def read_filter_v2_def
  by (intro ends ends_filters) simp_all

lemma ends_attribute [simp]: "ends (readAttributeMessage E m p)"
  unfolding readAttributeMessage_def copy_name_def selectMatlabClass_def
  by (intro ends) (auto split: sum.splits intro!: ends simp: cstr_at_def)

section \<open>Navigation\<close>

lemma ends_queue [simp]: "ends_res (lq_enqueue q d)" "ends_res (lq_dequeue q)" "ends_res (lq_traverse q)"
  "ends_res (lq_peek_traverse q)" "ends_res (lq_remove_at_traverse q)"
  by (simp_all add: lq_enqueue_def lq_dequeue_def lq_traverse_def lq_peek_traverse_def lq_remove_at_traverse_def Let_def
      split: pos.splits)

lemma ends_mq_op [ends]: "(\<And>q. ends_res (f q)) \<Longrightarrow> ends (mq_op f)"
  by (auto simp: ends_def mq_op_def ends_res_def split: option.splits sum.splits)

lemma ends_maps [simp]: "ends (get_map i)" "ends (put_map i m)" "ends (get_obj i)" "ends (put_obj i d)"
  by (auto simp: ends_def get_map_def put_map_def get_obj_def put_obj_def slook_def split: option.splits)

lemma ends_free_map [simp]: "ends (freeMapObject E i)"
  unfolding freeMapObject_def unmap_def by (intro ends) simp_all

lemma ends_nav_scan [simp]: "ends (nav_scan n a k)"
  by (induction n) (auto intro!: ends)

lemma ends_nav_clean [simp]: "ends (nav_clean E n)"
  by (induction n) (auto intro!: ends)

lemma ends_navigate [simp]: "ends (st_navigateTo E a n)"
  unfolding st_navigateTo_def nav_evict_def unmap_def by (intro ends) simp_all

lemma ends_navigated [simp]: "ends (navigated E a n)"
  using ends_navigate [of E a n] by (auto simp: ends_def navigated_def split: prod.splits sum.splits error.splits) (metis fst_conv)+

lemma ends_view [simp]: "ends (st_view E i)" "ends (st_releasePages i)" "ends (hold E a n)"
  unfolding st_view_def st_releasePages_def hold_def by (intro ends; simp)+

lemma ends_read_msg [simp]: "ends a \<Longrightarrow> ends (read_msg oi a)"
  by (auto simp: ends_def read_msg_def andthen_def get_obj_def slook_def put_obj_def
      split: prod.splits sum.splits error.splits option.splits) (metis fst_conv)+

lemma ends_simple_msg [simp]: "ends (simple_msg E sb oi t m p a rp)"
  unfolding simple_msg_def Let_def by (intro ends) simp_all

section \<open>The loop over the messages\<close>

text \<open>A run of the loop ends, and gives the number of the last message read: not before the one it began with.\<close>

definition good_run :: "int \<Rightarrow> int \<Rightarrow> (int \<times> bool) res \<Rightarrow> bool" where
  "good_run num_msgs message_num r \<longleftrightarrow> ends_res r \<and>
     (\<forall>n. r = Inr (n, False) \<longrightarrow> 1 \<le> message_num \<longrightarrow> message_num \<le> n + 1 \<and> n < num_msgs)"

definition good_act :: "int \<Rightarrow> int \<Rightarrow> (int \<times> bool, gstate) act \<Rightarrow> bool" where
  "good_act num_msgs message_num m \<longleftrightarrow> (\<forall>g. good_run num_msgs message_num (fst (m g)))"

lemma good_andthen: "ends m \<Longrightarrow> (\<And>x. good_act n k (f x)) \<Longrightarrow> good_act n k (andthen m f)"
  by (auto simp: good_act_def ends_def andthen_def good_run_def ends_res_def split: prod.splits sum.splits) (metis fst_conv)+

lemma good_nested:
  assumes "good_act n k m" "1 \<le> k" "\<And>i. k \<le> i + 1 \<Longrightarrow> i < n \<Longrightarrow> good_act n l (f (i, False))" "\<And>i. good_act n l (f (i, True))"
  shows "good_act n l (andthen m f)"
  unfolding good_act_def
proof
  fix g
  obtain r g1 where r: "m g = (r, g1)" by fastforce
  have gr: "good_run n k r" using assms(1) r unfolding good_act_def by (metis fst_conv)
  show "good_run n l (fst (andthen m f g))"
  proof (cases r)
    case (Inl e)
    then show ?thesis using gr r by (auto simp: good_run_def andthen_def)
  next
    case (Inr x)
    obtain i e where x: "x = (i, e)" by fastforce
    have "good_run n l (fst (f (i, e) g1))"
      using gr assms(2) assms(3) [of i] assms(4) [of i] Inr x unfolding good_act_def good_run_def by (cases e) auto
    then show ?thesis using r Inr x by (simp add: andthen_def)
  qed
qed

lemma good_if: "(b \<Longrightarrow> good_act n k m) \<Longrightarrow> (\<not> b \<Longrightarrow> good_act n k m') \<Longrightarrow> good_act n k (if b then m else m')"
  by simp

lemma good_ret: "good_act n k (ret (i, True))" "(1 \<le> k \<Longrightarrow> k \<le> i + 1 \<and> i < n) \<Longrightarrow> good_act n k (ret (i, False))"
  by (simp_all add: good_act_def good_run_def)

lemma good_mono: "good_act n k m \<Longrightarrow> l \<le> k \<Longrightarrow> good_act n l m"
  unfolding good_act_def good_run_def by fastforce

lemma msg_loop_good:
  assumes "0 \<le> message_num" "message_num \<le> num_msgs" "num_msgs \<le> 65535" "nat (num_msgs - message_num) < fuel"
  shows "good_act num_msgs message_num (msg_loop fuel E oi place h num_msgs message_num bytes_read rp)"
  using assms
proof (induction fuel arbitrary: place h message_num bytes_read rp)
  case (Suc fuel)
  have next_ok: "good_act num_msgs message_num (msg_loop fuel E oi place' h' num_msgs (u16 k) b' rp')"
    if "message_num < k" "k \<le> num_msgs" for place' h' k b' rp'
  proof -
    have "u16 k = k" using that Suc.prems by (simp add: u16_id)
    then show ?thesis
      using Suc.IH [of k place' h' b' rp'] that Suc.prems good_mono [of num_msgs k _ message_num] by simp
  qed
  have stop: "good_act num_msgs message_num (ret (u16 (message_num - 1), False))"
    using Suc.prems by (intro good_ret) (simp_all add: u16_id)
  have nested: "good_act num_msgs (message_num + 1) (msg_loop fuel E oi place' h' num_msgs (u16 (message_num + 1)) 0 rp')"
    if "message_num < num_msgs" for place' h' rp'
  proof -
    have "u16 (message_num + 1) = message_num + 1" using that Suc.prems by (simp add: u16_id)
    then show ?thesis using Suc.IH [of "message_num + 1" place' h' 0 rp'] that Suc.prems by simp
  qed
  show ?case
    unfolding msg_loop.simps(2) Let_def
    by ((rule good_if good_ret(1) | (rule good_andthen, (simp; fail)) | (rule good_nested, rule nested, (simp; fail), use Suc.prems in \<open>simp; fail\<close>) |
        (rule next_ok; simp) | (rule stop) | (simp only: snd_conv fst_conv if_True if_False))+)
qed simp

text \<open>C20. Reading the messages of a header comes to an end whatever the file holds, also when its continuation blocks
  send the code round in circles: the messages are counted over all blocks, so \<open>num_msgs + 1\<close> rounds are enough.\<close>

theorem interpretMessages_returns:
  assumes "0 \<le> num_msgs" "num_msgs < 65536"
  shows "fst (interpretMessages E oi address len num_msgs g) \<noteq> Inl OutOfFuel"
proof -
  have "good_act num_msgs 0 (msg_loop (nat num_msgs + 1) E oi place h num_msgs 0 0 [])" for place h
    using assms by (intro msg_loop_good) simp_all
  note loop = this
  have "good_act num_msgs 0 (interpretMessages E oi address len num_msgs)"
    unfolding interpretMessages_def by (rule good_andthen, simp, rule loop)
  then show ?thesis by (simp add: good_act_def good_run_def ends_res_def)
qed

lemma interpretMessages_returns_witness:
  "fst (interpretMessages (demo_env (replicate 64 0)) 0 0 64 3 demo_state) \<noteq> Inl OutOfFuel"
  by (rule interpretMessages_returns) simp_all

end
