(* ===== verification/Driver.thy ===== *)
theory Driver
  imports FillVariable SuperblockModel
begin

text \<open>
  \<^verbatim>\<open>src/src/getDataObjects.c\<close>: opening the file, reading its tree, filling the variables asked for and
  leaving them as the members of the root object. What the system answers is in a record.
\<close>

record os =
  os_open :: "cstr \<Rightarrow> int"        \<comment> \<open>\<open>_open\<close>: the file descriptor or -1\<close>
  os_seek_ok :: bool              \<comment> \<open>\<open>_lseek\<close> works\<close>
  os_procs :: int                 \<comment> \<open>\<open>getNumProcessors\<close>\<close>

definition MATFILE_7_3_SIG :: cstr where
  "MATFILE_7_3_SIG = ascii ''MATLAB 7.3 MAT-file''"

definition SELECTION_SIG :: cstr where
  "SELECTION_SIG = ascii ''R2VuZSBIYXJ2ZXkgOik''"

abbreviation (input) SELECTION_SIG_LEN :: int where "SELECTION_SIG_LEN \<equiv> 19"
abbreviation (input) MATFILE_SIG_LEN :: int where "MATFILE_SIG_LEN \<equiv> 19"

definition init_queue :: "env \<Rightarrow> bool \<Rightarrow> (nat lqueue \<Rightarrow> gstate \<Rightarrow> gstate) \<Rightarrow> (unit, gstate) act" where
  "init_queue E frees upd =
     andthen (guard (malloc_ok E sizeof_Queue) (RetErr ''getmatvar:initQueueErr'')) (\<lambda>_.
       modify (upd (lq_init frees)))"

definition open_file :: "env \<Rightarrow> os \<Rightarrow> cstr \<Rightarrow> (unit, gstate) act" where
  "open_file E W file_name =
     andthen (modify (\<lambda>g. g\<lparr>num_avail_threads := os_procs W\<rparr>)) (\<lambda>_.
     andthen (init_queue E True (\<lambda>q g. g\<lparr>map_objects := Some q\<rparr>)) (\<lambda>_.
     andthen (modify (\<lambda>g. g\<lparr>fd := os_open W file_name\<rparr>)) (\<lambda>_.
     andthen (guard (0 \<le> os_open W file_name) (RetErr ''getmatvar:fileNotFoundError'')) (\<lambda>_.
     andthen (guard (os_seek_ok W) (RetErr ''getmatvar:_lseekFailureError'')) (\<lambda>_.
     andthen (guard (file_size E \<noteq> 0) (RetErr ''getmatvar:nullFileError'')) (\<lambda>_.
       modify (\<lambda>g. g\<lparr>g_num_pages := file_size E div gran E + 1\<rparr>)))))))"

text \<open>A small file is mapped as a whole, and that mapping is never released.\<close>

definition map_small_file :: "env \<Rightarrow> (unit, gstate) act" where
  "map_small_file E =
     (if file_size E < ONE_MB then
        andthen (modify (\<lambda>g. g\<lparr>is_super_mapped := True, will_multithread := False\<rparr>)) (\<lambda>_.
        andthen (navigated E 0 (file_size E)) (\<lambda>_. ret ()))
      else ret ())"

definition check_signature :: "env \<Rightarrow> (unit, gstate) act" where
  "check_signature E =
     andthen (hold E 0 MATFILE_SIG_LEN) (\<lambda>h.
     andthen (lift_res (rd (held_view h) (held_ptr h) MATFILE_SIG_LEN)) (\<lambda>sig.
     andthen (st_releasePages (held_map h)) (\<lambda>_.
       guard (sig = MATFILE_7_3_SIG) (RetErr ''getmatvar:wrongFormatError''))))"

definition make_root :: "env \<Rightarrow> (unit, gstate) act" where
  "make_root E =
     andthen (guard (malloc_ok E sizeof_Data) (RetErr ''getmatvar:mallocErrRPCD'')) (\<lambda>_.
     andthen (lift_res (initializeObject E)) (\<lambda>d.
     andthen (new_obj d) (\<lambda>v.
     andthen (modify (\<lambda>g. g\<lparr>virtual_super_object := Some v\<rparr>)) (\<lambda>_.
       oq_op (put_back v)))))"

fun fill_variables :: "env \<Rightarrow> rt \<Rightarrow> nat \<Rightarrow> cstr list \<Rightarrow> (unit, gstate) act" where
  "fill_variables E R fuel [] = ret ()"
| "fill_variables E R fuel (v # vs) = andthen (fillVariable E R fuel v) (\<lambda>_. fill_variables E R fuel vs)"

text \<open>The selected objects are named after their number.\<close>

fun name_selections :: "env \<Rightarrow> int \<Rightarrow> nat \<Rightarrow> (unit, gstate) act" where
  "name_selections E i 0 = ret ()"
| "name_selections E i (Suc n) =
     andthen (tq_op (some_or_fault lq_traverse)) (\<lambda>object.
     andthen (get_obj object) (\<lambda>d.
     let len = u16 (SELECTION_SIG_LEN + num_digits i); s = SELECTION_SIG @ dec_int (i32 i); d = d\<lparr>names := drop_names (names d)\<rparr> in
     andthen (put_obj object d) (\<lambda>_.
     andthen (print_name E True ''getmatvar:mallocErrShNa'' len s) (\<lambda>_.
     andthen (put_obj object (d\<lparr>names := (names d)\<lparr>short_name_length := len, short_name := Some s\<rparr>\<rparr>)) (\<lambda>_.
     andthen (print_name E True ''getmatvar:mallocErrLoNa'' len s) (\<lambda>_.
     andthen (put_obj object (d\<lparr>names := \<lparr>long_name_length = len, long_name = Some s, short_name_length = len,
         short_name = Some s\<rparr>\<rparr>)) (\<lambda>_.
       name_selections E (i + 1) n)))))))"

fun adopt :: "nat \<Rightarrow> nat \<Rightarrow> (unit, gstate) act" where
  "adopt v 0 = ret ()"
| "adopt v (Suc n) =
     andthen (tq_op (some_or_fault lq_traverse)) (\<lambda>obj.
     andthen (sub_op v (put_back obj)) (\<lambda>_.
     andthen (get_obj obj) (\<lambda>d.
     andthen (put_obj obj (d\<lparr>super_object := None, s_c_array_index := 0\<rparr>)) (\<lambda>_.
       adopt v n))))"

definition adopt_selected :: "nat \<Rightarrow> (unit, gstate) act" where
  "adopt_selected v =
     andthen (tq_op (peek lq_len)) (\<lambda>n.
     andthen (get_obj v) (\<lambda>d.
     andthen (put_obj v (d\<lparr>num_sub_objs := u32 (int n)\<rparr>)) (\<lambda>_.
       if 0 < u32 (int n) then
         andthen (sub_op v (\<lambda>q. Inr (lq_flush q))) (\<lambda>_.
         andthen (tq_op (quiet lq_init_traversal)) (\<lambda>_.
         andthen (tq_op (peek lq_tlen)) (\<lambda>k. adopt v k)))
       else ret ())))"

definition rename_selected :: "env \<Rightarrow> (unit, gstate) act" where
  "rename_selected E =
     andthen (gets is_getting_everything) (\<lambda>all.
       if all then ret ()
       else
         andthen (tq_op (quiet lq_init_traversal)) (\<lambda>_.
         andthen (tq_op (peek lq_len)) (\<lambda>n. name_selections E 0 n)))"

definition finish :: "env \<Rightarrow> (unit, gstate) act" where
  "finish E =
     andthen (modify (\<lambda>g. g\<lparr>fd := -1\<rparr>)) (\<lambda>_.
     andthen (free_queue varname_queue freeVarname) (\<lambda>_.
     andthen (modify (\<lambda>g. g\<lparr>varname_queue := None\<rparr>)) (\<lambda>_.
     andthen (destroyPageObjects E) (\<lambda>_.
     andthen (rename_selected E) (\<lambda>_.
     andthen (gets virtual_super_object) (\<lambda>v.
     andthen (nn v) (\<lambda>v.
     andthen (adopt_selected v) (\<lambda>_.
     andthen (modify (\<lambda>g. g\<lparr>top_level_objects := None\<rparr>)) (\<lambda>_.
     andthen (free_queue map_objects (freeMapObject E)) (\<lambda>_.
       modify (\<lambda>g. g\<lparr>map_objects := None\<rparr>)))))))))))"

definition getDataObjects :: "env \<Rightarrow> os \<Rightarrow> rt \<Rightarrow> nat \<Rightarrow> cstr \<Rightarrow> cstr list \<Rightarrow> (unit, gstate) act" where
  "getDataObjects E W R fuel file_name variable_names =
     andthen (open_file E W file_name) (\<lambda>_.
     andthen (map_small_file E) (\<lambda>_.
     andthen (check_signature E) (\<lambda>_.
     andthen (getSuperblock E) (\<lambda>sb.
     andthen (modify (\<lambda>g. g\<lparr>s_block := sb\<rparr>)) (\<lambda>_.
     andthen (init_queue E True (\<lambda>q g. g\<lparr>object_queue := Some q\<rparr>)) (\<lambda>_.
     andthen (init_queue E False (\<lambda>q g. g\<lparr>top_level_objects := Some q\<rparr>)) (\<lambda>_.
     andthen (init_queue E True (\<lambda>q g. g\<lparr>varname_queue := Some q\<rparr>)) (\<lambda>_.
     andthen (make_root E) (\<lambda>_.
     andthen (makeObjectTreeSkeleton E fuel) (\<lambda>_.
     andthen (fill_variables E R fuel variable_names) (\<lambda>_.
       finish E)))))))))))"

end
