(* ===== verification/MexOutput.thy ===== *)
theory MexOutput
  imports FillVariable
begin

text \<open>
  \<^verbatim>\<open>src/src/mexSet.c\<close> and the output half of \<^verbatim>\<open>src/src/getmatvar_.c\<close>: the filled objects are handed
  to MATLAB. The functions of MATLAB's interface are not part of the program; an array made through
  it is described by the arguments of the calls that make it, and for a struct or a cell also by the
  calls of \<open>mxSetField\<close> and \<open>mxSetCell\<close> on it, in order. An array that was not made is NULL.
\<close>

section \<open>Arrays of MATLAB\<close>

datatype mx =
    MxNull
  | MxNumeric mxClassID mxComplexity "int list" "byte list option" "byte list option"
  | MxLogical "int list" "byte list option"
  | MxChar "int list" "byte list option"
  | MxSparse mxClassID int int mxComplexity int "byte list option" "byte list option" "byte list" "byte list"
  | MxCell "int list" "put list"
  | MxStruct "int list" "cstr option list" "put list"
and put =
    PutField int "cstr option" mx
  | PutCell int mx

definition numeric_class :: "mxClassID \<Rightarrow> bool" where
  "numeric_class c \<longleftrightarrow> c \<in> {mxINT8_CLASS, mxUINT8_CLASS, mxINT16_CLASS, mxUINT16_CLASS, mxINT32_CLASS,
     mxUINT32_CLASS, mxINT64_CLASS, mxUINT64_CLASS, mxSINGLE_CLASS, mxDOUBLE_CLASS}"

text \<open>Where the array goes, by the type of the structure above.\<close>

definition put_mx :: "mxClassID \<Rightarrow> int \<Rightarrow> cstr option \<Rightarrow> mx \<Rightarrow> put list" where
  "put_mx super_structure_type index varname a =
     (if super_structure_type = mxSTRUCT_CLASS then [PutField index varname a]
      else if super_structure_type = mxCELL_CLASS then [PutCell index a] else [])"

section \<open>mexSet.c\<close>

definition makeObjDims :: "env \<Rightarrow> int list option \<Rightarrow> int \<Rightarrow> int list res" where
  "makeObjDims E ds n =
     (if n = 0 then Inr []
      else if \<not> malloc_ok E (n * 8) then Inl Fault
      else bnd (case ds of None \<Rightarrow> Inl Fault | Some ds \<Rightarrow> ctake n ds) (\<lambda>xs. Inr (map u64 xs)))"

text \<open>
  Real and imaginary parts are stored alternately; the real ones are moved together in place. The
  offsets are computed in 32 bits.
\<close>

fun split_loop :: "byte list \<Rightarrow> byte list \<Rightarrow> int \<Rightarrow> int \<Rightarrow> nat \<Rightarrow> (byte list \<times> byte list) res" where
  "split_loop data imag es i 0 = Inr (data, imag)"
| "split_loop data imag es i (Suc n) =
     (let h = es div 2; dst = u32 (i * es) div 2 in
      bnd (rd data (u32 ((2 * i + 1) * es) div 2) h) (\<lambda>im.
      bnd (wr imag dst im) (\<lambda>imag.
      bnd (rd data (u32 (i * es)) h) (\<lambda>re.
      bnd (wr data dst re) (\<lambda>data.
        split_loop data imag es (i + 1) n)))))"

definition rearrangeImaginaryData :: "env \<Rightarrow> Data \<Rightarrow> (Data \<times> byte list option) res" where
  "rearrangeImaginaryData E object =
     (if \<not> numeric_class (matlab_internal_type object) then Inl (Abort ''getmatvar:thisShouldntHappen'')
      else
        let n = u64 (u64 (num_elems object) * elem_size object) div 2 in
        if \<not> malloc_ok E n then Inl Fault
        else
          case darr (data_arrays object) of
            None \<Rightarrow> if num_elems object \<le> 0 then Inr (object, Some (fresh_mem E n)) else Inl Fault
          | Some d \<Rightarrow>
              bnd (split_loop d (fresh_mem E n) (elem_size object) 0 (nat (num_elems object))) (\<lambda>(re, im).
                Inr (set_darr object (Some (take (nat n) re)), Some im)))"

text \<open>Each setter gives the calls made on the structure above.\<close>

definition setNumericPtr :: "env \<Rightarrow> nat \<Rightarrow> mxClassID \<Rightarrow> (put list, gstate) act" where
  "setNumericPtr E i super_structure_type =
     andthen (get_obj i) (\<lambda>d.
     andthen (lift_res (makeObjDims E (dims d) (num_dims d))) (\<lambda>ds.
     andthen (if complexity_flag d = mxCOMPLEX then lift_res (rearrangeImaginaryData E d) else ret (d, None)) (\<lambda>(d, im).
     andthen (put_obj i d) (\<lambda>_.
       ret (put_mx super_structure_type (s_c_array_index d) (short_name (names d))
         (MxNumeric (matlab_internal_type d) (complexity_flag d) ds (darr (data_arrays d)) im))))))"

definition setLogicPtr :: "env \<Rightarrow> nat \<Rightarrow> mxClassID \<Rightarrow> (put list, gstate) act" where
  "setLogicPtr E i super_structure_type =
     andthen (get_obj i) (\<lambda>d.
     andthen (lift_res (makeObjDims E (dims d) (num_dims d))) (\<lambda>ds.
       ret (put_mx super_structure_type (s_c_array_index d) (short_name (names d)) (MxLogical ds (darr (data_arrays d))))))"

definition setCharPtr :: "env \<Rightarrow> nat \<Rightarrow> mxClassID \<Rightarrow> (put list, gstate) act" where
  "setCharPtr E i super_structure_type =
     andthen (get_obj i) (\<lambda>d.
     andthen (lift_res (makeObjDims E (dims d) (num_dims d))) (\<lambda>ds.
       ret (put_mx super_structure_type (s_c_array_index d) (short_name (names d)) (MxChar ds (darr (data_arrays d))))))"

definition set_mx_used :: "nat \<Rightarrow> bool \<Rightarrow> (unit, gstate) act" where
  "set_mx_used i b =
     andthen (get_obj i) (\<lambda>d. put_obj i (d\<lparr>data_flags := (data_flags d)\<lparr>is_mx_used := b\<rparr>\<rparr>))"

text \<open>The first \<open>n\<close> 64-bit words of an array.\<close>

definition words_of :: "Data \<Rightarrow> byte list res" where
  "words_of d =
     (case darr (data_arrays d) of
        None \<Rightarrow> if num_elems d \<le> 0 then Inr [] else Inl Fault
      | Some bs \<Rightarrow> rd bs 0 (8 * max 0 (num_elems d)))"

definition first_dim :: "Data \<Rightarrow> int res" where
  "first_dim d = bnd (case dims d of None \<Rightarrow> Inl Fault | Some ds \<Rightarrow> aget ds 0) (\<lambda>x. Inr (u64 x))"

definition sparse_values :: "env \<Rightarrow> nat \<Rightarrow> mxComplexity \<Rightarrow> nat option \<Rightarrow>
    (int \<times> byte list option \<times> byte list option \<times> byte list, gstate) act" where
  "sparse_values E di cplx o_ir =
     andthen (nn o_ir) (\<lambda>ii.
     andthen (get_obj ii) (\<lambda>ir.
     andthen (get_obj di) (\<lambda>d.
     andthen (if cplx = mxCOMPLEX then lift_res (rearrangeImaginaryData E d) else ret (d, None)) (\<lambda>(d, im).
     andthen (put_obj di d) (\<lambda>_.
     andthen (set_mx_used di True) (\<lambda>_.
     andthen (guard (malloc_ok E (u64 (num_elems ir * 8)) \<or> num_elems ir \<le> 0) Fault) (\<lambda>_.
     andthen (lift_res (words_of ir)) (\<lambda>rows.
     andthen (set_mx_used ii False) (\<lambda>_.
       ret (u64 (num_elems ir), darr (data_arrays d), im, rows))))))))))"

definition setSpsPtr :: "env \<Rightarrow> nat \<Rightarrow> mxClassID \<Rightarrow> (put list, gstate) act" where
  "setSpsPtr E i super_structure_type =
     andthen (findSubObjectByShortName i (ascii ''data'')) (\<lambda>o_data.
     andthen (findSubObjectByShortName i (ascii ''ir'')) (\<lambda>o_ir.
     andthen (findSubObjectByShortName i (ascii ''jc'')) (\<lambda>o_jc.
     andthen (get_obj i) (\<lambda>d.
     andthen (guard (matlab_sparse_type d = mxDOUBLE_CLASS \<or> matlab_sparse_type d = mxLOGICAL_CLASS) Fault) (\<lambda>_.
     andthen (nn o_jc) (\<lambda>ji.
     andthen (get_obj ji) (\<lambda>jc.
     andthen (lift_res (first_dim d)) (\<lambda>rows.
     andthen (lift_res (first_dim jc)) (\<lambda>cols.
     andthen (case o_data of None \<Rightarrow> ret (0, None, None, [])
              | Some di \<Rightarrow> sparse_values E di (complexity_flag d) o_ir) (\<lambda>(nz, re, im, ir).
     andthen (guard (num_elems jc \<le> cols) Fault) (\<lambda>_.
     andthen (lift_res (words_of jc)) (\<lambda>starts.
     andthen (set_mx_used ji False) (\<lambda>_.
       ret (put_mx super_structure_type (s_c_array_index d) (short_name (names d))
         (MxSparse (matlab_sparse_type d) rows (u64 (cols - 1)) (complexity_flag d) nz re im ir starts)))))))))))))))"

text \<open>The counter of \<open>getFieldNames\<close> has 16 bits; past the last member \<open>dequeue\<close> gives NULL.\<close>

fun field_loop :: "nat \<Rightarrow> nat \<Rightarrow> int \<Rightarrow> cstr option list \<Rightarrow> (cstr option list, gstate) act" where
  "field_loop 0 i index vs = fail OutOfFuel"
| "field_loop (Suc fuel) i index vs =
     andthen (get_obj i) (\<lambda>d.
       if index < num_sub_objs d then
         andthen (sub_op i (some_or_fault lq_dequeue)) (\<lambda>j.
         andthen (get_obj j) (\<lambda>obj.
         andthen (lift_res (aset vs index (short_name (names obj)))) (\<lambda>vs.
           field_loop fuel i (u16 (index + 1)) vs)))
       else ret vs)"

definition getFieldNames :: "env \<Rightarrow> nat \<Rightarrow> (cstr option list, gstate) act" where
  "getFieldNames E i =
     andthen (get_obj i) (\<lambda>d.
     andthen (guard (malloc_ok E (num_sub_objs d * 8) \<or> num_sub_objs d = 0) Fault) (\<lambda>_.
     andthen (sub_op i (peek lq_len)) (\<lambda>n.
     andthen (field_loop (n + 2) i 0 (replicate (nat (num_sub_objs d)) None)) (\<lambda>vs.
     andthen (sub_op i (quiet lq_restart)) (\<lambda>_. ret vs)))))"

section \<open>makeSubstructure\<close>

text \<open>Whether the warning about objects has been given, and the warnings so far.\<close>

type_synonym warned = "bool \<times> string list"

text \<open>\<open>sub\<close> is \<open>makeSubstructure\<close> for the members of an object: what it puts, or NULL.\<close>

type_synonym sub_maker = "mxClassID \<Rightarrow> nat \<Rightarrow> warned \<Rightarrow> (put list option \<times> warned, gstate) act"

definition or_null :: "(put list \<Rightarrow> mx) \<Rightarrow> put list option \<Rightarrow> mx" where
  "or_null f r = (case r of None \<Rightarrow> MxNull | Some ps \<Rightarrow> f ps)"

definition setCellPtr :: "env \<Rightarrow> sub_maker \<Rightarrow> nat \<Rightarrow> mxClassID \<Rightarrow> warned \<Rightarrow> (put list \<times> warned, gstate) act" where
  "setCellPtr E sub i super_structure_type w =
     andthen (get_obj i) (\<lambda>d.
     andthen (lift_res (makeObjDims E (dims d) (num_dims d))) (\<lambda>ds.
     andthen (sub mxCELL_CLASS i w) (\<lambda>(ps, w).
       ret (put_mx super_structure_type (s_c_array_index d) (short_name (names d)) (or_null (MxCell ds) ps), w))))"

definition setStructPtr :: "env \<Rightarrow> sub_maker \<Rightarrow> nat \<Rightarrow> mxClassID \<Rightarrow> warned \<Rightarrow> (put list \<times> warned, gstate) act" where
  "setStructPtr E sub i super_structure_type w =
     andthen (get_obj i) (\<lambda>d.
     andthen (lift_res (makeObjDims E (dims d) (num_dims d))) (\<lambda>ds.
     andthen (getFieldNames E i) (\<lambda>fs.
     andthen (sub mxSTRUCT_CLASS i w) (\<lambda>(ps, w).
       ret (put_mx super_structure_type (s_c_array_index d) (short_name (names d)) (or_null (MxStruct ds fs) ps), w)))))"

definition plain_put :: "(put list, gstate) act \<Rightarrow> warned \<Rightarrow> (put list \<times> warned, gstate) act" where
  "plain_put a w = andthen a (\<lambda>ps. ret (ps, w))"

text \<open>One member; only the first object that cannot be returned is warned of.\<close>

definition set_member :: "env \<Rightarrow> sub_maker \<Rightarrow> mxClassID \<Rightarrow> nat \<Rightarrow> warned \<Rightarrow> (put list \<times> warned, gstate) act" where
  "set_member E sub super_structure_type i w =
     andthen (set_mx_used i True) (\<lambda>_.
     andthen (get_obj i) (\<lambda>d.
       let c = matlab_internal_type d in
       if numeric_class c then plain_put (setNumericPtr E i super_structure_type) w
       else if c = mxSPARSE_CLASS then plain_put (setSpsPtr E i super_structure_type) w
       else if c = mxLOGICAL_CLASS then plain_put (setLogicPtr E i super_structure_type) w
       else if c = mxCHAR_CLASS then plain_put (setCharPtr E i super_structure_type) w
       else if c = mxCELL_CLASS then
         andthen (setCellPtr E sub i super_structure_type w) (\<lambda>r. andthen (set_mx_used i False) (\<lambda>_. ret r))
       else if c = mxSTRUCT_CLASS then
         andthen (setStructPtr E sub i super_structure_type w) (\<lambda>r. andthen (set_mx_used i False) (\<lambda>_. ret r))
       else if c = mxFUNCTION_CLASS \<or> c = mxOBJECT_CLASS \<or> c = mxOPAQUE_CLASS then
         andthen (gets (\<lambda>g. if fst w then w else (True, readMXWarn ''getmatvar:invalidOutputType'' g (snd w)))) (\<lambda>w.
         andthen (set_mx_used i False) (\<lambda>_. ret ([], w)))
       else andthen (set_mx_used i False) (\<lambda>_. ret ([], w))))"

text \<open>The two loops over the members; the fields of a struct array put into the array above.\<close>

fun each_member :: "(nat \<Rightarrow> warned \<Rightarrow> (put list \<times> warned, gstate) act) \<Rightarrow> nat \<Rightarrow> warned \<Rightarrow> nat \<Rightarrow>
    (put list \<times> warned, gstate) act" where
  "each_member f i w 0 = ret ([], w)"
| "each_member f i w (Suc n) =
     andthen (sub_op i (some_or_fault lq_traverse)) (\<lambda>j.
     andthen (f j w) (\<lambda>(ps, w).
     andthen (each_member f i w n) (\<lambda>(qs, w). ret (ps @ qs, w))))"

definition field_member :: "sub_maker \<Rightarrow> nat \<Rightarrow> warned \<Rightarrow> (put list \<times> warned, gstate) act" where
  "field_member sub j w = andthen (sub mxSTRUCT_CLASS j w) (\<lambda>(r, w). ret ((case r of None \<Rightarrow> [] | Some ps \<Rightarrow> ps), w))"

definition substructure :: "env \<Rightarrow> sub_maker \<Rightarrow> sub_maker" where
  "substructure E sub super_structure_type i w =
     andthen (get_obj i) (\<lambda>d.
       if num_sub_objs d = 0 then ret (None, w)
       else
         andthen (sub_op i (quiet lq_init_traversal)) (\<lambda>_.
         andthen (sub_op i (some_or_fault (\<lambda>q. bnd (lq_peek_traverse q) (\<lambda>x. Inr (x, q))))) (\<lambda>j.
         andthen (get_obj j) (\<lambda>first.
         andthen (sub_op i (peek lq_tlen)) (\<lambda>n.
         andthen (each_member (if is_struct_array (data_flags first) then field_member sub
                               else set_member E sub super_structure_type) i w n) (\<lambda>(ps, w).
           ret (Some ps, w)))))))"

fun makeSubstructure :: "nat \<Rightarrow> env \<Rightarrow> sub_maker" where
  "makeSubstructure 0 E = (\<lambda>super_structure_type i w. fail OutOfFuel)"
| "makeSubstructure (Suc fuel) E = substructure E (makeSubstructure fuel E)"

end
