(* ===== verification/MexInput.thy ===== *)
theory MexInput
  imports Driver MexOutput
begin

text \<open>
  The input half of \<^verbatim>\<open>src/src/getmatvar_.c\<close> and the function MATLAB calls. What MATLAB's functions
  say of an argument is the argument: a character vector, a numeric array with its number of
  elements and its first element as an \<open>int\<close>, a string, or anything else.
\<close>

datatype mxarg = ArgChar cstr | ArgNumeric int int | ArgString | ArgOther

datatype kwarg = NOT_AN_ARGUMENT | THREAD_KWARG | MT_KWARG | SUPPRESS_WARN

text \<open>What the loop over the arguments carries: the switch before, and the names found.\<close>

record input =
  kwarg_expected :: kwarg
  kwarg_flag :: bool
  var_names :: "cstr list"

definition digits_only :: "cstr \<Rightarrow> bool" where
  "digits_only s \<longleftrightarrow> (\<forall>c \<in> set s. 0 \<le> digit_val c \<and> digit_val c \<le> 9)"

text \<open>\<open>(int)strtol(input, &endptr, 10)\<close> on digits; the range check after it looks at the value cut to an \<open>int\<close>.\<close>

definition strtol_int :: "cstr \<Rightarrow> int" where
  "strtol_int s = i32 (min (dec_value s 0) (2 ^ 63 - 1))"

definition thread_arg :: "mxarg \<Rightarrow> (unit, gstate) act" where
  "thread_arg a =
     andthen (case a of
         ArgNumeric n x \<Rightarrow> if n = 1 then modify (\<lambda>g. g\<lparr>num_threads_user_def := x\<rparr>) else ret ()
       | ArgChar s \<Rightarrow>
           andthen (guard (digits_only s) (Abort ''getmatvar:invalidNumThreadsError'')) (\<lambda>_.
           andthen (modify (\<lambda>g. g\<lparr>num_threads_user_def := strtol_int s\<rparr>)) (\<lambda>_.
             guard (s \<noteq> []) (Abort ''getmatvar:invalidNumThreadsError'')))
       | _ \<Rightarrow> ret ()) (\<lambda>_.
     andthen (gets num_threads_user_def) (\<lambda>n.
     andthen (guard (0 \<le> n) (Abort ''getmatvar:tooManyThreadsError'')) (\<lambda>_.
       if n = 0 then modify (\<lambda>g. g\<lparr>num_threads_user_def := -1\<rparr>) else ret ())))"

definition switch_arg :: "cstr \<Rightarrow> input \<Rightarrow> (input, gstate) act" where
  "switch_arg s st =
     (if s = ascii ''-t'' then ret (st\<lparr>kwarg_flag := True, kwarg_expected := THREAD_KWARG\<rparr>)
      else if s = ascii ''-suppress-warnings'' \<or> s = ascii ''-sw'' then
        andthen (modify (\<lambda>g. g\<lparr>will_suppress_warnings := True\<rparr>)) (\<lambda>_. ret (st\<lparr>kwarg_flag := False\<rparr>))
      else if s = ascii ''-st'' then
        andthen (modify (\<lambda>g. g\<lparr>will_multithread := False\<rparr>)) (\<lambda>_. ret (st\<lparr>kwarg_flag := False\<rparr>))
      else fail (Abort ''getmatvar:notAnArgument''))"

definition read_arg :: "mxarg \<Rightarrow> input \<Rightarrow> (input, gstate) act" where
  "read_arg a st =
     (if a = ArgString then fail (Abort ''getmatvar:invalidInputType'')
      else if kwarg_flag st then
        andthen (if kwarg_expected st = THREAD_KWARG then thread_arg a else fail (Abort ''getmatvar:notAnArgument'')) (\<lambda>_.
          ret (st\<lparr>kwarg_expected := NOT_AN_ARGUMENT, kwarg_flag := False\<rparr>))
      else
        (case a of
           ArgChar s \<Rightarrow>
             if s = [] then fail (Abort ''getmatvar:invalidArgument'')
             else if hd s = 45 then switch_arg s st
             else ret (st\<lparr>kwarg_expected := NOT_AN_ARGUMENT, var_names := var_names st @ [s]\<rparr>)
         | _ \<Rightarrow> fail (Abort ''getmatvar:invalidArgument'')))"

fun read_args :: "mxarg list \<Rightarrow> input \<Rightarrow> (input, gstate) act" where
  "read_args [] st = ret st"
| "read_args (a # as) st = andthen (read_arg a st) (\<lambda>st. read_args as st)"

text \<open>The first argument is the file; with no variable named, everything is asked for by the empty name.\<close>

definition readInput :: "env \<Rightarrow> mxarg list \<Rightarrow> (unit, gstate) act" where
  "readInput E prhs =
     (case prhs of
        ArgChar s # as \<Rightarrow>
          andthen (modify (\<lambda>g. g\<lparr>parameters := \<lparr>num_vars = 0, full_variable_names = None, filename = Some s\<rparr>\<rparr>)) (\<lambda>_.
          andthen (guard (malloc_ok E (int (length prhs) * 8)) (Abort ''getmatvar:mallocErrFullVarNames'')) (\<lambda>_.
          andthen (read_args as \<lparr>kwarg_expected = NOT_AN_ARGUMENT, kwarg_flag = False, var_names = []\<rparr>) (\<lambda>st.
          let vs = (if var_names st = [] then [[]] else var_names st) in
          andthen (guard (var_names st = [] \<longrightarrow> malloc_ok E 16 \<and> malloc_ok E 1) Fault) (\<lambda>_.
            modify (\<lambda>g. g\<lparr>parameters := \<lparr>num_vars = int (length vs), full_variable_names = Some vs, filename = Some s\<rparr>\<rparr>)))))
      | _ \<Rightarrow> fail (Abort ''getmatvar:invalidFileNameType''))"

text \<open>An error code of \<open>getDataObjects\<close> becomes an error in MATLAB.\<close>

definition or_abort :: "('a, gstate) act \<Rightarrow> ('a, gstate) act" where
  "or_abort m g = (case m g of (Inl (RetErr e), g') \<Rightarrow> (Inl (Abort e), g') | r \<Rightarrow> r)"

definition makeReturnStructure :: "env \<Rightarrow> os \<Rightarrow> rt \<Rightarrow> nat \<Rightarrow> (mx \<times> string list, gstate) act" where
  "makeReturnStructure E W R fuel =
     andthen (gets parameters) (\<lambda>ps.
     andthen (nn (filename ps)) (\<lambda>f.
     andthen (nn (full_variable_names ps)) (\<lambda>vs.
     andthen (or_abort (getDataObjects E W R fuel f vs)) (\<lambda>_.
     andthen (gets virtual_super_object) (\<lambda>v.
     andthen (nn v) (\<lambda>v.
     andthen (getFieldNames E v) (\<lambda>fs.
     andthen (makeSubstructure fuel E mxSTRUCT_CLASS v (False, [])) (\<lambda>(r, w).
     andthen (free_queue object_queue (\<lambda>i. andthen (freeDataObject i) (\<lambda>_. ret ()))) (\<lambda>_.
     andthen (modify (\<lambda>g. g\<lparr>object_queue := None\<rparr>)) (\<lambda>_.
       ret (MxStruct [1] fs (case r of None \<Rightarrow> [] | Some ps \<Rightarrow> ps), snd w)))))))))))"

definition mexFunction :: "env \<Rightarrow> os \<Rightarrow> rt \<Rightarrow> nat \<Rightarrow> nat \<Rightarrow> mxarg list \<Rightarrow> (mx \<times> string list, gstate) act" where
  "mexFunction E W R fuel nlhs prhs =
     andthen (modify initialize) (\<lambda>_.
       if prhs = [] then fail (Abort ''getmatvar:invalidNumInputs'')
       else if 2 < nlhs then fail (Abort ''getmatvar:invalidNumOutputs'')
       else
         andthen (readInput E prhs) (\<lambda>_.
         andthen (makeReturnStructure E W R fuel) (\<lambda>r.
         andthen (modify (\<lambda>g. g\<lparr>parameters := (parameters g)\<lparr>full_variable_names := None, filename := None\<rparr>\<rparr>)) (\<lambda>_.
           ret r))))"

end
