(* ===== verification/MexProps.thy ===== *)
theory MexProps
  imports MexInput QueueSpec
begin

text \<open>
  What is proved of the MEX interface: what the arguments can leave behind, how a complex array is
  split, and which field names a struct gets.
\<close>

section \<open>Arguments\<close>

definition input_inv :: "input \<Rightarrow> gstate \<Rightarrow> bool" where
  "input_inv st g \<longleftrightarrow> (num_threads_user_def g = -1 \<or> 0 < num_threads_user_def g) \<and>
     (\<forall>v \<in> set (var_names st). v \<noteq> [] \<and> hd v \<noteq> 45)"

lemma thread_arg_inv:
  "thread_arg a g = (Inr (), g') \<Longrightarrow> num_threads_user_def g' = -1 \<or> 0 < num_threads_user_def g'"
  by (auto simp: thread_arg_def andthen_Inr gets_def guard_def split: mxarg.splits if_splits)

lemma read_arg_inv:
  assumes "input_inv st g" "read_arg a st g = (Inr st', g')"
  shows "input_inv st' g'"
proof (cases "kwarg_flag st")
  case True
  obtain g1 where "thread_arg a g = (Inr (), g1)" "g' = g1" "var_names st' = var_names st"
    using assms(2) True by (auto simp: read_arg_def andthen_Inr split: if_splits)
  then show ?thesis using assms(1) thread_arg_inv [of a g g1] by (simp add: input_inv_def)
next
  case False
  obtain s where s: "a = ArgChar s" "s \<noteq> []" using assms(2) False by (auto simp: read_arg_def split: if_splits mxarg.splits)
  show ?thesis
  proof (cases "hd s = 45")
    case True
    then have "switch_arg s st g = (Inr st', g')" using assms(2) False s by (simp add: read_arg_def)
    then have "num_threads_user_def g' = num_threads_user_def g" "var_names st' = var_names st"
      by (auto simp: switch_arg_def split: if_splits)
    then show ?thesis using assms(1) by (simp add: input_inv_def)
  next
    case nd: False
    then have "g' = g" "var_names st' = var_names st @ [s]" using assms(2) False s by (auto simp: read_arg_def)
    then show ?thesis using assms(1) s nd by (auto simp: input_inv_def)
  qed
qed

lemma read_args_inv: "input_inv st g \<Longrightarrow> read_args as st g = (Inr st', g') \<Longrightarrow> input_inv st' g'"
proof (induction as arbitrary: st g)
  case (Cons a as)
  obtain st1 g1 where "read_arg a st g = (Inr st1, g1)" "read_args as st1 g1 = (Inr st', g')"
    using Cons.prems(2) by (auto simp: andthen_Inr)
  then show ?case using Cons.IH read_arg_inv [OF Cons.prems(1)] by blast
qed simp

text \<open>C29. Whatever the arguments, when they are accepted there is a file name and at least one variable name, counted
  right; a name is empty only when no variable was asked for, and none begins with a dash; the number of threads is
  positive or left open.\<close>

theorem readInput_accepts:
  assumes "readInput E prhs g = (Inr (), g')" "num_threads_user_def g = -1"
  shows "(\<exists>f vs. parameters g' = \<lparr>num_vars = int (length vs), full_variable_names = Some vs, filename = Some f\<rparr> \<and>
      vs \<noteq> [] \<and> (vs = [[]] \<or> (\<forall>v \<in> set vs. v \<noteq> [] \<and> hd v \<noteq> 45))) \<and>
    (num_threads_user_def g' = -1 \<or> 0 < num_threads_user_def g')"
proof -
  obtain s as where p: "prhs = ArgChar s # as"
    using assms(1) by (cases prhs) (auto simp: readInput_def split: mxarg.splits)
  let ?g = "g\<lparr>parameters := \<lparr>num_vars = 0, full_variable_names = None, filename = Some s\<rparr>\<rparr>"
  obtain st g1 where st: "read_args as \<lparr>kwarg_expected = NOT_AN_ARGUMENT, kwarg_flag = False, var_names = []\<rparr> ?g = (Inr st, g1)"
    and g': "g' = g1\<lparr>parameters := \<lparr>num_vars = int (length (if var_names st = [] then [[]] else var_names st)),
       full_variable_names = Some (if var_names st = [] then [[]] else var_names st), filename = Some s\<rparr>\<rparr>"
    using assms(1) by (auto simp: p readInput_def andthen_Inr guard_def Let_def split: if_splits)
  have "input_inv st g1" using read_args_inv [OF _ st] assms(2) by (simp add: input_inv_def)
  then show ?thesis unfolding g' by (auto simp: input_inv_def)
qed

lemma readInput_accepts_witness:
  "\<exists>g'. readInput (demo_env []) [ArgChar (ascii ''f.mat''), ArgChar (ascii ''-t''), ArgNumeric 1 0, ArgChar (ascii ''a'')]
      demo_state = (Inr (), g') \<and> (num_threads_user_def g' = -1 \<or> 0 < num_threads_user_def g') \<and>
    num_vars (parameters g') = 1"
proof -
  let ?p = "[ArgChar (ascii ''f.mat''), ArgChar (ascii ''-t''), ArgNumeric 1 0, ArgChar (ascii ''a'')]"
  obtain g' where g': "readInput (demo_env []) ?p demo_state = (Inr (), g')" "num_vars (parameters g') = 1"
    by (simp add: readInput_def read_arg_def switch_arg_def thread_arg_def ascii_def of_char_def Let_def demo_state_def
        initialize_def andthen_def guard_def gets_def)
  then show ?thesis using readInput_accepts [OF g'(1)] by (auto simp: demo_state_def initialize_def)
qed


section \<open>Complex arrays\<close>

lemma wr_over: "length bs \<le> length ys \<Longrightarrow> wr (xs @ ys) (int (length xs)) bs = Inr (xs @ bs @ drop (length bs) ys)"
  by (simp add: wr_def)

lemma rd_at: "p = int (length pre) \<Longrightarrow> n = int (length bs) \<Longrightarrow> rd (pre @ bs @ post) p n = Inr bs"
  using rd_append by simp

definition interleave :: "(byte list \<times> byte list) list \<Rightarrow> byte list" where
  "interleave ps = concat (map (\<lambda>(r, i). r @ i) ps)"

lemma split_loop_run:
  assumes "\<forall>(r, s) \<in> set qs. length r = h \<and> length s = h" "length A = h * i" "length G = h * i" "length C = h * i"
    "length F = h * length qs" "4 * h * (i + length qs) < 2 ^ 32"
  shows "\<exists>G'. split_loop (A @ G @ interleave qs) (C @ F) (int (2 * h)) (int i) (length qs) =
    Inr (A @ concat (map fst qs) @ G', C @ concat (map snd qs)) \<and> length G' = h * (i + length qs)"
  using assms
proof (induction qs arbitrary: A G C F i)
  case Nil
  then show ?case by (intro exI [of _ G]) (simp add: interleave_def)
next
  case (Cons q qs)
  obtain r s where q: "q = (r, s)" by fastforce
  have l: "length r = h" "length s = h" using Cons.prems(1) q by auto
  have bound: "4 * h * i + 4 * h + 4 * h * length qs < 2 ^ 32" using Cons.prems(6) by (simp add: algebra_simps)
  let ?D = "A @ G @ interleave (q # qs)"
  have D: "?D = (A @ G @ r) @ s @ interleave qs" "?D = (A @ G) @ r @ s @ interleave qs" by (simp_all add: interleave_def q)
  have "4 * h * i + 4 * h < 2 ^ 32" using bound by linarith
  then have "int (4 * h * i + 4 * h) < int (2 ^ 32)" by (simp only: of_nat_less_iff)
  then have ib: "4 * (int h * int i) + 4 * int h < 4294967296" "0 \<le> int h * int i" by (simp_all add: mult.assoc)
  have eq: "int i * int (2 * h) = 2 * (int h * int i)" "(2 * int i + 1) * int (2 * h) = 4 * (int h * int i) + 2 * int h"
    by (simp_all add: algebra_simps)
  have e: "u32 (int i * int (2 * h)) = 2 * int (h * i)" "u32 ((2 * int i + 1) * int (2 * h)) = 2 * int (2 * h * i + h)"
    unfolding eq u32_def using ib by simp_all
  have rs: "rd ?D (u32 ((2 * int i + 1) * int (2 * h)) div 2) (int h) = Inr s"
    unfolding D(1) e using Cons.prems(2,3) l by (intro rd_at) simp_all
  have rr: "rd ?D (u32 (int i * int (2 * h))) (int h) = Inr r"
    unfolding D(2) e using Cons.prems(2,3) l by (intro rd_at) simp_all
  have dst: "u32 (int i * int (2 * h)) div 2 = int (h * i)" unfolding e by simp
  have wi: "wr (C @ F) (int (h * i)) s = Inr (C @ s @ drop h F)"
    using wr_over [of s F C] Cons.prems(4,5) l by simp
  let ?G = "drop h (G @ r @ s)"
  have wd: "wr ?D (int (h * i)) r = Inr ((A @ r) @ ?G @ interleave qs)"
    using wr_over [of r "G @ interleave (q # qs)" A] Cons.prems(2) l by (simp add: interleave_def q)
  have step: "split_loop ?D (C @ F) (int (2 * h)) (int i) (length (q # qs)) =
      split_loop ((A @ r) @ ?G @ interleave qs) ((C @ s) @ drop h F) (int (2 * h)) (int (Suc i)) (length qs)"
    using rs rr dst wi wd by (simp add: Let_def algebra_simps)
  have "\<forall>(r, s) \<in> set qs. length r = h \<and> length s = h" "length (A @ r) = h * Suc i" "length ?G = h * Suc i"
    "length (C @ s) = h * Suc i" "length (drop h F) = h * length qs" "4 * h * (Suc i + length qs) < 2 ^ 32"
    using Cons.prems l bound by (simp_all add: algebra_simps)
  from Cons.IH [OF this] obtain G' where "split_loop ((A @ r) @ ?G @ interleave qs) ((C @ s) @ drop h F) (int (2 * h)) (int (Suc i)) (length qs) =
      Inr ((A @ r) @ concat (map fst qs) @ G', (C @ s) @ concat (map snd qs))" "length G' = h * (Suc i + length qs)"
    by blast
  then show ?case unfolding step by (auto simp: q)
qed



section \<open>Field names\<close>

definition objs_alive :: "gstate \<Rightarrow> nat list \<Rightarrow> bool" where
  "objs_alive g js \<longleftrightarrow> (\<forall>j \<in> set js. \<exists>d. slook (objs g) j = Inr d)"

definition name_at :: "gstate \<Rightarrow> nat \<Rightarrow> cstr option" where
  "name_at g j = (case slook (objs g) j of Inr d \<Rightarrow> short_name (names d) | Inl e \<Rightarrow> None)"

lemma sub_dequeue:
  assumes "slook (objs g) i = Inr d" "sub_objects d = Some q" "lq_rep q dn (j # js)"
  obtains q' where "sub_op i (some_or_fault lq_dequeue) g = (Inr j, g\<lparr>objs := (objs g)[i := Some (d\<lparr>sub_objects := Some q'\<rparr>)]\<rparr>)"
    "lq_rep q' (dn @ [j]) js"
proof -
  obtain q' where q': "lq_dequeue q = Inr (Some j, q')" "lq_rep q' (dn @ [j]) js" using lqf.deq_law [OF assms(3)] by blast
  then show thesis
    using that [of q'] assms(1,2)
    by (simp add: sub_op_def some_or_fault_def get_obj_def put_obj_def andthen_def nn_def)
qed

lemma same_object:
  assumes "slook (objs g) i = Inr d" "sub_objects d = Some q"
  shows "(objs g)[i := Some (d\<lparr>sub_objects := Some q\<rparr>)] = objs g"
proof -
  have "d\<lparr>sub_objects := Some q\<rparr> = d" using assms(2) by simp
  moreover have "objs g ! i = Some d" using assms(1) by (simp add: slook_Inr)
  ultimately show ?thesis by (metis list_update_id)
qed

lemma field_loop_run:
  assumes "slook (objs g) i = Inr d" "sub_objects d = Some q" "lq_rep q dn js" "i \<notin> set js" "objs_alive g js"
    "num_sub_objs d = int (length vs + length js)" "length vs + length js < 65536" "length js < fuel"
  shows "\<exists>g' q'. field_loop fuel i (int (length vs)) (vs @ replicate (length js) None) g = (Inr (vs @ map (name_at g) js), g') \<and>
    objs g' = (objs g)[i := Some (d\<lparr>sub_objects := Some q'\<rparr>)] \<and> lq_rep q' (dn @ js) []"
  using assms
proof (induction js arbitrary: g d q dn vs fuel)
  case Nil
  then obtain k where "fuel = Suc k" by (cases fuel) auto
  moreover have "field_loop (Suc k) i (int (length vs)) vs g = (Inr vs, g)"
    using Nil.prems(1,6) by (simp add: get_obj_def andthen_def)
  ultimately show ?case using same_object [OF Nil.prems(1,2)] Nil.prems(3) by (intro exI [of _ g] exI [of _ q]) simp
next
  case (Cons j js)
  obtain k where k: "fuel = Suc k" using Cons.prems(8) by (cases fuel) auto
  obtain q' where q': "sub_op i (some_or_fault lq_dequeue) g = (Inr j, g\<lparr>objs := (objs g)[i := Some (d\<lparr>sub_objects := Some q'\<rparr>)]\<rparr>)"
    "lq_rep q' (dn @ [j]) js" using sub_dequeue [OF Cons.prems(1-3)] .
  let ?g = "g\<lparr>objs := (objs g)[i := Some (d\<lparr>sub_objects := Some q'\<rparr>)]\<rparr>" and ?d = "d\<lparr>sub_objects := Some q'\<rparr>"
  have i: "i < length (objs g)" using Cons.prems(1) by (simp add: slook_Inr)
  have same: "slook (objs ?g) m = slook (objs g) m" if "m \<noteq> i" for m using that by simp
  obtain e where e: "slook (objs g) j = Inr e" using Cons.prems(5) by (auto simp: objs_alive_def)
  have ej: "slook (objs ?g) j = Inr e" using e same [of j] Cons.prems(4) by simp
  have nm: "short_name (names e) = name_at g j" using e by (simp add: name_at_def)
  have u: "u16 (int (length vs) + 1) = int (length (vs @ [name_at g j]))" using Cons.prems(7) by (simp add: u16_def)
  have "map (name_at ?g) js = map (name_at g) js"
  proof (rule map_cong)
    fix m assume "m \<in> set js"
    then have "m \<noteq> i" using Cons.prems(4) by auto
    then show "name_at ?g m = name_at g m" unfolding name_at_def using same [of m] by simp
  qed simp
  moreover have alive: "objs_alive ?g js" unfolding objs_alive_def
  proof
    fix m assume m: "m \<in> set js"
    then obtain e where "slook (objs g) m = Inr e" using Cons.prems(5) by (auto simp: objs_alive_def)
    moreover have "m \<noteq> i" using m Cons.prems(4) by auto
    ultimately show "\<exists>e. slook (objs ?g) m = Inr e" using same [of m] by simp
  qed
  moreover have d': "slook (objs ?g) i = Inr ?d" "sub_objects ?d = Some q'" "i \<notin> set js"
    "num_sub_objs ?d = int (length (vs @ [name_at g j]) + length js)" "length (vs @ [name_at g j]) + length js < 65536" "length js < k"
    using Cons.prems i k by simp_all
  moreover obtain g' q'' where "field_loop k i (int (length (vs @ [name_at g j]))) ((vs @ [name_at g j]) @ replicate (length js) None) ?g =
      (Inr ((vs @ [name_at g j]) @ map (name_at ?g) js), g')"
    "objs g' = (objs ?g)[i := Some (?d\<lparr>sub_objects := Some q''\<rparr>)]" "lq_rep q'' ((dn @ [j]) @ js) []"
    using Cons.IH [OF d'(1,2) q'(2) d'(3) alive d'(4-6)] by blast
  moreover have "field_loop fuel i (int (length vs)) (vs @ replicate (length (j # js)) None) g =
      field_loop k i (int (length (vs @ [name_at g j]))) ((vs @ [name_at g j]) @ replicate (length js) None) ?g"
    using Cons.prems(1,6) q'(1) ej nm u by (simp add: k get_obj_def andthen_def)
  ultimately show ?case by auto
qed

text \<open>C28. The field names of a struct are the short names of its members, in order, and the members can be taken again
  afterwards; this is so for fewer than 65536 members, what the 16-bit counter can count.\<close>

theorem getFieldNames_in_order:
  assumes "slook (objs g) i = Inr d" "sub_objects d = Some q" "lq_rep q [] js" "i \<notin> set js" "objs_alive g js"
    "num_sub_objs d = int (length js)" "length js < 65536" "malloc_ok E (int (length js) * 8)"
  shows "\<exists>g' q'. getFieldNames E i g = (Inr (map (name_at g) js), g') \<and>
    objs g' = (objs g)[i := Some (d\<lparr>sub_objects := Some q'\<rparr>)] \<and> lq_rep q' [] js"
proof -
  have len: "lq_len q = length js" using lq_len_pending [of q] assms(3) by (simp add: lq_rep_def)
  have pk: "sub_op i (peek lq_len) g = (Inr (length js), g)"
    using assms(1,2) len
    by (simp add: sub_op_def peek_def get_obj_def put_obj_def andthen_def nn_def same_object)
  obtain g' q' where f: "field_loop (length js + 2) i 0 (replicate (length js) None) g = (Inr (map (name_at g) js), g')"
    "objs g' = (objs g)[i := Some (d\<lparr>sub_objects := Some q'\<rparr>)]" "lq_rep q' js []"
    using field_loop_run [OF assms(1-5), of "[]" "length js + 2"] assms(6,7) by auto
  have i: "i < length (objs g)" using assms(1) by (simp add: slook_Inr)
  have ri: "slook (objs g') i = Inr (d\<lparr>sub_objects := Some q'\<rparr>)" using f(2) i by (simp add: slook_Inr)
  let ?g = "g'\<lparr>objs := (objs g)[i := Some (d\<lparr>sub_objects := Some (lq_restart q')\<rparr>)]\<rparr>"
  have rst: "sub_op i (quiet lq_restart) g' = (Inr (), ?g)"
    using ri f(2) by (simp add: sub_op_def quiet_def get_obj_def put_obj_def andthen_def nn_def)
  have "lq_rep (lq_restart q') [] js" using lqf.rst_law [OF f(3)] by simp
  moreover have "getFieldNames E i g = (Inr (map (name_at g) js), ?g)"
    using assms(1,6,8) pk f(1) rst by (simp add: getFieldNames_def get_obj_def andthen_def guard_def del: field_loop.simps)
  ultimately show ?thesis by (intro exI [of _ ?g] exI [of _ "lq_restart q'"]) simp
qed

definition demo_members :: "nat lqueue" where
  "demo_members = \<lparr>lq_items = [1, 2], lq_front = At 0, lq_trav = PNull, lq_back_ok = True, lq_head_ok = True, lq_free = False,
     lq_len = 2, lq_tlen = 0\<rparr>"

definition demo_struct :: gstate where
  "demo_struct = demo_state\<lparr>objs :=
     [Some ((blank_object demo_members)\<lparr>num_sub_objs := 2\<rparr>),
      Some ((blank_object (lq_init False))\<lparr>names := (names (blank_object (lq_init False)))\<lparr>short_name := Some (ascii ''a'')\<rparr>\<rparr>),
      Some ((blank_object (lq_init False))\<lparr>names := (names (blank_object (lq_init False)))\<lparr>short_name := Some (ascii ''b'')\<rparr>\<rparr>)]\<rparr>"

lemma getFieldNames_in_order_witness:
  "\<exists>g'. getFieldNames (demo_env []) 0 demo_struct = (Inr [Some (ascii ''a''), Some (ascii ''b'')], g')"
proof -
  have s: "slook (objs demo_struct) 0 = Inr ((blank_object demo_members)\<lparr>num_sub_objs := 2\<rparr>)" by (simp add: demo_struct_def slook_Inr)
  have r: "lq_rep demo_members [] [1, 2]" by (simp add: lq_rep_def lq_ok_def lq_done_def lq_pending_def demo_members_def)
  have a: "objs_alive demo_struct [1, 2]" by (simp add: objs_alive_def demo_struct_def slook_Inr)
  have n: "map (name_at demo_struct) [1, 2] = [Some (ascii ''a''), Some (ascii ''b'')]"
    by (simp add: name_at_def demo_struct_def slook_def)
  show ?thesis using getFieldNames_in_order [OF s _ r _ a, of "demo_env []"] n by (auto simp: blank_object_def)
qed

end
