(* ===== verification/BitReader.thy ===== *)
theory BitReader
  imports State
begin

text \<open>
  The input of libdeflate's decompressor, the macros of \<^verbatim>\<open>deflate_decompress.c\<close>: \<open>bitbuf\<close> holds the next bits of
  the input, of which \<open>bitsleft\<close> are counted; it is filled a word at a time where the machine allows it (\<open>fast\<close>: little
  endian with fast unaligned access) and the input has eight more bytes, else byte by byte. Past the end of the input
  zeros are supplied and counted in \<open>overrun_count\<close>. The theorem: whichever way the buffer is filled, what is taken out
  of it are the bits of the input in their order.
\<close>

section \<open>The code\<close>

record bitstream =
  in_next :: nat
  bitbuf :: "64 word"
  bitsleft :: nat
  overrun_count :: nat

abbreviation (input) BITBUF_NBITS :: nat where "BITBUF_NBITS \<equiv> 64"
abbreviation (input) MAX_ENSURE :: nat where "MAX_ENSURE \<equiv> BITBUF_NBITS - 7"

definition bitstream_init :: bitstream where
  "bitstream_init = \<lparr>in_next = 0, bitbuf = 0, bitsleft = 0, overrun_count = 0\<rparr>"

text \<open>\<open>get_unaligned_leword\<close>, \<open>get_unaligned_le16\<close>: the first byte is the lowest.\<close>

fun le_word :: "byte list \<Rightarrow> 'a::len word" where
  "le_word [] = 0"
| "le_word (b # bs) = ucast b OR push_bit 8 (le_word bs)"

definition get_unaligned_leword :: "byte list \<Rightarrow> nat \<Rightarrow> 64 word" where
  "get_unaligned_leword inp p = le_word (take 8 (drop p inp))"

fun fill_bytes :: "nat \<Rightarrow> byte list \<Rightarrow> 'a bitstream_scheme \<Rightarrow> 'a bitstream_scheme" where
  "fill_bytes 0 inp s = s"
| "fill_bytes (Suc n) inp s =
     (let s = (if in_next s \<noteq> length inp
               then s\<lparr>bitbuf := bitbuf s OR push_bit (bitsleft s) (ucast (inp ! in_next s)), in_next := in_next s + 1\<rparr>
               else s\<lparr>overrun_count := overrun_count s + 1\<rparr>);
          s = s\<lparr>bitsleft := bitsleft s + 8\<rparr>
      in if bitsleft s \<le> BITBUF_NBITS - 8 then fill_bytes n inp s else s)"

text \<open>Eight rounds fill the buffer, whatever it holds.\<close>

definition FILL_BITS_BYTEWISE :: "byte list \<Rightarrow> 'a bitstream_scheme \<Rightarrow> 'a bitstream_scheme" where
  "FILL_BITS_BYTEWISE = fill_bytes 8"

definition FILL_BITS_WORDWISE :: "byte list \<Rightarrow> 'a bitstream_scheme \<Rightarrow> 'a bitstream_scheme" where
  "FILL_BITS_WORDWISE inp s =
     s\<lparr>bitbuf := bitbuf s OR push_bit (bitsleft s) (get_unaligned_leword inp (in_next s)),
       in_next := in_next s + drop_bit 3 (BITBUF_NBITS - bitsleft s),
       bitsleft := bitsleft s + (BITBUF_NBITS - bitsleft s) div 8 * 8\<rparr>"

definition ENSURE_BITS :: "bool \<Rightarrow> byte list \<Rightarrow> nat \<Rightarrow> 'a bitstream_scheme \<Rightarrow> 'a bitstream_scheme" where
  "ENSURE_BITS fast inp n s =
     (if bitsleft s < n then
        if fast \<and> 8 \<le> length inp - in_next s then FILL_BITS_WORDWISE inp s else FILL_BITS_BYTEWISE inp s
      else s)"

definition BITS :: "nat \<Rightarrow> 'a bitstream_scheme \<Rightarrow> 32 word" where
  "BITS n s = ucast (bitbuf s) AND (push_bit n 1 - 1)"

text \<open>The counter is \<open>unsigned\<close>.\<close>

definition REMOVE_BITS :: "nat \<Rightarrow> 'a bitstream_scheme \<Rightarrow> 'a bitstream_scheme" where
  "REMOVE_BITS n s = s\<lparr>bitbuf := drop_bit n (bitbuf s),
     bitsleft := (if n \<le> bitsleft s then bitsleft s - n else 2 ^ 32 + bitsleft s - n)\<rparr>"

definition ALIGN_INPUT :: "'a bitstream_scheme \<Rightarrow> 'a bitstream_scheme" where
  "ALIGN_INPUT s = s\<lparr>in_next := in_next s - (drop_bit 3 (bitsleft s) - min (overrun_count s) (drop_bit 3 (bitsleft s))),
     bitbuf := 0, bitsleft := 0\<rparr>"

definition le16_at :: "byte list \<Rightarrow> nat \<Rightarrow> 16 word" where
  "le16_at inp p = le_word (take 2 (drop p inp))"

section \<open>The input as a sequence of bits\<close>

definition sbit :: "byte list \<Rightarrow> nat \<Rightarrow> bool" where
  "sbit inp k \<longleftrightarrow> k div 8 < length inp \<and> bit (inp ! (k div 8)) (k mod 8)"

text \<open>
  \<open>o0\<close> is what \<open>overrun_count\<close> was when the input was aligned: \<open>ALIGN_INPUT\<close> goes back in the input but does not
  reset the counter.
\<close>

definition at_bit :: "nat \<Rightarrow> 'a bitstream_scheme \<Rightarrow> nat" where
  "at_bit o0 s = 8 * (in_next s + (overrun_count s - o0)) - bitsleft s"

definition num_of :: "bool list \<Rightarrow> nat" where
  "num_of bs = horner_sum of_bool 2 bs"

definition bits_at :: "byte list \<Rightarrow> nat \<Rightarrow> nat \<Rightarrow> bool list" where
  "bits_at inp p n = map (\<lambda>i. sbit inp (p + i)) [0..<n]"

text \<open>The counted bits are right, and what is above them is either right too or zero.\<close>

definition bits_ok :: "byte list \<Rightarrow> nat \<Rightarrow> 'a bitstream_scheme \<Rightarrow> bool" where
  "bits_ok inp o0 s \<longleftrightarrow> bitsleft s \<le> 64 \<and> in_next s \<le> length inp \<and> o0 \<le> overrun_count s \<and>
     bitsleft s \<le> 8 * (in_next s + (overrun_count s - o0)) \<and> (o0 < overrun_count s \<longrightarrow> in_next s = length inp) \<and>
     (\<forall>i < bitsleft s. bit (bitbuf s) i = sbit inp (at_bit o0 s + i)) \<and>
     (\<forall>i. bit (bitbuf s) i \<longrightarrow> sbit inp (at_bit o0 s + i))"

lemma bits_ok_init: "bits_ok inp 0 bitstream_init"
  by (simp add: bits_ok_def bitstream_init_def at_bit_def)

lemma num_of_simps [simp]: "num_of [] = 0" "num_of (b # bs) = of_bool b + 2 * num_of bs"
  by (simp_all add: num_of_def)

lemma num_of_bound: "num_of bs < 2 ^ length bs"
  by (induction bs) auto

lemma bit_num_of: "bit (num_of bs) i \<longleftrightarrow> i < length bs \<and> bs ! i"
  by (simp add: num_of_def bit_horner_sum_bit_iff)

lemma length_bits_at [simp]: "length (bits_at inp p n) = n"
  by (simp add: bits_at_def)

lemma nth_bits_at: "i < n \<Longrightarrow> bits_at inp p n ! i = sbit inp (p + i)"
  by (simp add: bits_at_def)

lemma bits_at_split: "bits_at inp p (m + n) = bits_at inp p m @ bits_at inp (p + m) n"
  by (rule nth_equalityI) (simp_all add: nth_append nth_bits_at)

lemma bit_le_word:
  "bit (le_word bs :: 'a::len word) i \<longleftrightarrow> i < LENGTH('a) \<and> i div 8 < length bs \<and> bit (bs ! (i div 8)) (i mod 8)"
proof (induction bs arbitrary: i)
  case (Cons b bs)
  show ?case
  proof (cases "i < 8")
    case True
    then show ?thesis by (auto simp: bit_simps)
  next
    case False
    then have "i div 8 = Suc ((i - 8) div 8)" "i mod 8 = (i - 8) mod 8"
      by (simp_all add: le_div_geq le_mod_geq)
    moreover have "\<not> bit b i" using False bit_imp_le_length [of b i] by auto
    ultimately show ?thesis using False Cons.IH [of "i - 8"] by (auto simp: bit_simps)
  qed
qed simp

lemma bit_leword:
  assumes "p + 8 \<le> length inp" "i < 64"
  shows "bit (get_unaligned_leword inp p) i = sbit inp (8 * p + i)"
  using assms by (auto simp: get_unaligned_leword_def bit_le_word sbit_def)

section \<open>Filling\<close>

lemma byte_bit: "k < 8 \<Longrightarrow> (8 * q + k) div 8 = (q :: nat)" "k < 8 \<Longrightarrow> (8 * q + k) mod 8 = k"
  by simp_all

lemma bytes_up: "b \<le> 8 * q \<Longrightarrow> (8 * q - b + 7) div 8 = q - b div (8 :: nat)"
  by linarith

lemma fill_byte_ok:
  assumes ok: "bits_ok inp o0 s" and l: "bitsleft s \<le> 56"
  defines "s' \<equiv> (if in_next s \<noteq> length inp
               then s\<lparr>bitbuf := bitbuf s OR push_bit (bitsleft s) (ucast (inp ! in_next s)), in_next := in_next s + 1\<rparr>
               else s\<lparr>overrun_count := overrun_count s + 1\<rparr>)\<lparr>bitsleft := bitsleft s + 8\<rparr>"
  shows "bits_ok inp o0 s'" "at_bit o0 s' = at_bit o0 s" "bitsleft s' = bitsleft s + 8"
proof -
  note O = ok [unfolded bits_ok_def]
  have a: "at_bit o0 s + bitsleft s = 8 * (in_next s + (overrun_count s - o0))" using O unfolding at_bit_def by linarith
  show b: "bitsleft s' = bitsleft s + 8" by (simp add: s'_def)
  show p: "at_bit o0 s' = at_bit o0 s" using O by (auto simp: s'_def at_bit_def)
  have new: "bit (bitbuf s') i = sbit inp (at_bit o0 s + i)" if i: "i < bitsleft s + 8" for i
  proof (cases "i < bitsleft s")
    case True
    then show ?thesis using O by (auto simp: s'_def bit_simps)
  next
    case False
    let ?k = "i - bitsleft s"
    have k: "at_bit o0 s + i = 8 * (in_next s + (overrun_count s - o0)) + ?k" "?k < 8" using a False i by simp_all
    have d: "(at_bit o0 s + i) div 8 = in_next s + (overrun_count s - o0)" "(at_bit o0 s + i) mod 8 = ?k"
      unfolding k(1) by (rule byte_bit [OF k(2)])+
    show ?thesis
    proof (cases "in_next s = length inp")
      case True
      then have "\<not> sbit inp (at_bit o0 s + i)" using d by (simp add: sbit_def)
      then show ?thesis using O True by (auto simp: s'_def)
    next
      case nl: False
      then have "overrun_count s = o0" "in_next s < length inp" using O by auto
      then have "sbit inp (at_bit o0 s + i) = bit (inp ! in_next s) ?k" using d by (simp add: sbit_def)
      then show ?thesis using O nl False i l by (auto simp: s'_def bit_simps)
    qed
  qed
  have "sbit inp (at_bit o0 s + i)" if i: "bit (bitbuf s') i" for i
  proof (cases "i < bitsleft s + 8")
    case True
    then show ?thesis using new i by simp
  next
    case False
    have "\<not> bit (inp ! in_next s) (i - bitsleft s)" using False bit_imp_le_length [of "inp ! in_next s" "i - bitsleft s"] by auto
    then have "bit (bitbuf s) i" using i False by (auto simp: s'_def bit_simps split: if_splits)
    then show ?thesis using O by blast
  qed
  moreover have "bitsleft s' \<le> 64" "in_next s' \<le> length inp" "o0 \<le> overrun_count s'" "bitsleft s' \<le> 8 * (in_next s' + (overrun_count s' - o0))"
    "o0 < overrun_count s' \<longrightarrow> in_next s' = length inp"
    using O l by (auto simp: s'_def)
  ultimately show "bits_ok inp o0 s'" using new unfolding bits_ok_def p b by blast
qed

lemma fill_bytes_ok:
  "bits_ok inp o0 s \<Longrightarrow> bitsleft s \<le> 56 \<Longrightarrow> 57 \<le> bitsleft s + 8 * n \<Longrightarrow>
    bits_ok inp o0 (fill_bytes n inp s) \<and> at_bit o0 (fill_bytes n inp s) = at_bit o0 s \<and> 57 \<le> bitsleft (fill_bytes n inp s)"
proof (induction n arbitrary: s)
  case (Suc n)
  let ?s = "(if in_next s \<noteq> length inp
               then s\<lparr>bitbuf := bitbuf s OR push_bit (bitsleft s) (ucast (inp ! in_next s)), in_next := in_next s + 1\<rparr>
               else s\<lparr>overrun_count := overrun_count s + 1\<rparr>)\<lparr>bitsleft := bitsleft s + 8\<rparr>"
  note f = fill_byte_ok [OF Suc.prems(1,2)]
  have e: "fill_bytes (Suc n) inp s = (if bitsleft ?s \<le> 56 then fill_bytes n inp ?s else ?s)" by (simp add: Let_def)
  show ?case
  proof (cases "bitsleft ?s \<le> 56")
    case True
    then show ?thesis unfolding e using Suc.IH [OF f(1) True] f(2,3) Suc.prems(3) by simp
  next
    case False
    then show ?thesis unfolding e using f by simp
  qed
qed simp

lemma fill_word_ok:
  assumes ok: "bits_ok inp o0 s" and l: "bitsleft s \<le> 56" and room: "8 \<le> length inp - in_next s"
  shows "bits_ok inp o0 (FILL_BITS_WORDWISE inp s)" "at_bit o0 (FILL_BITS_WORDWISE inp s) = at_bit o0 s"
    "57 \<le> bitsleft (FILL_BITS_WORDWISE inp s)"
proof -
  let ?s = "FILL_BITS_WORDWISE inp s" and ?k = "(64 - bitsleft s) div 8"
  note O = ok [unfolded bits_ok_def]
  have ov: "overrun_count s = o0" using O room by auto
  have a: "at_bit o0 s + bitsleft s = 8 * in_next s" using O ov by (simp add: at_bit_def)
  have k: "8 * ?k \<le> 64 - bitsleft s" "64 - bitsleft s < 8 * ?k + 8" by linarith+
  have f: "in_next ?s = in_next s + ?k" "bitsleft ?s = bitsleft s + 8 * ?k" "overrun_count ?s = o0" "o0 \<le> overrun_count ?s"
    "bitbuf ?s = bitbuf s OR push_bit (bitsleft s) (get_unaligned_leword inp (in_next s))"
    using ov by (simp_all add: FILL_BITS_WORDWISE_def drop_bit_eq_div)
  show p: "at_bit o0 ?s = at_bit o0 s" using O ov f by (simp add: at_bit_def)
  show "57 \<le> bitsleft ?s" unfolding f using k l by linarith
  have w: "bit (push_bit (bitsleft s) (get_unaligned_leword inp (in_next s))) i \<longleftrightarrow> i < 64 \<and> bitsleft s \<le> i \<and> sbit inp (at_bit o0 s + i)" for i
  proof (cases "bitsleft s \<le> i \<and> i < 64")
    case True
    have "bit (get_unaligned_leword inp (in_next s)) (i - bitsleft s) = sbit inp (8 * in_next s + (i - bitsleft s))"
      by (rule bit_leword) (use room True in auto)
    moreover have "8 * in_next s + (i - bitsleft s) = at_bit o0 s + i" using a True by simp
    ultimately show ?thesis using True by (simp add: bit_simps)
  qed (auto simp: bit_simps)
  have "bitsleft ?s \<le> 64" unfolding f using k l by linarith
  moreover have "\<forall>i < bitsleft ?s. bit (bitbuf ?s) i = sbit inp (at_bit o0 s + i)"
  proof (intro allI impI)
    fix i assume "i < bitsleft ?s"
    then have "i < 64" using k l f by linarith
    then show "bit (bitbuf ?s) i = sbit inp (at_bit o0 s + i)"
      unfolding f(5) bit_or_iff w using O by (cases "i < bitsleft s") auto
  qed
  moreover have "\<forall>i. bit (bitbuf ?s) i \<longrightarrow> sbit inp (at_bit o0 s + i)" unfolding f(5) bit_or_iff w using O by blast
  moreover have "in_next ?s \<le> length inp" unfolding f using room k l by linarith
  moreover have "bitsleft ?s \<le> 8 * (in_next ?s + (overrun_count ?s - o0))" unfolding f using O ov by simp
  ultimately show "bits_ok inp o0 ?s" unfolding bits_ok_def p using f(3) by simp
qed

lemma ENSURE_BITS_ok:
  assumes "bits_ok inp o0 s" "n \<le> MAX_ENSURE"
  shows "bits_ok inp o0 (ENSURE_BITS fast inp n s)" "at_bit o0 (ENSURE_BITS fast inp n s) = at_bit o0 s" "n \<le> bitsleft (ENSURE_BITS fast inp n s)"
proof -
  have "bits_ok inp o0 (ENSURE_BITS fast inp n s) \<and> at_bit o0 (ENSURE_BITS fast inp n s) = at_bit o0 s \<and> n \<le> bitsleft (ENSURE_BITS fast inp n s)"
  proof (cases "bitsleft s < n")
    case True
    then have l: "bitsleft s \<le> 56" using assms(2) by simp
    show ?thesis
      using True fill_word_ok [OF assms(1) l] fill_bytes_ok [OF assms(1) l, of 8] assms(2)
      by (auto simp: ENSURE_BITS_def FILL_BITS_BYTEWISE_def)
  next
    case False
    then show ?thesis using assms(1) by (simp add: ENSURE_BITS_def)
  qed
  then show "bits_ok inp o0 (ENSURE_BITS fast inp n s)" "at_bit o0 (ENSURE_BITS fast inp n s) = at_bit o0 s" "n \<le> bitsleft (ENSURE_BITS fast inp n s)"
    by simp_all
qed

section \<open>Taking bits\<close>

lemma BITS_ok:
  assumes ok: "bits_ok inp o0 s" and n: "n \<le> bitsleft s" "n < 32"
  shows "BITS n s = of_nat (num_of (bits_at inp (at_bit o0 s) n))"
proof (rule bit_word_eqI)
  fix i assume i: "i < LENGTH(32)"
  have m: "push_bit n 1 - 1 = (mask n :: 32 word)" by (simp add: push_bit_eq_mult mask_eq_exp_minus_1)
  have "bit (BITS n s) i \<longleftrightarrow> i < n \<and> bit (bitbuf s) i"
    using i n(2) unfolding BITS_def m by (auto simp: bit_and_iff bit_mask_iff bit_ucast_iff)
  also have "\<dots> \<longleftrightarrow> i < n \<and> sbit inp (at_bit o0 s + i)" using ok n(1) unfolding bits_ok_def by auto
  finally show "bit (BITS n s) i = bit (of_nat (num_of (bits_at inp (at_bit o0 s) n)) :: 32 word) i"
    using i by (auto simp: bit_of_nat_iff bit_num_of nth_bits_at)
qed

lemma BITS_unat: "bits_ok inp o0 s \<Longrightarrow> n \<le> bitsleft s \<Longrightarrow> n < 32 \<Longrightarrow> unat (BITS n s) = num_of (bits_at inp (at_bit o0 s) n)"
proof -
  assume "bits_ok inp o0 s" "n \<le> bitsleft s" "n < 32"
  moreover have "num_of (bits_at inp (at_bit o0 s) n) < 2 ^ 32"
    using num_of_bound [of "bits_at inp (at_bit o0 s) n"] \<open>n < 32\<close> power_strict_increasing [of n 32 "2 :: nat"] by simp
  ultimately show ?thesis using BITS_ok [of inp o0 s n] by (simp add: unat_of_nat)
qed

lemma less_taken: "n \<le> b \<Longrightarrow> b \<le> q \<Longrightarrow> q - (b - n) = q - b + (n :: nat)"
  by simp

lemma REMOVE_BITS_ok:
  assumes ok: "bits_ok inp o0 s" and n: "n \<le> bitsleft s"
  shows "bits_ok inp o0 (REMOVE_BITS n s)" "at_bit o0 (REMOVE_BITS n s) = at_bit o0 s + n" "bitsleft (REMOVE_BITS n s) = bitsleft s - n"
proof -
  note O = ok [unfolded bits_ok_def]
  have r: "in_next (REMOVE_BITS n s) = in_next s" "overrun_count (REMOVE_BITS n s) = overrun_count s"
    "bitsleft (REMOVE_BITS n s) = bitsleft s - n" using n by (simp_all add: REMOVE_BITS_def)
  show a: "at_bit o0 (REMOVE_BITS n s) = at_bit o0 s + n" "bitsleft (REMOVE_BITS n s) = bitsleft s - n"
    unfolding at_bit_def r using O by (intro less_taken [OF n]) blast+
  show "bits_ok inp o0 (REMOVE_BITS n s)"
    unfolding bits_ok_def a
    using O n by (auto simp: REMOVE_BITS_def bit_drop_bit_eq add.assoc)
qed

lemma bytes_back: "b \<le> 8 * q \<Longrightarrow> b div 8 \<le> (q :: nat)"
  by linarith

lemma align_arith:
  fixes x v k n m :: nat
  assumes "m \<le> v" "x \<le> n" "m < v \<longrightarrow> x = n" "k \<le> x + (v - m)"
  shows "min n (x + (v - m) - k) \<le> x - (k - min v k)" "m = 0 \<Longrightarrow> x - (k - min v k) = min n (x + (v - m) - k)"
proof -
  obtain e where e: "v = m + e" using assms(1) le_Suc_ex by blast
  show "min n (x + (v - m) - k) \<le> x - (k - min v k)"
  proof (cases "v \<le> k")
    case True
    then obtain d where "k = v + d" using le_Suc_ex by blast
    then show ?thesis unfolding e by simp
  next
    case False
    then show ?thesis using assms(3) unfolding e by (cases e) simp_all
  qed
  show "x - (k - min v k) = min n (x + (v - m) - k)" if "m = 0"
  proof (cases "v \<le> k")
    case True
    then obtain d where d: "k = v + d" using le_Suc_ex by blast
    then show ?thesis using assms(2,4) that by simp
  next
    case False
    then have "x = n" "n \<le> x + (v - m) - k" using assms(3) that by simp_all
    then show ?thesis using False by simp
  qed
qed

text \<open>After an earlier alignment (\<open>0 < o0\<close>) the input may be set too far ahead.\<close>

lemma ALIGN_INPUT_ok:
  assumes ok: "bits_ok inp o0 s"
  defines "s' \<equiv> ALIGN_INPUT s"
  shows "bits_ok inp (overrun_count s') s'" "bitsleft s' = 0" "at_bit (overrun_count s') s' = 8 * in_next s'"
    "min (length inp) ((at_bit o0 s + 7) div 8) \<le> in_next s'" "in_next s' \<le> length inp"
    "o0 = 0 \<Longrightarrow> in_next s' = min (length inp) ((at_bit o0 s + 7) div 8)"
proof -
  note O = ok [unfolded bits_ok_def]
  let ?k = "bitsleft s div 8"
  have f: "in_next s' = in_next s - (?k - min (overrun_count s) ?k)" "bitbuf s' = 0" "bitsleft s' = 0" "overrun_count s' = overrun_count s"
    by (simp_all add: s'_def ALIGN_INPUT_def drop_bit_eq_div)
  have c: "(at_bit o0 s + 7) div 8 = in_next s + (overrun_count s - o0) - ?k" using O unfolding at_bit_def by (intro bytes_up) blast
  show in_range: "in_next s' \<le> length inp" using O unfolding f by (meson diff_le_self le_trans)
  show "bitsleft s' = 0" by (rule f)
  show "at_bit (overrun_count s') s' = 8 * in_next s'" by (simp add: at_bit_def f)
  then show "bits_ok inp (overrun_count s') s'" using in_range f(2-4) by (simp add: bits_ok_def)
  have "?k \<le> in_next s + (overrun_count s - o0)" using O by (intro bytes_back) blast
  note al = align_arith [OF _ _ _ this, of "length inp"]
  show "min (length inp) ((at_bit o0 s + 7) div 8) \<le> in_next s'" unfolding c f using al(1) O by blast
  show "in_next s' = min (length inp) ((at_bit o0 s + 7) div 8)" if "o0 = 0" unfolding c f using al(2) O that by metis
qed

section \<open>Reading\<close>

text \<open>Make sure of the bits, and take them.\<close>

definition read_bits :: "bool \<Rightarrow> byte list \<Rightarrow> nat \<Rightarrow> 'a bitstream_scheme \<Rightarrow> nat \<times> 'a bitstream_scheme" where
  "read_bits fast inp n s = (let s = ENSURE_BITS fast inp n s in (unat (BITS n s), REMOVE_BITS n s))"

lemma read_bits_ok:
  assumes "bits_ok inp o0 s" "n < 32"
  shows "fst (read_bits fast inp n s) = num_of (bits_at inp (at_bit o0 s) n)" "bits_ok inp o0 (snd (read_bits fast inp n s))"
    "at_bit o0 (snd (read_bits fast inp n s)) = at_bit o0 s + n"
proof -
  have "n \<le> MAX_ENSURE" using assms(2) by simp
  note e = ENSURE_BITS_ok [OF assms(1) this, of fast]
  show "fst (read_bits fast inp n s) = num_of (bits_at inp (at_bit o0 s) n)"
    using BITS_unat [OF e(1,3) assms(2)] e(2) by (simp add: read_bits_def Let_def)
  show "bits_ok inp o0 (snd (read_bits fast inp n s))" "at_bit o0 (snd (read_bits fast inp n s)) = at_bit o0 s + n"
    using REMOVE_BITS_ok [OF e(1,3)] e(2) by (simp_all add: read_bits_def Let_def)
qed

end
