(* ===== verification/HuffmanTable.thy ===== *)
theory HuffmanTable
  imports BitReader
begin

text \<open>
  \<open>build_decode_table\<close> of \<^verbatim>\<open>deflate_decompress.c\<close>: from the codeword lengths of a Huffman code to a table that is
  indexed with the next bits of the input. The working space is written before it is read, so its arrays
  start as zeros here; a code has at most 288 symbols, so no \<open>u16\<close> or \<open>unsigned\<close> of the function wraps. Every access
  to an array is checked: where a table is too small, the outcome is \<open>Fault\<close>.
\<close>

section \<open>Entries\<close>

abbreviation (input) HUFFDEC_SUBTABLE_POINTER :: "32 word" where "HUFFDEC_SUBTABLE_POINTER \<equiv> 0x80000000"
abbreviation (input) HUFFDEC_LITERAL :: "32 word" where "HUFFDEC_LITERAL \<equiv> 0x40000000"
abbreviation (input) HUFFDEC_LENGTH_MASK :: "32 word" where "HUFFDEC_LENGTH_MASK \<equiv> 0xFF"
abbreviation (input) HUFFDEC_RESULT_SHIFT :: nat where "HUFFDEC_RESULT_SHIFT \<equiv> 8"

definition make_decode_table_entry :: "32 word \<Rightarrow> 32 word \<Rightarrow> 32 word" where
  "make_decode_table_entry result len = push_bit HUFFDEC_RESULT_SHIFT result OR len"

section \<open>Sorting the symbols\<close>

fun count_lens :: "nat list \<Rightarrow> nat list \<Rightarrow> nat list res" where
  "count_lens [] len_counts = Inr len_counts"
| "count_lens (l # lens) len_counts =
     bnd (aget len_counts (int l)) (\<lambda>c.
     bnd (aset len_counts (int l) (c + 1)) (\<lambda>len_counts. count_lens lens len_counts))"

fun sum_counts :: "nat \<Rightarrow> nat \<Rightarrow> nat list \<Rightarrow> nat list \<Rightarrow> nat list res" where
  "sum_counts 0 l len_counts offsets = Inr offsets"
| "sum_counts (Suc k) l len_counts offsets =
     bnd (aget offsets (int l)) (\<lambda>x.
     bnd (aget len_counts (int l)) (\<lambda>c.
     bnd (aset offsets (int l + 1) (x + c)) (\<lambda>offsets. sum_counts k (l + 1) len_counts offsets)))"

fun sort_syms :: "nat \<Rightarrow> nat list \<Rightarrow> nat list \<Rightarrow> nat list \<Rightarrow> (nat list \<times> nat list) res" where
  "sort_syms sy [] offsets sorted_syms = Inr (offsets, sorted_syms)"
| "sort_syms sy (l # lens) offsets sorted_syms =
     bnd (aget offsets (int l)) (\<lambda>x.
     bnd (aset sorted_syms (int x) sy) (\<lambda>sorted_syms.
     bnd (aset offsets (int l) (x + 1)) (\<lambda>offsets. sort_syms (sy + 1) lens offsets sorted_syms)))"

text \<open>The part of the code space that is left; \<open>None\<close> when the lengths ask for more than there is.\<close>

fun space_left :: "nat list \<Rightarrow> int \<Rightarrow> int option" where
  "space_left [] remainder = Some remainder"
| "space_left (c # len_counts) remainder =
     (let remainder = 2 * remainder - int c in if remainder < 0 then None else space_left len_counts remainder)"

section \<open>Filling the table\<close>

text \<open>Every \<open>2 ^ k\<close>-th entry from \<open>i\<close> on; \<open>do \<dots> while\<close>.\<close>

function fill_table :: "nat \<Rightarrow> nat \<Rightarrow> nat \<Rightarrow> 32 word \<Rightarrow> 32 word list \<Rightarrow> 32 word list res" where
  "fill_table k i end' entry decode_table =
     bnd (aset decode_table (int i) entry) (\<lambda>decode_table.
       if i + 2 ^ k < end' then fill_table k (i + 2 ^ k) end' entry decode_table else Inr decode_table)"
  by pat_completeness auto
termination
  by (relation "measure (\<lambda>(k, i, end', entry, t). end' - i)") (simp, simp add: diff_less_mono2)

declare fill_table.simps [simp del]

text \<open>The bit at which a bit-reversed codeword is incremented; zero when it has only ones.\<close>

fun carry_bit :: "nat \<Rightarrow> nat \<Rightarrow> nat" where
  "carry_bit codeword_reversed 0 = 0"
| "carry_bit codeword_reversed (Suc k) =
     (if codeword_reversed AND 2 ^ k \<noteq> 0 then carry_bit codeword_reversed k else 2 ^ k)"

definition next_codeword :: "nat \<Rightarrow> nat \<Rightarrow> nat" where
  "next_codeword codeword_reversed codeword_len =
     (let b = carry_bit codeword_reversed codeword_len
      in if b = 0 then codeword_reversed else (codeword_reversed AND (b - 1)) OR b)"

function next_len :: "nat list \<Rightarrow> nat \<Rightarrow> nat res" where
  "next_len len_counts codeword_len =
     bnd (aget len_counts (int codeword_len)) (\<lambda>c.
       if c = 0 then next_len len_counts (codeword_len + 1) else Inr codeword_len)"
  by pat_completeness auto
termination
  by (relation "measure (\<lambda>(c, l). length c - l)") (auto simp: aget_def split: if_splits)

declare next_len.simps [simp del]

function subtable_bits :: "nat list \<Rightarrow> nat \<Rightarrow> nat \<Rightarrow> int \<Rightarrow> nat res" where
  "subtable_bits len_counts table_bits n remainder =
     bnd (aget len_counts (int (table_bits + n))) (\<lambda>c.
       let remainder = remainder - int c in
       if remainder \<le> 0 then Inr n else subtable_bits len_counts table_bits (n + 1) (2 * remainder))"
  by pat_completeness auto
termination
  by (relation "measure (\<lambda>(c, tb, n, r). length c - (tb + n))") (auto simp: aget_def split: if_splits)

declare subtable_bits.simps [simp del]

record hbuild =
  decode_table :: "32 word list"
  len_counts :: "nat list"
  codeword_len :: nat
  codeword_reversed :: nat
  cur_codeword_prefix :: int
  cur_table_start :: nat
  cur_table_bits :: nat
  num_dropped_bits :: nat

definition open_subtable :: "nat \<Rightarrow> hbuild \<Rightarrow> hbuild res" where
  "open_subtable table_bits b =
     (let prefix = codeword_reversed b AND (2 ^ table_bits - 1) in
      if table_bits < codeword_len b \<and> int prefix \<noteq> cur_codeword_prefix b then
        let start = cur_table_start b + 2 ^ cur_table_bits b; n = codeword_len b - table_bits in
        bnd (subtable_bits (len_counts b) table_bits n (2 ^ n)) (\<lambda>n.
        bnd (aset (decode_table b) (int prefix)
               (HUFFDEC_SUBTABLE_POINTER OR make_decode_table_entry (of_nat start) (of_nat n))) (\<lambda>t.
          Inr (b\<lparr>decode_table := t, cur_codeword_prefix := int prefix, cur_table_start := start, cur_table_bits := n,
                 num_dropped_bits := table_bits\<rparr>)))
      else Inr b)"

definition add_codeword :: "32 word list \<Rightarrow> nat \<Rightarrow> hbuild \<Rightarrow> hbuild res" where
  "add_codeword decode_results sy b =
     bnd (aget decode_results (int sy)) (\<lambda>r.
     bnd (fill_table (codeword_len b - num_dropped_bits b)
            (cur_table_start b + drop_bit (num_dropped_bits b) (codeword_reversed b))
            (cur_table_start b + 2 ^ cur_table_bits b)
            (make_decode_table_entry r (of_nat (codeword_len b - num_dropped_bits b))) (decode_table b)) (\<lambda>t.
       Inr (b\<lparr>decode_table := t, codeword_reversed := next_codeword (codeword_reversed b) (codeword_len b)\<rparr>)))"

fun build_loop :: "nat \<Rightarrow> 32 word list \<Rightarrow> nat list \<Rightarrow> hbuild \<Rightarrow> 32 word list res" where
  "build_loop table_bits decode_results [] b = Inl Fault"
| "build_loop table_bits decode_results (sy # syms) b =
     bnd (open_subtable table_bits b) (\<lambda>b.
     bnd (add_codeword decode_results sy b) (\<lambda>b.
       if syms = [] then Inr (decode_table b)
       else
         bnd (aget (len_counts b) (int (codeword_len b))) (\<lambda>c.
         bnd (aset (len_counts b) (int (codeword_len b)) (c - 1)) (\<lambda>cs.
         bnd (next_len cs (codeword_len b)) (\<lambda>l.
           build_loop table_bits decode_results syms (b\<lparr>len_counts := cs, codeword_len := l\<rparr>))))))"

text \<open>\<open>None\<close> when the function returns false.\<close>

definition build_decode_table ::
  "32 word list \<Rightarrow> nat list \<Rightarrow> 32 word list \<Rightarrow> nat \<Rightarrow> nat \<Rightarrow> 32 word list option res" where
  "build_decode_table table lens decode_results table_bits max_codeword_len =
     bnd (count_lens lens (replicate (max_codeword_len + 1) 0)) (\<lambda>counts.
     bnd (sum_counts max_codeword_len 0 counts (replicate (max_codeword_len + 1) 0)) (\<lambda>offsets.
     bnd (sort_syms 0 lens offsets (replicate (length lens) 0)) (\<lambda>(offsets, sorted_syms).
       case space_left (tl counts) 1 of
         None \<Rightarrow> Inr None
       | Some remainder \<Rightarrow>
           bnd (if remainder \<noteq> 0 then
                  bnd (aget decode_results 0) (\<lambda>r. fill_table 0 0 (2 ^ table_bits) (make_decode_table_entry r 1) table)
                else Inr table) (\<lambda>table.
           if remainder \<noteq> 0 \<and> remainder = 2 ^ max_codeword_len then Inr (Some table)
           else
             bnd (aget counts 1) (\<lambda>c1.
             if remainder \<noteq> 0 \<and> (remainder \<noteq> 2 ^ (max_codeword_len - 1) \<or> c1 \<noteq> 1) then Inr None
             else
               bnd (aget offsets 0) (\<lambda>sym_idx.
               bnd (next_len counts 1) (\<lambda>l.
               bnd (build_loop table_bits decode_results (drop sym_idx sorted_syms)
                      \<lparr>decode_table = table, len_counts = counts, codeword_len = l, codeword_reversed = 0,
                       cur_codeword_prefix = 2 ^ 32 - 1, cur_table_start = 0, cur_table_bits = table_bits,
                       num_dropped_bits = 0\<rparr>) (\<lambda>t. Inr (Some t)))))))))"

section \<open>Looking up\<close>

text \<open>
  What the decoder does with the next bits, here as a number: the result and the length of the codeword. It has made sure
  of fifteen bits; a subtable that needs more is a \<open>Fault\<close>, and so is an entry of a subtable without bits of its own.
\<close>

definition lookup_bits :: "32 word list \<Rightarrow> nat \<Rightarrow> nat \<Rightarrow> (32 word \<times> nat) res" where
  "lookup_bits t table_bits w =
     bnd (aget t (int (take_bit table_bits w))) (\<lambda>e.
     if e AND HUFFDEC_SUBTABLE_POINTER \<noteq> 0 then
       let n = unat (e AND HUFFDEC_LENGTH_MASK) in
       if 15 < table_bits + n then Inl Fault
       else
         bnd (aget t (int (unat (drop_bit HUFFDEC_RESULT_SHIFT e AND 0xFFFF) + take_bit n (drop_bit table_bits w)))) (\<lambda>e.
           if e AND HUFFDEC_LENGTH_MASK = 0 then Inl Fault
           else Inr (drop_bit HUFFDEC_RESULT_SHIFT e, table_bits + unat (e AND HUFFDEC_LENGTH_MASK)))
     else Inr (drop_bit HUFFDEC_RESULT_SHIFT e, unat (e AND HUFFDEC_LENGTH_MASK)))"

end
