(* ===== verification/HuffmanCode.thy ===== *)
theory HuffmanCode
  imports HuffmanTable
begin

text \<open>
  The canonical Huffman code of RFC 1951, as a specification: \<open>codeword\<close> gives the codeword of a symbol. In the code
  space of size \<open>2 ^ M\<close> (the values of the next \<open>M\<close> bits, first bit highest) a codeword of length \<open>l\<close> owns an interval
  of \<open>2 ^ (M - l)\<close> values, and in the order of the code (length, then symbol) the intervals follow one another. The
  lemmas relate the bit-reversed codewords of the program to it.
\<close>

section \<open>Reversed numbers\<close>

definition rv :: "nat \<Rightarrow> nat \<Rightarrow> nat" where
  "rv k x = horner_sum of_bool 2 (map (\<lambda>i. bit x (k - 1 - i)) [0..<k])"

lemma bit_rv: "bit (rv k x) i \<longleftrightarrow> i < k \<and> bit x (k - 1 - i)"
  by (auto simp: rv_def bit_horner_sum_bit_iff)

lemma bits_less: "(\<And>i. bit (x :: nat) i \<Longrightarrow> i < k) \<Longrightarrow> x < 2 ^ k"
proof -
  assume "\<And>i. bit x i \<Longrightarrow> i < k"
  then have "take_bit k x = x" by (intro bit_eqI) (auto simp: bit_take_bit_iff)
  then show ?thesis by (metis take_bit_nat_less_exp)
qed

lemma less_bits: "(x :: nat) < 2 ^ k \<Longrightarrow> bit x i \<Longrightarrow> i < k"
  by (metis bit_take_bit_iff take_bit_nat_eq_self)

lemma rv_less: "rv k x < 2 ^ k"
  by (rule bits_less) (simp add: bit_rv)

lemma rv_rv [simp]: "x < 2 ^ k \<Longrightarrow> rv k (rv k x) = x"
  by (rule bit_eqI) (auto simp: bit_rv dest: less_bits)

lemma same_prefix:
  assumes "x < 2 ^ M" "y < 2 ^ M" "L \<le> M"
  shows "x div 2 ^ (M - L) = y div 2 ^ (M - L) \<longleftrightarrow> take_bit L (rv M x) = take_bit L (rv M y)"
proof -
  have "x div 2 ^ (M - L) = y div 2 ^ (M - L) \<longleftrightarrow> (\<forall>i < L. bit x (M - 1 - i) = bit y (M - 1 - i))"
  proof -
    have "x div 2 ^ (M - L) = y div 2 ^ (M - L) \<longleftrightarrow> (\<forall>j. bit x (M - L + j) = bit y (M - L + j))"
      by (simp add: bit_eq_iff bit_drop_bit_eq add.commute flip: drop_bit_eq_div)
    also have "\<dots> \<longleftrightarrow> (\<forall>i < L. bit x (M - 1 - i) = bit y (M - 1 - i))"
    proof
      assume a: "\<forall>j. bit x (M - L + j) = bit y (M - L + j)"
      show "\<forall>i < L. bit x (M - 1 - i) = bit y (M - 1 - i)"
      proof (intro allI impI)
        fix i assume "i < L"
        then have "M - L + (L - 1 - i) = M - 1 - i" using assms(3) by simp
        then show "bit x (M - 1 - i) = bit y (M - 1 - i)" using a by metis
      qed
    next
      assume a: "\<forall>i < L. bit x (M - 1 - i) = bit y (M - 1 - i)"
      show "\<forall>j. bit x (M - L + j) = bit y (M - L + j)"
      proof
        fix j
        show "bit x (M - L + j) = bit y (M - L + j)"
        proof (cases "j < L")
          case True
          then have "M - 1 - (L - 1 - j) = M - L + j" "L - 1 - j < L" using assms(3) by auto
          then show ?thesis using a by metis
        next
          case False
          then show ?thesis using less_bits [OF assms(1), of "M - L + j"] less_bits [OF assms(2), of "M - L + j"] assms(3) by auto
        qed
      qed
    qed
    finally show ?thesis .
  qed
  also have "\<dots> \<longleftrightarrow> take_bit L (rv M x) = take_bit L (rv M y)"
  proof -
    have "take_bit L (rv M x) = take_bit L (rv M y) \<longleftrightarrow>
        (\<forall>i. (i < L \<and> i < M \<and> bit x (M - 1 - i)) = (i < L \<and> i < M \<and> bit y (M - 1 - i)))"
      by (simp only: bit_eq_iff [of "take_bit L (rv M x)"] bit_take_bit_iff bit_rv) simp
    then show ?thesis using assms(3) less_le_trans by blast
  qed
  finally show ?thesis .
qed

lemma rv_shift:
  assumes "y < 2 ^ L" "L \<le> M"
  shows "rv M (y * 2 ^ (M - L)) = rv L y"
proof (rule bit_eqI)
  fix i
  have "bit (y * 2 ^ (M - L)) j \<longleftrightarrow> M - L \<le> j \<and> bit y (j - (M - L))" for j
    by (metis bit_push_bit_iff_nat push_bit_eq_mult)
  then show "bit (rv M (y * 2 ^ (M - L))) i = bit (rv L y) i"
    using assms(2) less_bits [OF assms(1)] by (auto simp: bit_rv)
qed

lemma rv_Suc: "bit (rv (Suc k) y) k = odd y" "take_bit k (rv (Suc k) y) = rv k (y div 2)"
proof -
  show "bit (rv (Suc k) y) k = odd y" by (simp add: bit_rv bit_0)
  show "take_bit k (rv (Suc k) y) = rv k (y div 2)"
  proof (rule bit_eqI)
    fix i
    have "bit y (k - i) = bit (y div 2) (k - 1 - i)" if "i < k"
      using that by (simp add: bit_Suc [symmetric] Suc_diff_Suc)
    then show "bit (take_bit k (rv (Suc k) y)) i = bit (rv k (y div 2)) i" by (auto simp: bit_take_bit_iff bit_rv)
  qed
qed

lemma rv_SucI: "bit r k = odd y \<Longrightarrow> take_bit k r = rv k (y div 2) \<Longrightarrow> r < 2 ^ Suc k \<Longrightarrow> r = rv (Suc k) y"
proof (rule bit_eqI)
  fix i
  assume a: "bit r k = odd y" "take_bit k r = rv k (y div 2)" "r < 2 ^ Suc k"
  have "bit r i = bit (take_bit k r) i" "bit (rv (Suc k) y) i = bit (take_bit k (rv (Suc k) y)) i" if "i < k"
    using that by (simp_all add: bit_take_bit_iff)
  moreover have "\<not> bit r i" "\<not> bit (rv (Suc k) y) i" if "k < i" using less_bits [OF a(3), of i] that by (auto simp: bit_rv)
  ultimately show "bit r i = bit (rv (Suc k) y) i" using a(1,2) rv_Suc [of k y] by (metis linorder_neqE_nat)
qed

lemma and_low: "(r :: nat) AND (2 ^ k - 1) = take_bit k r"
  by (metis take_bit_eq_mask mask_eq_exp_minus_1)

lemma carry_bit_Suc: "carry_bit r (Suc k) = (if bit r k then carry_bit r k else 2 ^ k)"
  by (simp only: carry_bit.simps and_exp_eq_0_iff_not_bit not_not)

lemma carry_bit_take: "carry_bit (take_bit k r) k = carry_bit r k"
proof -
  have "i \<le> k \<Longrightarrow> carry_bit (take_bit k r) i = carry_bit r i" for i
    by (induction i) (simp_all add: carry_bit_Suc bit_take_bit_iff del: carry_bit.simps(2))
  then show ?thesis by simp
qed

lemma carry_bit_le: "carry_bit r k = 0 \<or> (\<exists>i < k. carry_bit r k = 2 ^ i)"
  by (induction k) (auto simp: carry_bit_Suc simp del: carry_bit.simps(2) intro: less_SucI)

lemma next_codeword_rev: "y + 1 < 2 ^ L \<Longrightarrow> next_codeword (rv L y) L = rv L (y + 1)"
proof (induction L arbitrary: y)
  case (Suc k)
  let ?r = "rv (Suc k) y"
  show ?case
  proof (cases "even y")
    case True
    then have c: "carry_bit ?r (Suc k) = 2 ^ k" by (simp add: carry_bit_Suc rv_Suc del: carry_bit.simps(2))
    have m: "?r AND (2 ^ k - 1) = rv k (y div 2)" by (simp only: and_low rv_Suc(2))
    let ?x = "rv k (y div 2) OR 2 ^ k"
    have "?x = rv (Suc k) (y + 1)"
    proof (rule rv_SucI)
      show "bit ?x k = odd (y + 1)" using True by (simp add: bit_or_iff bit_exp_iff)
      show "take_bit k ?x = rv k ((y + 1) div 2)"
        using True by (auto intro!: bit_eqI simp: bit_take_bit_iff bit_or_iff bit_exp_iff bit_rv)
      show "?x < 2 ^ Suc k" by (rule bits_less) (auto simp: bit_or_iff bit_exp_iff bit_rv)
    qed
    then show ?thesis using c m by (simp add: next_codeword_def Let_def)
  next
    case False
    let ?r' = "rv k (y div 2)" and ?b = "carry_bit (rv k (y div 2)) k"
    have y: "y div 2 + 1 < 2 ^ k" using Suc.prems False by (auto elim!: oddE)
    have c: "carry_bit ?r (Suc k) = ?b"
      using False carry_bit_take [of k ?r] by (simp add: carry_bit_Suc rv_Suc del: carry_bit.simps(2))
    note IH = Suc.IH [OF y]
    have "?b \<noteq> 0"
    proof
      assume "?b = 0"
      then have "rv k (y div 2) = rv k (y div 2 + 1)" using IH by (simp add: next_codeword_def)
      then show False using y rv_rv [of "y div 2" k] rv_rv [of "y div 2 + 1" k] by simp
    qed
    then obtain i where i: "i < k" "?b = 2 ^ i" using carry_bit_le [of ?r' k] by auto
    have "?r AND (2 ^ i - 1) = ?r' AND (2 ^ i - 1)"
      using i(1) by (simp only: and_low rv_Suc(2) [symmetric]) simp
    then have n: "next_codeword ?r (Suc k) = next_codeword ?r' k"
      using c i(2) by (simp add: next_codeword_def Let_def)
    have "rv k (y div 2 + 1) = rv (Suc k) (y + 1)"
    proof (rule rv_SucI)
      have "(y + 1) div 2 = y div 2 + 1" using False by (auto elim!: oddE)
      then show "take_bit k (rv k (y div 2 + 1)) = rv k ((y + 1) div 2)" using rv_less by (simp add: take_bit_nat_eq_self)
      show "bit (rv k (y div 2 + 1)) k = odd (y + 1)" using False by (simp add: bit_rv)
      show "rv k (y div 2 + 1) < 2 ^ Suc k" using rv_less [of k "y div 2 + 1"] by simp
    qed
    then show ?thesis using n IH by simp
  qed
qed simp

lemma next_codeword_rv:
  assumes "2 ^ (M - L) dvd x" "x + 2 ^ (M - L) < 2 ^ M" "L \<le> M"
  shows "next_codeword (rv M x) L = rv M (x + 2 ^ (M - L))"
proof -
  obtain y where y: "x = y * 2 ^ (M - L)" using assms(1) by (metis dvd_def mult.commute)
  have p: "(2 :: nat) ^ M = 2 ^ L * 2 ^ (M - L)" using assms(3) by (simp flip: power_add)
  have "(y + 1) * 2 ^ (M - L) < 2 ^ L * 2 ^ (M - L)" using assms(2) unfolding y p by simp
  then have "y + 1 < 2 ^ L" by (simp only: mult_less_cancel2)
  moreover from this have "rv M ((y + 1) * 2 ^ (M - L)) = rv L (y + 1)" "rv M (y * 2 ^ (M - L)) = rv L y"
    using assms(3) by (simp_all only: rv_shift)
  ultimately show ?thesis using next_codeword_rev [of y L] unfolding y by (simp add: add.commute)
qed

lemma rv_aligned:
  assumes "2 ^ (M - L) dvd x" "x < 2 ^ M" "L \<le> M"
  shows "rv M x < 2 ^ L"
proof -
  obtain y where y: "x = y * 2 ^ (M - L)" using assms(1) by (metis dvd_def mult.commute)
  have "(2 :: nat) ^ M = 2 ^ L * 2 ^ (M - L)" using assms(3) by (simp flip: power_add)
  then have "y < 2 ^ L" using assms(2) unfolding y by (simp only: mult_less_cancel2)
  then show ?thesis using rv_shift [OF _ assms(3)] rv_less unfolding y by simp
qed

section \<open>The canonical code\<close>

text \<open>How many symbols below \<open>n\<close> have length \<open>l\<close>; the symbols in the order of their codewords; their share of the code space.\<close>

definition cnt_len :: "nat list \<Rightarrow> nat \<Rightarrow> nat \<Rightarrow> nat" where
  "cnt_len lens l n = length (filter (\<lambda>s. lens ! s = l) [0..<n])"

definition syms_of :: "nat list \<Rightarrow> nat \<Rightarrow> nat list" where
  "syms_of lens l = filter (\<lambda>s. lens ! s = l) [0..<length lens]"

definition code_order :: "nat \<Rightarrow> nat list \<Rightarrow> nat list" where
  "code_order M lens = concat (map (syms_of lens) [1..<M + 1])"

definition space :: "nat \<Rightarrow> nat list \<Rightarrow> nat list \<Rightarrow> nat" where
  "space M lens ss = (\<Sum>s\<leftarrow>ss. 2 ^ (M - lens ! s))"

text \<open>The algorithm of RFC 1951, section 3.2.2.\<close>

fun first_code :: "nat list \<Rightarrow> nat \<Rightarrow> nat" where
  "first_code lens 0 = 0"
| "first_code lens (Suc l) = 2 * (first_code lens l + (if l = 0 then 0 else cnt_len lens l (length lens)))"

definition codeword :: "nat list \<Rightarrow> nat \<Rightarrow> nat" where
  "codeword lens s = first_code lens (lens ! s) + cnt_len lens (lens ! s) s"

lemma space_simps [simp]: "space M lens [] = 0" "space M lens (s # ss) = 2 ^ (M - lens ! s) + space M lens ss"
  "space M lens (ss @ ts) = space M lens ss + space M lens ts"
  by (simp_all add: space_def)

lemma space_syms: "space M lens (filter (\<lambda>s. lens ! s = l) ss) = length (filter (\<lambda>s. lens ! s = l) ss) * 2 ^ (M - l)"
  by (induction ss) simp_all

lemma first_code_space: "l \<le> M \<Longrightarrow> first_code lens l * 2 ^ (M - l) = space M lens (concat (map (syms_of lens) [1..<l]))"
proof (induction l)
  case (Suc l)
  show ?case
  proof (cases "l = 0")
    case False
    have p: "2 * 2 ^ (M - Suc l) = (2 :: nat) ^ (M - l)" using Suc.prems by (metis Suc_diff_Suc Suc_le_lessD power_Suc)
    have "first_code lens (Suc l) * 2 ^ (M - Suc l) = (first_code lens l + cnt_len lens l (length lens)) * (2 * 2 ^ (M - Suc l))"
      using False by simp
    also have "\<dots> = first_code lens l * 2 ^ (M - l) + cnt_len lens l (length lens) * 2 ^ (M - l)" unfolding p by (simp add: algebra_simps)
    also have "\<dots> = space M lens (concat (map (syms_of lens) [1..<l]) @ syms_of lens l)"
      using Suc.IH Suc.prems space_syms [of M lens l "[0..<length lens]"] by (simp add: syms_of_def [of lens l] cnt_len_def)
    finally show ?thesis using False by simp
  qed simp
qed simp

lemma syms_of_split:
  assumes "s < length lens" "lens ! s = l"
  shows "\<exists>r. syms_of lens l = filter (\<lambda>s. lens ! s = l) [0..<s] @ s # r"
proof -
  have "[0..<length lens] = [0..<s] @ s # [Suc s..<length lens]"
    using assms(1) by (metis append_Cons append_Nil append_assoc less_imp_add_positive upt_add_eq_append upt_conv_Cons zero_le)
  then show ?thesis using assms(2) by (simp add: syms_of_def)
qed

lemma order_split:
  assumes "1 \<le> l" "l \<le> M"
  shows "code_order M lens = concat (map (syms_of lens) [1..<l]) @ syms_of lens l @ concat (map (syms_of lens) [l + 1..<M + 1])"
proof -
  have "[1..<M + 1] = [1..<l] @ l # [l + 1..<M + 1]"
    using assms upt_add_eq_append [of 1 l "M + 1 - l"] upt_conv_Cons [of l "M + 1"] by simp
  then show ?thesis by (simp add: code_order_def)
qed

lemma order_position:
  assumes s: "s < length lens" and l: "1 \<le> lens ! s" "lens ! s \<le> M"
  shows "\<exists>k < length (code_order M lens). code_order M lens ! k = s \<and>
    space M lens (take k (code_order M lens)) = codeword lens s * 2 ^ (M - lens ! s)"
proof -
  let ?l = "lens ! s"
  let ?A = "concat (map (syms_of lens) [1..<?l])" and ?B = "filter (\<lambda>t. lens ! t = ?l) [0..<s]"
  obtain r where r: "syms_of lens ?l = ?B @ s # r" using syms_of_split [OF s refl] by blast
  have u: "code_order M lens = (?A @ ?B) @ s # r @ concat (map (syms_of lens) [?l + 1..<M + 1])"
    using order_split [OF l] r by simp
  have "space M lens (?A @ ?B) = codeword lens s * 2 ^ (M - ?l)"
    using first_code_space [OF l(2), of lens] by (simp add: codeword_def space_syms cnt_len_def algebra_simps)
  then show ?thesis unfolding u by (intro exI [of _ "length (?A @ ?B)"]) simp
qed

lemma order_set: "set (code_order M lens) = {s. s < length lens \<and> 1 \<le> lens ! s \<and> lens ! s \<le> M}"
  by (auto simp: code_order_def syms_of_def)

lemma sorted_if_same: "\<forall>x \<in> set xs. f x = (b :: nat) \<Longrightarrow> sorted (map f xs)"
  by (induction xs) auto

lemma order_sorted: "sorted (map ((!) lens) (code_order M lens))"
proof -
  have "sorted (map ((!) lens) (concat (map (syms_of lens) [a..<b])))" for a b
  proof (induction b)
    case (Suc b)
    have "sorted (map ((!) lens) (syms_of lens b))" by (rule sorted_if_same [of _ _ b]) (simp add: syms_of_def)
    moreover have "lens ! x \<le> lens ! y" if "x \<in> set (concat (map (syms_of lens) [a..<b]))" "y \<in> set (syms_of lens b)" for x y
      using that by (auto simp: syms_of_def)
    ultimately show ?case using Suc by (auto simp: sorted_append)
  qed simp
  then show ?thesis unfolding code_order_def .
qed

lemma order_mono: "i \<le> j \<Longrightarrow> j < length (code_order M lens) \<Longrightarrow> lens ! (code_order M lens ! i) \<le> lens ! (code_order M lens ! j)"
  using sorted_nth_mono [OF order_sorted, of i j] by simp

lemma order_nth:
  assumes "k < length (code_order M lens)"
  shows "code_order M lens ! k < length lens" "1 \<le> lens ! (code_order M lens ! k)" "lens ! (code_order M lens ! k) \<le> M"
  using nth_mem [OF assms] unfolding order_set by simp_all

lemma order_count:
  assumes "1 \<le> l" "l \<le> M"
  shows "length (filter (\<lambda>s. lens ! s = l) (code_order M lens)) = cnt_len lens l (length lens)"
proof -
  have other: "filter (\<lambda>s. lens ! s = l) (concat (map (syms_of lens) [a..<b])) = []" if "l \<notin> set [a..<b]" for a b
    using that by (auto simp: filter_empty_conv syms_of_def)
  have "filter (\<lambda>s. lens ! s = l) (syms_of lens l) = syms_of lens l" by (simp add: syms_of_def)
  then show ?thesis unfolding order_split [OF assms] using other by (simp add: syms_of_def cnt_len_def)
qed

text \<open>The start of the interval of the \<open>k\<close>-th codeword.\<close>

definition start_at :: "nat \<Rightarrow> nat list \<Rightarrow> nat \<Rightarrow> nat" where
  "start_at M lens k = space M lens (take k (code_order M lens))"

lemma start_Suc:
  assumes "k < length (code_order M lens)"
  shows "start_at M lens (Suc k) = start_at M lens k + 2 ^ (M - lens ! (code_order M lens ! k))"
  using assms by (simp add: start_at_def take_Suc_conv_app_nth)

lemma start_mono: "i \<le> j \<Longrightarrow> start_at M lens i \<le> start_at M lens j"
proof -
  assume "i \<le> j"
  then have "take j (code_order M lens) = take i (code_order M lens) @ drop i (take j (code_order M lens))"
    by (metis append_take_drop_id min.absorb1 take_take)
  then show ?thesis unfolding start_at_def by (metis le_add1 space_simps(3))
qed

lemma space_dvd: "(\<And>s. s \<in> set ss \<Longrightarrow> lens ! s \<le> l) \<Longrightarrow> l \<le> M \<Longrightarrow> 2 ^ (M - l) dvd space M lens ss"
  by (induction ss) (auto intro!: dvd_add le_imp_power_dvd diff_le_mono2)

lemma start_dvd:
  assumes "k \<le> length (code_order M lens)" "\<And>j. j < k \<Longrightarrow> lens ! (code_order M lens ! j) \<le> l" "l \<le> M"
  shows "2 ^ (M - l) dvd start_at M lens k"
  unfolding start_at_def using assms by (intro space_dvd) (auto simp: in_set_conv_nth)

end
