(* ===== verification/HuffmanSort.thy ===== *)
theory HuffmanSort
  imports HuffmanCode
begin

text \<open>
  The first half of \<open>build_decode_table\<close>: the counting sort gives the symbols in the order of the canonical code
  (those without a codeword first), and \<open>space_left\<close> is what the codewords leave of the code space.
\<close>

section \<open>Counting\<close>

lemma cnt_len_Suc: "cnt_len lens l (Suc n) = cnt_len lens l n + of_bool (lens ! n = l)"
  by (simp add: cnt_len_def)

lemma cnt_len_0 [simp]: "cnt_len lens l 0 = 0"
  by (simp add: cnt_len_def)

lemma cnt_len_mono: "m \<le> n \<Longrightarrow> cnt_len lens l m \<le> cnt_len lens l n"
  by (induction rule: dec_induct) (simp_all add: cnt_len_Suc)

lemma cnt_len_less: "s < n \<Longrightarrow> lens ! s = l \<Longrightarrow> cnt_len lens l s < cnt_len lens l n"
  using cnt_len_mono [of "Suc s" n lens l] by (simp add: cnt_len_Suc)

lemma cnt_len_count: "n \<le> length lens \<Longrightarrow> cnt_len lens l n = count_list (take n lens) l"
  by (induction n) (simp_all add: cnt_len_Suc take_Suc_conv_app_nth)

lemma count_lens_run:
  "\<forall>l \<in> set ls. l \<le> M \<Longrightarrow> length c = M + 1 \<Longrightarrow>
    \<exists>c'. count_lens ls c = Inr c' \<and> length c' = M + 1 \<and> (\<forall>l \<le> M. c' ! l = c ! l + count_list ls l)"
proof (induction ls arbitrary: c)
  case (Cons a ls)
  have a: "aget c (int a) = Inr (c ! a)" "aset c (int a) (c ! a + 1) = Inr (c[a := c ! a + 1])" using Cons.prems by simp_all
  obtain c' where c': "count_lens ls (c[a := c ! a + 1]) = Inr c'" "length c' = M + 1"
    "\<forall>l \<le> M. c' ! l = c[a := c ! a + 1] ! l + count_list ls l"
    using Cons.IH [of "c[a := c ! a + 1]"] Cons.prems by auto
  have "c' ! l = c ! l + count_list (a # ls) l" if "l \<le> M" for l
    using c'(3) that Cons.prems by (cases "l = a") simp_all
  then show ?case using a c'(1,2) by auto
qed simp

text \<open>How many symbols have a length below \<open>l\<close>.\<close>

definition below :: "nat list \<Rightarrow> nat \<Rightarrow> nat" where
  "below lens l = (\<Sum>j < l. cnt_len lens j (length lens))"

lemma below_simps [simp]: "below lens 0 = 0" "below lens (Suc l) = below lens l + cnt_len lens l (length lens)"
  by (simp_all add: below_def)

lemma below_mono: "l \<le> m \<Longrightarrow> below lens l \<le> below lens m"
  by (simp add: below_def sum_mono2)

lemma below_all:
  assumes "\<forall>l \<in> set lens. l \<le> M"
  shows "below lens (M + 1) = length lens"
proof -
  have "n \<le> length lens \<Longrightarrow> (\<Sum>j < M + 1. cnt_len lens j n) = n" for n
  proof (induction n)
    case (Suc n)
    have "lens ! n < M + 1" using Suc.prems assms nth_mem [of n lens] by (auto simp: less_Suc_eq_le)
    then have "(\<Sum>j < M + 1. of_bool (lens ! n = j)) = (1 :: nat)" by (simp add: of_bool_def sum.delta)
    then show ?case using Suc by (simp add: cnt_len_Suc sum.distrib del: sum.lessThan_Suc)
  qed simp
  then show ?thesis by (simp add: below_def)
qed

lemma sum_counts_run:
  assumes "length c = M + 1" "\<forall>l \<le> M. c ! l = cnt_len lens l (length lens)"
  shows "l + k = M \<Longrightarrow> length os = M + 1 \<Longrightarrow> \<forall>j \<le> l. os ! j = below lens j \<Longrightarrow>
    \<exists>os'. sum_counts k l c os = Inr os' \<and> length os' = M + 1 \<and> (\<forall>j \<le> M. os' ! j = below lens j)"
proof (induction k arbitrary: l os)
  case (Suc k)
  have r: "aget os (int l) = Inr (os ! l)" "aget c (int l) = Inr (c ! l)" using Suc.prems assms(1) by simp_all
  have w: "aset os (int l + 1) (os ! l + c ! l) = Inr (os[Suc l := os ! l + c ! l])"
    using Suc.prems aset_nat [of "Suc l" os "os ! l + c ! l"] by (simp add: add.commute)
  have "\<forall>j \<le> Suc l. os[Suc l := os ! l + c ! l] ! j = below lens j"
    using Suc.prems assms(2) by (auto simp: nth_list_update le_Suc_eq)
  then obtain os' where "sum_counts k (l + 1) c (os[Suc l := os ! l + c ! l]) = Inr os'" "length os' = M + 1"
    "\<forall>j \<le> M. os' ! j = below lens j"
    using Suc.IH [of "l + 1" "os[Suc l := os ! l + c ! l]"] Suc.prems by auto
  then show ?case using r w by simp
qed simp

section \<open>Sorting\<close>

definition sorted_to :: "nat \<Rightarrow> nat list \<Rightarrow> nat \<Rightarrow> nat list \<Rightarrow> nat list \<Rightarrow> bool" where
  "sorted_to M lens n os ss \<longleftrightarrow> length os = M + 1 \<and> length ss = length lens \<and>
     (\<forall>l \<le> M. os ! l = below lens l + cnt_len lens l n \<and>
        (\<forall>i < cnt_len lens l n. ss ! (below lens l + i) = filter (\<lambda>s. lens ! s = l) [0..<n] ! i))"

lemma sorted_step:
  assumes st: "sorted_to M lens n os ss" and n: "n < length lens" and l: "\<forall>l \<in> set lens. l \<le> M"
  defines "a \<equiv> lens ! n"
  shows "os ! a < length ss" "sorted_to M lens (Suc n) (os[a := os ! a + 1]) (ss[os ! a := n])"
proof -
  have a: "a \<le> M" using l n by (simp add: a_def)
  note S = st [unfolded sorted_to_def]
  have x: "os ! a = below lens a + cnt_len lens a n" using S a by blast
  have more: "cnt_len lens a n < cnt_len lens a (length lens)" using n by (intro cnt_len_less) (simp_all add: a_def)
  then have "os ! a < below lens (Suc a)" using x by simp
  also have "\<dots> \<le> below lens (M + 1)" using a by (intro below_mono) simp
  finally show "os ! a < length ss" using S below_all [OF l] by simp
  have apart: "below lens b + i \<noteq> os ! a" if "b \<le> M" "i < cnt_len lens b n" for b i
  proof (cases rule: linorder_cases [of b a])
    case less
    have "i < cnt_len lens b (length lens)" using that(2) cnt_len_mono [of n "length lens" lens b] n by simp
    then have "below lens b + i < below lens (Suc b)" by simp
    also have "\<dots> \<le> below lens a" using less by (intro below_mono) simp
    finally show ?thesis using x by simp
  next
    case equal
    then show ?thesis using that(2) x by simp
  next
    case greater
    then have "below lens (Suc a) \<le> below lens b" by (intro below_mono) simp
    then show ?thesis using x more by simp
  qed
  show "sorted_to M lens (Suc n) (os[a := os ! a + 1]) (ss[os ! a := n])"
    unfolding sorted_to_def
  proof (intro conjI allI impI)
    fix b assume b: "b \<le> M"
    show "os[a := os ! a + 1] ! b = below lens b + cnt_len lens b (Suc n)"
      using S b a by (cases "b = a") (auto simp: cnt_len_Suc a_def)
    fix i assume i: "i < cnt_len lens b (Suc n)"
    show "ss[os ! a := n] ! (below lens b + i) = filter (\<lambda>s. lens ! s = b) [0..<Suc n] ! i"
    proof (cases "i < cnt_len lens b n")
      case True
      then have "ss[os ! a := n] ! (below lens b + i) = filter (\<lambda>s. lens ! s = b) [0..<n] ! i"
        using S b apart [OF b True] by simp
      then show ?thesis using True by (simp add: nth_append cnt_len_def)
    next
      case False
      then have "lens ! n = b" using i by (cases "lens ! n = b") (simp_all add: cnt_len_Suc)
      then have "a = b" "i = cnt_len lens a n" using i False by (simp_all add: cnt_len_Suc a_def)
      then show ?thesis using x \<open>os ! a < length ss\<close> by (simp add: nth_append cnt_len_def a_def)
    qed
  qed (use S in simp_all)
qed

lemma sort_syms_run:
  assumes l: "\<forall>l \<in> set lens. l \<le> M"
  shows "ls = drop n lens \<Longrightarrow> n \<le> length lens \<Longrightarrow> sorted_to M lens n os ss \<Longrightarrow>
    \<exists>os' ss'. sort_syms n ls os ss = Inr (os', ss') \<and> sorted_to M lens (length lens) os' ss'"
proof (induction ls arbitrary: n os ss)
  case Nil
  then have "n = length lens" by simp
  then show ?case using Nil by simp
next
  case (Cons a ls)
  have n: "n < length lens" using Cons.prems(1) by (metis drop_eq_Nil list.discI not_le)
  then have a: "a = lens ! n" "ls = drop (Suc n) lens" using Cons.prems(1) by (metis Cons_nth_drop_Suc list.inject)+
  note st = sorted_step [OF Cons.prems(3) n l]
  have "a < length os" using l n Cons.prems(3) by (simp add: a sorted_to_def less_Suc_eq_le)
  then show ?case using Cons.IH [OF a(2) _ st(2)] n st(1) by (simp add: a(1))
qed

lemma sorted_result:
  assumes st: "sorted_to M lens (length lens) os ss" and l: "\<forall>l \<in> set lens. l \<le> M"
  shows "drop (os ! 0) ss = code_order M lens"
proof -
  note S = st [unfolded sorted_to_def]
  have "l \<le> M + 1 \<Longrightarrow> take (below lens l) ss = concat (map (syms_of lens) [0..<l])" for l
  proof (induction l)
    case (Suc k)
    have k: "k \<le> M" "below lens (Suc k) \<le> length ss"
      using Suc.prems below_mono [of "Suc k" "M + 1" lens] below_all [OF l] S by auto
    have "take (cnt_len lens k (length lens)) (drop (below lens k) ss) = syms_of lens k"
    proof (rule nth_equalityI)
      show "length (take (cnt_len lens k (length lens)) (drop (below lens k) ss)) = length (syms_of lens k)"
        using k(2) by (simp add: syms_of_def cnt_len_def)
      fix i assume "i < length (take (cnt_len lens k (length lens)) (drop (below lens k) ss))"
      then show "take (cnt_len lens k (length lens)) (drop (below lens k) ss) ! i = syms_of lens k ! i"
        using S k by (simp add: syms_of_def nth_drop)
    qed
    then show ?case using Suc by (simp add: take_add)
  qed simp
  from this [of "M + 1"] have ss: "ss = concat (map (syms_of lens) [0..<M + 1])"
    using below_all [OF l] S by simp
  have "[0..<M + 1] = 0 # [1..<M + 1]" by (simp add: upt_rec)
  then have "ss = syms_of lens 0 @ code_order M lens" unfolding ss code_order_def by simp
  moreover have "os ! 0 = length (syms_of lens 0)" using S by (simp add: syms_of_def cnt_len_def)
  ultimately show ?thesis by simp
qed

section \<open>The code space\<close>

lemma space_left_run:
  "0 \<le> r \<Longrightarrow> l \<le> M \<Longrightarrow> space_left (map c [Suc l..<Suc M]) r =
    (let f = r * 2 ^ (M - l) - (\<Sum>j = Suc l..M. int (c j) * 2 ^ (M - j)) in if f < 0 then None else Some f)"
proof (induction "M - l" arbitrary: l r)
  case 0
  then show ?case by simp
next
  case (Suc d)
  then have l: "l < M" "M - l = Suc (M - Suc l)" by simp_all
  let ?r = "2 * r - int (c (Suc l))"
  have up: "[Suc l..<Suc M] = Suc l # [Suc (Suc l)..<Suc M]" using l by (simp add: upt_conv_Cons)
  have sum: "(\<Sum>j = Suc l..M. int (c j) * 2 ^ (M - j)) = int (c (Suc l)) * 2 ^ (M - Suc l) + (\<Sum>j = Suc (Suc l)..M. int (c j) * 2 ^ (M - j))"
    using l by (simp add: sum.atLeast_Suc_atMost)
  have f: "r * 2 ^ (M - l) - (\<Sum>j = Suc l..M. int (c j) * 2 ^ (M - j)) =
      ?r * 2 ^ (M - Suc l) - (\<Sum>j = Suc (Suc l)..M. int (c j) * 2 ^ (M - j))"
    unfolding sum l(2) by (simp add: algebra_simps)
  show ?case
  proof (cases "?r < 0")
    case True
    have "?r * 2 ^ (M - Suc l) < 0" using True by (simp add: mult_less_0_iff)
    moreover have "0 \<le> (\<Sum>j = Suc (Suc l)..M. int (c j) * 2 ^ (M - j))" by (simp add: sum_nonneg)
    ultimately show ?thesis using True unfolding f up by simp
  next
    case False
    then show ?thesis using Suc.hyps(1) [of "Suc l" ?r] Suc.hyps(2) l unfolding f up by (simp add: Let_def)
  qed
qed

lemma order_space: "space M lens (code_order M lens) = (\<Sum>j = 1..M. cnt_len lens j (length lens) * 2 ^ (M - j))"
proof -
  have "b \<le> M + 1 \<Longrightarrow> space M lens (concat (map (syms_of lens) [1..<b])) = (\<Sum>j \<in> {1..<b}. cnt_len lens j (length lens) * 2 ^ (M - j))" for b
  proof (induction b)
    case (Suc b)
    then show ?case
      using space_syms [of M lens b "[0..<length lens]"]
      by (cases "b = 0") (simp_all add: syms_of_def [of lens b] cnt_len_def)
  qed simp
  from this [of "M + 1"] show ?thesis unfolding code_order_def by (simp add: atLeastLessThanSuc_atLeastAtMost)
qed

lemma space_left_order:
  assumes "length c = M + 1" "\<forall>l \<le> M. c ! l = cnt_len lens l (length lens)"
  shows "space_left (tl c) 1 = (let f = 2 ^ M - int (space M lens (code_order M lens)) in if f < 0 then None else Some f)"
proof -
  have "tl c = map (\<lambda>l. cnt_len lens l (length lens)) [Suc 0..<Suc M]"
    using assms by (intro nth_equalityI) (simp_all add: nth_tl del: upt_Suc)
  then show ?thesis using space_left_run [of 1 0 M] unfolding order_space by simp
qed

end
