(* ===== verification/HuffmanFill.thy ===== *)
theory HuffmanFill
  imports HuffmanSort
begin

text \<open>
  What a decode table says of the next bits, and how filling a range of it changes that: \<open>filled\<close> is the effect of
  the filling loop, \<open>direct\<close> an entry of the main table, \<open>via\<close> one that is reached through a subtable pointer.
\<close>

section \<open>The filling loop\<close>

definition filled :: "nat \<Rightarrow> nat \<Rightarrow> nat \<Rightarrow> 32 word \<Rightarrow> 32 word list \<Rightarrow> 32 word list \<Rightarrow> bool" where
  "filled k i n e t t' \<longleftrightarrow> length t' = length t \<and>
     (\<forall>j < length t. t' ! j = (if i \<le> j \<and> j < n \<and> (j - i) mod 2 ^ k = 0 then e else t ! j))"

lemma fill_table_run:
  "i < n \<Longrightarrow> n \<le> length t \<Longrightarrow> \<exists>t'. fill_table k i n e t = Inr t' \<and> filled k i n e t t'"
proof (induction k i n e t rule: fill_table.induct)
  case (1 k i n e t)
  have a: "aset t (int i) e = Inr (t[i := e])" using "1.prems" by simp
  show ?case
  proof (cases "i + 2 ^ k < n")
    case True
    obtain t' where t': "fill_table k (i + 2 ^ k) n e (t[i := e]) = Inr t'" "filled k (i + 2 ^ k) n e (t[i := e]) t'"
      using "1.IH" [OF a True] "1.prems" True by auto
    have "filled k i n e t t'"
      unfolding filled_def
    proof (intro conjI allI impI)
      fix j assume j: "j < length t"
      have "(i \<le> j \<and> (j - i) mod 2 ^ k = 0) \<longleftrightarrow> j = i \<or> (i + 2 ^ k \<le> j \<and> (j - (i + 2 ^ k)) mod 2 ^ k = 0)"
      proof (cases "i + 2 ^ k \<le> j")
        case True
        then obtain d where "j = i + 2 ^ k + d" using le_Suc_ex by blast
        then show ?thesis by simp
      next
        case False
        then have "j - i < 2 ^ k" by (cases "i \<le> j") (simp_all add: less_diff_conv2 add.commute)
        then have "(j - i) mod 2 ^ k = j - i" by simp
        then show ?thesis using False by auto
      qed
      then show "t' ! j = (if i \<le> j \<and> j < n \<and> (j - i) mod 2 ^ k = 0 then e else t ! j)"
        using t'(2) j True unfolding filled_def by auto
    qed (use t'(2) in \<open>simp add: filled_def\<close>)
    then show ?thesis using t'(1) a True by (simp add: fill_table.simps [of k i])
  next
    case False
    have "filled k i n e t (t[i := e])"
      unfolding filled_def
    proof (intro conjI allI impI)
      fix j assume j: "j < length t"
      have "(j - i) mod 2 ^ k \<noteq> 0" if "i < j" "j < n"
        using that False by (simp add: mod_eq_0_iff_dvd nat_dvd_not_less)
      then show "t[i := e] ! j = (if i \<le> j \<and> j < n \<and> (j - i) mod 2 ^ k = 0 then e else t ! j)"
        using j "1.prems"(1) by (cases "i = j") auto
    qed simp
    then show ?thesis using a False by (simp add: fill_table.simps [of k i])
  qed
qed

text \<open>A range of \<open>2 ^ n\<close> entries from \<open>ts\<close> on, filled at the indices whose low \<open>k\<close> bits are \<open>c\<close>.\<close>

lemma filled_range:
  assumes f: "filled k (ts + c) (ts + 2 ^ n) e t t'" and c: "c < 2 ^ k" "k \<le> n" and top: "ts + 2 ^ n \<le> length t"
  shows "m < 2 ^ n \<Longrightarrow> t' ! (ts + m) = (if take_bit k m = c then e else t ! (ts + m))"
    "j < length t \<Longrightarrow> j < ts \<or> ts + 2 ^ n \<le> j \<Longrightarrow> t' ! j = t ! j"
    "length t' = length t"
proof -
  show "length t' = length t" using f by (simp add: filled_def)
  show "t' ! j = t ! j" if "j < length t" "j < ts \<or> ts + 2 ^ n \<le> j" using f that by (auto simp: filled_def)
  show "t' ! (ts + m) = (if take_bit k m = c then e else t ! (ts + m))" if m: "m < 2 ^ n"
  proof -
    have "c \<le> m \<and> (m - c) mod 2 ^ k = 0 \<longleftrightarrow> take_bit k m = c"
    proof
      assume a: "c \<le> m \<and> (m - c) mod 2 ^ k = 0"
      then have "m mod 2 ^ k = c mod 2 ^ k" by (metis add_0 le_add_diff_inverse2 mod_add_left_eq)
      then show "take_bit k m = c" using c(1) by (simp add: take_bit_eq_mod)
    next
      assume a: "take_bit k m = c"
      then have "c \<le> m" by (metis take_bit_nat_less_eq_self)
      moreover have "(m - c) mod 2 ^ k = 0" using a by (metis minus_mod_eq_mult_div mod_mult_self1_is_0 take_bit_eq_mod)
      ultimately show "c \<le> m \<and> (m - c) mod 2 ^ k = 0" by simp
    qed
    moreover have "ts + m < length t" "ts + m < ts + 2 ^ n" using m top by simp_all
    ultimately show ?thesis using f unfolding filled_def by auto
  qed
qed

section \<open>Entries\<close>

abbreviation entry_of :: "32 word \<Rightarrow> nat \<Rightarrow> 32 word" where
  "entry_of r l \<equiv> make_decode_table_entry r (of_nat l)"

abbreviation pointer_to :: "nat \<Rightarrow> nat \<Rightarrow> 32 word" where
  "pointer_to ts n \<equiv> HUFFDEC_SUBTABLE_POINTER OR make_decode_table_entry (of_nat ts) (of_nat n)"

lemma flag_31: "HUFFDEC_SUBTABLE_POINTER = push_bit 31 1"
  by simp

lemma low_8: "HUFFDEC_LENGTH_MASK = mask 8" "(0xFFFF :: 32 word) = mask 16"
  by (simp_all add: mask_eq_exp_minus_1)

lemma bit_flag [simp]: "bit HUFFDEC_SUBTABLE_POINTER i \<longleftrightarrow> i = 31" "bit (8388608 :: 32 word) i \<longleftrightarrow> i = 23"
proof -
  have "bit (push_bit k 1 :: 32 word) i \<longleftrightarrow> i = k" if "k < 32" for k
    using that by (auto simp only: bit_push_bit_iff bit_1_iff possible_bit_word) simp_all
  from this [of 31] this [of 23] show "bit HUFFDEC_SUBTABLE_POINTER i \<longleftrightarrow> i = 31" "bit (8388608 :: 32 word) i \<longleftrightarrow> i = 23"
    by simp_all
qed

lemma word_less_bits: "(r :: 32 word) < 2 ^ k \<Longrightarrow> bit r i \<Longrightarrow> i < k"
  by (metis bit_and_iff bit_mask_iff less_mask_eq)

lemma entry_parts:
  assumes "r < 2 ^ 23" "l < 256"
  shows "entry_of r l AND HUFFDEC_SUBTABLE_POINTER = 0" "drop_bit 8 (entry_of r l) = r"
    "unat (entry_of r l AND HUFFDEC_LENGTH_MASK) = l"
proof -
  have l8: "bit (of_nat l :: 32 word) i \<longleftrightarrow> bit l i" "bit l i \<Longrightarrow> i < 8" for i
    using less_bits [of l 8 i] assms(2) by (auto simp: bit_of_nat_iff)
  have r: "bit r i \<Longrightarrow> i < 23" for i using word_less_bits [OF assms(1)] by simp
  show "entry_of r l AND HUFFDEC_SUBTABLE_POINTER = 0"
    by (rule bit_word_eqI) (auto simp: make_decode_table_entry_def bit_simps l8(1) simp del: bit_numeral_word_iff dest: l8(2) r)
  show "drop_bit 8 (entry_of r l) = r"
    by (rule bit_word_eqI) (auto simp: make_decode_table_entry_def bit_simps l8(1) simp del: bit_numeral_word_iff dest: l8(2) r)
  have "entry_of r l AND HUFFDEC_LENGTH_MASK = of_nat l"
    unfolding low_8 by (rule bit_word_eqI) (auto simp: make_decode_table_entry_def bit_simps l8(1) dest: l8(2))
  then show "unat (entry_of r l AND HUFFDEC_LENGTH_MASK) = l" using assms(2) by (simp add: unat_of_nat)
qed

lemma pointer_parts:
  assumes "ts < 2 ^ 16" "n < 256"
  shows "pointer_to ts n AND HUFFDEC_SUBTABLE_POINTER \<noteq> 0" "unat (drop_bit 8 (pointer_to ts n) AND 0xFFFF) = ts"
    "unat (pointer_to ts n AND HUFFDEC_LENGTH_MASK) = n"
proof -
  have n8: "bit (of_nat n :: 32 word) i \<longleftrightarrow> bit n i" "bit n i \<Longrightarrow> i < 8" for i
    using less_bits [of n 8 i] assms(2) by (auto simp: bit_of_nat_iff)
  have t16: "bit (of_nat ts :: 32 word) i \<longleftrightarrow> bit ts i" "bit ts i \<Longrightarrow> i < 16" for i
    using less_bits [of ts 16 i] assms(1) by (auto simp: bit_of_nat_iff)
  have "bit (pointer_to ts n AND HUFFDEC_SUBTABLE_POINTER) 31" by (simp add: bit_simps)
  then show "pointer_to ts n AND HUFFDEC_SUBTABLE_POINTER \<noteq> 0" by (metis bit_0_eq bot_apply bot_bool_def)
  have "drop_bit 8 (pointer_to ts n) AND 0xFFFF = of_nat ts"
    unfolding low_8 by (rule bit_word_eqI) (auto simp: make_decode_table_entry_def bit_simps n8(1) t16(1) simp del: bit_numeral_word_iff dest: n8(2) t16(2))
  then show "unat (drop_bit 8 (pointer_to ts n) AND 0xFFFF) = ts" using assms(1) by (simp add: unat_of_nat)
  have "pointer_to ts n AND HUFFDEC_LENGTH_MASK = of_nat n"
    unfolding low_8 by (rule bit_word_eqI) (auto simp: make_decode_table_entry_def bit_simps n8(1) simp del: bit_numeral_word_iff dest: n8(2))
  then show "unat (pointer_to ts n AND HUFFDEC_LENGTH_MASK) = n" using assms(2) by (simp add: unat_of_nat)
qed

section \<open>What a table says\<close>

definition direct :: "nat \<Rightarrow> 32 word list \<Rightarrow> nat \<Rightarrow> 32 word \<Rightarrow> nat \<Rightarrow> bool" where
  "direct tb t R r l \<longleftrightarrow> t ! take_bit tb R = entry_of r l"

definition via :: "nat \<Rightarrow> 32 word list \<Rightarrow> nat \<Rightarrow> nat \<Rightarrow> nat \<Rightarrow> 32 word \<Rightarrow> nat \<Rightarrow> bool" where
  "via tb t ts n R r l \<longleftrightarrow> tb < l \<and> tb + n \<le> 15 \<and> t ! take_bit tb R = pointer_to ts n \<and>
     t ! (ts + take_bit n (drop_bit tb R)) = entry_of r (l - tb)"

lemma lookup_direct:
  assumes "direct tb t R r l" "2 ^ tb \<le> length t" "r < 2 ^ 23" "l < 256"
  shows "lookup_bits t tb R = Inr (r, l)"
proof -
  have "take_bit tb R < length t" using assms(2) less_le_trans take_bit_nat_less_exp by blast
  then show ?thesis
    using assms entry_parts [OF assms(3,4)] by (simp add: lookup_bits_def direct_def del: push_bit_numeral)
qed

lemma lookup_via:
  assumes "via tb t ts n R r l" "2 ^ tb \<le> length t" "ts + 2 ^ n \<le> length t" "ts < 2 ^ 16" "n < 256" "r < 2 ^ 23" "l < 256"
  shows "lookup_bits t tb R = Inr (r, l)"
proof -
  have i: "take_bit tb R < length t" using assms(2) less_le_trans take_bit_nat_less_exp by blast
  have j: "ts + take_bit n (drop_bit tb R) < length t"
    using assms(3) take_bit_nat_less_exp [of n "drop_bit tb R"] by linarith
  have l: "l - tb < 256" using assms(7) by simp
  show ?thesis
    using assms i aget_nat [OF j] entry_parts [OF assms(6) l] pointer_parts [OF assms(4,5)]
    by (auto simp: lookup_bits_def via_def)
qed

end
