(* ===== verification/HuffmanCells.thy ===== *)
theory HuffmanCells
  imports HuffmanFill
begin

text \<open>
  The code space in cells: a cell holds the values with the same first \<open>tb\<close> bits, and belongs to one entry of the main
  table. Codewords longer than \<open>tb\<close> share cells, and each of these cells has a subtable; \<open>subtable_bits\<close> finds
  the length of the longest codeword of the cell.
\<close>

abbreviation ncodes :: "nat \<Rightarrow> nat list \<Rightarrow> nat" where "ncodes M lens \<equiv> length (code_order M lens)"

definition len_at :: "nat \<Rightarrow> nat list \<Rightarrow> nat \<Rightarrow> nat" where
  "len_at M lens k = lens ! (code_order M lens ! k)"

lemma len_at_bounds: "k < ncodes M lens \<Longrightarrow> 1 \<le> len_at M lens k \<and> len_at M lens k \<le> M"
  using order_nth by (simp add: len_at_def)

lemma len_at_mono: "i \<le> j \<Longrightarrow> j < ncodes M lens \<Longrightarrow> len_at M lens i \<le> len_at M lens j"
  using order_mono by (simp add: len_at_def)

lemma start_next: "k < ncodes M lens \<Longrightarrow> start_at M lens (Suc k) = start_at M lens k + 2 ^ (M - len_at M lens k)"
  using start_Suc by (simp add: len_at_def)

lemma start_less: "i < j \<Longrightarrow> j \<le> ncodes M lens \<Longrightarrow> start_at M lens i < start_at M lens j"
  using start_next [of i M lens] start_mono [of "Suc i" j M lens] zero_less_power [of "2 :: nat" "M - len_at M lens i"] by linarith

lemma start_aligned: "k < ncodes M lens \<Longrightarrow> 2 ^ (M - len_at M lens k) dvd start_at M lens k"
  using start_dvd [of k M lens "len_at M lens k"] len_at_bounds [of k M lens] len_at_mono [of _ k M lens]
  by (simp add: len_at_def)

text \<open>The code does not ask for more than there is.\<close>

definition code_fits :: "nat \<Rightarrow> nat list \<Rightarrow> bool" where
  "code_fits M lens \<longleftrightarrow> start_at M lens (ncodes M lens) \<le> 2 ^ M"

definition code_full :: "nat \<Rightarrow> nat list \<Rightarrow> bool" where
  "code_full M lens \<longleftrightarrow> start_at M lens (ncodes M lens) = 2 ^ M"

lemma full_fits: "code_full M lens \<Longrightarrow> code_fits M lens"
  by (simp add: code_full_def code_fits_def)

lemma start_below: "code_fits M lens \<Longrightarrow> k < ncodes M lens \<Longrightarrow> start_at M lens k < 2 ^ M"
  using start_less [of k "ncodes M lens" M lens] by (simp add: code_fits_def)

text \<open>A value is in the interval of a codeword when its first bits are the codeword.\<close>

lemma owner:
  assumes f: "code_fits M lens" and j: "j < ncodes M lens" and x: "x < 2 ^ M"
  shows "start_at M lens j \<le> x \<and> x < start_at M lens (Suc j) \<longleftrightarrow>
    take_bit (len_at M lens j) (rv M x) = rv M (start_at M lens j)"
proof -
  let ?l = "len_at M lens j" and ?s = "start_at M lens j"
  have l: "?l \<le> M" using len_at_bounds [OF j] by blast
  have s: "?s < 2 ^ M" by (rule start_below [OF f j])
  obtain a where a: "?s = a * 2 ^ (M - ?l)" using start_aligned [OF j] by (metis dvd_def mult.commute)
  have "?s \<le> x \<and> x < start_at M lens (Suc j) \<longleftrightarrow> a * 2 ^ (M - ?l) \<le> x \<and> x < (a + 1) * 2 ^ (M - ?l)"
    unfolding start_next [OF j] a by (simp add: add.commute)
  also have "\<dots> \<longleftrightarrow> x div 2 ^ (M - ?l) = a"
    by (metis Suc_eq_plus1 div_less_iff_less_mult less_Suc_eq_le less_eq_div_iff_mult_less_eq order_antisym order_refl zero_less_numeral zero_less_power)
  also have "\<dots> \<longleftrightarrow> x div 2 ^ (M - ?l) = ?s div 2 ^ (M - ?l)" unfolding a by simp
  also have "\<dots> \<longleftrightarrow> take_bit ?l (rv M x) = take_bit ?l (rv M ?s)" by (rule same_prefix [OF x s l])
  also have "take_bit ?l (rv M ?s) = rv M ?s" using rv_aligned [OF start_aligned [OF j] s l] by (simp add: take_bit_nat_eq_self)
  finally show ?thesis .
qed

lemma cell_end:
  assumes j: "j < ncodes M lens" and l: "tb \<le> len_at M lens j" and s: "start_at M lens j < c * 2 ^ (M - tb)"
  shows "start_at M lens (Suc j) \<le> c * 2 ^ (M - tb)"
proof -
  let ?d = "2 ^ (M - len_at M lens j) :: nat"
  obtain a where a: "start_at M lens j = a * ?d" using start_aligned [OF j] by (metis dvd_def mult.commute)
  have "M - tb = M - len_at M lens j + (len_at M lens j - tb)" using l len_at_bounds [OF j] by simp
  then have c: "c * 2 ^ (M - tb) = (c * 2 ^ (len_at M lens j - tb)) * ?d" by (simp add: power_add)
  have "a < c * 2 ^ (len_at M lens j - tb)" using s unfolding a c by simp
  then have "(a + 1) * ?d \<le> (c * 2 ^ (len_at M lens j - tb)) * ?d" by (intro mult_le_mono1) simp
  then show ?thesis unfolding start_next [OF j] c a by simp
qed

section \<open>What is left of the code\<close>

definition left_of :: "nat \<Rightarrow> nat list \<Rightarrow> nat \<Rightarrow> nat \<Rightarrow> nat" where
  "left_of M lens k l = length (filter (\<lambda>s. lens ! s = l) (drop k (code_order M lens)))"

definition reach :: "nat \<Rightarrow> nat list \<Rightarrow> nat \<Rightarrow> nat \<Rightarrow> nat" where
  "reach M lens k L = k + length (filter (\<lambda>s. lens ! s \<le> L) (drop k (code_order M lens)))"

lemma space_upto: "space M lens (filter (\<lambda>s. lens ! s \<le> L) ss) = (\<Sum>l \<le> L. length (filter (\<lambda>s. lens ! s = l) ss) * 2 ^ (M - l))"
proof (induction ss)
  case (Cons s ss)
  have "(\<Sum>l \<le> L. length (filter (\<lambda>s. lens ! s = l) (s # ss)) * 2 ^ (M - l)) =
      (\<Sum>l \<le> L. (if lens ! s = l then 2 ^ (M - l) else 0)) + (\<Sum>l \<le> L. length (filter (\<lambda>s. lens ! s = l) ss) * 2 ^ (M - l))"
    unfolding sum.distrib [symmetric] by (intro sum.cong) simp_all
  then show ?case using Cons by simp
qed simp

lemma sorted_prefix: "sorted (map f xs) \<Longrightarrow> filter (\<lambda>x. f x \<le> L) xs = take (length (filter (\<lambda>x. f x \<le> L) xs)) xs"
proof (induction xs)
  case (Cons x xs)
  show ?case
  proof (cases "f x \<le> L")
    case False
    then have "filter (\<lambda>x. f x \<le> L) xs = []" using Cons.prems by (auto simp: filter_empty_conv)
    then show ?thesis using False by simp
  qed (use Cons in simp)
qed simp

lemma rest_sorted: "sorted (map ((!) lens) (drop k (code_order M lens)))"
  unfolding drop_map [symmetric] by (rule sorted_wrt_drop [OF order_sorted])

lemma reach_start:
  assumes "k \<le> ncodes M lens"
  shows "start_at M lens (reach M lens k L) = start_at M lens k + (\<Sum>l \<le> L. left_of M lens k l * 2 ^ (M - l))"
proof -
  let ?u = "code_order M lens"
  have "take (reach M lens k L) ?u = take k ?u @ filter (\<lambda>s. lens ! s \<le> L) (drop k ?u)"
    using sorted_prefix [OF rest_sorted [of lens k M], of L] by (simp add: reach_def take_add)
  then show ?thesis by (simp add: start_at_def space_upto left_of_def)
qed

lemma sorted_below:
  "sorted (map f xs) \<Longrightarrow> i < length xs \<Longrightarrow> f (xs ! i) \<le> L \<longleftrightarrow> i < length (filter (\<lambda>x. f x \<le> L) xs)"
proof (induction xs arbitrary: i)
  case (Cons x xs)
  show ?case
  proof (cases "f x \<le> L")
    case True
    then show ?thesis using Cons by (cases i) simp_all
  next
    case False
    then have "\<forall>y \<in> set (x # xs). \<not> f y \<le> L" using Cons.prems(1) by auto
    moreover from this have "filter (\<lambda>x. f x \<le> L) (x # xs) = []" unfolding filter_empty_conv .
    ultimately show ?thesis using nth_mem [OF Cons.prems(2)] by (simp only: list.size) blast
  qed
qed simp

lemma reach_iff:
  assumes "k \<le> j" "j < ncodes M lens"
  shows "len_at M lens j \<le> L \<longleftrightarrow> j < reach M lens k L"
  using sorted_below [OF rest_sorted [of lens k M], of "j - k" L] assms by (auto simp: reach_def len_at_def)

lemma reach_le: "k \<le> ncodes M lens \<Longrightarrow> reach M lens k L \<le> ncodes M lens"
  using length_filter_le [of "\<lambda>s. lens ! s \<le> L" "drop k (code_order M lens)"] by (simp add: reach_def)

lemma reach_all: "k \<le> ncodes M lens \<Longrightarrow> reach M lens k M = ncodes M lens"
proof -
  assume "k \<le> ncodes M lens"
  moreover have "filter (\<lambda>s. lens ! s \<le> M) (drop k (code_order M lens)) = drop k (code_order M lens)"
    by (rule filter_True) (auto dest!: in_set_dropD simp: order_set)
  ultimately show ?thesis by (simp add: reach_def)
qed

lemma left_none: "k < ncodes M lens \<Longrightarrow> l < len_at M lens k \<Longrightarrow> left_of M lens k l = 0"
proof -
  assume "k < ncodes M lens" "l < len_at M lens k"
  moreover from this have "lens ! (code_order M lens ! (k + i)) \<noteq> l" if "k + i < ncodes M lens" for i
    using that len_at_mono [of k "k + i" M lens] by (simp add: len_at_def)
  ultimately have "lens ! s \<noteq> l" if "s \<in> set (drop k (code_order M lens))" for s
    using that unfolding in_set_conv_nth by (auto simp: add.commute less_diff_conv)
  then show ?thesis by (simp add: left_of_def filter_empty_conv)
qed

lemma left_step:
  "k < ncodes M lens \<Longrightarrow> left_of M lens k l = (if l = len_at M lens k then 1 else 0) + left_of M lens (Suc k) l"
  by (auto simp: left_of_def len_at_def Cons_nth_drop_Suc [symmetric])

end
