(* ===== verification/HuffmanEnough.thy ===== *)
theory HuffmanEnough
  imports HuffmanCells
begin

text \<open>
  The size of a decode table. \<open>subtable_bits\<close> gives a cell as many entries as its longest codeword needs. As the code is
  sorted, the lengths grow from cell to cell, so at most \<open>2 ^ (M - tb) - (M - tb) - 1\<close> entries of all subtables together
  are copies; and a main table in which \<open>P\<close> entries are pointers has at least as many codewords as \<open>2 ^ tb - P\<close> has
  binary ones. This bounds the table, without the enumeration of codes that the constants \<open>ENOUGH\<close> came from.
\<close>

section \<open>Sums of powers of two\<close>

text \<open>The number of powers of two, none above \<open>2 ^ c\<close>, that \<open>s\<close> takes.\<close>

fun pw :: "nat \<Rightarrow> nat \<Rightarrow> nat" where
  "pw 0 s = s"
| "pw (Suc c) s = s mod 2 + pw c (s div 2)"

lemma pw_add: "i \<le> c \<Longrightarrow> pw c (s + 2 ^ i) \<le> pw c s + 1"
proof (induction c arbitrary: s i)
  case (Suc c)
  show ?case
  proof (cases i)
    case 0
    show ?thesis
    proof (cases "even s")
      case False
      then have "(s + 1) div 2 = s div 2 + 1" "(s + 1) mod 2 = 0" "s mod 2 = 1" by presburger+
      then show ?thesis using Suc.IH [of 0 "s div 2"] 0 by simp
    qed (use 0 in simp)
  next
    case (Suc j)
    have "(s + 2 ^ Suc j) div 2 = s div 2 + 2 ^ j" "(s + 2 ^ Suc j) mod 2 = s mod 2" by simp_all
    then show ?thesis using Suc.IH [of j "s div 2"] Suc Suc.prems by (simp del: power_Suc)
  qed
qed simp

lemma pw_0 [simp]: "pw c 0 = 0"
  by (induction c) simp_all

lemma pw_sum: "\<forall>e \<in> set es. e \<le> c \<Longrightarrow> pw c (\<Sum>e\<leftarrow>es. 2 ^ e) \<le> length es"
proof (induction es)
  case (Cons e es)
  then show ?case using pw_add [of e c "\<Sum>e\<leftarrow>es. 2 ^ e"] by (simp add: add.commute)
qed simp

lemma pw_ones: "pw c (2 ^ (m + c) - 1) = 2 ^ m - 1 + c"
proof (induction c)
  case (Suc c)
  obtain a :: nat where a: "2 ^ (m + c) = Suc a" by (metis gr0_implies_Suc zero_less_numeral zero_less_power)
  then have "2 ^ (m + Suc c) - 1 = Suc (2 * a)" by simp
  then have "(2 ^ (m + Suc c) - 1) div 2 = 2 ^ (m + c) - (1 :: nat)" "(2 ^ (m + Suc c) - 1) mod 2 = (1 :: nat)"
    using a by simp_all
  then show ?case using Suc by simp
qed simp

section \<open>A cell with a subtable\<close>

text \<open>In units of the codewords of length \<open>L\<close>.\<close>

lemma start_sum:
  assumes "i \<le> j" "j \<le> ncodes M lens" "\<forall>x. i \<le> x \<and> x < j \<longrightarrow> len_at M lens x \<le> L" "L \<le> M"
  shows "start_at M lens j = start_at M lens i + (\<Sum>x\<leftarrow>[i..<j]. 2 ^ (L - len_at M lens x)) * 2 ^ (M - L)"
  using assms
proof (induction j rule: dec_induct)
  case (step j)
  have "len_at M lens j \<le> L" using step by simp
  then have "M - len_at M lens j = L - len_at M lens j + (M - L)" using step.prems by simp
  then have "(2 :: nat) ^ (M - len_at M lens j) = 2 ^ (L - len_at M lens j) * 2 ^ (M - L)" by (metis power_add)
  then show ?case using step start_next [of j M lens] by (simp add: algebra_simps)
qed simp

lemma find_end:
  assumes "start_at M lens k < e" "e \<le> start_at M lens j" "j \<le> ncodes M lens"
  shows "\<exists>q. k < q \<and> q \<le> j \<and> e \<le> start_at M lens q \<and> start_at M lens (q - 1) < e"
proof -
  let ?q = "LEAST q. e \<le> start_at M lens q"
  have q: "e \<le> start_at M lens ?q" using assms(2) by (rule LeastI [of "\<lambda>q. e \<le> start_at M lens q"])
  have "?q \<le> j" using assms(2) by (rule Least_le [of "\<lambda>q. e \<le> start_at M lens q"])
  moreover have "k < ?q" using q assms(1) start_mono [of ?q k M lens] by (metis leD le_less_trans not_less)
  moreover have "start_at M lens (?q - 1) < e" using \<open>k < ?q\<close> not_less_Least [of "?q - 1" "\<lambda>q. e \<le> start_at M lens q"] by simp
  ultimately show ?thesis using q by blast
qed

text \<open>A cell that starts with the \<open>k\<close>-th codeword, which is longer than \<open>tb\<close>, ends with a codeword.\<close>

definition cell_from :: "nat \<Rightarrow> nat list \<Rightarrow> nat \<Rightarrow> nat \<Rightarrow> nat \<Rightarrow> bool" where
  "cell_from M lens tb k q \<longleftrightarrow> k < q \<and> q \<le> ncodes M lens \<and> start_at M lens q = start_at M lens k + 2 ^ (M - tb)"

lemma subtable_bits_run:
  assumes full: "code_full M lens" and k: "k < ncodes M lens" and tb: "tb \<le> M"
    and cs: "length cs = M + 1" "\<forall>l. 1 \<le> l \<and> l \<le> M \<longrightarrow> cs ! l = left_of M lens k l"
    and room: "start_at M lens k + 2 ^ (M - tb) \<le> 2 ^ M"
  shows "1 \<le> n \<Longrightarrow> tb + n \<le> M \<Longrightarrow>
    r * 2 ^ (M - tb - n) = 2 ^ (M - tb) - int (\<Sum>l < tb + n. left_of M lens k l * 2 ^ (M - l)) \<Longrightarrow> 0 < r \<Longrightarrow>
    \<exists>n'. subtable_bits cs tb n r = Inr n' \<and> n \<le> n' \<and> tb + n' \<le> M \<and>
      start_at M lens k + 2 ^ (M - tb) \<le> start_at M lens (reach M lens k (tb + n')) \<and>
      (n' = n \<or> start_at M lens (reach M lens k (tb + n' - 1)) < start_at M lens k + 2 ^ (M - tb))"
proof (induction "M - tb - n" arbitrary: n r rule: less_induct)
  case less
  let ?r = "r - int (left_of M lens k (tb + n))" and ?S = "\<lambda>L. \<Sum>l \<le> L. left_of M lens k l * 2 ^ (M - l)"
  have c: "aget cs (int (tb + n)) = Inr (left_of M lens k (tb + n))"
    using cs less.prems(1,2) by (subst aget_nat) simp_all
  have S: "?S (tb + n) = (\<Sum>l < tb + n. left_of M lens k l * 2 ^ (M - l)) + left_of M lens k (tb + n) * 2 ^ (M - tb - n)"
    by (simp add: lessThan_Suc_atMost [symmetric])
  have r: "?r * 2 ^ (M - tb - n) = 2 ^ (M - tb) - int (?S (tb + n))"
    unfolding S using less.prems(3) by (simp add: left_diff_distrib)
  note R = reach_start [of k M lens] and K = less_imp_le [OF k]
  show ?case
  proof (cases "?r \<le> 0")
    case True
    then have "?r * 2 ^ (M - tb - n) \<le> 0" by (simp add: mult_le_0_iff)
    then have "int (2 ^ (M - tb)) \<le> int (?S (tb + n))" unfolding r by simp
    then have "start_at M lens k + 2 ^ (M - tb) \<le> start_at M lens (reach M lens k (tb + n))"
      unfolding R [OF K] by (simp only: of_nat_le_iff add_le_cancel_left)
    then show ?thesis using True c less.prems by (intro exI [of _ n]) (simp add: subtable_bits.simps [of cs tb n])
  next
    case False
    then have "0 < ?r * 2 ^ (M - tb - n)" by simp
    then have "int (?S (tb + n)) < int (2 ^ (M - tb))" unfolding r by simp
    then have more: "start_at M lens (reach M lens k (tb + n)) < start_at M lens k + 2 ^ (M - tb)"
      unfolding R [OF K] by (simp only: of_nat_less_iff add_less_cancel_left)
    have "tb + n \<noteq> M"
      using more room full reach_all [OF K] by (auto simp: code_full_def)
    then have n: "tb + Suc n \<le> M" "M - tb - n = Suc (M - tb - Suc n)" using less.prems(2) by simp_all
    have "2 * ?r * 2 ^ (M - tb - Suc n) = 2 ^ (M - tb) - int (\<Sum>l < tb + Suc n. left_of M lens k l * 2 ^ (M - l))"
      using r unfolding n(2) by (simp add: lessThan_Suc_atMost algebra_simps)
    from less.hyps [OF _ _ n(1) this] n False obtain n' where
      "subtable_bits cs tb (Suc n) (2 * ?r) = Inr n'" "Suc n \<le> n'" "tb + n' \<le> M"
      "start_at M lens k + 2 ^ (M - tb) \<le> start_at M lens (reach M lens k (tb + n'))"
      "n' = Suc n \<or> start_at M lens (reach M lens k (tb + n' - 1)) < start_at M lens k + 2 ^ (M - tb)"
      by auto
    then show ?thesis using more False c by (intro exI [of _ n']) (auto simp: subtable_bits.simps [of cs tb n])
  qed
qed

lemma cell_exists:
  assumes full: "code_full M lens" and k: "k < ncodes M lens" and tb: "tb < len_at M lens k" and a: "2 ^ (M - tb) dvd start_at M lens k"
  shows "start_at M lens k + 2 ^ (M - tb) \<le> 2 ^ M" "\<exists>q. cell_from M lens tb k q"
proof -
  let ?D = "2 ^ (M - tb) :: nat"
  have M: "tb < M" using tb len_at_bounds [OF k] by linarith
  have top: "(2 :: nat) ^ M = 2 ^ tb * ?D" using M by (simp flip: power_add)
  obtain c where c: "start_at M lens k = c * ?D" using a by (metis dvd_def mult.commute)
  have "c < 2 ^ tb" using start_below [OF full_fits [OF full] k] unfolding c top by simp
  then have "(c + 1) * ?D \<le> 2 ^ tb * ?D" by (intro mult_le_mono1) simp
  then show room: "start_at M lens k + ?D \<le> 2 ^ M" unfolding c top by simp
  then have "start_at M lens k + ?D \<le> start_at M lens (ncodes M lens)" using full by (simp add: code_full_def)
  from find_end [of M lens k, OF _ this] obtain q where q: "k < q" "q \<le> ncodes M lens" "start_at M lens k + ?D \<le> start_at M lens q"
    "start_at M lens (q - 1) < start_at M lens k + ?D" by auto
  have i: "k \<le> q - 1" "q - 1 < ncodes M lens" using q by simp_all
  then have "tb \<le> len_at M lens (q - 1)" using tb len_at_mono [OF i] by linarith
  then have "start_at M lens (Suc (q - 1)) \<le> (c + 1) * ?D"
    using q(4) i unfolding c by (intro cell_end) simp_all
  then have "start_at M lens q = start_at M lens k + ?D" using q unfolding c by simp
  then show "\<exists>q. cell_from M lens tb k q" using q unfolding cell_from_def by blast
qed

lemma subtable_bits_cell:
  assumes full: "code_full M lens" and cell: "cell_from M lens tb k q" and tb: "tb < len_at M lens k"
    and a: "2 ^ (M - tb) dvd start_at M lens k"
    and cs: "length cs = M + 1" "\<forall>l. 1 \<le> l \<and> l \<le> M \<longrightarrow> cs ! l = left_of M lens k l"
  shows "subtable_bits cs tb (len_at M lens k - tb) (2 ^ (len_at M lens k - tb)) = Inr (len_at M lens (q - 1) - tb)"
proof -
  let ?n = "len_at M lens k - tb"
  have k: "k < ncodes M lens" and q: "k < q" "q \<le> ncodes M lens" "start_at M lens q = start_at M lens k + 2 ^ (M - tb)"
    using cell by (auto simp: cell_from_def)
  have b: "1 \<le> ?n" "tb + ?n = len_at M lens k" "tb + ?n \<le> M" "tb \<le> M" using tb len_at_bounds [OF k] by linarith+
  have "(\<Sum>l < tb + ?n. left_of M lens k l * 2 ^ (M - l)) = 0" unfolding b(2) by (intro sum.neutral) (simp add: left_none [OF k])
  moreover have "(2 :: int) ^ ?n * 2 ^ (M - tb - ?n) = 2 ^ (M - tb)" using b(3) by (simp flip: power_add)
  ultimately obtain n' where n': "subtable_bits cs tb ?n (2 ^ ?n) = Inr n'" "?n \<le> n'"
    "start_at M lens q \<le> start_at M lens (reach M lens k (tb + n'))"
    "n' = ?n \<or> start_at M lens (reach M lens k (tb + n' - 1)) < start_at M lens q"
    using subtable_bits_run [OF full k b(4) cs cell_exists(1) [OF full k tb a] b(1,3), of "2 ^ ?n"] unfolding q(3) by auto
  have "q \<le> reach M lens k (tb + n')" using n'(3) q(2) start_less [of "reach M lens k (tb + n')" q M lens] by force
  then have u: "len_at M lens (q - 1) \<le> tb + n'" using reach_iff [of k "q - 1" M lens] q by simp
  have "tb + n' \<le> len_at M lens (q - 1)"
    using n'(4)
  proof
    assume "n' = ?n"
    then show ?thesis using len_at_mono [of k "q - 1" M lens] q b by simp
  next
    assume "start_at M lens (reach M lens k (tb + n' - 1)) < start_at M lens q"
    then have "reach M lens k (tb + n' - 1) < q" using start_mono [of q _ M lens] by (metis leD not_less)
    then have "\<not> len_at M lens (q - 1) \<le> tb + n' - 1" using reach_iff [of k "q - 1" M lens "tb + n' - 1"] q by simp
    then show ?thesis by simp
  qed
  then show ?thesis using u n'(1) by simp
qed

lemma cell_leaves:
  assumes cell: "cell_from M lens tb k q" and tb: "tb < len_at M lens k"
  shows "len_at M lens k \<le> len_at M lens (q - 1)"
    "2 ^ (len_at M lens k - tb) + (len_at M lens (q - 1) - tb) \<le> q - k + (len_at M lens k - tb)"
proof -
  let ?L = "len_at M lens (q - 1)" and ?S = "\<Sum>x\<leftarrow>[k..<q - 1]. 2 ^ (len_at M lens (q - 1) - len_at M lens x) :: nat"
  have q: "k < q" "q - 1 < ncodes M lens" "start_at M lens q = start_at M lens k + 2 ^ (M - tb)" using cell by (auto simp: cell_from_def)
  show kL: "len_at M lens k \<le> ?L" using len_at_mono [of k "q - 1" M lens] q by simp
  have L: "?L \<le> M" using len_at_bounds [OF q(2)] by blast
  have "start_at M lens (q - 1) = start_at M lens k + ?S * 2 ^ (M - ?L)"
    using q L len_at_mono [of _ "q - 1" M lens] by (intro start_sum) simp_all
  then have "start_at M lens k + 2 ^ (M - tb) = start_at M lens k + (?S + 1) * 2 ^ (M - ?L)"
    using start_next [OF q(2)] q by simp
  moreover have "(2 :: nat) ^ (M - tb) = 2 ^ (?L - tb) * 2 ^ (M - ?L)" using kL tb L by (simp flip: power_add)
  ultimately have "(?S + 1) * 2 ^ (M - ?L) = 2 ^ (?L - tb) * 2 ^ (M - ?L)" by (metis add_left_cancel)
  then have S: "?S + 1 = 2 ^ (?L - tb)" by (metis mult_cancel2 power_not_zero zero_neq_numeral)
  have e: "?L - tb = (len_at M lens k - tb) + (?L - len_at M lens k)" using kL tb by simp
  have "pw (?L - len_at M lens k) ?S \<le> q - 1 - k"
    using pw_sum [of "map (\<lambda>x. ?L - len_at M lens x) [k..<q - 1]" "?L - len_at M lens k"] q len_at_mono [of k _ M lens]
    by (simp add: comp_def diff_le_mono2)
  moreover have "pw (?L - len_at M lens k) ?S = 2 ^ (len_at M lens k - tb) - 1 + (?L - len_at M lens k)"
  proof -
    have "?S = 2 ^ (?L - tb) - 1" using S by linarith
    then show ?thesis by (simp only: e pw_ones)
  qed
  ultimately have le: "2 ^ (len_at M lens k - tb) - 1 + (?L - len_at M lens k) \<le> q - 1 - k" by simp
  obtain P where P: "2 ^ (len_at M lens k - tb) = Suc P" by (metis gr0_implies_Suc zero_less_numeral zero_less_power)
  have "Suc P + (m + c) \<le> q - k + m" if "P + c \<le> q - 1 - k" for m c using that q(1) by linarith
  then show "2 ^ (len_at M lens k - tb) + (?L - tb) \<le> q - k + (len_at M lens k - tb)" using le unfolding e P by simp
qed

section \<open>The size of the table\<close>

definition first_long :: "nat \<Rightarrow> nat \<Rightarrow> nat list \<Rightarrow> nat" where
  "first_long M tb lens = reach M lens 0 tb"

lemma first_long_iff: "j < ncodes M lens \<Longrightarrow> len_at M lens j \<le> tb \<longleftrightarrow> j < first_long M tb lens"
  using reach_iff [of 0 j M lens tb] by (simp add: first_long_def)

definition table_need :: "nat \<Rightarrow> nat \<Rightarrow> nat list \<Rightarrow> nat" where
  "table_need M tb lens =
     (if first_long M tb lens < ncodes M lens
      then 2 ^ tb + (ncodes M lens - first_long M tb lens + (2 ^ (M - tb) - (M - tb) - 1)) div 2 * 2
      else 2 ^ tb)"

text \<open>Up to the cell that ends with the \<open>q\<close>-th codeword, whose subtable has \<open>2 ^ n\<close> entries, \<open>e\<close> entries are used.\<close>

definition table_used :: "nat \<Rightarrow> nat \<Rightarrow> nat list \<Rightarrow> nat \<Rightarrow> nat \<Rightarrow> nat \<Rightarrow> bool" where
  "table_used M tb lens q n e \<longleftrightarrow>
     (let k = first_long M tb lens; m = len_at M lens k - tb
      in k < q \<and> q \<le> ncodes M lens \<and> even e \<and> 1 \<le> m \<and> tb + n \<le> M \<and> e + 2 ^ m + n \<le> 2 ^ tb + (q - k) + 2 ^ n + m)"

lemma exp_mono: "n \<le> x \<Longrightarrow> 2 ^ n + x \<le> 2 ^ x + (n :: nat)"
proof (induction x rule: dec_induct)
  case (step x)
  have "1 \<le> (2 :: nat) ^ x" by simp
  then show ?case using step.IH unfolding power_Suc by linarith
qed simp

lemma even_bound: "even e \<Longrightarrow> even a \<Longrightarrow> e \<le> a + x \<Longrightarrow> e \<le> a + x div 2 * (2 :: nat)"
  by presburger

lemma used_need:
  assumes "table_used M tb lens q n e" "1 \<le> tb"
  shows "e \<le> table_need M tb lens"
proof -
  let ?k = "first_long M tb lens" and ?m = "len_at M lens (first_long M tb lens) - tb"
  note U = assms(1) [unfolded table_used_def Let_def]
  have "2 ^ n + (M - tb) \<le> 2 ^ (M - tb) + n" by (rule exp_mono) (use U in linarith)
  moreover have "?m + 1 \<le> 2 ^ ?m" using less_exp [of ?m] by (simp add: Suc_le_eq)
  moreover have "M - tb + 1 \<le> 2 ^ (M - tb)" using less_exp [of "M - tb"] by (simp add: Suc_le_eq)
  ultimately have "e \<le> 2 ^ tb + (ncodes M lens - ?k + (2 ^ (M - tb) - (M - tb) - 1))" using U by linarith
  moreover have "even (2 ^ tb :: nat)" "even e" using assms(2) U by (simp, blast)
  ultimately have "e \<le> 2 ^ tb + (ncodes M lens - ?k + (2 ^ (M - tb) - (M - tb) - 1)) div 2 * 2"
    by (intro even_bound)
  then show ?thesis using U by (simp add: table_need_def)
qed

lemma used_first:
  assumes "cell_from M lens tb (first_long M tb lens) q" "1 \<le> tb" "tb < len_at M lens (first_long M tb lens)"
  shows "table_used M tb lens q (len_at M lens (q - 1) - tb) (2 ^ tb + 2 ^ (len_at M lens (q - 1) - tb))"
proof -
  let ?k = "first_long M tb lens" and ?n = "len_at M lens (q - 1) - tb"
  note l = cell_leaves [OF assms(1,3)]
  have q: "?k < q" "q \<le> ncodes M lens" "q - 1 < ncodes M lens" using assms(1) by (auto simp: cell_from_def)
  have n: "1 \<le> ?n" "tb + ?n \<le> M" using l(1) assms(3) len_at_bounds [OF q(3)] by linarith+
  then have "even (2 ^ tb + 2 ^ ?n :: nat)" using assms(2) by simp
  moreover have "2 ^ tb + 2 ^ ?n + 2 ^ (len_at M lens ?k - tb) + ?n \<le> 2 ^ tb + (q - ?k) + 2 ^ ?n + (len_at M lens ?k - tb)"
    using l(2) by linarith
  moreover have "1 \<le> len_at M lens ?k - tb" using assms(3) by simp
  ultimately show ?thesis using q n unfolding table_used_def Let_def by blast
qed

lemma used_next:
  assumes u: "table_used M tb lens q n e" and cell: "cell_from M lens tb q q'"
    and l: "tb < len_at M lens q" "n \<le> len_at M lens q - tb"
  shows "table_used M tb lens q' (len_at M lens (q' - 1) - tb) (e + 2 ^ (len_at M lens (q' - 1) - tb))"
proof -
  let ?k = "first_long M tb lens" and ?n = "len_at M lens (q' - 1) - tb" and ?m = "len_at M lens q - tb"
  note lv = cell_leaves [OF cell l(1)]
  have q: "q < q'" "q' \<le> ncodes M lens" "q' - 1 < ncodes M lens" using cell by (auto simp: cell_from_def)
  have n: "1 \<le> ?n" "tb + ?n \<le> M" using lv(1) l(1) len_at_bounds [OF q(3)] by linarith+
  note U = u [unfolded table_used_def Let_def]
  have "even (e + 2 ^ ?n)" using U n by simp
  moreover have "e + 2 ^ ?n + 2 ^ (len_at M lens ?k - tb) + ?n \<le> 2 ^ tb + (q' - ?k) + 2 ^ ?n + (len_at M lens ?k - tb)"
  proof -
    have a: "e + 2 ^ (len_at M lens ?k - tb) + n \<le> 2 ^ tb + (q - ?k) + 2 ^ n + (len_at M lens ?k - tb)" using U by blast
    have b: "2 ^ n + ?m \<le> 2 ^ ?m + n" by (rule exp_mono [OF l(2)])
    have c: "q' - ?k = (q' - q) + (q - ?k)" using q(1) U by simp
    show ?thesis using a b lv(2) unfolding c by linarith
  qed
  ultimately show ?thesis using U q n unfolding table_used_def Let_def by auto
qed

section \<open>The constants\<close>

lemma long_part:
  assumes full: "code_full M lens" and k: "first_long M tb lens < ncodes M lens" and tb: "1 \<le> tb"
  shows "\<exists>P. 1 \<le> P \<and> P \<le> 2 ^ tb \<and> 2 * P + first_long M tb lens \<le> ncodes M lens \<and> pw tb (2 ^ tb - P) \<le> first_long M tb lens"
proof -
  let ?k = "first_long M tb lens" and ?D = "2 ^ (M - tb) :: nat"
  let ?A = "\<Sum>x\<leftarrow>[0..<?k]. 2 ^ (tb - len_at M lens x) :: nat" and ?B = "\<Sum>x\<leftarrow>[?k..<ncodes M lens]. 2 ^ (M - len_at M lens x) :: nat"
  have l: "tb < len_at M lens ?k" using first_long_iff [OF k, of tb] by auto
  then have M: "tb < M" using len_at_bounds [OF k] by linarith
  have top: "(2 :: nat) ^ M = 2 ^ tb * ?D" using M by (simp flip: power_add)
  have A: "start_at M lens ?k = ?A * ?D"
    using start_sum [of 0 ?k M lens tb] k M first_long_iff [of _ M lens tb] by (simp add: start_at_def)
  have B: "2 ^ M = start_at M lens ?k + ?B"
    using start_sum [of ?k "ncodes M lens" M lens M] k len_at_bounds [of _ M lens] full by (simp add: code_full_def)
  have "?A < 2 ^ tb" using start_below [OF full_fits [OF full] k] unfolding A top by simp
  then obtain P where P: "?A + P = 2 ^ tb" "1 \<le> P" by (metis Suc_eq_plus1_left le_add1 less_imp_Suc_add add_Suc_right)
  have "?B \<le> (\<Sum>x\<leftarrow>[?k..<ncodes M lens]. 2 ^ (M - tb - 1))"
  proof (rule sum_list_mono)
    fix x assume "x \<in> set [?k..<ncodes M lens]"
    then have "tb < len_at M lens x" using len_at_mono [of ?k x M lens] l by simp
    then show "(2 :: nat) ^ (M - len_at M lens x) \<le> 2 ^ (M - tb - 1)" by (intro power_increasing) simp_all
  qed
  also have "\<dots> = (ncodes M lens - ?k) * 2 ^ (M - tb - 1)" by (simp add: sum_list_triv)
  finally have b: "?B \<le> (ncodes M lens - ?k) * 2 ^ (M - tb - 1)" .
  have D: "?D = 2 * 2 ^ (M - tb - 1)" using M by (simp flip: power_Suc)
  have "P * ?D = ?B" using B unfolding A top P(1) [symmetric] by (simp add: algebra_simps)
  then have "2 * P * 2 ^ (M - tb - 1) \<le> (ncodes M lens - ?k) * 2 ^ (M - tb - 1)" using b unfolding D by (simp only: mult.assoc mult.left_commute)
  then have "2 * P \<le> ncodes M lens - ?k" by simp
  moreover have "pw tb ?A \<le> ?k" using pw_sum [of "map (\<lambda>x. tb - len_at M lens x) [0..<?k]" tb] by (simp add: comp_def)
  moreover have "2 ^ tb - P = ?A" using P(1) by simp
  ultimately show ?thesis using P k by (intro exI [of _ P]) simp
qed

lemma cnt_len_sum: "(\<Sum>l = a..<b. cnt_len lens l n) \<le> n"
proof (induction n)
  case (Suc n)
  have "(\<Sum>l = a..<b. of_bool (lens ! n = l)) \<le> (1 :: nat)" by (simp add: of_bool_def)
  then show ?case using Suc unfolding cnt_len_Suc sum.distrib by linarith
qed simp

lemma ncodes_le: "ncodes M lens \<le> length lens"
proof -
  have "ncodes M lens = (\<Sum>l \<leftarrow> [1..<M + 1]. cnt_len lens l (length lens))"
    by (simp add: code_order_def length_concat comp_def syms_of_def cnt_len_def)
  also have "\<dots> = (\<Sum>l = 1..<M + 1. cnt_len lens l (length lens))" by (simp only: interv_sum_list_conv_sum_set_nat set_upt)
  finally show ?thesis using cnt_len_sum by (rule ord_eq_le_trans)
qed

text \<open>For codes of at most \<open>n\<close> symbols; \<open>spread\<close> is checked for each number \<open>P\<close> of pointers.\<close>

definition spread :: "nat \<Rightarrow> nat \<Rightarrow> nat \<Rightarrow> nat \<Rightarrow> bool" where
  "spread n c tb P \<longleftrightarrow> c \<le> pw tb (2 ^ tb - P) \<or> n < 2 * P + pw tb (2 ^ tb - P)"

lemma need_bound:
  assumes full: "code_full M lens" and tb: "1 \<le> tb" and n: "length lens \<le> n" and sp: "\<forall>P \<in> {1..n div 2}. spread n c tb P"
  shows "table_need M tb lens \<le> 2 ^ tb + (n - c + (2 ^ (M - tb) - (M - tb) - 1)) div 2 * 2"
proof (cases "first_long M tb lens < ncodes M lens")
  case True
  let ?k = "first_long M tb lens"
  obtain P where P: "1 \<le> P" "2 * P + ?k \<le> ncodes M lens" "pw tb (2 ^ tb - P) \<le> ?k"
    using long_part [OF full True tb] by blast
  have le: "ncodes M lens \<le> n" using ncodes_le n by (rule le_trans)
  then have "spread n c tb P" using sp P by auto
  then have "c \<le> ?k" using P le unfolding spread_def by linarith
  then have "ncodes M lens - ?k \<le> n - c" using le by linarith
  then have "(ncodes M lens - ?k + (2 ^ (M - tb) - (M - tb) - 1)) div 2 * 2 \<le> (n - c + (2 ^ (M - tb) - (M - tb) - 1)) div 2 * 2"
    by (intro mult_le_mono1 div_le_mono) simp
  then show ?thesis using True by (simp add: table_need_def)
qed (simp add: table_need_def)

lemma pw_numeral: "pw (numeral c) s = s mod 2 + pw (pred_numeral c) (s div 2)"
  by (simp add: numeral_eq_Suc)

lemma spread_numeral: "spread n c tb 1 \<longleftrightarrow> c \<le> pw tb (2 ^ tb - 1) \<or> n < 2 + pw tb (2 ^ tb - 1)"
  "spread n c tb (numeral P) \<longleftrightarrow> c \<le> pw tb (2 ^ tb - numeral P) \<or> n < 2 * numeral P + pw tb (2 ^ tb - numeral P)"
  by (simp_all only: spread_def mult_1_right)

lemma spread_litlen: "list_all (spread 288 3 10) (1 # [2..<145])"
  by (simp add: pw_numeral upt_rec_numeral spread_numeral [simplified])

lemma spread_offset: "list_all (spread 32 5 8) (1 # [2..<17])"
  by (simp add: pw_numeral upt_rec_numeral spread_numeral [simplified])

lemma litlen_enough: "code_full 15 lens \<Longrightarrow> length lens \<le> 288 \<Longrightarrow> table_need 15 10 lens \<le> 1334"
proof -
  have "\<forall>P \<in> {1..288 div 2}. spread 288 3 10 P"
  proof -
    have "set (1 # [2..<145]) = {1..288 div 2}" unfolding list.set set_upt by auto
    then show ?thesis using spread_litlen by (simp only: list_all_iff)
  qed
  note b = need_bound [OF _ _ _ this]
  show "table_need 15 10 lens \<le> 1334" if "code_full 15 lens" "length lens \<le> 288"
    using b [OF that(1) _ that(2)] by simp
qed

lemma offset_enough: "code_full 15 lens \<Longrightarrow> length lens \<le> 32 \<Longrightarrow> table_need 15 8 lens \<le> 402"
proof -
  have "\<forall>P \<in> {1..32 div 2}. spread 32 5 8 P"
  proof -
    have "set (1 # [2..<17]) = {1..32 div 2}" unfolding list.set set_upt by auto
    then show ?thesis using spread_offset by (simp only: list_all_iff)
  qed
  note b = need_bound [OF _ _ _ this]
  show "table_need 15 8 lens \<le> 402" if "code_full 15 lens" "length lens \<le> 32"
    using b [OF that(1) _ that(2)] by simp
qed

text \<open>Without long codewords the main table is all of it.\<close>

lemma short_need: "M \<le> tb \<Longrightarrow> table_need M tb lens = 2 ^ tb"
  using first_long_iff [of "first_long M tb lens" M lens tb] len_at_bounds [of "first_long M tb lens" M lens]
  by (auto simp: table_need_def)

end
