(* ===== verification/HuffmanBuild.thy ===== *)
theory HuffmanBuild
  imports HuffmanEnough
begin

text \<open>
  The second half of \<open>build_decode_table\<close>: the invariant of the loop over the symbols. Before the \<open>k\<close>-th codeword the
  table decodes the codewords before it (\<open>says\<close>), the counts are those of the codewords that are left, and either no
  subtable has been opened or the one that is open belongs to the cell of the codeword before (\<open>open_cell\<close>).
\<close>

definition says :: "nat \<Rightarrow> hbuild \<Rightarrow> nat \<Rightarrow> 32 word \<Rightarrow> nat \<Rightarrow> bool" where
  "says tb b R r l \<longleftrightarrow>
     (if num_dropped_bits b = 0 then direct tb (decode_table b) R r l
      else if int (take_bit tb R) = cur_codeword_prefix b
        then via tb (decode_table b) (cur_table_start b) (cur_table_bits b) R r l
      else direct tb (decode_table b) R r l \<or>
        (\<exists>ts n. 2 ^ tb \<le> ts \<and> ts + 2 ^ n \<le> cur_table_start b \<and> via tb (decode_table b) ts n R r l))"

definition main_mode :: "nat \<Rightarrow> hbuild \<Rightarrow> bool" where
  "main_mode tb b \<longleftrightarrow> num_dropped_bits b = 0 \<and> cur_table_start b = 0 \<and> cur_table_bits b = tb \<and> cur_codeword_prefix b = 2 ^ 32 - 1"

definition open_cell :: "nat \<Rightarrow> nat \<Rightarrow> nat list \<Rightarrow> hbuild \<Rightarrow> nat \<Rightarrow> nat \<Rightarrow> bool" where
  "open_cell M tb lens b j q \<longleftrightarrow> cell_from M lens tb j q \<and> tb < len_at M lens j \<and> 2 ^ (M - tb) dvd start_at M lens j \<and>
     num_dropped_bits b = tb \<and> cur_codeword_prefix b = int (take_bit tb (rv M (start_at M lens j))) \<and>
     cur_table_bits b = len_at M lens (q - 1) - tb \<and> 2 ^ tb \<le> cur_table_start b \<and>
     table_used M tb lens q (cur_table_bits b) (cur_table_start b + 2 ^ cur_table_bits b) \<and>
     decode_table b ! take_bit tb (rv M (start_at M lens j)) = pointer_to (cur_table_start b) (cur_table_bits b)"

definition room_for :: "nat \<Rightarrow> nat \<Rightarrow> nat list \<Rightarrow> 32 word list \<Rightarrow> nat \<Rightarrow> bool" where
  "room_for M tb lens res z \<longleftrightarrow> 1 \<le> tb \<and> tb \<le> M \<and> M \<le> 15 \<and> length lens \<le> length res \<and> (\<forall>r \<in> set res. r < 2 ^ 23) \<and>
     table_need M tb lens \<le> z \<and> z \<le> 2 ^ 16"

definition held :: "nat \<Rightarrow> nat \<Rightarrow> nat list \<Rightarrow> 32 word list \<Rightarrow> nat \<Rightarrow> hbuild \<Rightarrow> bool" where
  "held M tb lens res k b \<longleftrightarrow> (\<forall>j < k. \<forall>R < 2 ^ M. take_bit (len_at M lens j) R = rv M (start_at M lens j) \<longrightarrow>
     says tb b R (res ! (code_order M lens ! j)) (len_at M lens j))"

definition counts_ok :: "nat \<Rightarrow> nat list \<Rightarrow> nat \<Rightarrow> nat list \<Rightarrow> bool" where
  "counts_ok M lens k cs \<longleftrightarrow> length cs = M + 1 \<and> (\<forall>l. 1 \<le> l \<and> l \<le> M \<longrightarrow> cs ! l = left_of M lens k l)"

definition before :: "nat \<Rightarrow> nat \<Rightarrow> nat list \<Rightarrow> 32 word list \<Rightarrow> nat \<Rightarrow> nat \<Rightarrow> hbuild \<Rightarrow> bool" where
  "before M tb lens res z k b \<longleftrightarrow> k < ncodes M lens \<and> codeword_len b = len_at M lens k \<and>
     codeword_reversed b = rv M (start_at M lens k) \<and> counts_ok M lens k (len_counts b) \<and> length (decode_table b) = z \<and>
     held M tb lens res k b \<and>
     (if k = 0 \<or> len_at M lens (k - 1) \<le> tb then main_mode tb b else \<exists>j q. open_cell M tb lens b j q \<and> j < k \<and> k \<le> q)"

definition ready :: "nat \<Rightarrow> nat \<Rightarrow> nat list \<Rightarrow> 32 word list \<Rightarrow> nat \<Rightarrow> nat \<Rightarrow> hbuild \<Rightarrow> bool" where
  "ready M tb lens res z k b \<longleftrightarrow> k < ncodes M lens \<and> codeword_len b = len_at M lens k \<and>
     codeword_reversed b = rv M (start_at M lens k) \<and> counts_ok M lens k (len_counts b) \<and> length (decode_table b) = z \<and>
     held M tb lens res k b \<and>
     (if len_at M lens k \<le> tb then main_mode tb b else \<exists>j q. open_cell M tb lens b j q \<and> j \<le> k \<and> k < q)"

section \<open>Cells\<close>

lemma same_cell:
  assumes "x < 2 ^ M" "y < 2 ^ M" "tb \<le> M"
  shows "take_bit tb (rv M x) = take_bit tb (rv M y) \<longleftrightarrow> x div 2 ^ (M - tb) = y div 2 ^ (M - tb)"
  using same_prefix [OF assms] by simp

lemma in_cell:
  assumes f: "code_fits M lens" and cell: "cell_from M lens tb j q" and a: "2 ^ (M - tb) dvd start_at M lens j" and tb: "tb \<le> M"
    and i: "j \<le> i" "i < ncodes M lens"
  shows "take_bit tb (rv M (start_at M lens i)) = take_bit tb (rv M (start_at M lens j)) \<longleftrightarrow> i < q"
proof -
  let ?D = "2 ^ (M - tb) :: nat"
  obtain c where c: "start_at M lens j = c * ?D" using a by (metis dvd_def mult.commute)
  have q: "q \<le> ncodes M lens" "start_at M lens q = (c + 1) * ?D" using cell c by (simp_all add: cell_from_def)
  have lo: "c * ?D \<le> start_at M lens i" unfolding c [symmetric] by (rule start_mono [OF i(1)])
  have "start_at M lens i div ?D = c \<longleftrightarrow> start_at M lens i < (c + 1) * ?D"
    using lo div_less_iff_less_mult [of ?D "start_at M lens i" "c + 1"] less_eq_div_iff_mult_less_eq [of ?D c "start_at M lens i"] by auto
  also have "\<dots> \<longleftrightarrow> i < q" unfolding q(2) [symmetric] using start_less [of i q M lens] start_mono [of q i M lens] q(1) by force
  finally show ?thesis
    using same_cell [OF start_below [OF f i(2)] start_below [OF f, of j] tb] i unfolding c by simp
qed

text \<open>Windows with a codeword before a cell are not of the cell.\<close>

lemma not_in_cell:
  assumes f: "code_fits M lens" and k: "k < ncodes M lens" and a: "2 ^ (M - tb) dvd start_at M lens k" and tb: "tb \<le> M"
    and j: "j < k" and R: "R < 2 ^ M" "take_bit (len_at M lens j) R = rv M (start_at M lens j)"
  shows "take_bit tb R \<noteq> take_bit tb (rv M (start_at M lens k))"
proof -
  let ?x = "rv M R" and ?D = "2 ^ (M - tb) :: nat"
  have x: "?x < 2 ^ M" "rv M ?x = R" using R(1) by (simp_all add: rv_less)
  have "?x < start_at M lens (Suc j)" using owner [OF f _ x(1), of j] j k R(2) x(2) by simp
  also have "\<dots> \<le> start_at M lens k" using j by (intro start_mono) simp
  finally have "?x div ?D < start_at M lens k div ?D" using a by (metis dvd_mult_div_cancel mult.commute less_mult_imp_div_less)
  then have "take_bit tb (rv M ?x) \<noteq> take_bit tb (rv M (start_at M lens k))"
    using same_cell [OF x(1) start_below [OF f k] tb] by simp
  then show ?thesis unfolding x(2) .
qed

text \<open>No window has two codewords.\<close>

lemma one_codeword:
  assumes f: "code_fits M lens" and k: "k < ncodes M lens" and j: "j < k"
    and R: "R < 2 ^ M" "take_bit (len_at M lens j) R = rv M (start_at M lens j)"
  shows "take_bit (len_at M lens k) R \<noteq> rv M (start_at M lens k)"
proof
  assume a: "take_bit (len_at M lens k) R = rv M (start_at M lens k)"
  let ?x = "rv M R"
  have x: "?x < 2 ^ M" "rv M ?x = R" using R(1) by (simp_all add: rv_less)
  have "?x < start_at M lens (Suc j)" using owner [OF f _ x(1), of j] j k R(2) x(2) by simp
  moreover have "start_at M lens k \<le> ?x" using owner [OF f k x(1)] a x(2) by simp
  ultimately show False using start_mono [of "Suc j" k M lens] j by simp
qed

section \<open>Opening a subtable\<close>

lemma first_long_eq:
  assumes "k < ncodes M lens" "tb < len_at M lens k" "k = 0 \<or> len_at M lens (k - 1) \<le> tb"
  shows "first_long M tb lens = k"
proof (rule linorder_cases [of "first_long M tb lens" k])
  assume a: "first_long M tb lens < k"
  then have "len_at M lens (first_long M tb lens) \<le> tb"
    using assms len_at_mono [of "first_long M tb lens" "k - 1" M lens] by fastforce
  then show ?thesis using first_long_iff [of "first_long M tb lens" M lens tb] a assms(1) by simp
next
  assume "k < first_long M tb lens"
  then show ?thesis using first_long_iff [OF assms(1), of tb] assms(2) by simp
qed

lemma says_opened:
  assumes m: "main_mode tb b \<or> (num_dropped_bits b = tb \<and> 2 ^ tb \<le> cur_table_start b)" and tb: "1 \<le> tb"
    and s: "says tb b R r l" and i: "take_bit tb R \<noteq> p" "p < 2 ^ tb"
  shows "says tb (b\<lparr>decode_table := (decode_table b)[p := e], cur_codeword_prefix := int p,
    cur_table_start := cur_table_start b + 2 ^ cur_table_bits b, cur_table_bits := n, num_dropped_bits := tb\<rparr>) R r l"
proof -
  let ?t = "decode_table b"
  have d: "direct tb (?t[p := e]) R r l \<longleftrightarrow> direct tb ?t R r l" using i(1) by (simp add: direct_def)
  have v: "via tb (?t[p := e]) ts n R r l \<longleftrightarrow> via tb ?t ts n R r l" if "2 ^ tb \<le> ts" for ts n
    using i that by (simp add: via_def)
  show ?thesis
    using s m tb i(1) unfolding says_def by (auto simp: d v main_mode_def intro: le_add1 split: if_splits) (use v in \<open>force+\<close>)
qed

lemma open_subtable_prefix:
  "open_subtable tb b =
     (let prefix = take_bit tb (codeword_reversed b) in
      if tb < codeword_len b \<and> int prefix \<noteq> cur_codeword_prefix b then
        let start = cur_table_start b + 2 ^ cur_table_bits b; n = codeword_len b - tb in
        bnd (subtable_bits (len_counts b) tb n (2 ^ n)) (\<lambda>n.
        bnd (aset (decode_table b) (int prefix) (pointer_to start n)) (\<lambda>t.
          Inr (b\<lparr>decode_table := t, cur_codeword_prefix := int prefix, cur_table_start := start, cur_table_bits := n,
                 num_dropped_bits := tb\<rparr>)))
      else Inr b)"
  by (simp only: open_subtable_def and_low)

lemma begin_cell:
  assumes full: "code_full M lens" and room: "room_for M tb lens res z"
    and k: "k < ncodes M lens" "codeword_len b = len_at M lens k" "codeword_reversed b = rv M (start_at M lens k)"
    and cs: "counts_ok M lens k (len_counts b)" and z: "length (decode_table b) = z" and held: "held M tb lens res k b"
    and l: "tb < len_at M lens k" and a: "2 ^ (M - tb) dvd start_at M lens k"
    and m: "main_mode tb b \<or> (num_dropped_bits b = tb \<and> 2 ^ tb \<le> cur_table_start b)"
    and p: "cur_codeword_prefix b \<noteq> int (take_bit tb (rv M (start_at M lens k)))"
    and used: "\<And>q. cell_from M lens tb k q \<Longrightarrow> table_used M tb lens q (len_at M lens (q - 1) - tb)
      (cur_table_start b + 2 ^ cur_table_bits b + 2 ^ (len_at M lens (q - 1) - tb))"
  shows "\<exists>b'. open_subtable tb b = Inr b' \<and> ready M tb lens res z k b'"
proof -
  note Z = room [unfolded room_for_def]
  note f = full_fits [OF full]
  obtain q where q: "cell_from M lens tb k q" using cell_exists(2) [OF full k(1) l a] by blast
  let ?p = "take_bit tb (rv M (start_at M lens k))" and ?n = "len_at M lens (q - 1) - tb"
  let ?s = "cur_table_start b + 2 ^ cur_table_bits b"
  let ?b = "b\<lparr>decode_table := (decode_table b)[?p := pointer_to ?s ?n], cur_codeword_prefix := int ?p,
    cur_table_start := ?s, cur_table_bits := ?n, num_dropped_bits := tb\<rparr>"
  note u = used [OF q]
  have n: "subtable_bits (len_counts b) tb (len_at M lens k - tb) (2 ^ (len_at M lens k - tb)) = Inr ?n"
    using cs by (intro subtable_bits_cell [OF full q l a]) (simp_all add: counts_ok_def)
  have "?s + 2 ^ ?n \<le> z" using used_need [OF u] Z by linarith
  moreover have s: "2 ^ tb \<le> ?s" using m by (auto simp: main_mode_def)
  ultimately have pz: "?p < z" using take_bit_nat_less_exp [of tb "rv M (start_at M lens k)"] by linarith
  have o: "open_subtable tb b = Inr ?b"
    using p l k n aset_nat [of ?p "decode_table b"] pz z by (simp add: open_subtable_prefix Let_def)
  have "open_cell M tb lens ?b k q"
    using q l a s u pz z unfolding open_cell_def by simp
  moreover have "held M tb lens res k ?b"
    unfolding held_def
  proof (intro allI impI)
    fix j R assume j: "j < k" and R: "R < 2 ^ M" "take_bit (len_at M lens j) R = rv M (start_at M lens j)"
    have "take_bit tb R \<noteq> ?p" using not_in_cell [OF f k(1) a _ j R] Z by blast
    moreover have "says tb b R (res ! (code_order M lens ! j)) (len_at M lens j)" using held j R unfolding held_def by blast
    ultimately show "says tb ?b R (res ! (code_order M lens ! j)) (len_at M lens j)"
      using Z by (intro says_opened [OF m]) simp_all
  qed
  ultimately have "ready M tb lens res z k ?b" using k cs z q l by (auto simp: ready_def cell_from_def)
  then show ?thesis using o by blast
qed

lemma open_subtable_ok:
  assumes ok: "code_full M lens" and room: "room_for M tb lens res z" and b: "before M tb lens res z k b"
  shows "\<exists>b'. open_subtable tb b = Inr b' \<and> ready M tb lens res z k b'"
proof -
  note B = b [unfolded before_def] and Z = room [unfolded room_for_def]
  have k: "k < ncodes M lens" using B by blast
  show ?thesis
  proof (cases "len_at M lens k \<le> tb")
    case True
    moreover from True have "k = 0 \<or> len_at M lens (k - 1) \<le> tb" using len_at_mono [of "k - 1" k M lens] k by auto
    ultimately have "open_subtable tb b = Inr b \<and> ready M tb lens res z k b"
      using B by (simp add: open_subtable_prefix ready_def)
    then show ?thesis by blast
  next
    case False
    then have l: "tb < len_at M lens k" by simp
    note full = ok and f = full_fits [OF ok]
    have tbM: "tb \<le> M" using Z by blast
    show ?thesis
    proof (cases "k = 0 \<or> len_at M lens (k - 1) \<le> tb")
      case True
      then have m: "main_mode tb b" using B by simp
      have "len_at M lens j \<le> tb" if "j < k" for j
      proof -
        have "j \<le> k - 1" "k - 1 < ncodes M lens" using that k by simp_all
        then show ?thesis using len_at_mono True that by fastforce
      qed
      then have a: "2 ^ (M - tb) dvd start_at M lens k" using k tbM by (intro start_dvd) (simp_all add: len_at_def)
      have "(2 :: nat) ^ tb < 2 ^ 32" using Z by (intro power_strict_increasing) simp_all
      then have "take_bit tb (rv M (start_at M lens k)) < 2 ^ 32 - 1"
        using take_bit_nat_less_exp [of tb "rv M (start_at M lens k)"] by linarith
      moreover have "int x \<noteq> 2 ^ 32 - 1" if "x < 2 ^ 32 - 1" for x :: nat using that by (simp add: int_eq_iff)
      ultimately have "cur_codeword_prefix b \<noteq> int (take_bit tb (rv M (start_at M lens k)))" using m unfolding main_mode_def by metis
      moreover have "table_used M tb lens q (len_at M lens (q - 1) - tb)
          (cur_table_start b + 2 ^ cur_table_bits b + 2 ^ (len_at M lens (q - 1) - tb))" if "cell_from M lens tb k q" for q
        using used_first [of M lens tb q] that first_long_eq [OF k l True] l m Z by (simp add: main_mode_def)
      ultimately show ?thesis using B l m a by (intro begin_cell [OF full room]) simp_all
    next
      case False
      then obtain j q where o: "open_cell M tb lens b j q" and jk: "j < k" "k \<le> q" using B by auto
      note O = o [unfolded open_cell_def]
      show ?thesis
      proof (cases "k < q")
        case True
        then have "take_bit tb (rv M (start_at M lens k)) = take_bit tb (rv M (start_at M lens j))"
          using in_cell [OF f, of tb j q k] O jk k tbM by simp
        then have "open_subtable tb b = Inr b" using B O by (simp add: open_subtable_prefix Let_def)
        moreover have "\<exists>j q. open_cell M tb lens b j q \<and> j \<le> k \<and> k < q" using o jk(1) True less_imp_le by blast
        then have "ready M tb lens res z k b" using B l by (simp add: ready_def)
        ultimately show ?thesis by blast
      next
        case False
        then have q: "q = k" using jk by simp
        have st: "start_at M lens k = start_at M lens j + 2 ^ (M - tb)" using O q by (simp add: cell_from_def)
        then have a: "2 ^ (M - tb) dvd start_at M lens k" using O by (simp add: dvd_add)
        have "take_bit tb (rv M (start_at M lens k)) \<noteq> take_bit tb (rv M (start_at M lens j))"
          using in_cell [OF f, of tb j q k] O jk k tbM q by simp
        then have "cur_codeword_prefix b \<noteq> int (take_bit tb (rv M (start_at M lens k)))" using O by simp
        moreover have "table_used M tb lens q' (len_at M lens (q' - 1) - tb)
            (cur_table_start b + 2 ^ cur_table_bits b + 2 ^ (len_at M lens (q' - 1) - tb))" if "cell_from M lens tb k q'" for q'
        proof (rule used_next [OF _ that l])
          show "table_used M tb lens k (cur_table_bits b) (cur_table_start b + 2 ^ cur_table_bits b)" using O unfolding q by blast
          show "cur_table_bits b \<le> len_at M lens k - tb"
            using O q len_at_mono [of "k - 1" k M lens] k by (simp add: diff_le_mono)
        qed
        ultimately show ?thesis using B O l a by (intro begin_cell [OF full room]) simp_all
      qed
    qed
  qed
qed

section \<open>Adding a codeword\<close>

lemma filled_main:
  assumes f: "filled l c (2 ^ tb) e t t'" and c: "c < 2 ^ l" "l \<le> tb" "2 ^ tb \<le> length t"
  shows "t' ! take_bit tb R = (if take_bit l R = c then e else t ! take_bit tb R)"
  using filled_range(1) [of l 0 c tb e t t' "take_bit tb R"] assms by (simp add: take_bit_nat_less_exp min.absorb1)

lemma ready_main:
  assumes ok: "code_full M lens" and room: "room_for M tb lens res z" and r: "ready M tb lens res z k b" and l: "len_at M lens k \<le> tb"
  shows "\<exists>t. add_codeword res (code_order M lens ! k) b =
      Inr (b\<lparr>decode_table := t, codeword_reversed := next_codeword (codeword_reversed b) (codeword_len b)\<rparr>) \<and>
    length t = z \<and> held M tb lens res (Suc k) (b\<lparr>decode_table := t\<rparr>)"
proof -
  note B = r [unfolded ready_def] and Z = room [unfolded room_for_def] and f = full_fits [OF ok]
  let ?c = "rv M (start_at M lens k)" and ?u = "code_order M lens" and ?L = "len_at M lens k"
  have k: "k < ncodes M lens" and m: "num_dropped_bits b = 0" "cur_table_start b = 0" "cur_table_bits b = tb"
    using B l by (simp_all add: main_mode_def)
  have tz: "2 ^ tb \<le> z" using Z by (auto simp: table_need_def split: if_splits)
  have c: "?c < 2 ^ ?L" using rv_aligned [OF start_aligned [OF k] start_below [OF f k]] len_at_bounds [OF k] by blast
  also have "(2 :: nat) ^ ?L \<le> 2 ^ tb" using l by (simp add: power_increasing)
  finally have "?c < 2 ^ tb" .
  then obtain t where t: "fill_table ?L ?c (2 ^ tb) (entry_of (res ! (?u ! k)) ?L) (decode_table b) = Inr t"
    "filled ?L ?c (2 ^ tb) (entry_of (res ! (?u ! k)) ?L) (decode_table b) t"
    using fill_table_run [of ?c "2 ^ tb" "decode_table b"] tz B by auto
  have "?u ! k < length res" using order_nth(1) [OF k] Z by linarith
  then have a: "add_codeword res (?u ! k) b =
      Inr (b\<lparr>decode_table := t, codeword_reversed := next_codeword (codeword_reversed b) (codeword_len b)\<rparr>)"
    using t(1) B m by (simp add: add_codeword_def)
  have at: "t ! take_bit tb R = (if take_bit ?L R = ?c then entry_of (res ! (?u ! k)) ?L else decode_table b ! take_bit tb R)" for R
    using filled_main [OF t(2) c l] tz B by simp
  have "held M tb lens res (Suc k) (b\<lparr>decode_table := t\<rparr>)"
    unfolding held_def
  proof (intro allI impI)
    fix j R assume j: "j < Suc k" and R: "R < 2 ^ M" "take_bit (len_at M lens j) R = rv M (start_at M lens j)"
    show "says tb (b\<lparr>decode_table := t\<rparr>) R (res ! (?u ! j)) (len_at M lens j)"
    proof (cases "j = k")
      case True
      then show ?thesis using R m at by (simp add: says_def direct_def)
    next
      case False
      then have "j < k" using j by simp
      then have "says tb b R (res ! (?u ! j)) (len_at M lens j)" using B R unfolding held_def by blast
      then show ?thesis using m at one_codeword [OF f k \<open>j < k\<close> R] by (simp add: says_def direct_def)
    qed
  qed
  moreover have "length t = z" using t(2) B by (simp add: filled_def)
  ultimately show ?thesis using a by blast
qed

text \<open>The first \<open>l\<close> bits are those of the cell and those of the subtable.\<close>

lemma two_parts:
  fixes R c :: nat
  assumes "tb \<le> l"
  shows "take_bit l R = c \<longleftrightarrow> c < 2 ^ l \<and> take_bit tb R = take_bit tb c \<and> take_bit (l - tb) (drop_bit tb R) = drop_bit tb c"
proof
  assume "take_bit l R = c"
  then show "c < 2 ^ l \<and> take_bit tb R = take_bit tb c \<and> take_bit (l - tb) (drop_bit tb R) = drop_bit tb c"
    using assms by (auto simp: take_bit_nat_less_exp drop_bit_take_bit min.absorb2)
next
  assume a: "c < 2 ^ l \<and> take_bit tb R = take_bit tb c \<and> take_bit (l - tb) (drop_bit tb R) = drop_bit tb c"
  show "take_bit l R = c"
  proof (rule bit_eqI)
    fix i
    have "bit c i \<Longrightarrow> i < l" using a less_bits by blast
    moreover have "bit R i = bit c i" if "i < tb" using a that by (metis bit_take_bit_iff)
    moreover have "bit R i = bit c i" if "tb \<le> i" "i < l"
    proof -
      have "bit (take_bit (l - tb) (drop_bit tb R)) (i - tb) = bit (drop_bit tb c) (i - tb)" using a by simp
      then show ?thesis using that diff_less_mono [of i l tb] by (simp add: bit_take_bit_iff bit_drop_bit_eq)
    qed
    ultimately show "bit (take_bit l R) i = bit c i" using assms by (cases "i < tb") (auto simp: bit_take_bit_iff)
  qed
qed

lemma open_cell_kept:
  assumes "open_cell M tb lens b j q"
    and "t ! take_bit tb (rv M (start_at M lens j)) = decode_table b ! take_bit tb (rv M (start_at M lens j))"
  shows "open_cell M tb lens (b\<lparr>decode_table := t\<rparr>) j q"
  using assms by (auto simp: open_cell_def)

lemma ready_sub:
  assumes ok: "code_full M lens" and room: "room_for M tb lens res z" and r: "ready M tb lens res z k b" and l: "tb < len_at M lens k"
  shows "\<exists>t. add_codeword res (code_order M lens ! k) b =
      Inr (b\<lparr>decode_table := t, codeword_reversed := next_codeword (codeword_reversed b) (codeword_len b)\<rparr>) \<and>
    length t = z \<and> held M tb lens res (Suc k) (b\<lparr>decode_table := t\<rparr>) \<and>
    (\<exists>j q. open_cell M tb lens (b\<lparr>decode_table := t\<rparr>) j q \<and> j \<le> k \<and> k < q)"
proof -
  note B = r [unfolded ready_def] and Z = room [unfolded room_for_def] and f = full_fits [OF ok]
  have k: "k < ncodes M lens" using B by blast
  obtain j q where o: "open_cell M tb lens b j q" and jk: "j \<le> k" "k < q" using B l by auto
  note O = o [unfolded open_cell_def]
  let ?c = "rv M (start_at M lens k)" and ?u = "code_order M lens" and ?L = "len_at M lens k"
  let ?p = "take_bit tb (rv M (start_at M lens k))" and ?ts = "cur_table_start b" and ?n = "cur_table_bits b" and ?t = "decode_table b"
  let ?e = "entry_of (res ! (code_order M lens ! k)) (?L - tb)" and ?d = "drop_bit tb (rv M (start_at M lens k))"
  have p: "take_bit tb (rv M (start_at M lens j)) = ?p" using in_cell [OF f, of tb j q k] O jk k Z by simp
  have m: "num_dropped_bits b = tb" "cur_codeword_prefix b = int ?p" "2 ^ tb \<le> ?ts" "?t ! ?p = pointer_to ?ts ?n"
    using O unfolding p by blast+
  have z: "?ts + 2 ^ ?n \<le> z" "length ?t = z" using used_need [of M tb lens q ?n "?ts + 2 ^ ?n"] O Z B by linarith+
  have q1: "k \<le> q - 1" "q - 1 < ncodes M lens" using O jk by (auto simp: cell_from_def)
  then have Ln: "?L - tb \<le> ?n" using O len_at_mono diff_le_mono by metis
  have n15: "tb + ?n \<le> 15"
    using O Z len_at_bounds [of "q - 1" M lens] q1 len_at_mono [of k "q - 1" M lens] l by simp
  have c: "?c < 2 ^ ?L" using rv_aligned [OF start_aligned [OF k] start_below [OF f k]] len_at_bounds [OF k] by blast
  have d: "?d < 2 ^ (?L - tb)" using c l by (simp add: drop_bit_eq_div less_mult_imp_div_less power_add [symmetric])
  also have "(2 :: nat) ^ (?L - tb) \<le> 2 ^ ?n" using Ln by (simp add: power_increasing)
  finally have "?ts + ?d < ?ts + 2 ^ ?n" by simp
  then obtain t where t: "fill_table (?L - tb) (?ts + ?d) (?ts + 2 ^ ?n) ?e ?t = Inr t" "filled (?L - tb) (?ts + ?d) (?ts + 2 ^ ?n) ?e ?t t"
    using fill_table_run [of "?ts + ?d" "?ts + 2 ^ ?n" ?t] z by auto
  note fr = filled_range [OF t(2) d Ln]
  have "?u ! k < length res" using order_nth(1) [OF k] Z by linarith
  then have a: "add_codeword res (?u ! k) b =
      Inr (b\<lparr>decode_table := t, codeword_reversed := next_codeword (codeword_reversed b) (codeword_len b)\<rparr>)"
    using t(1) B m by (simp add: add_codeword_def)
  have low: "t ! i = ?t ! i" if "i < ?ts" for i using fr(2) that z by simp
  have main: "take_bit tb x < ?ts" for x :: nat using take_bit_nat_less_exp [of tb x] m(3) by linarith
  have sub: "t ! (?ts + take_bit ?n (drop_bit tb R)) =
      (if take_bit (?L - tb) (drop_bit tb R) = ?d then ?e else ?t ! (?ts + take_bit ?n (drop_bit tb R)))" for R
    using fr(1) [of "take_bit ?n (drop_bit tb R)"] z Ln by (simp add: take_bit_nat_less_exp min.absorb1)
  have ptr: "t ! ?p = pointer_to ?ts ?n" using low [OF main] m(4) by simp
  have "held M tb lens res (Suc k) (b\<lparr>decode_table := t\<rparr>)"
    unfolding held_def
  proof (intro allI impI)
    fix i R assume i: "i < Suc k" and R: "R < 2 ^ M" "take_bit (len_at M lens i) R = rv M (start_at M lens i)"
    show "says tb (b\<lparr>decode_table := t\<rparr>) R (res ! (?u ! i)) (len_at M lens i)"
    proof (cases "i = k")
      case True
      then have "take_bit tb R = ?p" "take_bit (?L - tb) (drop_bit tb R) = ?d"
        using R(2) two_parts [of tb ?L R ?c] l by simp_all
      then show ?thesis using True m l ptr sub [of R] Z n15 by (simp add: says_def via_def)
    next
      case False
      then have i': "i < k" using i by simp
      then have s: "says tb b R (res ! (?u ! i)) (len_at M lens i)" using B R unfolding held_def by blast
      have direct: "direct tb t R x y \<longleftrightarrow> direct tb ?t R x y" for x y using low [OF main] by (simp add: direct_def)
      have other: "via tb t ts n R x y \<longleftrightarrow> via tb ?t ts n R x y" if "ts + 2 ^ n \<le> ?ts" for ts n x y
      proof -
        have "ts + take_bit n (drop_bit tb R) < ?ts" using that take_bit_nat_less_exp [of n "drop_bit tb R"] by linarith
        then show ?thesis using low low [OF main] by (simp add: via_def)
      qed
      show ?thesis
      proof (cases "take_bit tb R = ?p")
        case True
        have "take_bit (?L - tb) (drop_bit tb R) \<noteq> ?d"
          using one_codeword [OF f k i' R] two_parts [of tb ?L R ?c] True c l by simp
        then show ?thesis using s True m Z ptr sub [of R] by (simp add: says_def via_def)
      next
        case False
        then show ?thesis using s m Z direct other by (auto simp: says_def)
      qed
    qed
  qed
  moreover have "length t = z" using fr(3) z by simp
  moreover have "open_cell M tb lens (b\<lparr>decode_table := t\<rparr>) j q" using o ptr m(4) by (intro open_cell_kept) (simp_all add: p)
  ultimately show ?thesis using a jk by blast
qed

end
