(* ===== verification/HuffmanProps.thy ===== *)
theory HuffmanProps
  imports HuffmanBuild
begin

text \<open>
  \<open>build_decode_table\<close> as a whole: it never leaves its arrays, it accepts the codes that are complete, empty or a
  single codeword of length one, and the table it builds decodes every codeword of the canonical code.
\<close>

section \<open>The loop\<close>

lemma next_len_run:
  "l \<le> l' \<Longrightarrow> l' < length cs \<Longrightarrow> \<forall>i. l \<le> i \<and> i < l' \<longrightarrow> cs ! i = 0 \<Longrightarrow> cs ! l' \<noteq> 0 \<Longrightarrow> next_len cs l = Inr l'"
proof (induction "l' - l" arbitrary: l)
  case 0
  then show ?case by (subst next_len.simps) simp
next
  case (Suc d)
  then have l: "l < l'" by simp
  moreover have "next_len cs (Suc l) = Inr l'" using Suc.hyps Suc.prems l by (intro Suc.hyps(1)) auto
  ultimately show ?case using Suc.prems by (subst next_len.simps) simp
qed

text \<open>What the table says is what the decoder finds.\<close>

lemma says_lookup:
  assumes s: "says tb b R r l" and z: "length (decode_table b) \<le> 2 ^ 16" "2 ^ tb \<le> length (decode_table b)"
    and m: "num_dropped_bits b = 0 \<or> cur_table_start b + 2 ^ cur_table_bits b \<le> length (decode_table b)"
    and r: "r < 2 ^ 23" "l < 256"
  shows "lookup_bits (decode_table b) tb R = Inr (r, l)"
proof -
  have via: "lookup_bits (decode_table b) tb R = Inr (r, l)"
    if "via tb (decode_table b) ts n R r l" "ts + 2 ^ n \<le> length (decode_table b)" for ts n
  proof -
    have n: "(2 :: nat) ^ n \<le> 2 ^ 16" "ts + 1 \<le> ts + 2 ^ n" using that(2) z(1) by (linarith, simp)
    have "n \<le> 16" by (rule power_le_imp_le_exp [OF _ n(1)]) simp
    moreover have "ts < 2 ^ 16" using that(2) z(1) n(2) by linarith
    ultimately show ?thesis using lookup_via [OF that(1) z(2) that(2) _ _ r] by simp
  qed
  note d = lookup_direct [OF _ z(2) r]
  show ?thesis
  proof (cases "num_dropped_bits b = 0")
    case True
    then show ?thesis using s d by (simp add: says_def)
  next
    case False
    then have top: "cur_table_start b + 2 ^ cur_table_bits b \<le> length (decode_table b)" using m by simp
    moreover have "ts + 2 ^ n \<le> length (decode_table b)" if "ts + 2 ^ n \<le> cur_table_start b" for ts n
      using that top by linarith
    ultimately show ?thesis using s d via False by (auto simp: says_def split: if_splits)
  qed
qed

definition decodes :: "nat \<Rightarrow> nat \<Rightarrow> nat list \<Rightarrow> 32 word list \<Rightarrow> 32 word list \<Rightarrow> bool" where
  "decodes M tb lens res t \<longleftrightarrow> (\<forall>j < ncodes M lens. \<forall>R < 2 ^ M. take_bit (len_at M lens j) R = rv M (start_at M lens j) \<longrightarrow>
     lookup_bits t tb R = Inr (res ! (code_order M lens ! j), len_at M lens j))"

lemma held_decodes:
  assumes ok: "code_full M lens" and room: "room_for M tb lens res z" and h: "held M tb lens res (ncodes M lens) b"
    and z: "length (decode_table b) = z" and m: "num_dropped_bits b = 0 \<or> cur_table_start b + 2 ^ cur_table_bits b \<le> z"
  shows "decodes M tb lens res (decode_table b)"
  unfolding decodes_def
proof (intro allI impI)
  fix j R assume j: "j < ncodes M lens" and R: "R < 2 ^ M" "take_bit (len_at M lens j) R = rv M (start_at M lens j)"
  note Z = room [unfolded room_for_def]
  have "code_order M lens ! j < length res" using order_nth(1) [OF j] Z by linarith
  then have "res ! (code_order M lens ! j) < 2 ^ 23" using Z by simp
  moreover have "len_at M lens j < 256" using len_at_bounds [OF j] Z by linarith
  moreover have "2 ^ tb \<le> z" using Z by (auto simp: table_need_def split: if_splits)
  ultimately show "lookup_bits (decode_table b) tb R = Inr (res ! (code_order M lens ! j), len_at M lens j)"
    using h j R Z z m unfolding held_def by (intro says_lookup) auto
qed

lemma mode_top:
  assumes room: "room_for M tb lens res z" and o: "open_cell M tb lens b j q"
  shows "cur_table_start b + 2 ^ cur_table_bits b \<le> z"
proof -
  have u: "table_used M tb lens q (cur_table_bits b) (cur_table_start b + 2 ^ cur_table_bits b)" using o unfolding open_cell_def by blast
  show ?thesis using used_need [OF u] room unfolding room_for_def by linarith
qed

lemma add_ok:
  assumes ok: "code_full M lens" and room: "room_for M tb lens res z" and r: "ready M tb lens res z k b"
  shows "\<exists>t. add_codeword res (code_order M lens ! k) b =
      Inr (b\<lparr>decode_table := t, codeword_reversed := next_codeword (codeword_reversed b) (codeword_len b)\<rparr>) \<and>
    length t = z \<and> held M tb lens res (Suc k) (b\<lparr>decode_table := t\<rparr>) \<and>
    (if len_at M lens k \<le> tb then main_mode tb (b\<lparr>decode_table := t\<rparr>)
     else \<exists>j q. open_cell M tb lens (b\<lparr>decode_table := t\<rparr>) j q \<and> j \<le> k \<and> k < q)"
proof (cases "len_at M lens k \<le> tb")
  case True
  then have "main_mode tb b" using r by (simp add: ready_def)
  then have "main_mode tb (b\<lparr>decode_table := t\<rparr>)" for t by (simp add: main_mode_def)
  then show ?thesis using ready_main [OF ok room r True] True by auto
next
  case False
  then show ?thesis using ready_sub [OF ok room r] by auto
qed

text \<open>The state of the loop before the next codeword.\<close>

lemma advance:
  assumes ok: "code_full M lens" and r: "ready M tb lens res z k b" and k: "Suc k < ncodes M lens"
    and t: "length t = z" "held M tb lens res (Suc k) (b\<lparr>decode_table := t\<rparr>)"
      "if len_at M lens k \<le> tb then main_mode tb (b\<lparr>decode_table := t\<rparr>)
       else \<exists>j q. open_cell M tb lens (b\<lparr>decode_table := t\<rparr>) j q \<and> j \<le> k \<and> k < q"
  defines "cs \<equiv> (len_counts b)[codeword_len b := len_counts b ! codeword_len b - 1]"
  shows "next_len cs (codeword_len b) = Inr (len_at M lens (Suc k))"
    "before M tb lens res z (Suc k) (b\<lparr>decode_table := t,
       codeword_reversed := next_codeword (codeword_reversed b) (codeword_len b), len_counts := cs, codeword_len := len_at M lens (Suc k)\<rparr>)"
proof -
  note B = r [unfolded ready_def] and f = full_fits [OF ok]
  have k': "k < ncodes M lens" using k by simp
  note bk = len_at_bounds [OF k'] and bk' = len_at_bounds [OF k]
  have c: "length (len_counts b) = M + 1" "\<forall>l. 1 \<le> l \<and> l \<le> M \<longrightarrow> len_counts b ! l = left_of M lens k l"
    using B by (auto simp: counts_ok_def)
  have cs: "length cs = M + 1" "\<forall>l. 1 \<le> l \<and> l \<le> M \<longrightarrow> cs ! l = left_of M lens (Suc k) l"
    using c B bk left_step [OF k'] by (auto simp: cs_def nth_list_update)
  have mono: "len_at M lens k \<le> len_at M lens (Suc k)" using len_at_mono [of k "Suc k" M lens] k by simp
  have "cs ! l = 0" if "len_at M lens k \<le> l" "l < len_at M lens (Suc k)" for l
    using cs(2) that bk bk' left_none [OF k] by simp
  moreover have "cs ! len_at M lens (Suc k) \<noteq> 0" using cs(2) bk' left_step [OF k] by simp
  ultimately show "next_len cs (codeword_len b) = Inr (len_at M lens (Suc k))"
    using mono bk' cs(1) B by (intro next_len_run) auto
  have "start_at M lens k + 2 ^ (M - len_at M lens k) < 2 ^ M" using start_below [OF f k] start_next [OF k'] by simp
  then have rev: "next_codeword (rv M (start_at M lens k)) (len_at M lens k) = rv M (start_at M lens (Suc k))"
    using next_codeword_rv [OF start_aligned [OF k']] bk start_next [OF k'] by simp
  have o: "open_cell M tb lens (b\<lparr>decode_table := t, codeword_reversed := x, len_counts := cs, codeword_len := y\<rparr>) j q \<longleftrightarrow>
      open_cell M tb lens (b\<lparr>decode_table := t\<rparr>) j q" for j q x y by (simp add: open_cell_def)
  have m: "main_mode tb (b\<lparr>decode_table := t, codeword_reversed := x, len_counts := cs, codeword_len := y\<rparr>) \<longleftrightarrow>
      main_mode tb (b\<lparr>decode_table := t\<rparr>)" for x y by (simp add: main_mode_def)
  have says: "says tb (b\<lparr>decode_table := t, codeword_reversed := x, len_counts := cs, codeword_len := y\<rparr>) R r' l \<longleftrightarrow>
      says tb (b\<lparr>decode_table := t\<rparr>) R r' l" for x y R r' l by (simp add: says_def)
  have h: "held M tb lens res (Suc k) (b\<lparr>decode_table := t, codeword_reversed := x, len_counts := cs, codeword_len := y\<rparr>)" for x y
    using t(2) unfolding held_def says by blast
  show "before M tb lens res z (Suc k) (b\<lparr>decode_table := t,
       codeword_reversed := next_codeword (codeword_reversed b) (codeword_len b), len_counts := cs, codeword_len := len_at M lens (Suc k)\<rparr>)"
    unfolding before_def o m using B k cs t(1,3) rev h
    by (auto simp: counts_ok_def less_Suc_eq_le Suc_le_eq split: if_splits)
qed

lemma build_loop_ok:
  assumes ok: "code_full M lens" and room: "room_for M tb lens res z"
  shows "before M tb lens res z k b \<Longrightarrow> \<exists>t. build_loop tb res (drop k (code_order M lens)) b = Inr t \<and> length t = z \<and> decodes M tb lens res t"
proof (induction "ncodes M lens - k" arbitrary: k b rule: less_induct)
  case less
  let ?u = "code_order M lens"
  have k: "k < ncodes M lens" using less.prems by (simp add: before_def)
  then have d: "drop k ?u = ?u ! k # drop (Suc k) ?u" by (simp add: Cons_nth_drop_Suc)
  obtain b1 where b1: "open_subtable tb b = Inr b1" "ready M tb lens res z k b1" using open_subtable_ok [OF ok room less.prems] by blast
  obtain t where a: "add_codeword res (?u ! k) b1 =
      Inr (b1\<lparr>decode_table := t, codeword_reversed := next_codeword (codeword_reversed b1) (codeword_len b1)\<rparr>)"
    and t: "length t = z" "held M tb lens res (Suc k) (b1\<lparr>decode_table := t\<rparr>)"
      "if len_at M lens k \<le> tb then main_mode tb (b1\<lparr>decode_table := t\<rparr>)
       else \<exists>j q. open_cell M tb lens (b1\<lparr>decode_table := t\<rparr>) j q \<and> j \<le> k \<and> k < q"
    using add_ok [OF ok room b1(2)] by blast
  show ?case
  proof (cases "Suc k < ncodes M lens")
    case False
    then have e: "drop (Suc k) ?u = []" "Suc k = ncodes M lens" using k by simp_all
    have "cur_table_start b1 + 2 ^ cur_table_bits b1 \<le> z" if "open_cell M tb lens (b1\<lparr>decode_table := t\<rparr>) j q" for j q
      using mode_top [OF room that] by simp
    then have "num_dropped_bits (b1\<lparr>decode_table := t\<rparr>) = 0 \<or>
        cur_table_start (b1\<lparr>decode_table := t\<rparr>) + 2 ^ cur_table_bits (b1\<lparr>decode_table := t\<rparr>) \<le> z"
      using t(3) by (auto simp: main_mode_def split: if_splits)
    then have "decodes M tb lens res t" using held_decodes [OF ok room] t(1,2) e(2) by fastforce
    then show ?thesis using d e b1(1) a t(1) by simp
  next
    case True
    let ?cs = "(len_counts b1)[codeword_len b1 := len_counts b1 ! codeword_len b1 - 1]"
    note adv = advance [OF ok b1(2) True t]
    have "codeword_len b1 < length (len_counts b1)" using b1(2) len_at_bounds [OF k] by (auto simp: ready_def counts_ok_def)
    then have "build_loop tb res (drop k ?u) b = build_loop tb res (drop (Suc k) ?u) (b1\<lparr>decode_table := t,
       codeword_reversed := next_codeword (codeword_reversed b1) (codeword_len b1), len_counts := ?cs, codeword_len := len_at M lens (Suc k)\<rparr>)"
      using True adv(1) b1(1) a unfolding d by simp
    then show ?thesis using less.hyps [OF _ adv(2)] True by simp
  qed
qed

section \<open>The reference\<close>

text \<open>
  Decoding by RFC 1951: the symbol whose codeword the next bits start with, and the length of the codeword. Without
  one, which only an incomplete code allows, the decoder takes the first symbol and one bit.
\<close>

definition has_codeword :: "nat list \<Rightarrow> nat \<Rightarrow> nat \<Rightarrow> bool" where
  "has_codeword lens R s \<longleftrightarrow> 1 \<le> lens ! s \<and> take_bit (lens ! s) R = rv (lens ! s) (codeword lens s)"

definition decode_sym :: "nat list \<Rightarrow> 'a list \<Rightarrow> nat \<Rightarrow> 'a \<times> nat" where
  "decode_sym lens res R =
     (case find (has_codeword lens R) [0..<length lens] of Some s \<Rightarrow> (res ! s, lens ! s) | None \<Rightarrow> (res ! 0, 1))"

definition valid_code :: "nat \<Rightarrow> nat list \<Rightarrow> bool" where
  "valid_code M lens \<longleftrightarrow> code_full M lens \<or> ncodes M lens = 0 \<or> (ncodes M lens = 1 \<and> len_at M lens 0 = 1)"

lemma order_distinct: "distinct (code_order M lens)"
proof -
  have "distinct (concat (map (syms_of lens) [a..<b]))" for a b
    by (induction b) (auto simp: syms_of_def)
  then show ?thesis unfolding code_order_def .
qed

lemma codeword_start:
  assumes f: "code_fits M lens" and k: "k < ncodes M lens"
  defines "s \<equiv> code_order M lens ! k"
  shows "rv M (start_at M lens k) = rv (lens ! s) (codeword lens s)"
proof -
  have s: "s < length lens" "1 \<le> lens ! s" "lens ! s \<le> M" using order_nth [OF k] by (simp_all add: s_def)
  obtain i where i: "i < ncodes M lens" "code_order M lens ! i = s" "start_at M lens i = codeword lens s * 2 ^ (M - lens ! s)"
    using order_position [OF s] by (auto simp: start_at_def)
  then have "i = k" using order_distinct k by (simp add: s_def nth_eq_iff_index_eq)
  then have st: "start_at M lens k = codeword lens s * 2 ^ (M - lens ! s)" using i by simp
  have "(2 :: nat) ^ M = 2 ^ (lens ! s) * 2 ^ (M - lens ! s)" using s(3) by (simp flip: power_add)
  then have "codeword lens s < 2 ^ (lens ! s)" using start_below [OF f k] unfolding st by simp
  then show ?thesis unfolding st by (rule rv_shift [OF _ s(3)])
qed

text \<open>The codewords of the reference are those of the order.\<close>

lemma has_codeword_iff:
  assumes f: "code_fits M lens" and l: "\<forall>l \<in> set lens. l \<le> M"
  shows "s < length lens \<and> has_codeword lens R s \<longleftrightarrow>
    (\<exists>j < ncodes M lens. code_order M lens ! j = s \<and> take_bit (len_at M lens j) R = rv M (start_at M lens j))"
proof
  assume s: "s < length lens \<and> has_codeword lens R s"
  then have "s \<in> set (code_order M lens)" using l unfolding order_set by (auto simp: has_codeword_def)
  then obtain j where j: "j < ncodes M lens" "code_order M lens ! j = s" by (auto simp: in_set_conv_nth)
  have "take_bit (lens ! s) R = rv (lens ! s) (codeword lens s)" using s by (simp only: has_codeword_def)
  then have "take_bit (len_at M lens j) R = rv M (start_at M lens j)"
    unfolding codeword_start [OF f j(1)] len_at_def j(2) .
  with j show "\<exists>j < ncodes M lens. code_order M lens ! j = s \<and> take_bit (len_at M lens j) R = rv M (start_at M lens j)" by blast
next
  assume "\<exists>j < ncodes M lens. code_order M lens ! j = s \<and> take_bit (len_at M lens j) R = rv M (start_at M lens j)"
  then obtain j where j: "j < ncodes M lens" "code_order M lens ! j = s" "take_bit (len_at M lens j) R = rv M (start_at M lens j)" by blast
  then show "s < length lens \<and> has_codeword lens R s"
    using order_nth [OF j(1)] codeword_start [OF f j(1)] by (simp add: has_codeword_def len_at_def)
qed

lemma find_some: "x \<in> set xs \<Longrightarrow> P x \<Longrightarrow> (\<And>y. y \<in> set xs \<Longrightarrow> P y \<Longrightarrow> y = x) \<Longrightarrow> find P xs = Some x"
proof (induction xs)
  case (Cons a xs)
  show ?case
  proof (cases "P a")
    case True
    moreover have "a = x" using Cons.prems(3) True by (meson list.set_intros(1))
    ultimately show ?thesis by simp
  next
    case False
    then have x: "x \<in> set xs" using Cons.prems(1,2) by auto
    have "find P xs = Some x"
    proof (rule Cons.IH [OF x Cons.prems(2)])
      show "y = x" if "y \<in> set xs" "P y" for y using Cons.prems(3) that by (meson list.set_intros(2))
    qed
    then show ?thesis using False by simp
  qed
qed simp

lemma find_codeword:
  assumes f: "code_fits M lens" and l: "\<forall>l \<in> set lens. l \<le> M" and R: "R < 2 ^ M"
    and j: "j < ncodes M lens" "take_bit (len_at M lens j) R = rv M (start_at M lens j)"
  shows "decode_sym lens res R = (res ! (code_order M lens ! j), len_at M lens j)"
proof -
  have s: "code_order M lens ! j < length lens \<and> has_codeword lens R (code_order M lens ! j)"
    using has_codeword_iff [OF f l] j by blast
  have "find (has_codeword lens R) [0..<length lens] = Some (code_order M lens ! j)"
  proof (rule find_some)
    fix y assume "y \<in> set [0..<length lens]" "has_codeword lens R y"
    then obtain i where i: "i < ncodes M lens" "code_order M lens ! i = y" "take_bit (len_at M lens i) R = rv M (start_at M lens i)"
      using has_codeword_iff [OF f l, of y R] by auto
    have "i = j"
      using one_codeword [OF f _ _ R, of i j] one_codeword [OF f _ _ R, of j i] i j by (metis linorder_neqE_nat)
    then show "y = code_order M lens ! j" using i by simp
  qed (use s in simp_all)
  then show ?thesis by (simp add: decode_sym_def len_at_def)
qed

lemma full_owner:
  assumes full: "code_full M lens" and R: "R < 2 ^ M"
  shows "\<exists>j < ncodes M lens. take_bit (len_at M lens j) R = rv M (start_at M lens j)"
proof -
  let ?x = "rv M R"
  have x: "?x < 2 ^ M" "rv M ?x = R" using R by (simp_all add: rv_less)
  have "\<exists>j < ncodes M lens. start_at M lens j \<le> ?x \<and> ?x < start_at M lens (Suc j)"
  proof -
    let ?q = "LEAST q. ?x < start_at M lens q"
    have top: "?x < start_at M lens (ncodes M lens)" using full x(1) by (simp add: code_full_def)
    have q: "?x < start_at M lens ?q" using top by (rule LeastI [of "\<lambda>q. ?x < start_at M lens q"])
    have le: "?q \<le> ncodes M lens" using top by (rule Least_le [of "\<lambda>q. ?x < start_at M lens q"])
    have "start_at M lens 0 = 0" by (simp add: start_at_def)
    then have "?q \<noteq> 0" using q by (metis not_less_zero)
    then obtain j where j: "?q = Suc j" by (metis not0_implies_Suc)
    then have "start_at M lens j \<le> ?x" using not_less_Least [of j "\<lambda>q. ?x < start_at M lens q"] by simp
    then show ?thesis using q le j by (intro exI [of _ j]) simp
  qed
  then show ?thesis using owner [OF full_fits [OF full] _ x(1)] x(2) by metis
qed

lemma decodes_sym:
  assumes full: "code_full M lens" and l: "\<forall>l \<in> set lens. l \<le> M" and d: "decodes M tb lens res t" and R: "R < 2 ^ M"
  shows "lookup_bits t tb R = Inr (decode_sym lens res R)"
proof -
  obtain j where j: "j < ncodes M lens" "take_bit (len_at M lens j) R = rv M (start_at M lens j)" using full_owner [OF full R] by blast
  then have "lookup_bits t tb R = Inr (res ! (code_order M lens ! j), len_at M lens j)" using d R unfolding decodes_def by blast
  then show ?thesis using find_codeword [OF full_fits [OF full] l R j, of res] by simp
qed

section \<open>The function\<close>

text \<open>A single codeword of length one is the bit 0; the other entries keep the default.\<close>

lemma single_code:
  assumes n: "ncodes M lens = 1" "len_at M lens 0 = 1" and tb: "1 \<le> tb" and z: "2 ^ tb \<le> length t" and M: "1 \<le> M"
    and b: "decode_table b = t" "codeword_len b = 1" "codeword_reversed b = 0" "cur_table_start b = 0" "cur_table_bits b = tb"
      "num_dropped_bits b = 0"
    and e: "\<forall>i < 2 ^ tb. t ! i = entry_of (res ! 0) 1" and r: "\<forall>r \<in> set res. r < 2 ^ 23" "length lens \<le> length res"
    and l: "\<forall>l \<in> set lens. l \<le> M"
  shows "\<exists>t'. build_loop tb res (code_order M lens) b = Inr t' \<and> length t' = length t \<and>
    (\<forall>R < 2 ^ M. lookup_bits t' tb R = Inr (decode_sym lens res R))"
proof -
  obtain s where u: "code_order M lens = [s]" using n(1) by (metis length_0_conv length_Suc_conv One_nat_def)
  then have s: "s < length lens" "lens ! s = 1" using order_nth(1) [of 0 M lens] n by (simp_all add: len_at_def)
  have f: "code_fits M lens" using start_next [of 0 M lens] n by (simp add: code_fits_def start_at_def power_increasing)
  have "rv M 0 = 0" by (rule bit_eqI) (simp add: bit_rv)
  then have st: "start_at M lens 0 = 0" "rv M (start_at M lens 0) = 0" by (simp_all add: start_at_def)
  have o: "open_subtable tb b = Inr b" using b tb by (simp add: open_subtable_prefix)
  obtain t' where t': "fill_table 1 0 (2 ^ tb) (entry_of (res ! s) 1) t = Inr t'" "filled 1 0 (2 ^ tb) (entry_of (res ! s) 1) t t'"
    using fill_table_run [of 0 "2 ^ tb" t] z by auto
  have sr: "s < length res" "0 < length res" using s r(2) by linarith+
  have a: "add_codeword res s b = Inr (b\<lparr>decode_table := t', codeword_reversed := next_codeword 0 1\<rparr>)"
    using b t'(1) sr by (simp add: add_codeword_def)
  have at: "t' ! take_bit tb R = (if take_bit 1 R = 0 then entry_of (res ! s) 1 else entry_of (res ! 0) 1)" for R
    using filled_main [OF t'(2) _ tb z] e by (simp add: take_bit_nat_less_exp)
  have l': "length t' = length t" using t'(2) by (simp add: filled_def)
  have "lookup_bits t' tb R = Inr (decode_sym lens res R)" if R: "R < 2 ^ M" for R
  proof (cases "take_bit 1 R = 0")
    case True
    then have "decode_sym lens res R = (res ! s, 1)"
      using find_codeword [OF f l R, of 0 res] n st u by simp
    moreover have "direct tb t' R (res ! s) 1" using at True by (simp add: direct_def)
    ultimately show ?thesis using lookup_direct [of tb t' R "res ! s" 1] z l' r(1) sr by simp
  next
    case False
    then have "\<forall>s < length lens. \<not> has_codeword lens R s"
      using has_codeword_iff [OF f l, of _ R] n st by auto
    then have "find (has_codeword lens R) [0..<length lens] = None" by (auto simp: find_None_iff)
    then have "decode_sym lens res R = (res ! 0, 1)" by (simp add: decode_sym_def)
    moreover have "direct tb t' R (res ! 0) 1" using at False by (simp add: direct_def)
    ultimately show ?thesis using lookup_direct [of tb t' R "res ! 0" 1] z l' r(1) sr by simp
  qed
  then show ?thesis using o a u l' by auto
qed

lemma full_code:
  assumes full: "code_full M lens" and l: "\<forall>l \<in> set lens. l \<le> M" and room: "room_for M tb lens res (length t)"
    and cs: "counts_ok M lens 0 cs" and b: "b = \<lparr>decode_table = t, len_counts = cs, codeword_len = len_at M lens 0, codeword_reversed = 0,
      cur_codeword_prefix = 2 ^ 32 - 1, cur_table_start = 0, cur_table_bits = tb, num_dropped_bits = 0\<rparr>"
  shows "\<exists>t'. build_loop tb res (code_order M lens) b = Inr t' \<and> length t' = length t \<and>
    (\<forall>R < 2 ^ M. lookup_bits t' tb R = Inr (decode_sym lens res R))"
proof -
  have "0 < ncodes M lens" using full by (auto simp: code_full_def start_at_def)
  moreover have "rv M 0 = 0" by (rule bit_eqI) (simp add: bit_rv)
  ultimately have "before M tb lens res (length t) 0 b"
    using cs unfolding b before_def by (simp add: held_def main_mode_def start_at_def)
  from build_loop_ok [OF full room this] show ?thesis using decodes_sym [OF full l] by auto
qed

lemma space_least: "length ss \<le> space M lens ss"
  by (induction ss) (simp_all, metis add_mono one_le_numeral one_le_power plus_1_eq_Suc)

lemma single_iff:
  assumes c1: "counts_ok M lens 0 cs" and M: "1 \<le> M"
  shows "ncodes M lens = 1 \<and> len_at M lens 0 = 1 \<longleftrightarrow> start_at M lens (ncodes M lens) = 2 ^ (M - 1) \<and> cs ! 1 = 1"
proof
  assume a: "ncodes M lens = 1 \<and> len_at M lens 0 = 1"
  then have "start_at M lens (ncodes M lens) = 2 ^ (M - 1)" using start_next [of 0 M lens] by (simp add: start_at_def)
  moreover have "cs ! 1 = 1" using c1 M a left_step [of 0 M lens 1] by (simp add: counts_ok_def left_of_def)
  ultimately show "start_at M lens (ncodes M lens) = 2 ^ (M - 1) \<and> cs ! 1 = 1" by blast
next
  assume a: "start_at M lens (ncodes M lens) = 2 ^ (M - 1) \<and> cs ! 1 = 1"
  have "ncodes M lens \<noteq> 0"
  proof
    assume "ncodes M lens = 0"
    then have "start_at M lens (ncodes M lens) = 0" by (simp add: start_at_def)
    then show False using a by simp
  qed
  then have n: "0 < ncodes M lens" by simp
  have "left_of M lens 0 1 \<noteq> 0" using a c1 M by (simp add: counts_ok_def)
  then have l: "len_at M lens 0 = 1" using left_none [OF n, of 1] len_at_bounds [OF n] by linarith
  then have "start_at M lens 1 = 2 ^ (M - 1)" using start_next [OF n] by (simp add: start_at_def)
  then have "\<not> 1 < ncodes M lens" using start_less [of 1 "ncodes M lens" M lens] a by auto
  then have "ncodes M lens = 1" using n by linarith
  then show "ncodes M lens = 1 \<and> len_at M lens 0 = 1" using l by simp
qed

text \<open>The three loops before the codewords, together.\<close>

lemma sorting_ok:
  assumes l: "\<forall>l \<in> set lens. l \<le> M"
  shows "\<exists>cs os os' ss. count_lens lens (replicate (M + 1) 0) = Inr cs \<and> sum_counts M 0 cs (replicate (M + 1) 0) = Inr os \<and>
    sort_syms 0 lens os (replicate (length lens) 0) = Inr (os', ss) \<and> counts_ok M lens 0 cs \<and>
    space_left (tl cs) 1 = (let f = 2 ^ M - int (start_at M lens (ncodes M lens)) in if f < 0 then None else Some f) \<and>
    0 < length os' \<and> drop (os' ! 0) ss = code_order M lens"
proof -
  obtain cs where cs: "count_lens lens (replicate (M + 1) 0) = Inr cs" "length cs = M + 1"
    "\<forall>i \<le> M. cs ! i = replicate (M + 1) 0 ! i + count_list lens i"
    using count_lens_run [OF l, of "replicate (M + 1) 0"] by auto
  have c: "\<forall>i \<le> M. cs ! i = cnt_len lens i (length lens)" using cs(3) by (simp add: cnt_len_count del: replicate.simps)
  obtain os where os: "sum_counts M 0 cs (replicate (M + 1) 0) = Inr os" "length os = M + 1" "\<forall>j \<le> M. os ! j = below lens j"
    using sum_counts_run [OF cs(2) c, of 0 M "replicate (M + 1) 0"] by (auto simp del: replicate.simps)
  have "sorted_to M lens 0 os (replicate (length lens) 0)" using os by (simp add: sorted_to_def)
  then obtain os' ss where s: "sort_syms 0 lens os (replicate (length lens) 0) = Inr (os', ss)" "sorted_to M lens (length lens) os' ss"
    using sort_syms_run [OF l, of lens 0 os "replicate (length lens) 0"] by auto
  have "counts_ok M lens 0 cs"
    using cs(2) c order_count by (simp add: counts_ok_def left_of_def)
  moreover have "space_left (tl cs) 1 = (let f = 2 ^ M - int (start_at M lens (ncodes M lens)) in if f < 0 then None else Some f)"
    using space_left_order [OF cs(2) c] by (simp add: start_at_def)
  moreover have "0 < length os'" using s(2) by (simp add: sorted_to_def)
  ultimately show ?thesis using cs(1) os(1) s(1) sorted_result [OF s(2) l] by blast
qed

lemma first_len:
  assumes c: "counts_ok M lens 0 cs" and n: "0 < ncodes M lens"
  shows "next_len cs 1 = Inr (len_at M lens 0)"
proof (rule next_len_run)
  note b = len_at_bounds [OF n]
  show "1 \<le> len_at M lens 0" "len_at M lens 0 < length cs" using b c by (simp_all add: counts_ok_def)
  show "\<forall>i. 1 \<le> i \<and> i < len_at M lens 0 \<longrightarrow> cs ! i = 0" using c b left_none [OF n] by (simp add: counts_ok_def)
  show "cs ! len_at M lens 0 \<noteq> 0" using c b left_step [OF n] by (simp add: counts_ok_def)
qed

definition built :: "nat \<Rightarrow> nat \<Rightarrow> nat list \<Rightarrow> 32 word list \<Rightarrow> nat \<Rightarrow> 32 word list option res \<Rightarrow> bool" where
  "built M tb lens res z r \<longleftrightarrow>
     (if valid_code M lens
      then \<exists>t. r = Inr (Some t) \<and> length t = z \<and> (\<forall>R < 2 ^ M. lookup_bits t tb R = Inr (decode_sym lens res R))
      else r = Inr None)"

lemma default_lookup:
  assumes e: "\<forall>i < 2 ^ tb. t ! i = entry_of r 1" and z: "2 ^ tb \<le> length t" and r: "r < 2 ^ 23"
  shows "lookup_bits t tb R = Inr (r, 1)"
  using lookup_direct [of tb t R r 1] e z r by (simp add: direct_def take_bit_nat_less_exp)

lemma empty_decode: "ncodes M lens = 0 \<Longrightarrow> \<forall>l \<in> set lens. l \<le> M \<Longrightarrow> decode_sym lens res R = (res ! 0, 1)"
proof -
  assume n: "ncodes M lens = 0" and l: "\<forall>l \<in> set lens. l \<le> M"
  have "code_fits M lens" using n by (simp add: code_fits_def start_at_def)
  then have "\<forall>s < length lens. \<not> has_codeword lens R s" using has_codeword_iff [OF _ l, of _ R] n by auto
  then have "find (has_codeword lens R) [0..<length lens] = None" by (auto simp: find_None_iff)
  then show "decode_sym lens res R = (res ! 0, 1)" by (simp add: decode_sym_def)
qed

lemma build_decode_table_ok:
  assumes l: "\<forall>l \<in> set lens. l \<le> M" and M: "1 \<le> tb" "tb \<le> M" "M \<le> 15"
    and res: "length lens \<le> length res" "0 < length res" "\<forall>r \<in> set res. r < 2 ^ 23"
    and z: "2 ^ tb \<le> length t" "length t \<le> 2 ^ 16" "code_full M lens \<Longrightarrow> table_need M tb lens \<le> length t"
  shows "built M tb lens res (length t) (build_decode_table t lens res tb M)"
proof -
  obtain cs os os' ss where s: "count_lens lens (replicate (M + 1) 0) = Inr cs" "sum_counts M 0 cs (replicate (M + 1) 0) = Inr os"
      "sort_syms 0 lens os (replicate (length lens) 0) = Inr (os', ss)"
    and c: "counts_ok M lens 0 cs"
    and f: "space_left (tl cs) 1 = (let f = 2 ^ M - int (start_at M lens (ncodes M lens)) in if f < 0 then None else Some f)"
    and o: "0 < length os'" "drop (os' ! 0) ss = code_order M lens"
    using sorting_ok [OF l] by blast
  let ?S = "start_at M lens (ncodes M lens)"
  let ?loop = "\<lambda>t. build_loop tb res (code_order M lens) \<lparr>decode_table = t, len_counts = cs, codeword_len = len_at M lens 0,
    codeword_reversed = 0, cur_codeword_prefix = 2 ^ 32 - 1, cur_table_start = 0, cur_table_bits = tb, num_dropped_bits = 0\<rparr>"
  have c1: "aget cs 1 = Inr (cs ! 1)" using c M aget_nat [of 1 cs] by (simp add: counts_ok_def)
  have o0: "aget os' 0 = Inr (os' ! 0)" using o(1) aget_nat [of 0 os'] by simp
  have half: "(2 :: nat) ^ M = 2 * 2 ^ (M - 1)" using M by (metis One_nat_def Suc_pred less_le_trans power_Suc zero_less_one le_trans)
  have empty: "ncodes M lens = 0 \<longleftrightarrow> ?S = 0"
    using space_least [of "code_order M lens" M lens] by (auto simp: start_at_def)
  have r0: "aget res 0 = Inr (res ! 0)" "res ! 0 < 2 ^ 23" using res aget_nat [of 0 res] by simp_all
  obtain t1 where f1: "fill_table 0 0 (2 ^ tb) (make_decode_table_entry (res ! 0) 1) t = Inr t1"
      "filled 0 0 (2 ^ tb) (make_decode_table_entry (res ! 0) 1) t t1"
    using fill_table_run [of 0 "2 ^ tb" t] z(1) by auto
  then have t1: "fill_table 0 0 (2 ^ tb) (make_decode_table_entry (res ! 0) 1) t = Inr t1"
      "\<forall>i < 2 ^ tb. t1 ! i = entry_of (res ! 0) 1" "length t1 = length t"
    using z(1) by (auto simp: filled_def)
  consider (over) "2 ^ M < ?S" | (full) "?S = 2 ^ M" | (empty) "?S = 0" | (partly) "0 < ?S" "?S < 2 ^ M" by linarith
  then show ?thesis
  proof cases
    case over
    then have "\<not> valid_code M lens" using empty single_iff [OF c] M half by (auto simp: valid_code_def code_full_def)
    moreover have "space_left (tl cs) 1 = None" using f over by (simp add: Let_def)
    ultimately show ?thesis using s by (simp add: built_def build_decode_table_def)
  next
    case full
    then have fu: "code_full M lens" and n: "0 < ncodes M lens" using empty by (auto simp: code_full_def)
    have "room_for M tb lens res (length t)" using M res z fu by (simp add: room_for_def)
    from full_code [OF fu l this c refl] obtain t' where t': "?loop t = Inr t'" "length t' = length t"
      "\<forall>R < 2 ^ M. lookup_bits t' tb R = Inr (decode_sym lens res R)" by blast
    have "space_left (tl cs) 1 = Some 0" using f full by simp
    then have "build_decode_table t lens res tb M = Inr (Some t')"
      using s c1 o0 o(2) first_len [OF c n] t'(1) by (simp add: build_decode_table_def)
    then show ?thesis using t' fu by (simp add: built_def valid_code_def)
  next
    case empty
    then have n: "ncodes M lens = 0" and v: "valid_code M lens" using \<open>ncodes M lens = 0 \<longleftrightarrow> ?S = 0\<close> by (simp_all add: valid_code_def)
    have "space_left (tl cs) 1 = Some (2 ^ M)" using f empty by simp
    then have "build_decode_table t lens res tb M = Inr (Some t1)" using s t1(1) r0 by (simp add: build_decode_table_def)
    moreover have "lookup_bits t1 tb R = Inr (decode_sym lens res R)" for R
      using default_lookup [OF t1(2)] t1(3) z r0(2) empty_decode [OF n l, of res] by simp
    ultimately show ?thesis using v t1(3) by (simp add: built_def)
  next
    case partly
    let ?f = "2 ^ M - int ?S"
    have S: "int ?S < 2 ^ M" using partly(2) by (metis of_nat_less_iff of_nat_numeral of_nat_power)
    have sl: "space_left (tl cs) 1 = Some ?f" "?f \<noteq> 0" "?f \<noteq> 2 ^ M" using f S partly(1) by simp_all
    have v: "valid_code M lens \<longleftrightarrow> ncodes M lens = 1 \<and> len_at M lens 0 = 1"
      using partly empty by (auto simp: valid_code_def code_full_def)
    have "?f = 2 ^ (M - 1) \<longleftrightarrow> ?S = 2 ^ (M - 1)"
    proof -
      have h: "(2 :: int) ^ M = 2 * 2 ^ (M - 1)" using M(1,2) by (cases M) simp_all
      have "?f = 2 ^ (M - 1) \<longleftrightarrow> int ?S = 2 ^ (M - 1)" unfolding h by linarith
      also have "\<dots> \<longleftrightarrow> int ?S = int (2 ^ (M - 1))" by simp
      also have "\<dots> \<longleftrightarrow> ?S = 2 ^ (M - 1)" by (rule of_nat_eq_iff)
      finally show ?thesis .
    qed
    then have cond: "(?f \<noteq> 2 ^ (M - 1) \<or> cs ! 1 \<noteq> 1) \<longleftrightarrow> \<not> valid_code M lens"
      unfolding v using single_iff [OF c] M by simp
    show ?thesis
    proof (cases "valid_code M lens")
      case False
      then have "build_decode_table t lens res tb M = Inr None"
        using s sl t1(1) r0 c1 cond by (simp add: build_decode_table_def)
      then show ?thesis using False by (simp add: built_def)
    next
      case True
      then have n: "ncodes M lens = 1" "len_at M lens 0 = 1" unfolding v by simp_all
      have "\<exists>t'. ?loop t1 = Inr t' \<and> length t' = length t1 \<and> (\<forall>R < 2 ^ M. lookup_bits t' tb R = Inr (decode_sym lens res R))"
        using n M res z t1 l by (intro single_code) simp_all
      then obtain t' where t': "?loop t1 = Inr t'" "length t' = length t1"
        "\<forall>R < 2 ^ M. lookup_bits t' tb R = Inr (decode_sym lens res R)" by blast
      have "M - Suc 0 \<noteq> M" using M(1,2) by linarith
      then have "build_decode_table t lens res tb M = Inr (Some t')"
        using s sl t1(1) r0 c1 cond True o0 o(2) first_len [OF c] n t'(1) by (simp add: build_decode_table_def)
      then show ?thesis using t' True t1(3) by (simp add: built_def)
    qed
  qed
qed

end
