(* ===== verification/Deflate.thy ===== *)
theory Deflate
  imports HuffmanTable
begin

text \<open>
  libdeflate's DEFLATE decompressor: \<^verbatim>\<open>decompress_impl.h\<close> and the rest of \<^verbatim>\<open>deflate_decompress.c\<close>. The variables
  of the routine, the output buffer and the arrays of \<open>struct libdeflate_decompressor\<close> are one state record. The members
  of the union of the structure are separate here: \<open>precode_lens\<close> is consumed before \<open>lens\<close> (here \<open>code_lens\<close>) is written, and
  \<open>lens\<close> before the litlen table is. The machine word is the 64-bit one, so a bit buffer holds all that is asked for
  at a time; whether the machine is little endian and has fast unaligned access are parameters. \<open>Fault\<close> is an access
  outside an array or outside the output buffer.
\<close>

section \<open>State\<close>

record dsource =
  src_bytes :: "byte list"
  little_endian :: bool
  fast_unaligned :: bool

record dstate = bitstream +
  outbuf :: "byte list"
  out_next :: nat
  precode_lens :: "nat list"
  code_lens :: "nat list"
  precode_decode_table :: "32 word list"
  offset_decode_table :: "32 word list"
  litlen_decode_table :: "32 word list"

abbreviation BAD_DATA :: error where "BAD_DATA \<equiv> RetErr ''LIBDEFLATE_BAD_DATA''"
abbreviation SHORT_OUTPUT :: error where "SHORT_OUTPUT \<equiv> RetErr ''LIBDEFLATE_SHORT_OUTPUT''"
abbreviation INSUFFICIENT_SPACE :: error where "INSUFFICIENT_SPACE \<equiv> RetErr ''LIBDEFLATE_INSUFFICIENT_SPACE''"

definition SAFETY_CHECK :: "bool \<Rightarrow> (unit, dstate) act" where
  "SAFETY_CHECK b = guard b BAD_DATA"

definition ensure_bits :: "dsource \<Rightarrow> nat \<Rightarrow> (unit, dstate) act" where
  "ensure_bits c n = modify (ENSURE_BITS (little_endian c \<and> fast_unaligned c) (src_bytes c) n)"

definition POP_BITS :: "nat \<Rightarrow> (nat, dstate) act" where
  "POP_BITS n = andthen (gets (BITS n)) (\<lambda>x. andthen (modify (REMOVE_BITS n)) (\<lambda>_. ret (unat x)))"

text \<open>An access to an array of the state.\<close>

definition at_array :: "('s \<Rightarrow> 'a list) \<Rightarrow> nat \<Rightarrow> ('a, 's) act" where
  "at_array f i = andthen (gets (\<lambda>s. aget (f s) (int i))) lift_res"

definition part :: "'a list \<Rightarrow> nat \<Rightarrow> nat \<Rightarrow> 'a list res" where
  "part xs i n = (if i + n \<le> length xs then Inr (take n (drop i xs)) else Inl Fault)"

definition put_part :: "'a list \<Rightarrow> nat \<Rightarrow> 'a list \<Rightarrow> 'a list res" where
  "put_part xs i vs = (if i + length vs \<le> length xs then Inr (take i xs @ vs @ drop (i + length vs) xs) else Inl Fault)"

definition set_lens :: "nat \<Rightarrow> nat list \<Rightarrow> (unit, dstate) act" where
  "set_lens i vs = andthen (gets (\<lambda>s. put_part (code_lens s) i vs)) (\<lambda>r. andthen (lift_res r) (\<lambda>ls. modify (\<lambda>s. s\<lparr>code_lens := ls\<rparr>)))"

definition set_precode_len :: "nat \<Rightarrow> nat \<Rightarrow> (unit, dstate) act" where
  "set_precode_len i v =
     andthen (gets (\<lambda>s. aset (precode_lens s) (int i) v)) (\<lambda>r. andthen (lift_res r) (\<lambda>ls. modify (\<lambda>s. s\<lparr>precode_lens := ls\<rparr>)))"

section \<open>The decode tables\<close>

definition precode_decode_results :: "32 word list" where
  "precode_decode_results = map of_nat [0..<19]"

text \<open>The two macros \<open>ENTRY\<close> of the litlen table, and that of the offset table.\<close>

definition literal_entry :: "nat \<Rightarrow> 32 word" where
  "literal_entry literal = drop_bit HUFFDEC_RESULT_SHIFT HUFFDEC_LITERAL OR of_nat literal"

definition length_entry :: "nat \<times> nat \<Rightarrow> 32 word" where
  "length_entry = (\<lambda>(length_base, num_extra_bits). push_bit 8 (of_nat length_base) OR of_nat num_extra_bits)"

definition offset_entry :: "nat \<times> nat \<Rightarrow> 32 word" where
  "offset_entry = (\<lambda>(offset_base, num_extra_bits). of_nat offset_base OR push_bit 16 (of_nat num_extra_bits))"

definition litlen_decode_results :: "32 word list" where
  "litlen_decode_results = map literal_entry [0..<256] @ map length_entry
     [(0, 0),
      (3, 0), (4, 0), (5, 0), (6, 0), (7, 0), (8, 0), (9, 0), (10, 0),
      (11, 1), (13, 1), (15, 1), (17, 1), (19, 2), (23, 2), (27, 2), (31, 2),
      (35, 3), (43, 3), (51, 3), (59, 3), (67, 4), (83, 4), (99, 4), (115, 4),
      (131, 5), (163, 5), (195, 5), (227, 5), (258, 0), (258, 0), (258, 0)]"

definition offset_decode_results :: "32 word list" where
  "offset_decode_results = map offset_entry
     [(1, 0), (2, 0), (3, 0), (4, 0), (5, 1), (7, 1), (9, 2), (13, 2),
      (17, 3), (25, 3), (33, 4), (49, 4), (65, 5), (97, 5), (129, 6), (193, 6),
      (257, 7), (385, 7), (513, 8), (769, 8), (1025, 9), (1537, 9), (2049, 10), (3073, 10),
      (4097, 11), (6145, 11), (8193, 12), (12289, 12), (16385, 13), (24577, 13), (32769, 14), (49153, 14)]"

text \<open>When a table cannot be built the routine returns, and what is in the table does not matter.\<close>

definition build_precode_decode_table :: "(bool, dstate) act" where
  "build_precode_decode_table =
     andthen (gets (\<lambda>s. bnd (part (precode_lens s) 0 19) (\<lambda>ls. build_decode_table (precode_decode_table s) ls precode_decode_results 7 7)))
       (\<lambda>r. andthen (lift_res r) (\<lambda>t. case t of None \<Rightarrow> ret False
          | Some t \<Rightarrow> andthen (modify (\<lambda>s. s\<lparr>precode_decode_table := t\<rparr>)) (\<lambda>_. ret True)))"

definition build_litlen_decode_table :: "nat \<Rightarrow> nat \<Rightarrow> (bool, dstate) act" where
  "build_litlen_decode_table num_litlen_syms num_offset_syms =
     andthen (gets (\<lambda>s. bnd (part (code_lens s) 0 num_litlen_syms) (\<lambda>ls. build_decode_table (litlen_decode_table s) ls litlen_decode_results 10 15)))
       (\<lambda>r. andthen (lift_res r) (\<lambda>t. case t of None \<Rightarrow> ret False
          | Some t \<Rightarrow> andthen (modify (\<lambda>s. s\<lparr>litlen_decode_table := t\<rparr>)) (\<lambda>_. ret True)))"

definition build_offset_decode_table :: "nat \<Rightarrow> nat \<Rightarrow> (bool, dstate) act" where
  "build_offset_decode_table num_litlen_syms num_offset_syms =
     andthen (gets (\<lambda>s. bnd (part (code_lens s) num_litlen_syms num_offset_syms)
         (\<lambda>ls. build_decode_table (offset_decode_table s) ls offset_decode_results 8 15)))
       (\<lambda>r. andthen (lift_res r) (\<lambda>t. case t of None \<Rightarrow> ret False
          | Some t \<Rightarrow> andthen (modify (\<lambda>s. s\<lparr>offset_decode_table := t\<rparr>)) (\<lambda>_. ret True)))"

section \<open>Copying a match\<close>

definition load_word_unaligned :: "byte list \<Rightarrow> nat \<Rightarrow> 64 word res" where
  "load_word_unaligned buf p = (if p + 8 \<le> length buf then Inr (le_word (take 8 (drop p buf))) else Inl Fault)"

definition store_word_unaligned :: "64 word \<Rightarrow> nat \<Rightarrow> byte list \<Rightarrow> byte list res" where
  "store_word_unaligned v p buf = wr buf (int p) (map (\<lambda>i. ucast (drop_bit (8 * i) v)) [0..<8])"

definition copy_word_unaligned :: "nat \<Rightarrow> nat \<Rightarrow> byte list \<Rightarrow> byte list res" where
  "copy_word_unaligned src dst buf = bnd (load_word_unaligned buf src) (\<lambda>v. store_word_unaligned v dst buf)"

definition repeat_byte :: "byte \<Rightarrow> 64 word" where
  "repeat_byte b = (let v = ucast b; v = v OR push_bit 8 v; v = v OR push_bit 16 v in v OR push_bit 32 v)"

text \<open>The loops of the form \<open>do \<dots> while (dst < end)\<close>; the word that is copied before the second of them is its first round.\<close>

function copy_words :: "nat \<Rightarrow> nat \<Rightarrow> nat \<Rightarrow> byte list \<Rightarrow> byte list res" where
  "copy_words src dst end' buf =
     bnd (copy_word_unaligned src dst buf) (\<lambda>buf.
       if dst + 8 < end' then copy_words (src + 8) (dst + 8) end' buf else Inr buf)"
  by pat_completeness auto
termination by (relation "measure (\<lambda>(src, dst, end', buf). end' - dst)") auto

function fill_words :: "64 word \<Rightarrow> nat \<Rightarrow> nat \<Rightarrow> byte list \<Rightarrow> byte list res" where
  "fill_words v dst end' buf =
     bnd (store_word_unaligned v dst buf) (\<lambda>buf. if dst + 8 < end' then fill_words v (dst + 8) end' buf else Inr buf)"
  by pat_completeness auto
termination by (relation "measure (\<lambda>(v, dst, end', buf). end' - dst)") auto

definition copy_byte :: "nat \<Rightarrow> nat \<Rightarrow> byte list \<Rightarrow> byte list res" where
  "copy_byte src dst buf = bnd (aget buf (int src)) (\<lambda>b. aset buf (int dst) b)"

function copy_bytes :: "nat \<Rightarrow> nat \<Rightarrow> nat \<Rightarrow> byte list \<Rightarrow> byte list res" where
  "copy_bytes src dst end' buf =
     bnd (copy_byte src dst buf) (\<lambda>buf. if dst + 1 < end' then copy_bytes (src + 1) (dst + 1) end' buf else Inr buf)"
  by pat_completeness auto
termination by (relation "measure (\<lambda>(src, dst, end', buf). end' - dst)") auto

declare copy_words.simps [simp del] fill_words.simps [simp del] copy_bytes.simps [simp del]

definition copy_slowly :: "nat \<Rightarrow> nat \<Rightarrow> nat \<Rightarrow> byte list \<Rightarrow> byte list res" where
  "copy_slowly src dst end' buf =
     bnd (copy_byte src dst buf) (\<lambda>buf.
     bnd (copy_byte (src + 1) (dst + 1) buf) (\<lambda>buf. copy_bytes (src + 2) (dst + 2) end' buf))"

definition copy_match :: "bool \<Rightarrow> nat \<Rightarrow> nat \<Rightarrow> nat \<Rightarrow> byte list \<Rightarrow> byte list res" where
  "copy_match unaligned len offset dst buf =
     (if unaligned \<and> len \<le> 3 * 8 \<and> 8 \<le> offset \<and> len + 3 * 8 \<le> length buf - dst then
        bnd (copy_word_unaligned (dst - offset) dst buf) (\<lambda>buf.
        bnd (copy_word_unaligned (dst - offset + 8) (dst + 8) buf) (\<lambda>buf.
          copy_word_unaligned (dst - offset + 16) (dst + 16) buf))
      else
        let src = dst - offset; end' = dst + len in
        if unaligned \<and> 8 - 1 \<le> length buf - end' then
          if 8 \<le> offset then copy_words src dst end' buf
          else if offset = 1 then bnd (aget buf (int dst - 1)) (\<lambda>b. fill_words (repeat_byte b) dst end' buf)
          else copy_slowly src dst end' buf
        else copy_slowly src dst end' buf)"

section \<open>The lengths of a dynamic block\<close>

definition deflate_precode_lens_permutation :: "nat list" where
  "deflate_precode_lens_permutation = [16, 17, 18, 0, 8, 7, 9, 6, 10, 5, 11, 4, 12, 3, 13, 2, 14, 1, 15]"

fun read_precode_lens :: "nat list \<Rightarrow> (unit, dstate) act" where
  "read_precode_lens [] = ret ()"
| "read_precode_lens (i # is) =
     andthen (POP_BITS 3) (\<lambda>v. andthen (set_precode_len i v) (\<lambda>_. read_precode_lens is))"

fun clear_precode_lens :: "nat list \<Rightarrow> (unit, dstate) act" where
  "clear_precode_lens [] = ret ()"
| "clear_precode_lens (i # is) = andthen (set_precode_len i 0) (\<lambda>_. clear_precode_lens is)"

definition precode_symbol :: "dsource \<Rightarrow> (nat, dstate) act" where
  "precode_symbol c =
     andthen (ensure_bits c (7 + 7)) (\<lambda>_.
     andthen (gets (\<lambda>s. unat (BITS 7 s))) (\<lambda>i.
     andthen (at_array precode_decode_table i) (\<lambda>entry.
     andthen (modify (REMOVE_BITS (unat (entry AND HUFFDEC_LENGTH_MASK)))) (\<lambda>_.
       ret (unat (drop_bit HUFFDEC_RESULT_SHIFT entry))))))"

function expand_lens :: "dsource \<Rightarrow> nat \<Rightarrow> nat \<Rightarrow> (unit, dstate) act" where
  "expand_lens c n i =
     (if i < n then
        andthen (precode_symbol c) (\<lambda>presym.
          if presym < 16 then andthen (set_lens i [presym]) (\<lambda>_. expand_lens c n (i + 1))
          else if presym = 16 then
            andthen (SAFETY_CHECK (i \<noteq> 0)) (\<lambda>_.
            andthen (at_array code_lens (i - 1)) (\<lambda>rep_val.
            andthen (POP_BITS 2) (\<lambda>x.
            andthen (set_lens i (replicate 6 rep_val)) (\<lambda>_. expand_lens c n (i + (3 + x))))))
          else if presym = 17 then
            andthen (POP_BITS 3) (\<lambda>x. andthen (set_lens i (replicate 10 0)) (\<lambda>_. expand_lens c n (i + (3 + x))))
          else
            andthen (POP_BITS 7) (\<lambda>x. andthen (set_lens i (replicate (11 + x) 0)) (\<lambda>_. expand_lens c n (i + (11 + x)))))
      else ret ())"
  by pat_completeness auto
termination by (relation "measure (\<lambda>(c, n, i). n - i)") auto

declare expand_lens.simps [simp del]

text \<open>The numbers of litlen and offset symbols.\<close>

definition dynamic_header :: "dsource \<Rightarrow> (nat \<times> nat, dstate) act" where
  "dynamic_header c =
     andthen (POP_BITS 5) (\<lambda>x. let num_litlen_syms = x + 257 in
     andthen (POP_BITS 5) (\<lambda>x. let num_offset_syms = x + 1 in
     andthen (POP_BITS 4) (\<lambda>x. let num_explicit_precode_lens = x + 4 in
     andthen (ensure_bits c (19 * 3)) (\<lambda>_.
     andthen (read_precode_lens (take num_explicit_precode_lens deflate_precode_lens_permutation)) (\<lambda>_.
     andthen (clear_precode_lens (drop num_explicit_precode_lens deflate_precode_lens_permutation)) (\<lambda>_.
     andthen build_precode_decode_table (\<lambda>b.
     andthen (SAFETY_CHECK b) (\<lambda>_.
     andthen (expand_lens c (num_litlen_syms + num_offset_syms) 0) (\<lambda>_.
       ret (num_litlen_syms, num_offset_syms))))))))))"

definition static_header :: "(nat \<times> nat, dstate) act" where
  "static_header =
     andthen (set_lens 0 (replicate 144 8 @ replicate 112 9 @ replicate 24 7 @ replicate 8 8 @ replicate 32 5)) (\<lambda>_. ret (288, 32))"

section \<open>A block\<close>

definition uncompressed_block :: "dsource \<Rightarrow> (unit, dstate) act" where
  "uncompressed_block c =
     andthen (modify ALIGN_INPUT) (\<lambda>_.
     andthen (gets (\<lambda>s. length (src_bytes c) - in_next s)) (\<lambda>avail.
     andthen (SAFETY_CHECK (4 \<le> avail)) (\<lambda>_.
     andthen (gets (\<lambda>s. le16_at (src_bytes c) (in_next s))) (\<lambda>len.
     andthen (gets (\<lambda>s. le16_at (src_bytes c) (in_next s + 2))) (\<lambda>nlen.
     andthen (modify (\<lambda>s. s\<lparr>in_next := in_next s + 4\<rparr>)) (\<lambda>_.
     andthen (SAFETY_CHECK (len = NOT nlen)) (\<lambda>_.
     andthen (gets (\<lambda>s. length (outbuf s) - out_next s)) (\<lambda>room.
     andthen (guard (unat len \<le> room) INSUFFICIENT_SPACE) (\<lambda>_.
     andthen (gets (\<lambda>s. length (src_bytes c) - in_next s)) (\<lambda>avail.
     andthen (SAFETY_CHECK (unat len \<le> avail)) (\<lambda>_.
     andthen (gets (\<lambda>s. bnd (part (src_bytes c) (in_next s) (unat len)) (\<lambda>bs. wr (outbuf s) (int (out_next s)) bs))) (\<lambda>r.
     andthen (lift_res r) (\<lambda>buf.
       modify (\<lambda>s. s\<lparr>outbuf := buf, in_next := in_next s + unat len, out_next := out_next s + unat len\<rparr>))))))))))))))"

text \<open>An entry of a decode table for the next bits; the bits of the codeword are removed.\<close>

definition decode_entry :: "(dstate \<Rightarrow> 32 word list) \<Rightarrow> nat \<Rightarrow> (32 word, dstate) act" where
  "decode_entry table table_bits =
     andthen (gets (\<lambda>s. unat (BITS table_bits s))) (\<lambda>i.
     andthen (at_array table i) (\<lambda>entry.
     andthen
       (if entry AND HUFFDEC_SUBTABLE_POINTER \<noteq> 0 then
          andthen (modify (REMOVE_BITS table_bits)) (\<lambda>_.
          andthen (gets (\<lambda>s. unat (BITS (unat (entry AND HUFFDEC_LENGTH_MASK)) s))) (\<lambda>x.
            at_array table (unat (drop_bit HUFFDEC_RESULT_SHIFT entry AND 0xFFFF) + x)))
        else ret entry) (\<lambda>entry.
     andthen (modify (REMOVE_BITS (unat (entry AND HUFFDEC_LENGTH_MASK)))) (\<lambda>_. ret entry))))"

definition put_literal :: "byte \<Rightarrow> (unit, dstate) act" where
  "put_literal b =
     andthen (gets (\<lambda>s. out_next s = length (outbuf s))) (\<lambda>full.
     andthen (guard (\<not> full) INSUFFICIENT_SPACE) (\<lambda>_.
     andthen (gets (\<lambda>s. aset (outbuf s) (int (out_next s)) b)) (\<lambda>r.
     andthen (lift_res r) (\<lambda>buf. modify (\<lambda>s. s\<lparr>outbuf := buf, out_next := out_next s + 1\<rparr>)))))"

definition put_match :: "dsource \<Rightarrow> nat \<Rightarrow> nat \<Rightarrow> (unit, dstate) act" where
  "put_match c len offset =
     andthen (gets (\<lambda>s. offset \<le> out_next s)) (\<lambda>b.
     andthen (SAFETY_CHECK b) (\<lambda>_.
     andthen (gets (\<lambda>s. copy_match (fast_unaligned c) len offset (out_next s) (outbuf s))) (\<lambda>r.
     andthen (lift_res r) (\<lambda>buf. modify (\<lambda>s. s\<lparr>outbuf := buf, out_next := out_next s + len\<rparr>)))))"

text \<open>
  The main loop. Every round but the last writes at least one byte, so one round more than there are free bytes in the
  output buffer is enough.
\<close>

fun decode_loop :: "dsource \<Rightarrow> nat \<Rightarrow> (unit, dstate) act" where
  "decode_loop c 0 = fail OutOfFuel"
| "decode_loop c (Suc k) =
     andthen (ensure_bits c 15) (\<lambda>_.
     andthen (decode_entry litlen_decode_table 10) (\<lambda>entry.
       if entry AND HUFFDEC_LITERAL \<noteq> 0 then
         andthen (put_literal (ucast (drop_bit HUFFDEC_RESULT_SHIFT entry))) (\<lambda>_. decode_loop c k)
       else
         let entry = drop_bit HUFFDEC_RESULT_SHIFT entry in
         andthen (ensure_bits c MAX_ENSURE) (\<lambda>_.
         andthen (POP_BITS (unat (entry AND 0xFF))) (\<lambda>x.
         let len = unat (drop_bit 8 entry) + x in
         andthen (gets (\<lambda>s. length (outbuf s) - out_next s)) (\<lambda>room.
           if int room \<le> u64 (int len - 1) then
             if len \<noteq> 0 then fail INSUFFICIENT_SPACE else ret ()
           else
             andthen (decode_entry offset_decode_table 8) (\<lambda>entry.
             let entry = drop_bit HUFFDEC_RESULT_SHIFT entry in
             andthen (POP_BITS (unat (drop_bit 16 entry))) (\<lambda>x.
             let offset = unat (entry AND 0xFFFF) + x in
             andthen (put_match c len offset) (\<lambda>_. decode_loop c k))))))))"

definition huffman_block :: "dsource \<Rightarrow> (nat \<times> nat, dstate) act \<Rightarrow> (unit, dstate) act" where
  "huffman_block c header =
     andthen header (\<lambda>(num_litlen_syms, num_offset_syms).
     andthen (build_offset_decode_table num_litlen_syms num_offset_syms) (\<lambda>b.
     andthen (SAFETY_CHECK b) (\<lambda>_.
     andthen (build_litlen_decode_table num_litlen_syms num_offset_syms) (\<lambda>b.
     andthen (SAFETY_CHECK b) (\<lambda>_.
     andthen (gets (\<lambda>s. Suc (length (outbuf s) - out_next s))) (\<lambda>fuel. decode_loop c fuel))))))"

text \<open>Is it the final block?\<close>

definition block :: "dsource \<Rightarrow> (bool, dstate) act" where
  "block c =
     andthen (ensure_bits c (1 + 2 + 5 + 5 + 4)) (\<lambda>_.
     andthen (POP_BITS 1) (\<lambda>is_final_block.
     andthen (POP_BITS 2) (\<lambda>block_type.
     andthen
       (if block_type = 2 then huffman_block c (dynamic_header c)
        else if block_type = 0 then uncompressed_block c
        else andthen (SAFETY_CHECK (block_type = 1)) (\<lambda>_. huffman_block c static_header))
       (\<lambda>_. ret (is_final_block \<noteq> 0)))))"

text \<open>A block takes at least three bits, and past the end of the input there is none that is accepted.\<close>

fun blocks :: "dsource \<Rightarrow> nat \<Rightarrow> (unit, dstate) act" where
  "blocks c 0 = fail OutOfFuel"
| "blocks c (Suc k) = andthen (block c) (\<lambda>final. if final then ret () else blocks c k)"

text \<open>
  Without a place for the number of bytes, as getmatvar calls it, the output buffer has to be filled. The decompressor
  \<open>d\<close> holds the arrays; its other fields are set here.
\<close>

definition libdeflate_deflate_decompress :: "dsource \<Rightarrow> dstate \<Rightarrow> byte list \<Rightarrow> unit res \<times> byte list" where
  "libdeflate_deflate_decompress c d out =
     (case andthen (blocks c (8 * length (src_bytes c) + 1)) (\<lambda>_.
             andthen (gets (\<lambda>s. out_next s = length (outbuf s))) (\<lambda>full. guard full SHORT_OUTPUT))
           (d\<lparr>in_next := 0, bitbuf := 0, bitsleft := 0, overrun_count := 0, outbuf := out, out_next := 0\<rparr>) of
        (r, s) \<Rightarrow> (r, outbuf s))"

end
