(* ===== verification/DeflateSpec.thy ===== *)
theory DeflateSpec
  imports HuffmanProps Deflate
begin

text \<open>
  Decompression by RFC 1951: the input is a sequence of bits, the output a list that grows. \<open>inflate\<close> gives the output,
  or the error with which the decompressor has to return when at most \<open>cap\<close> bytes are wanted. Where the RFC leaves
  something open, this is what libdeflate documents: zeros follow the end of the input, an incomplete code is accepted when it
  is empty or a single codeword of one bit, and a repeat count may go past the last length.
\<close>

definition bits_num :: "byte list \<Rightarrow> nat \<Rightarrow> nat \<Rightarrow> nat" where
  "bits_num inp p n = num_of (bits_at inp p n)"

definition code_symbol :: "nat list \<Rightarrow> nat \<Rightarrow> nat \<times> nat" where
  "code_symbol lens R = (case find (has_codeword lens R) [0..<length lens] of Some s \<Rightarrow> (s, lens ! s) | None \<Rightarrow> (0, 1))"

text \<open>The bases and numbers of extra bits of the lengths from symbol 257 on, and of the distances.\<close>

definition length_codes :: "(nat \<times> nat) list" where
  "length_codes =
     [(3, 0), (4, 0), (5, 0), (6, 0), (7, 0), (8, 0), (9, 0), (10, 0), (11, 1), (13, 1), (15, 1), (17, 1), (19, 2), (23, 2), (27, 2), (31, 2),
      (35, 3), (43, 3), (51, 3), (59, 3), (67, 4), (83, 4), (99, 4), (115, 4), (131, 5), (163, 5), (195, 5), (227, 5), (258, 0), (258, 0), (258, 0)]"

definition distance_codes :: "(nat \<times> nat) list" where
  "distance_codes =
     [(1, 0), (2, 0), (3, 0), (4, 0), (5, 1), (7, 1), (9, 2), (13, 2), (17, 3), (25, 3), (33, 4), (49, 4), (65, 5), (97, 5), (129, 6), (193, 6),
      (257, 7), (385, 7), (513, 8), (769, 8), (1025, 9), (1537, 9), (2049, 10), (3073, 10),
      (4097, 11), (6145, 11), (8193, 12), (12289, 12), (16385, 13), (24577, 13), (32769, 14), (49153, 14)]"

text \<open>A match is copied byte by byte, so it may overlap itself.\<close>

fun append_match :: "nat \<Rightarrow> nat \<Rightarrow> 'a list \<Rightarrow> 'a list" where
  "append_match 0 d out = out"
| "append_match (Suc n) d out = append_match n d (out @ [out ! (length out - d)])"

lemma length_append_match [simp]: "length (append_match n d out) = length out + n"
  by (induction n arbitrary: out) simp_all

function inflate_codes :: "byte list \<Rightarrow> nat list \<Rightarrow> nat list \<Rightarrow> nat \<Rightarrow> nat \<Rightarrow> byte list \<Rightarrow> (nat \<times> byte list) res" where
  "inflate_codes inp litlens offlens cap p out =
     (let (s, l) = code_symbol litlens (bits_num inp p 15); p = p + l in
      if s < 256 then
        if length out < cap then inflate_codes inp litlens offlens cap p (out @ [of_nat s]) else Inl INSUFFICIENT_SPACE
      else if s = 256 then Inr (p, out)
      else
        let (base, extra) = length_codes ! (s - 257); len = base + bits_num inp p extra; p = p + extra in
        if 0 < len \<and> len \<le> cap - length out then
          let (s, l) = code_symbol offlens (bits_num inp p 15); p = p + l; (base, extra) = distance_codes ! s;
              dist = base + bits_num inp p extra; p = p + extra in
          if dist \<le> length out then inflate_codes inp litlens offlens cap p (append_match len dist out) else Inl BAD_DATA
        else Inl INSUFFICIENT_SPACE)"
  by pat_completeness auto
termination by (relation "measure (\<lambda>(inp, ll, ol, cap, p, out). cap - length out)") auto

declare inflate_codes.simps [simp del]

text \<open>The codeword lengths of a dynamic block: at least \<open>n\<close> of them.\<close>

function inflate_lens :: "byte list \<Rightarrow> nat list \<Rightarrow> nat \<Rightarrow> nat \<Rightarrow> nat list \<Rightarrow> (nat \<times> nat list) res" where
  "inflate_lens inp prelens n p ls =
     (if length ls < n then
        let (s, l) = code_symbol prelens (bits_num inp p 7); p = p + l in
        if s < 16 then inflate_lens inp prelens n p (ls @ [s])
        else if s = 16 then
          if ls = [] then Inl BAD_DATA else inflate_lens inp prelens n (p + 2) (ls @ replicate (3 + bits_num inp p 2) (last ls))
        else if s = 17 then inflate_lens inp prelens n (p + 3) (ls @ replicate (3 + bits_num inp p 3) 0)
        else inflate_lens inp prelens n (p + 7) (ls @ replicate (11 + bits_num inp p 7) 0)
      else Inr (p, ls))"
  by pat_completeness auto
termination by (relation "measure (\<lambda>(inp, pl, n, p, ls). n - length ls)") auto

declare inflate_lens.simps [simp del]

definition inflate_prelens :: "byte list \<Rightarrow> nat \<Rightarrow> nat \<Rightarrow> nat list" where
  "inflate_prelens inp p n =
     foldl (\<lambda>ls k. ls[deflate_precode_lens_permutation ! k := bits_num inp (p + 3 * k) 3]) (replicate 19 0) [0..<n]"

definition inflate_dynamic :: "byte list \<Rightarrow> nat \<Rightarrow> nat \<Rightarrow> byte list \<Rightarrow> (nat \<times> byte list) res" where
  "inflate_dynamic inp cap p out =
     (let nl = bits_num inp p 5 + 257; no = bits_num inp (p + 5) 5 + 1; np = bits_num inp (p + 10) 4 + 4; prelens = inflate_prelens inp (p + 14) np in
      if valid_code 7 prelens then
        bnd (inflate_lens inp prelens (nl + no) (p + 14 + 3 * np) []) (\<lambda>(p, ls).
          let litlens = take nl ls; offlens = take no (drop nl ls) in
          if valid_code 15 offlens \<and> valid_code 15 litlens then inflate_codes inp litlens offlens cap p out else Inl BAD_DATA)
      else Inl BAD_DATA)"

definition static_litlens :: "nat list" where
  "static_litlens = replicate 144 8 @ replicate 112 9 @ replicate 24 7 @ replicate 8 8"

definition inflate_stored :: "byte list \<Rightarrow> nat \<Rightarrow> nat \<Rightarrow> byte list \<Rightarrow> (nat \<times> byte list) res" where
  "inflate_stored inp cap p out =
     (let q = (p + 7) div 8 in
      if q + 4 \<le> length inp then
        let len = le16_at inp q; nlen = le16_at inp (q + 2) in
        if len \<noteq> NOT nlen then Inl BAD_DATA
        else if cap - length out < unat len then Inl INSUFFICIENT_SPACE
        else if q + 4 + unat len \<le> length inp then Inr (8 * (q + 4 + unat len), out @ take (unat len) (drop (q + 4) inp))
        else Inl BAD_DATA
      else Inl BAD_DATA)"

definition inflate_block :: "byte list \<Rightarrow> nat \<Rightarrow> nat \<Rightarrow> byte list \<Rightarrow> (nat \<times> byte list) res" where
  "inflate_block inp cap p out =
     (let t = bits_num inp (p + 1) 2 in
      if t = 0 then inflate_stored inp cap (p + 3) out
      else if t = 1 then inflate_codes inp static_litlens (replicate 32 5) cap (p + 3) out
      else if t = 2 then inflate_dynamic inp cap (p + 3) out
      else Inl BAD_DATA)"

section \<open>The position\<close>

lemma codes_mono: "inflate_codes inp ll ol cap p out = Inr (p', out') \<Longrightarrow> p \<le> p' \<and> length out \<le> length out' \<and> (length out \<le> cap \<longrightarrow> length out' \<le> cap)"
proof (induction inp ll ol cap p out rule: inflate_codes.induct)
  case (1 inp ll ol cap p out)
  obtain s l where sl: "code_symbol ll (bits_num inp p 15) = (s, l)" by force
  obtain b e where be: "length_codes ! (s - 257) = (b, e)" by force
  let ?len = "b + bits_num inp (p + l) e"
  obtain s' l' where sl': "code_symbol ol (bits_num inp (p + l + e) 15) = (s', l')" by force
  obtain b' e' where be': "distance_codes ! s' = (b', e')" by force
  let ?dist = "b' + bits_num inp (p + l + e + l') e'"
  consider "s < 256" | "s = 256" | "256 < s" by linarith
  then show ?case
  proof cases
    case 1
    then have "length out < cap" using "1.prems" sl by (subst (asm) inflate_codes.simps) (auto split: if_splits)
    moreover have "inflate_codes inp ll ol cap (p + l) (out @ [of_nat s]) = Inr (p', out')"
      using 1 "1.prems" sl calculation by (subst (asm) inflate_codes.simps) simp
    ultimately show ?thesis using "1.IH"(1) [OF sl [symmetric] refl refl 1] by auto
  next
    case 2
    then show ?thesis using "1.prems" sl by (subst (asm) inflate_codes.simps) auto
  next
    case 3
    then have c: "0 < ?len \<and> ?len \<le> cap - length out" "?dist \<le> length out"
      and r: "inflate_codes inp ll ol cap (p + l + e + l' + e') (append_match ?len ?dist out) = Inr (p', out')"
      using "1.prems" sl be sl' be' by (subst (asm) inflate_codes.simps, auto simp: Let_def split: if_splits)+
    have "p + l + e + l' + e' \<le> p' \<and> length (append_match ?len ?dist out) \<le> length out' \<and>
        (length (append_match ?len ?dist out) \<le> cap \<longrightarrow> length out' \<le> cap)"
      by (rule "1.IH"(2) [OF sl [symmetric] refl refl _ _ be [symmetric] refl refl refl c(1) sl' [symmetric] refl refl be' [symmetric] refl refl refl c(2) r])
        (use 3 in simp_all)
    then show ?thesis using c(1) by auto
  qed
qed

lemma lens_mono: "inflate_lens inp pl n p ls = Inr (p', ls') \<Longrightarrow> p \<le> p' \<and> n \<le> length ls'"
proof (induction inp pl n p ls rule: inflate_lens.induct)
  case (1 inp pl n p ls)
  obtain s l where sl: "code_symbol pl (bits_num inp p 7) = (s, l)" by force
  note IH = "1.IH" [OF _ sl [symmetric] refl refl]
  show ?case
  proof (cases "length ls < n")
    case True
    consider "s < 16" | "s = 16" "ls \<noteq> []" | "s = 17" | "17 < s"
      using "1.prems" True sl by (subst (asm) inflate_lens.simps) (fastforce split: if_splits)
    then show ?thesis
    proof cases
      case 1
      then have "inflate_lens inp pl n (p + l) (ls @ [s]) = Inr (p', ls')"
        using "1.prems" True sl by (subst (asm) inflate_lens.simps) (simp add: Let_def)
      then show ?thesis using IH(1) True 1 by fastforce
    next
      case 2
      then have "inflate_lens inp pl n (p + l + 2) (ls @ replicate (3 + bits_num inp (p + l) 2) (last ls)) = Inr (p', ls')"
        using "1.prems" True sl by (subst (asm) inflate_lens.simps) (simp add: Let_def)
      then show ?thesis using IH(2) True 2 by fastforce
    next
      case 3
      then have "inflate_lens inp pl n (p + l + 3) (ls @ replicate (3 + bits_num inp (p + l) 3) 0) = Inr (p', ls')"
        using "1.prems" True sl by (subst (asm) inflate_lens.simps) (simp add: Let_def)
      then show ?thesis using IH(3) True 3 by fastforce
    next
      case 4
      then have "inflate_lens inp pl n (p + l + 7) (ls @ replicate (11 + bits_num inp (p + l) 7) 0) = Inr (p', ls')"
        using "1.prems" True sl by (subst (asm) inflate_lens.simps) (simp add: Let_def)
      then show ?thesis using IH(4) True 4 by fastforce
    qed
  qed (use "1.prems" in \<open>subst (asm) inflate_lens.simps, simp\<close>)
qed

lemma stored_mono: "inflate_stored inp cap p out = Inr (p', out') \<Longrightarrow>
    p < p' \<and> p \<le> 8 * length inp \<and> p' \<le> 8 * length inp \<and> length out \<le> length out' \<and> (length out \<le> cap \<longrightarrow> length out' \<le> cap)"
  by (auto simp: inflate_stored_def Let_def split: if_splits)

lemma zeros_after: "8 * length inp \<le> p \<Longrightarrow> bits_num inp p n = 0"
proof -
  assume "8 * length inp \<le> p"
  then have "bits_at inp p n = replicate n False" by (auto simp: bits_at_def sbit_def map_replicate_trivial intro!: nth_equalityI)
  moreover have "num_of (replicate n False) = 0" by (induction n) simp_all
  ultimately show ?thesis by (simp add: bits_num_def)
qed

lemma block_mono:
  assumes "inflate_block inp cap p out = Inr (p', out')"
  shows "p < p'" "p < 8 * length inp" "length out \<le> length out'" "length out \<le> cap \<Longrightarrow> length out' \<le> cap"
proof -
  have "p < p' \<and> p < 8 * length inp \<and> length out \<le> length out' \<and> (length out \<le> cap \<longrightarrow> length out' \<le> cap)"
  proof (cases "bits_num inp (p + 1) 2 = 0")
    case True
    then show ?thesis using assms stored_mono [of inp cap "p + 3" out p' out'] by (auto simp: inflate_block_def)
  next
    case False
    then have "p < 8 * length inp" using zeros_after [of inp "p + 1" 2] by (cases "p < 8 * length inp") simp_all
    moreover have "p < p' \<and> length out \<le> length out' \<and> (length out \<le> cap \<longrightarrow> length out' \<le> cap)"
      using False assms codes_mono lens_mono
      by (fastforce simp: inflate_block_def inflate_dynamic_def Let_def split: if_splits prod.splits)
    ultimately show ?thesis by blast
  qed
  then show "p < p'" "p < 8 * length inp" "length out \<le> length out'" "length out \<le> cap \<Longrightarrow> length out' \<le> cap" by blast+
qed

section \<open>The stream\<close>

function inflate_blocks :: "byte list \<Rightarrow> nat \<Rightarrow> nat \<Rightarrow> byte list \<Rightarrow> byte list res" where
  "inflate_blocks inp cap p out =
     bnd (inflate_block inp cap p out) (\<lambda>(p', out').
       if bits_num inp p 1 \<noteq> 0 then Inr out' else inflate_blocks inp cap p' out')"
  by pat_completeness auto
termination
  by (relation "measure (\<lambda>(inp, cap, p, out). 8 * length inp - p)") (auto dest: block_mono intro: diff_less_mono2)

declare inflate_blocks.simps [simp del]

definition inflate :: "byte list \<Rightarrow> nat \<Rightarrow> byte list res" where
  "inflate inp cap = bnd (inflate_blocks inp cap 0 []) (\<lambda>out. if length out = cap then Inr out else Inl SHORT_OUTPUT)"

end
