(* ===== verification/DeflateCopy.thy ===== *)
theory DeflateCopy
  imports DeflateSpec
begin

text \<open>
  Copying a match. Word by word, by a repeated byte or byte by byte: the result is the match of the reference, and no
  copy leaves the output buffer, although the words may go past the end of the match.
\<close>

section \<open>Words\<close>

lemma word_of_bytes:
  assumes "length bs = 8"
  shows "map (\<lambda>i. ucast (drop_bit (8 * i) (le_word bs :: 64 word))) [0..<8] = bs"
proof (rule nth_equalityI)
  fix k assume "k < length (map (\<lambda>i. ucast (drop_bit (8 * i) (le_word bs :: 64 word)) :: byte) [0..<8])"
  then have k: "k < 8" by simp
  have "(ucast (drop_bit (8 * k) (le_word bs :: 64 word)) :: byte) = bs ! k"
  proof (rule bit_word_eqI)
    fix i assume "i < LENGTH(8)"
    then have "(8 * k + i) div 8 = k" "(8 * k + i) mod 8 = i" "8 * k + i < 64" using k byte_bit [of i k] by simp_all
    then show "bit (ucast (drop_bit (8 * k) (le_word bs :: 64 word)) :: byte) i = bit (bs ! k) i"
      using k assms \<open>i < LENGTH(8)\<close> by (simp add: bit_ucast_iff bit_drop_bit_eq bit_le_word)
  qed
  then show "map (\<lambda>i. ucast (drop_bit (8 * i) (le_word bs :: 64 word))) [0..<8] ! k = bs ! k" using k by simp
qed (simp add: assms)

lemma repeat_step:
  fixes v :: "64 word"
  assumes v: "\<And>i. bit v i \<longleftrightarrow> i < k \<and> bit (b :: byte) (i mod 8)" and k: "8 dvd k" "2 * k \<le> 64"
  shows "bit (v OR push_bit k v) i \<longleftrightarrow> i < 2 * k \<and> bit b (i mod 8)"
proof -
  have "(i - k) mod 8 = i mod 8" if "k \<le> i" using that k(1) by (metis le_add_diff_inverse2 mod_add_self2 dvd_def mod_mult_self2)
  then show ?thesis using k(2) by (auto simp: bit_or_iff bit_push_bit_iff v)
qed

lemma bit_repeat_byte: "bit (repeat_byte b) i \<longleftrightarrow> i < 64 \<and> bit b (i mod 8)"
proof -
  have 0: "bit (ucast b :: 64 word) i \<longleftrightarrow> i < 8 \<and> bit b (i mod 8)" for i
    using bit_imp_le_length [of b i] by (auto simp: bit_ucast_iff)
  let ?v = "ucast b OR push_bit 8 (ucast b) :: 64 word"
  have 1: "bit ?v i \<longleftrightarrow> i < 16 \<and> bit b (i mod 8)" for i using repeat_step [OF 0, of i] by simp
  have 2: "bit (?v OR push_bit 16 ?v) i \<longleftrightarrow> i < 32 \<and> bit b (i mod 8)" for i using repeat_step [OF 1, of i] by simp
  show ?thesis using repeat_step [OF 2, of i] by (simp add: repeat_byte_def Let_def)
qed

lemma repeat_bytes: "map (\<lambda>i. ucast (drop_bit (8 * i) (repeat_byte b))) [0..<8] = replicate 8 b"
proof (rule nth_equalityI)
  fix k assume "k < length (map (\<lambda>i. ucast (drop_bit (8 * i) (repeat_byte b)) :: byte) [0..<8])"
  then have k: "k < 8" by simp
  have "(ucast (drop_bit (8 * k) (repeat_byte b)) :: byte) = b"
    by (rule bit_word_eqI) (use k in \<open>simp add: bit_ucast_iff bit_drop_bit_eq bit_repeat_byte\<close>)
  then show "map (\<lambda>i. ucast (drop_bit (8 * i) (repeat_byte b))) [0..<8] ! k = replicate 8 b ! k" using k by simp
qed simp

lemma wr_nth:
  assumes "p + length bs \<le> length buf"
  shows "\<exists>buf'. wr buf (int p) bs = Inr buf' \<and> length buf' = length buf \<and>
    (\<forall>i < length buf. buf' ! i = (if p \<le> i \<and> i < p + length bs then bs ! (i - p) else buf ! i))"
  using assms by (auto simp: wr_def nth_append min_def)

lemma copy_word_run:
  assumes "src + 8 \<le> length buf" "dst + 8 \<le> length buf"
  shows "\<exists>buf'. copy_word_unaligned src dst buf = Inr buf' \<and> length buf' = length buf \<and>
    (\<forall>i < length buf. buf' ! i = (if dst \<le> i \<and> i < dst + 8 then buf ! (src + (i - dst)) else buf ! i))"
proof -
  have "length (take 8 (drop src buf)) = 8" using assms by simp
  then show ?thesis
    using wr_nth [of dst "take 8 (drop src buf)" buf] assms
    by (simp add: copy_word_unaligned_def load_word_unaligned_def store_word_unaligned_def word_of_bytes) fastforce
qed

section \<open>Matches\<close>

text \<open>From \<open>dst\<close> on, \<open>m\<close> bytes are those \<open>off\<close> before them.\<close>

definition matched :: "nat \<Rightarrow> nat \<Rightarrow> nat \<Rightarrow> byte list \<Rightarrow> byte list \<Rightarrow> bool" where
  "matched off dst m buf0 buf \<longleftrightarrow> length buf = length buf0 \<and> (\<forall>i < dst. buf ! i = buf0 ! i) \<and>
     (\<forall>i. dst \<le> i \<and> i < dst + m \<longrightarrow> buf ! i = buf ! (i - off))"

lemma matched_0: "matched off dst 0 buf buf"
  by (auto simp: matched_def)

lemma matched_le: "matched off dst m buf0 buf \<Longrightarrow> n \<le> m \<Longrightarrow> matched off dst n buf0 buf"
  by (simp add: matched_def)

lemma matched_more:
  assumes m: "matched off dst m buf0 buf" and off: "off \<le> dst" "n \<le> off" and b: "dst + m + n \<le> length buf"
    and l: "length buf' = length buf"
    and new: "\<forall>i < length buf. buf' ! i = (if dst + m \<le> i \<and> i < dst + m + n then buf ! (i - off) else buf ! i)"
  shows "matched off dst (m + n) buf0 buf'"
  unfolding matched_def
proof (intro conjI allI impI)
  show "length buf' = length buf0" "\<And>i. i < dst \<Longrightarrow> buf' ! i = buf0 ! i" using m l new b by (simp_all add: matched_def)
  fix i assume i: "dst \<le> i \<and> i < dst + (m + n)"
  then have "i - off < dst + m" using off by linarith
  then have "buf' ! (i - off) = buf ! (i - off)" using new b i by simp
  then show "buf' ! i = buf' ! (i - off)" using m i new b by (simp add: matched_def)
qed

lemma append_match_Suc:
  "append_match (Suc n) d out = append_match n d out @ [append_match n d out ! (length out + n - d)]"
proof (induction n arbitrary: out)
  case (Suc n)
  let ?o = "out @ [out ! (length out - d)]"
  have "append_match (Suc (Suc n)) d out = append_match (Suc n) d ?o" by (rule append_match.simps(2))
  also have "\<dots> = append_match n d ?o @ [append_match n d ?o ! (length ?o + n - d)]" by (rule Suc.IH)
  also have "append_match n d ?o = append_match (Suc n) d out" by simp
  finally show ?case by simp
qed simp

lemma matched_append:
  assumes "matched off dst m buf0 buf" "1 \<le> off" "off \<le> dst" "dst + m \<le> length buf"
  shows "take (dst + m) buf = append_match m off (take dst buf0)"
  using assms
proof (induction m)
  case 0
  then show ?case by (auto simp: matched_def intro: nth_equalityI)
next
  case (Suc m)
  have IH: "take (dst + m) buf = append_match m off (take dst buf0)"
    using Suc matched_le [OF Suc.prems(1), of m] by simp
  have "dst \<le> length buf0" using Suc.prems by (simp add: matched_def)
  then have "append_match (Suc m) off (take dst buf0) = take (dst + m) buf @ [take (dst + m) buf ! (dst + m - off)]"
    unfolding append_match_Suc IH [symmetric] by (simp add: min_def)
  also have "take (dst + m) buf ! (dst + m - off) = buf ! (dst + m)"
    using Suc.prems by (simp add: matched_def)
  finally show ?case using Suc.prems(4) by (simp add: take_Suc_conv_app_nth)
qed

section \<open>The loops\<close>

lemma word_step:
  assumes "matched off dst m buf0 buf" "8 \<le> off" "off \<le> dst" "dst + m + 8 \<le> length buf"
  shows "\<exists>buf'. copy_word_unaligned (dst + m - off) (dst + m) buf = Inr buf' \<and> length buf' = length buf \<and> matched off dst (m + 8) buf0 buf'"
proof -
  obtain buf' where b: "copy_word_unaligned (dst + m - off) (dst + m) buf = Inr buf'" "length buf' = length buf"
    "\<forall>i < length buf. buf' ! i = (if dst + m \<le> i \<and> i < dst + m + 8 then buf ! (dst + m - off + (i - (dst + m))) else buf ! i)"
  proof -
    have "dst + m - off + 8 \<le> length buf" using assms by linarith
    then show ?thesis using copy_word_run [of "dst + m - off" buf "dst + m"] assms(4) that by blast
  qed
  have "dst + m - off + (i - (dst + m)) = i - off" if "dst + m \<le> i" for i using that assms(3) by simp
  then have "\<forall>i < length buf. buf' ! i = (if dst + m \<le> i \<and> i < dst + m + 8 then buf ! (i - off) else buf ! i)" using b(3) by simp
  then show ?thesis using matched_more [OF assms(1,3,2,4) b(2)] b by blast
qed

lemma copy_words_run:
  assumes off: "8 \<le> off" "off \<le> dst" and e: "dst + len + 7 \<le> length buf0"
  shows "matched off dst m buf0 buf \<Longrightarrow> m < len \<Longrightarrow>
    \<exists>buf'. copy_words (dst + m - off) (dst + m) (dst + len) buf = Inr buf' \<and> matched off dst len buf0 buf'"
proof (induction "len - m" arbitrary: m buf rule: less_induct)
  case less
  have l: "length buf = length buf0" using less.prems(1) by (simp add: matched_def)
  obtain buf' where b: "copy_word_unaligned (dst + m - off) (dst + m) buf = Inr buf'" "matched off dst (m + 8) buf0 buf'"
    using word_step [OF less.prems(1) off] less.prems(2) e l by auto
  have s: "dst + m - off + 8 = dst + (m + 8) - off" using off by simp
  show ?case
  proof (cases "m + 8 < len")
    case True
    then show ?thesis
      using less.hyps [OF _ b(2) True] b(1) less.prems(2) s by (subst copy_words.simps) (simp add: add.assoc)
  next
    case False
    then show ?thesis using b matched_le [OF b(2), of len] by (subst copy_words.simps) simp
  qed
qed

lemma byte_step:
  assumes "matched off dst m buf0 buf" "1 \<le> off" "off \<le> dst" "dst + m < length buf"
  shows "\<exists>buf'. copy_byte (dst + m - off) (dst + m) buf = Inr buf' \<and> length buf' = length buf \<and> matched off dst (Suc m) buf0 buf'"
proof -
  let ?buf = "buf[dst + m := buf ! (dst + m - off)]"
  have "copy_byte (dst + m - off) (dst + m) buf = Inr ?buf"
    using assms aget_nat [of "dst + m - off" buf] aset_nat [of "dst + m" buf] by (simp add: copy_byte_def)
  moreover have "matched off dst (m + 1) buf0 ?buf"
    using assms by (intro matched_more [OF assms(1,3), of 1]) (auto simp: nth_list_update)
  ultimately show ?thesis by simp
qed

lemma copy_bytes_run:
  assumes off: "1 \<le> off" "off \<le> dst" and e: "dst + len \<le> length buf0"
  shows "matched off dst m buf0 buf \<Longrightarrow> m < len \<Longrightarrow>
    \<exists>buf'. copy_bytes (dst + m - off) (dst + m) (dst + len) buf = Inr buf' \<and> matched off dst len buf0 buf'"
proof (induction "len - m" arbitrary: m buf rule: less_induct)
  case less
  have l: "length buf = length buf0" using less.prems(1) by (simp add: matched_def)
  obtain buf' where b: "copy_byte (dst + m - off) (dst + m) buf = Inr buf'" "matched off dst (Suc m) buf0 buf'"
    using byte_step [OF less.prems(1) off] less.prems(2) e l by auto
  have s: "dst + m - off + 1 = dst + Suc m - off" using off by simp
  show ?case
  proof (cases "Suc m < len")
    case True
    then show ?thesis using less.hyps [OF _ b(2) True] b(1) less.prems(2) s by (subst copy_bytes.simps) simp
  next
    case False
    then have "len = Suc m" using less.prems(2) by simp
    then show ?thesis using b by (subst copy_bytes.simps) simp
  qed
qed

lemma copy_slowly_run:
  assumes off: "1 \<le> off" "off \<le> dst" and e: "dst + len \<le> length buf" and len: "3 \<le> len"
  shows "\<exists>buf'. copy_slowly (dst - off) dst (dst + len) buf = Inr buf' \<and> matched off dst len buf buf'"
proof -
  obtain b1 where b1: "copy_byte (dst - off) dst buf = Inr b1" "length b1 = length buf" "matched off dst 1 buf b1"
    using byte_step [OF matched_0 off, of buf] e len by auto
  obtain b2 where b2: "copy_byte (dst + 1 - off) (dst + 1) b1 = Inr b2" "length b2 = length b1" "matched off dst 2 buf b2"
    using byte_step [OF b1(3) off] e len b1(2) by (auto simp: numeral_2_eq_2)
  obtain b3 where "copy_bytes (dst + 2 - off) (dst + 2) (dst + len) b2 = Inr b3" "matched off dst len buf b3"
    using copy_bytes_run [OF off e b2(3)] len by auto
  moreover have "dst - off + 1 = dst + 1 - off" "dst - off + 2 = dst + 2 - off" using off by simp_all
  ultimately show ?thesis using b1(1) b2(1) by (simp add: copy_slowly_def)
qed

lemma fill_words_run:
  assumes e: "dst + len + 7 \<le> length buf0" and d: "1 \<le> dst"
  shows "length buf = length buf0 \<Longrightarrow> \<forall>i < dst. buf ! i = buf0 ! i \<Longrightarrow> \<forall>i. dst \<le> i \<and> i < dst + m \<longrightarrow> buf ! i = buf0 ! (dst - 1) \<Longrightarrow> m < len \<Longrightarrow>
    \<exists>buf'. fill_words (repeat_byte (buf0 ! (dst - 1))) (dst + m) (dst + len) buf = Inr buf' \<and> matched 1 dst len buf0 buf'"
proof (induction "len - m" arbitrary: m buf rule: less_induct)
  case less
  let ?b = "buf0 ! (dst - 1)"
  obtain buf' where b: "store_word_unaligned (repeat_byte ?b) (dst + m) buf = Inr buf'" "length buf' = length buf"
    "\<forall>i < length buf. buf' ! i = (if dst + m \<le> i \<and> i < dst + m + 8 then ?b else buf ! i)"
    using wr_nth [of "dst + m" "replicate 8 ?b" buf] less.prems e
    unfolding store_word_unaligned_def repeat_bytes length_replicate by fastforce
  have k: "length buf' = length buf0" "\<forall>i < dst. buf' ! i = buf0 ! i" using b less.prems e by simp_all
  have n: "\<forall>i. dst \<le> i \<and> i < dst + (m + 8) \<longrightarrow> buf' ! i = ?b" using b less.prems e by auto
  show ?case
  proof (cases "m + 8 < len")
    case True
    then show ?thesis using less.hyps [OF _ k n True] b(1) less.prems(4) by (subst fill_words.simps) (simp add: add.assoc)
  next
    case False
    have "buf' ! i = buf' ! (i - 1)" if "dst \<le> i" "i < dst + len" for i
    proof (cases "i = dst")
      case True
      then show ?thesis using k n d that by simp
    next
      case False
      then have "dst \<le> i - 1" "i - 1 < dst + (m + 8)" "i < dst + (m + 8)" using that \<open>\<not> m + 8 < len\<close> by linarith+
      then show ?thesis using n that by simp
    qed
    then have "matched 1 dst len buf0 buf'" using k by (simp add: matched_def)
    then show ?thesis using b(1) False by (subst fill_words.simps) simp
  qed
qed

theorem copy_match_run:
  assumes off: "1 \<le> off" "off \<le> dst" and e: "dst + len \<le> length buf" and len: "3 \<le> len"
  shows "\<exists>buf'. copy_match ua len off dst buf = Inr buf' \<and> length buf' = length buf \<and>
    take (dst + len) buf' = append_match len off (take dst buf)"
proof -
  have "\<exists>buf'. copy_match ua len off dst buf = Inr buf' \<and> matched off dst len buf buf'"
  proof (cases "ua \<and> len \<le> 3 * 8 \<and> 8 \<le> off \<and> len + 3 * 8 \<le> length buf - dst")
    case True
    then have o: "8 \<le> off" and r: "dst + 24 \<le> length buf" by linarith+
    obtain b1 where b1: "copy_word_unaligned (dst - off) dst buf = Inr b1" "length b1 = length buf" "matched off dst 8 buf b1"
      using word_step [OF matched_0 o off(2), of buf] r by auto
    obtain b2 where b2: "copy_word_unaligned (dst + 8 - off) (dst + 8) b1 = Inr b2" "length b2 = length b1" "matched off dst 16 buf b2"
      using word_step [OF b1(3) o off(2)] r b1(2) by auto
    obtain b3 where b3: "copy_word_unaligned (dst + 16 - off) (dst + 16) b2 = Inr b3" "matched off dst 24 buf b3"
      using word_step [OF b2(3) o off(2)] r b1(2) b2(2) by auto
    have "dst - off + 8 = dst + 8 - off" "dst - off + 16 = dst + 16 - off" using off by simp_all
    then have "copy_match ua len off dst buf = Inr b3" using True b1(1) b2(1) b3(1) by (simp add: copy_match_def)
    then show ?thesis using matched_le [OF b3(2)] True by auto
  next
    case False
    then have m: "copy_match ua len off dst buf =
        (if ua \<and> 7 \<le> length buf - (dst + len) then
           if 8 \<le> off then copy_words (dst - off) dst (dst + len) buf
           else if off = 1 then bnd (aget buf (int dst - 1)) (\<lambda>b. fill_words (repeat_byte b) dst (dst + len) buf)
           else copy_slowly (dst - off) dst (dst + len) buf
         else copy_slowly (dst - off) dst (dst + len) buf)"
      unfolding copy_match_def by (simp only: if_False Let_def) simp
    show ?thesis
    proof (cases "ua \<and> 7 \<le> length buf - (dst + len)")
      case True
      then have r: "dst + len + 7 \<le> length buf" using e by linarith
      consider "8 \<le> off" | "off < 8" "off = 1" | "off < 8" "off \<noteq> 1" by linarith
      then show ?thesis
      proof cases
        case 1
        then show ?thesis unfolding m using copy_words_run [OF 1 off(2) r matched_0] len True by simp
      next
        case 2
        have a: "aget buf (int dst - 1) = Inr (buf ! (dst - 1))"
          using aget_nat [of "dst - 1" buf] off e len by (simp add: of_nat_diff)
        have "\<forall>i. dst \<le> i \<and> i < dst + 0 \<longrightarrow> buf ! i = buf ! (dst - 1)" by auto
        moreover have "1 \<le> dst" "0 < len" using off len by simp_all
        ultimately have "\<exists>buf'. fill_words (repeat_byte (buf ! (dst - 1))) (dst + 0) (dst + len) buf = Inr buf' \<and> matched 1 dst len buf buf'"
          by (intro fill_words_run [OF r _ refl]) blast+
        then show ?thesis unfolding m using a True 2 by simp
      next
        case 3
        then show ?thesis unfolding m using copy_slowly_run [OF off e len] True by simp
      qed
    next
      case False
      show ?thesis unfolding m if_not_P [OF False] by (rule copy_slowly_run [OF off e len])
    qed
  qed
  then show ?thesis using matched_append [OF _ off] e by (auto simp: matched_def)
qed

end
