(* ===== verification/DeflateTables.thy ===== *)
theory DeflateTables
  imports DeflateCopy
begin

text \<open>
  The three decode tables of the decompressor: the arrays of the structure are large enough for every code (the constants
  \<open>ENOUGH\<close>), and the packed results unpack to the literals, lengths and distances of the reference.
\<close>

section \<open>The packed results\<close>

lemma small_bits:
  assumes "n < 2 ^ k" "k < 32"
  shows "bit (of_nat n :: 32 word) i \<longleftrightarrow> bit n i" "bit n i \<Longrightarrow> i < k"
  using less_bits [OF assms(1), of i] assms(2) by (auto simp: bit_of_nat_iff)

lemma word_below: "(\<And>i. bit r i \<Longrightarrow> i < k) \<Longrightarrow> k < 32 \<Longrightarrow> (r :: 32 word) < 2 ^ k"
proof -
  assume a: "\<And>i. bit r i \<Longrightarrow> i < k" "k < 32"
  then have "r AND mask k = r" by (intro bit_word_eqI) (auto simp: bit_simps)
  then show "r < 2 ^ k" using and_mask_less' [of k r] a(2) by simp
qed

lemma literal_flag: "drop_bit 8 HUFFDEC_LITERAL = (push_bit 22 1 :: 32 word)"
  by simp

lemma unpack_literal:
  assumes "i < 256"
  shows "bit (literal_entry i) 22" "(ucast (literal_entry i) :: byte) = of_nat i" "literal_entry i < 2 ^ 23"
proof -
  have b: "bit (of_nat i :: 32 word) j \<longleftrightarrow> bit i j" "bit i j \<Longrightarrow> j < 8" for j using small_bits [of i 8 j] assms by simp_all
  have l: "bit (literal_entry i) j \<longleftrightarrow> j = 22 \<or> bit i j" for j
  proof -
    have "bit (push_bit 22 1 :: 32 word) j \<longleftrightarrow> j = 22"
      by (auto simp only: bit_push_bit_iff bit_1_iff possible_bit_word) simp_all
    then show ?thesis unfolding literal_entry_def literal_flag bit_or_iff b(1) by blast
  qed
  show "bit (literal_entry i) 22" by (simp add: l)
  show "(ucast (literal_entry i) :: byte) = of_nat i"
    by (rule bit_word_eqI) (auto simp: bit_ucast_iff l bit_of_nat_iff)
  show "literal_entry i < 2 ^ 23" by (rule word_below) (auto simp: l dest: b(2))
qed

lemma unpack_length:
  assumes "b < 2 ^ 9" "e < 2 ^ 8"
  shows "\<not> bit (length_entry (b, e)) 22" "unat (drop_bit 8 (length_entry (b, e))) = b" "unat (length_entry (b, e) AND 0xFF) = e"
    "length_entry (b, e) < 2 ^ 23"
proof -
  have b: "bit (of_nat b :: 32 word) j \<longleftrightarrow> bit b j" "bit b j \<Longrightarrow> j < 9" for j using small_bits [of b 9 j] assms by simp_all
  have e: "bit (of_nat e :: 32 word) j \<longleftrightarrow> bit e j" "bit e j \<Longrightarrow> j < 8" for j using small_bits [of e 8 j] assms by simp_all
  have l: "bit (length_entry (b, e)) j \<longleftrightarrow> (8 \<le> j \<and> bit b (j - 8)) \<or> bit e j" for j
    unfolding length_entry_def using b [of "j - 8"] e(1) [of j] by (auto simp: bit_or_iff bit_push_bit_iff)
  show "\<not> bit (length_entry (b, e)) 22" using b(2) [of 14] e(2) [of 22] by (auto simp: l)
  have "drop_bit 8 (length_entry (b, e)) = of_nat b"
    by (rule bit_word_eqI) (auto simp: bit_drop_bit_eq l b(1) dest: e(2))
  then show "unat (drop_bit 8 (length_entry (b, e))) = b" using assms by (simp add: unat_of_nat)
  have "length_entry (b, e) AND 0xFF = of_nat e"
    unfolding low_8 by (rule bit_word_eqI) (auto simp: bit_and_iff bit_mask_iff l e(1) dest: e(2))
  then show "unat (length_entry (b, e) AND 0xFF) = e" using assms by (simp add: unat_of_nat)
  show "length_entry (b, e) < 2 ^ 23" by (rule word_below) (auto simp: l dest: b(2) e(2))
qed

lemma unpack_offset:
  assumes "b < 2 ^ 16" "e < 2 ^ 5"
  shows "unat (drop_bit 16 (offset_entry (b, e))) = e" "unat (offset_entry (b, e) AND 0xFFFF) = b" "offset_entry (b, e) < 2 ^ 23"
proof -
  have b: "bit (of_nat b :: 32 word) j \<longleftrightarrow> bit b j" "bit b j \<Longrightarrow> j < 16" for j using small_bits [of b 16 j] assms by simp_all
  have e: "bit (of_nat e :: 32 word) j \<longleftrightarrow> bit e j" "bit e j \<Longrightarrow> j < 5" for j using small_bits [of e 5 j] assms by simp_all
  have l: "bit (offset_entry (b, e)) j \<longleftrightarrow> (16 \<le> j \<and> bit e (j - 16)) \<or> bit b j" for j
    unfolding offset_entry_def using e [of "j - 16"] b(1) [of j] by (auto simp: bit_or_iff bit_push_bit_iff)
  have "drop_bit 16 (offset_entry (b, e)) = of_nat e"
    by (rule bit_word_eqI) (auto simp: bit_drop_bit_eq l e(1) dest: b(2))
  then show "unat (drop_bit 16 (offset_entry (b, e))) = e" using assms by (simp add: unat_of_nat)
  have "offset_entry (b, e) AND 0xFFFF = of_nat b"
    unfolding low_8 by (rule bit_word_eqI) (auto simp: bit_and_iff bit_mask_iff l b(1) dest: b(2))
  then show "unat (offset_entry (b, e) AND 0xFFFF) = b" using assms by (simp add: unat_of_nat)
  have "i < 23" if "bit (offset_entry (b, e)) i" for i
    using that b(2) [of i] e(2) [of "i - 16"] by (auto simp: l)
  then show "offset_entry (b, e) < 2 ^ 23" by (rule word_below) simp_all
qed

lemma length_codes_ok: "\<forall>(b, e) \<in> set length_codes. 3 \<le> b \<and> b < 2 ^ 9 \<and> e \<le> 5" "length length_codes = 31"
  by (simp_all add: length_codes_def)

lemma distance_codes_ok: "\<forall>(b, e) \<in> set distance_codes. 1 \<le> b \<and> b < 2 ^ 16 \<and> e \<le> 14" "length distance_codes = 32"
  by (simp_all add: distance_codes_def)

lemma litlen_results: "litlen_decode_results = map literal_entry [0..<256] @ length_entry (0, 0) # map length_entry length_codes"
  unfolding litlen_decode_results_def length_codes_def by (simp only: list.map)

lemma offset_results: "offset_decode_results = map offset_entry distance_codes"
  by (simp only: offset_decode_results_def distance_codes_def)

lemma results_lengths: "length litlen_decode_results = 288" "length offset_decode_results = 32" "length precode_decode_results = 19"
  by (simp_all add: litlen_results offset_results length_codes_ok distance_codes_ok precode_decode_results_def)

lemma results_below: "\<forall>r \<in> set litlen_decode_results. r < 2 ^ 23" "\<forall>r \<in> set offset_decode_results. r < 2 ^ 23"
    "\<forall>r \<in> set precode_decode_results. r < 2 ^ 23"
proof -
  have "length_entry x < 2 ^ 23" if "x \<in> set length_codes" for x
    using that length_codes_ok(1) unpack_length(4) [of "fst x" "snd x"] by fastforce
  moreover have "literal_entry i < 2 ^ 23" if "i < 256" for i by (rule unpack_literal(3) [OF that])
  moreover have "length_entry (0, 0) < 2 ^ 23" by (rule unpack_length) simp_all
  ultimately show "\<forall>r \<in> set litlen_decode_results. r < 2 ^ 23" unfolding litlen_results by auto
  have "offset_entry x < 2 ^ 23" if "x \<in> set distance_codes" for x
    using that distance_codes_ok(1) unpack_offset(3) [of "fst x" "snd x"] by fastforce
  then show "\<forall>r \<in> set offset_decode_results. r < 2 ^ 23" unfolding offset_results by auto
  have "(of_nat i :: 32 word) < 2 ^ 23" if "i < 19" for i
    using that by (simp add: word_less_nat_alt unat_of_nat)
  then show "\<forall>r \<in> set precode_decode_results. r < 2 ^ 23" unfolding precode_decode_results_def by auto
qed

section \<open>The tables\<close>

lemma precode_built:
  assumes "\<forall>l \<in> set lens. l \<le> 7" "length lens \<le> 19" "length t = 128"
  shows "built 7 7 lens precode_decode_results 128 (build_decode_table t lens precode_decode_results 7 7)"
  using build_decode_table_ok [OF assms(1), of 7 precode_decode_results t] assms results_lengths results_below short_need [of 7 7 lens] by simp

lemma litlen_built:
  assumes "\<forall>l \<in> set lens. l \<le> 15" "length lens \<le> 288" "length t = 1334"
  shows "built 15 10 lens litlen_decode_results 1334 (build_decode_table t lens litlen_decode_results 10 15)"
  using build_decode_table_ok [OF assms(1), of 10 litlen_decode_results t] assms results_lengths results_below litlen_enough [of lens] by simp

lemma offset_built:
  assumes "\<forall>l \<in> set lens. l \<le> 15" "length lens \<le> 32" "length t = 402"
  shows "built 15 8 lens offset_decode_results 402 (build_decode_table t lens offset_decode_results 8 15)"
  using build_decode_table_ok [OF assms(1), of 8 offset_decode_results t] assms results_lengths results_below offset_enough [of lens] by simp

end
