(* ===== verification/DeflateRefine.thy ===== *)
theory DeflateRefine
  imports DeflateTables
begin

text \<open>
  The decompressor refines the reference, step by step: \<open>at_pos\<close> says at which bit of the input it is and how many bits
  it has made sure of, \<open>refines\<close> that an operation has the outcome of the reference. Together: no operation of
  the decompressor accesses memory outside its arrays.
\<close>

section \<open>Refinement\<close>

definition refines :: "('a, 's) act \<Rightarrow> 's \<Rightarrow> 'b res \<Rightarrow> ('a \<Rightarrow> 's \<Rightarrow> 'b \<Rightarrow> bool) \<Rightarrow> bool" where
  "refines m s r Q \<longleftrightarrow> (case r of Inl e \<Rightarrow> fst (m s) = Inl e | Inr y \<Rightarrow> \<exists>x s'. m s = (Inr x, s') \<and> Q x s' y)"

lemma refines_simps [simp]: "refines m s (Inl e) Q \<longleftrightarrow> fst (m s) = Inl e"
  "refines m s (Inr y) Q \<longleftrightarrow> (\<exists>x s'. m s = (Inr x, s') \<and> Q x s' y)"
  by (simp_all add: refines_def)

lemma refines_andthen:
  assumes "refines m s r Q" "\<And>x s' y. Q x s' y \<Longrightarrow> r = Inr y \<Longrightarrow> refines (f x) s' (g y) Q'"
  shows "refines (andthen m f) s (bnd r g) Q'"
  using assms by (cases r) (force simp: refines_def andthen_def split: prod.splits sum.splits)+

text \<open>An operation that the reference does not have.\<close>

lemma refines_step: "m s = (Inr x, s') \<Longrightarrow> refines (f x) s' r Q \<Longrightarrow> refines (andthen m f) s r Q"
  by (cases r) (simp_all add: refines_def andthen_def)

lemma refines_check: "(b \<Longrightarrow> refines (f ()) s r Q) \<Longrightarrow> (\<not> b \<Longrightarrow> r = Inl BAD_DATA) \<Longrightarrow> refines (andthen (SAFETY_CHECK b) f) s r Q"
  by (cases b; cases r) (simp_all add: SAFETY_CHECK_def refines_def andthen_def guard_def)

lemma refines_mono: "refines m s r Q \<Longrightarrow> (\<And>x s' y. Q x s' y \<Longrightarrow> Q' x s' y) \<Longrightarrow> refines m s r Q'"
  by (cases r) fastforce+

section \<open>The position\<close>

text \<open>
  After an alignment behind the end of the input the counter of missing bytes keeps its value; less than four bytes are
  left then.
\<close>

definition at_pos :: "dsource \<Rightarrow> nat \<Rightarrow> dstate \<Rightarrow> nat \<Rightarrow> bool" where
  "at_pos c k s p \<longleftrightarrow> k \<le> bitsleft s \<and>
     (\<exists>o0. bits_ok (src_bytes c) o0 s \<and> at_bit o0 s = p \<and> (o0 = 0 \<or> 8 * length (src_bytes c) < p + 32))"

definition mem :: "dstate \<Rightarrow> byte list \<times> nat \<times> nat list \<times> nat list \<times> 32 word list \<times> 32 word list \<times> 32 word list" where
  "mem s = (outbuf s, out_next s, precode_lens s, code_lens s, precode_decode_table s, offset_decode_table s, litlen_decode_table s)"

lemma at_pos_le: "at_pos c k s p \<Longrightarrow> j \<le> k \<Longrightarrow> at_pos c j s p"
  by (auto simp: at_pos_def)

lemma bits_ok_same:
  assumes "in_next s' = in_next s" "bitbuf s' = bitbuf s" "bitsleft s' = bitsleft s" "overrun_count s' = overrun_count s"
  shows "bits_ok inp o0 s' \<longleftrightarrow> bits_ok inp o0 s" "at_bit o0 s' = at_bit o0 s"
  using assms by (simp_all add: bits_ok_def at_bit_def)

lemma at_pos_same:
  assumes "in_next s' = in_next s" "bitbuf s' = bitbuf s" "bitsleft s' = bitsleft s" "overrun_count s' = overrun_count s"
  shows "at_pos c k s' p \<longleftrightarrow> at_pos c k s p"
  using assms bits_ok_same [OF assms] by (simp add: at_pos_def)

lemma at_pos_upd [simp]:
  "at_pos c k (s\<lparr>outbuf := b\<rparr>) p \<longleftrightarrow> at_pos c k s p" "at_pos c k (s\<lparr>out_next := n\<rparr>) p \<longleftrightarrow> at_pos c k s p"
  "at_pos c k (s\<lparr>precode_lens := pl\<rparr>) p \<longleftrightarrow> at_pos c k s p" "at_pos c k (s\<lparr>code_lens := cl\<rparr>) p \<longleftrightarrow> at_pos c k s p"
  "at_pos c k (s\<lparr>precode_decode_table := t\<rparr>) p \<longleftrightarrow> at_pos c k s p" "at_pos c k (s\<lparr>offset_decode_table := t\<rparr>) p \<longleftrightarrow> at_pos c k s p"
  "at_pos c k (s\<lparr>litlen_decode_table := t\<rparr>) p \<longleftrightarrow> at_pos c k s p"
  by (rule at_pos_same; simp)+

lemma ENSURE_frame: "mem (ENSURE_BITS b inp n s) = mem s"
proof -
  have "mem (fill_bytes k inp s) = mem s" for k s
    by (induction k arbitrary: s) (simp_all add: Let_def mem_def)
  then show ?thesis by (simp add: ENSURE_BITS_def FILL_BITS_BYTEWISE_def FILL_BITS_WORDWISE_def mem_def)
qed

lemma ensure_pos:
  assumes "at_pos c k s p" "n \<le> MAX_ENSURE"
  shows "\<exists>s'. ensure_bits c n s = (Inr (), s') \<and> at_pos c n s' p \<and> mem s' = mem s"
proof -
  obtain o0 where o: "bits_ok (src_bytes c) o0 s" "at_bit o0 s = p" "o0 = 0 \<or> 8 * length (src_bytes c) < p + 32"
    using assms(1) by (auto simp: at_pos_def)
  note e = ENSURE_BITS_ok [OF o(1) assms(2), of "little_endian c \<and> fast_unaligned c"]
  let ?s = "ENSURE_BITS (little_endian c \<and> fast_unaligned c) (src_bytes c) n s"
  have "at_pos c n ?s p" using e o unfolding at_pos_def by blast
  then show ?thesis by (simp add: ensure_bits_def modify_def ENSURE_frame)
qed

lemma remove_pos:
  assumes "at_pos c k s p" "n \<le> k"
  shows "at_pos c (k - n) (REMOVE_BITS n s) (p + n)" "mem (REMOVE_BITS n s) = mem s"
proof -
  obtain o0 where o: "bits_ok (src_bytes c) o0 s" "at_bit o0 s = p" "o0 = 0 \<or> 8 * length (src_bytes c) < p + 32" "k \<le> bitsleft s"
    using assms(1) by (auto simp: at_pos_def)
  note r = REMOVE_BITS_ok [OF o(1) le_trans [OF assms(2) o(4)]]
  show "at_pos c (k - n) (REMOVE_BITS n s) (p + n)" unfolding at_pos_def using r o by auto
  show "mem (REMOVE_BITS n s) = mem s" by (simp add: REMOVE_BITS_def mem_def)
qed

lemma bits_pos:
  assumes "at_pos c k s p" "n \<le> k" "n < 32"
  shows "unat (BITS n s) = bits_num (src_bytes c) p n"
proof -
  obtain o0 where o: "bits_ok (src_bytes c) o0 s" "at_bit o0 s = p" "k \<le> bitsleft s" using assms(1) by (auto simp: at_pos_def)
  then show ?thesis using BITS_unat [OF o(1) le_trans [OF assms(2) o(3)] assms(3)] by (simp add: bits_num_def)
qed

lemma pop_pos:
  assumes "at_pos c k s p" "n \<le> k" "n < 32"
  shows "\<exists>s'. POP_BITS n s = (Inr (bits_num (src_bytes c) p n), s') \<and> at_pos c (k - n) s' (p + n) \<and> mem s' = mem s"
  using remove_pos [OF assms(1,2)] bits_pos [OF assms] by (simp add: POP_BITS_def)

lemma bits_num_take: "n \<le> m \<Longrightarrow> take_bit n (bits_num inp p m) = bits_num inp p n"
  by (rule bit_eqI) (auto simp: bits_num_def bit_take_bit_iff bit_num_of nth_bits_at)

lemma bits_num_drop: "take_bit n (drop_bit i (bits_num inp p m)) = bits_num inp (p + i) n" if "i + n \<le> m"
  using that by (intro bit_eqI) (auto simp: bits_num_def bit_take_bit_iff bit_drop_bit_eq bit_num_of nth_bits_at add.assoc)

lemma bits_num_less: "bits_num inp p n < 2 ^ n"
  using num_of_bound [of "bits_at inp p n"] by (simp add: bits_num_def)

section \<open>A codeword\<close>

lemma code_symbol_decode: "decode_sym lens res R = (res ! fst (code_symbol lens R), snd (code_symbol lens R))"
  by (auto simp: decode_sym_def code_symbol_def split: option.splits)

lemma code_symbol_bounds:
  assumes "\<forall>l \<in> set lens. l \<le> M" "0 < length lens" "1 \<le> M"
  shows "fst (code_symbol lens R) < length lens" "snd (code_symbol lens R) \<le> M"
proof -
  have "fst (code_symbol lens R) < length lens \<and> snd (code_symbol lens R) \<le> M"
  proof (cases "find (has_codeword lens R) [0..<length lens]")
    case None
    then show ?thesis using assms by (simp add: code_symbol_def)
  next
    case (Some s)
    then have "s < length lens" by (auto simp: find_Some_iff)
    then show ?thesis using Some assms(1) by (simp add: code_symbol_def)
  qed
  then show "fst (code_symbol lens R) < length lens" "snd (code_symbol lens R) \<le> M" by simp_all
qed

lemma andthen_at_array [simp]:
  "andthen (at_array f i) g s = (case aget (f s) (int i) of Inl e \<Rightarrow> (Inl e, s) | Inr x \<Rightarrow> g x s)"
  by (simp add: at_array_def andthen_def gets_def split: sum.splits)

text \<open>What \<open>decode_entry\<close> gives, for a table that decodes a code.\<close>

lemma decode_entry_pos:
  assumes t: "\<forall>R < 2 ^ 15. lookup_bits (f s) tb R = Inr (decode_sym lens res R)" and p: "at_pos c k s p" "15 \<le> k"
    and tb: "tb \<le> 15" and f: "\<And>s'. mem s' = mem s \<Longrightarrow> f s' = f s" and l: "\<forall>l \<in> set lens. l \<le> 15" "0 < length lens"
    and sl: "code_symbol lens (bits_num (src_bytes c) p 15) = (sy, l)"
  shows "\<exists>e s'. decode_entry f tb s = (Inr e, s') \<and> drop_bit 8 e = res ! sy \<and> at_pos c (k - 15) s' (p + l) \<and> mem s' = mem s"
proof -
  let ?R = "bits_num (src_bytes c) p 15"
  have l15: "l \<le> 15" using code_symbol_bounds [OF l(1,2), of ?R] sl by simp
  have lk: "lookup_bits (f s) tb ?R = Inr (res ! sy, l)"
    using t bits_num_less [of "src_bytes c" p 15] sl by (simp add: code_symbol_decode)
  have i: "unat (BITS tb s) = take_bit tb ?R" using bits_pos [OF p(1), of tb] p(2) tb by (simp add: bits_num_take)
  obtain e where e: "aget (f s) (int (take_bit tb ?R)) = Inr e" using lk by (auto simp: lookup_bits_def)
  have first: "decode_entry f tb s = andthen (if e AND HUFFDEC_SUBTABLE_POINTER \<noteq> 0 then
          andthen (modify (REMOVE_BITS tb)) (\<lambda>_.
          andthen (gets (\<lambda>s. unat (BITS (unat (e AND HUFFDEC_LENGTH_MASK)) s))) (\<lambda>x.
            at_array f (unat (drop_bit 8 e AND 0xFFFF) + x)))
        else ret e) (\<lambda>e. andthen (modify (REMOVE_BITS (unat (e AND HUFFDEC_LENGTH_MASK)))) (\<lambda>_. ret e)) s"
    using e by (simp add: decode_entry_def i)
  show ?thesis
  proof (cases "e AND HUFFDEC_SUBTABLE_POINTER = 0")
    case True
    then have r: "drop_bit 8 e = res ! sy" "unat (e AND HUFFDEC_LENGTH_MASK) = l" using lk e by (simp_all add: lookup_bits_def)
    have "decode_entry f tb s = (Inr e, REMOVE_BITS l s)" unfolding first using True r by simp
    moreover have "at_pos c (k - 15) (REMOVE_BITS l s) (p + l)" using remove_pos(1) [OF p(1), of l] l15 p(2) by (auto intro: at_pos_le)
    ultimately show ?thesis using r remove_pos(2) [OF p(1), of l] l15 p(2) by auto
  next
    case False
    let ?n = "unat (e AND HUFFDEC_LENGTH_MASK)" and ?s1 = "REMOVE_BITS tb s"
    obtain e' where n: "tb + ?n \<le> 15"
      and e': "aget (f s) (int (unat (drop_bit 8 e AND 0xFFFF) + take_bit ?n (drop_bit tb ?R))) = Inr e'"
        "drop_bit 8 e' = res ! sy" "tb + unat (e' AND HUFFDEC_LENGTH_MASK) = l"
      using lk e False by (auto simp: lookup_bits_def Let_def split: if_splits)
    have s1: "at_pos c (k - tb) ?s1 (p + tb)" "mem ?s1 = mem s" using remove_pos [OF p(1)] p(2) tb by simp_all
    have b: "unat (BITS ?n ?s1) = take_bit ?n (drop_bit tb ?R)"
      using bits_pos [OF s1(1), of ?n] n p(2) by (simp add: bits_num_drop)
    have "at_array f (unat (drop_bit 8 e AND 0xFFFF) + unat (BITS ?n ?s1)) ?s1 = (Inr e', ?s1)"
      using e'(1) f [OF s1(2)] unfolding b by (simp add: at_array_def)
    then have "decode_entry f tb s = (Inr e', REMOVE_BITS (l - tb) ?s1)"
      unfolding first using False e'(3) by (auto simp: andthen_def modify_def gets_def)
    moreover have "at_pos c (k - 15) (REMOVE_BITS (l - tb) ?s1) (p + l)" "mem (REMOVE_BITS (l - tb) ?s1) = mem s"
    proof -
      have "l - tb \<le> k - tb" "p + tb + (l - tb) = p + l" "k - 15 \<le> k - tb - (l - tb)" using l15 p(2) e'(3) by linarith+
      then show "at_pos c (k - 15) (REMOVE_BITS (l - tb) ?s1) (p + l)" "mem (REMOVE_BITS (l - tb) ?s1) = mem s"
        using remove_pos [OF s1(1), of "l - tb"] s1(2) by (auto intro: at_pos_le)
    qed
    ultimately show ?thesis using e'(2) by blast
  qed
qed

section \<open>The output\<close>

definition at_out :: "nat \<Rightarrow> dstate \<Rightarrow> byte list \<Rightarrow> bool" where
  "at_out cap s out \<longleftrightarrow> length (outbuf s) = cap \<and> out_next s = length out \<and> length out \<le> cap \<and> take (length out) (outbuf s) = out"

lemma at_out_mem: "mem s' = mem s \<Longrightarrow> at_out cap s' out \<longleftrightarrow> at_out cap s out"
  by (simp add: at_out_def mem_def)

lemma put_literal_run:
  assumes "at_out cap s out"
  shows "if length out < cap
    then \<exists>b. put_literal x s = (Inr (), s\<lparr>outbuf := b, out_next := length out + 1\<rparr>) \<and>
      at_out cap (s\<lparr>outbuf := b, out_next := length out + 1\<rparr>) (out @ [x])
    else fst (put_literal x s) = Inl INSUFFICIENT_SPACE"
proof (cases "length out < cap")
  case True
  note O = assms [unfolded at_out_def]
  have "put_literal x s = (Inr (), s\<lparr>outbuf := (outbuf s)[length out := x], out_next := length out + 1\<rparr>)"
    using True O by (simp add: put_literal_def modify_def)
  moreover have "take (length out + 1) ((outbuf s)[length out := x]) = out @ [x]"
    using True O by (simp add: take_Suc_conv_app_nth take_update_cancel)
  ultimately show ?thesis using True O by (intro if_P [THEN iffD2]) (auto simp: at_out_def)
next
  case False
  then show ?thesis using assms by (simp add: at_out_def put_literal_def)
qed

lemma put_match_run:
  assumes o: "at_out cap s out" and d: "1 \<le> d" and l: "3 \<le> len" "len \<le> cap - length out"
  shows "if d \<le> length out
    then \<exists>b. put_match c len d s = (Inr (), s\<lparr>outbuf := b, out_next := length out + len\<rparr>) \<and>
      at_out cap (s\<lparr>outbuf := b, out_next := length out + len\<rparr>) (append_match len d out)
    else fst (put_match c len d s) = Inl BAD_DATA"
proof (cases "d \<le> length out")
  case True
  note O = o [unfolded at_out_def]
  have "length out + len \<le> length (outbuf s)" using O l by linarith
  from copy_match_run [OF d True this l(1), of "fast_unaligned c"] obtain b where
    b: "copy_match (fast_unaligned c) len d (length out) (outbuf s) = Inr b" "length b = length (outbuf s)"
      "take (length out + len) b = append_match len d (take (length out) (outbuf s))" by blast
  have "put_match c len d s = (Inr (), s\<lparr>outbuf := b, out_next := length out + len\<rparr>)"
    using True O b(1) by (simp add: put_match_def SAFETY_CHECK_def modify_def)
  moreover have "at_out cap (s\<lparr>outbuf := b, out_next := length out + len\<rparr>) (append_match len d out)"
    using O b(2,3) l by (simp add: at_out_def)
  ultimately show ?thesis using True by auto
next
  case False
  then show ?thesis using o by (simp add: at_out_def put_match_def SAFETY_CHECK_def)
qed

section \<open>The main loop\<close>

definition decodes15 :: "32 word list \<Rightarrow> nat \<Rightarrow> nat list \<Rightarrow> 32 word list \<Rightarrow> bool" where
  "decodes15 t tb lens res \<longleftrightarrow> (\<forall>R < 2 ^ 15. lookup_bits t tb R = Inr (decode_sym lens res R)) \<and> (\<forall>l \<in> set lens. l \<le> 15)"

definition same_arrays :: "dstate \<Rightarrow> dstate \<Rightarrow> bool" where
  "same_arrays s s' \<longleftrightarrow> precode_lens s' = precode_lens s \<and> code_lens s' = code_lens s \<and> precode_decode_table s' = precode_decode_table s \<and>
     offset_decode_table s' = offset_decode_table s \<and> litlen_decode_table s' = litlen_decode_table s"

lemma same_arrays_mem: "mem s' = mem s \<Longrightarrow> same_arrays s s'"
  by (simp add: same_arrays_def mem_def)

lemma same_arrays_trans: "same_arrays s s1 \<Longrightarrow> same_arrays s1 s2 \<Longrightarrow> same_arrays s s2"
  by (simp add: same_arrays_def)

lemma same_arrays_upd [simp]: "same_arrays s (s1\<lparr>outbuf := b, out_next := n\<rparr>) \<longleftrightarrow> same_arrays s s1"
  by (simp add: same_arrays_def)

lemma literal_bit: "e AND HUFFDEC_LITERAL = 0 \<longleftrightarrow> \<not> bit (drop_bit 8 e :: 32 word) 22"
proof -
  have "e AND 2 ^ 30 = 0 \<longleftrightarrow> \<not> bit e 30" by (rule and_exp_eq_0_iff_not_bit)
  then show ?thesis by (simp add: bit_drop_bit_eq)
qed

lemma bits_num_0 [simp]: "bits_num inp p 0 = 0"
  by (simp add: bits_num_def bits_at_def)

text \<open>What is decoded after an entry that is no literal.\<close>

lemma length_result:
  assumes "sy < 288" "256 < sy" "length_codes ! (sy - 257) = (b, x)"
  shows "\<not> bit (litlen_decode_results ! sy) 22" "unat (drop_bit 8 (litlen_decode_results ! sy)) = b"
    "unat (litlen_decode_results ! sy AND 0xFF) = x" "3 \<le> b" "b < 2 ^ 9" "x \<le> 5"
proof -
  have "(b, x) \<in> set length_codes" using assms nth_mem [of "sy - 257" length_codes] length_codes_ok(2) by simp
  then show b: "3 \<le> b" "b < 2 ^ 9" "x \<le> 5" using length_codes_ok(1) by auto
  have "sy - 256 = Suc (sy - 257)" using assms by simp
  then have "litlen_decode_results ! sy = length_entry (b, x)"
    using assms length_codes_ok(2) by (simp add: litlen_results nth_append)
  then show "\<not> bit (litlen_decode_results ! sy) 22" "unat (drop_bit 8 (litlen_decode_results ! sy)) = b"
    "unat (litlen_decode_results ! sy AND 0xFF) = x" using unpack_length [of b x] b by simp_all
qed

lemma offset_result:
  assumes "sy < 32" "distance_codes ! sy = (b, x)"
  shows "unat (offset_decode_results ! sy AND 0xFFFF) = b" "unat (drop_bit 16 (offset_decode_results ! sy)) = x" "1 \<le> b" "x \<le> 14"
proof -
  have "(b, x) \<in> set distance_codes" using assms nth_mem [of sy distance_codes] distance_codes_ok(2) by simp
  then have b: "1 \<le> b" "b < 2 ^ 16" "x \<le> 14" using distance_codes_ok(1) by auto
  moreover have "offset_decode_results ! sy = offset_entry (b, x)" using assms distance_codes_ok(2) by (simp add: offset_results)
  ultimately show "unat (offset_decode_results ! sy AND 0xFFFF) = b" "unat (drop_bit 16 (offset_decode_results ! sy)) = x" "1 \<le> b" "x \<le> 14"
    using unpack_offset [of b x] by simp_all
qed

lemma literal_result: "sy < 256 \<Longrightarrow> litlen_decode_results ! sy = literal_entry sy"
  by (simp add: litlen_results nth_append)

lemma end_result: "litlen_decode_results ! 256 = length_entry (0, 0)"
  by (simp add: litlen_results nth_append)

lemma andthen_run: "m s = (Inr x, s') \<Longrightarrow> andthen m f s = f x s'"
  by (simp add: andthen_def)

lemma andthen_stop: "fst (m s) = Inl e \<Longrightarrow> fst (andthen m f s) = Inl e"
  by (cases "m s") (simp add: andthen_def)

text \<open>The end-of-block length is zero, and one less is the largest \<open>size_t\<close>.\<close>

lemma room_test: "len < 2 ^ 63 \<Longrightarrow> room < 2 ^ 64 \<Longrightarrow> int room \<le> u64 (int len - 1) \<longleftrightarrow> len = 0 \<or> room < len"
proof (cases len)
  case (Suc n)
  assume "len < 2 ^ 63" "room < 2 ^ 64"
  then have "u64 (int len - 1) = int n" using Suc by (simp add: u64_def)
  then show ?thesis using Suc by auto
next
  case 0
  assume r: "room < 2 ^ 64"
  have "u64 (- 1) = 2 ^ 64 - 1" by (simp add: u64_def)
  then show ?thesis using 0 r by simp
qed

definition codes_ok :: "nat list \<Rightarrow> nat list \<Rightarrow> nat \<Rightarrow> dstate \<Rightarrow> bool" where
  "codes_ok ll ol cap s \<longleftrightarrow> decodes15 (litlen_decode_table s) 10 ll litlen_decode_results \<and>
     decodes15 (offset_decode_table s) 8 ol offset_decode_results \<and>
     0 < length ll \<and> length ll \<le> 288 \<and> 0 < length ol \<and> length ol \<le> 32 \<and> cap < 2 ^ 64"

lemma codes_ok_same: "same_arrays s s' \<Longrightarrow> codes_ok ll ol cap s \<Longrightarrow> codes_ok ll ol cap s'"
  by (simp add: codes_ok_def same_arrays_def)

definition loop_post :: "dsource \<Rightarrow> nat \<Rightarrow> dstate \<Rightarrow> unit \<Rightarrow> dstate \<Rightarrow> nat \<times> byte list \<Rightarrow> bool" where
  "loop_post c cap s x s' = (\<lambda>(p', out'). at_pos c 0 s' p' \<and> at_out cap s' out' \<and> same_arrays s s')"

lemma litlen_mem: "mem s' = mem s \<Longrightarrow> litlen_decode_table s' = litlen_decode_table s"
  and offset_mem: "mem s' = mem s \<Longrightarrow> offset_decode_table s' = offset_decode_table s"
  and precode_mem: "mem s' = mem s \<Longrightarrow> precode_decode_table s' = precode_decode_table s"
  by (simp_all add: mem_def)

text \<open>The litlen symbol.\<close>

lemma litlen_entry:
  assumes p: "at_pos c 0 s p" and t: "codes_ok ll ol cap s" and sl: "code_symbol ll (bits_num (src_bytes c) p 15) = (sy, l)"
  shows "\<exists>e s'. andthen (ensure_bits c 15) (\<lambda>_. decode_entry litlen_decode_table 10) s = (Inr e, s') \<and>
    drop_bit 8 e = litlen_decode_results ! sy \<and> at_pos c 0 s' (p + l) \<and> mem s' = mem s \<and> sy < 288"
proof -
  note T = t [unfolded codes_ok_def decodes15_def]
  obtain s1 where s1: "ensure_bits c 15 s = (Inr (), s1)" "at_pos c 15 s1 p" "mem s1 = mem s" using ensure_pos [OF p, of 15] by auto
  have tab: "litlen_decode_table s1 = litlen_decode_table s" using s1(3) by (simp add: mem_def)
  have "\<exists>e s2. decode_entry litlen_decode_table 10 s1 = (Inr e, s2) \<and> drop_bit 8 e = litlen_decode_results ! sy \<and>
      at_pos c (15 - 15) s2 (p + l) \<and> mem s2 = mem s1"
  proof (rule decode_entry_pos [OF _ s1(2) order_refl _ litlen_mem _ _ sl])
    show "\<forall>R < 2 ^ 15. lookup_bits (litlen_decode_table s1) 10 R = Inr (decode_sym ll litlen_decode_results R)" unfolding tab using T by blast
    show "\<forall>l \<in> set ll. l \<le> 15" using T by blast
  qed (use T in simp_all)
  then obtain e s2 where "decode_entry litlen_decode_table 10 s1 = (Inr e, s2)" "drop_bit 8 e = litlen_decode_results ! sy"
      "at_pos c 0 s2 (p + l)" "mem s2 = mem s1" by auto
  moreover have "sy < 288" using code_symbol_bounds(1) [of ll 15 "bits_num (src_bytes c) p 15"] T sl by simp
  ultimately show ?thesis using s1 by (simp add: andthen_run [of "ensure_bits c 15"])
qed

text \<open>The offset, after the extra bits of the length.\<close>

lemma offset_entry_run:
  assumes p: "at_pos c k s p" "15 + 14 \<le> k" and t: "codes_ok ll ol cap s" and sl: "code_symbol ol (bits_num (src_bytes c) p 15) = (sy, l)"
    and bx: "distance_codes ! sy = (b, x)"
  shows "\<exists>e s' s2 r. decode_entry offset_decode_table 8 s = (Inr e, s') \<and> drop_bit 8 e = r \<and>
    POP_BITS (unat (drop_bit 16 r)) s' = (Inr (bits_num (src_bytes c) (p + l) x), s2) \<and>
    unat (r AND 0xFFFF) = b \<and> at_pos c 0 s2 (p + l + x) \<and> mem s2 = mem s \<and> 1 \<le> b"
proof -
  note T = t [unfolded codes_ok_def decodes15_def]
  have k15: "15 \<le> k" using p(2) by simp
  have "\<exists>e s'. decode_entry offset_decode_table 8 s = (Inr e, s') \<and> drop_bit 8 e = offset_decode_results ! sy \<and>
      at_pos c (k - 15) s' (p + l) \<and> mem s' = mem s"
  proof (rule decode_entry_pos [OF _ p(1) k15 _ offset_mem _ _ sl])
    show "\<forall>R < 2 ^ 15. lookup_bits (offset_decode_table s) 8 R = Inr (decode_sym ol offset_decode_results R)" using T by blast
    show "\<forall>l \<in> set ol. l \<le> 15" using T by blast
  qed (use T in simp_all)
  then obtain e s' where e: "decode_entry offset_decode_table 8 s = (Inr e, s')" "drop_bit 8 e = offset_decode_results ! sy"
      "at_pos c (k - 15) s' (p + l)" "mem s' = mem s" by blast
  have "sy < 32" using code_symbol_bounds(1) [of ol 15 "bits_num (src_bytes c) p 15"] T sl by simp
  note o = offset_result [OF this bx]
  have x: "x \<le> k - 15" "x < 32" using o(4) p(2) by linarith+
  obtain s2 where "POP_BITS x s' = (Inr (bits_num (src_bytes c) (p + l) x), s2)" "at_pos c (k - 15 - x) s2 (p + l + x)" "mem s2 = mem s'"
    using pop_pos [OF e(3) x] by blast
  then show ?thesis using e o at_pos_le [of c "k - 15 - x" s2 "p + l + x" 0] by (metis le0)
qed

text \<open>One symbol of the reference.\<close>

lemma codes_symbol:
  assumes sl: "code_symbol ll (bits_num inp p 15) = (sy, l)"
  shows "sy < 256 \<Longrightarrow> inflate_codes inp ll ol cap p out =
      (if length out < cap then inflate_codes inp ll ol cap (p + l) (out @ [of_nat sy]) else Inl INSUFFICIENT_SPACE)"
    "sy = 256 \<Longrightarrow> inflate_codes inp ll ol cap p out = Inr (p + l, out)"
    "256 < sy \<Longrightarrow> length_codes ! (sy - 257) = (b, x) \<Longrightarrow> len = b + bits_num inp (p + l) x \<Longrightarrow>
      code_symbol ol (bits_num inp (p + l + x) 15) = (sy', l') \<Longrightarrow> distance_codes ! sy' = (b', x') \<Longrightarrow>
      dist = b' + bits_num inp (p + l + x + l') x' \<Longrightarrow>
      inflate_codes inp ll ol cap p out =
        (if 0 < len \<and> len \<le> cap - length out then
           if dist \<le> length out then inflate_codes inp ll ol cap (p + l + x + l' + x') (append_match len dist out) else Inl BAD_DATA
         else Inl INSUFFICIENT_SPACE)"
  using sl by (subst inflate_codes.simps, simp add: Let_def)+

text \<open>What a round of the loop does after the litlen symbol.\<close>

definition after_litlen :: "dsource \<Rightarrow> nat \<Rightarrow> 32 word \<Rightarrow> (unit, dstate) act" where
  "after_litlen c k entry =
      (if entry AND HUFFDEC_LITERAL \<noteq> 0 then
         andthen (put_literal (ucast (drop_bit HUFFDEC_RESULT_SHIFT entry))) (\<lambda>_. decode_loop c k)
       else
         let entry = drop_bit HUFFDEC_RESULT_SHIFT entry in
         andthen (ensure_bits c MAX_ENSURE) (\<lambda>_.
         andthen (POP_BITS (unat (entry AND 0xFF))) (\<lambda>x.
         let len = unat (drop_bit 8 entry) + x in
         andthen (gets (\<lambda>s. length (outbuf s) - out_next s)) (\<lambda>room.
           if int room \<le> u64 (int len - 1) then
             if len \<noteq> 0 then fail INSUFFICIENT_SPACE else ret ()
           else
             andthen (decode_entry offset_decode_table 8) (\<lambda>entry.
             let entry = drop_bit HUFFDEC_RESULT_SHIFT entry in
             andthen (POP_BITS (unat (drop_bit 16 entry))) (\<lambda>x.
             let offset = unat (entry AND 0xFFFF) + x in
             andthen (put_match c len offset) (\<lambda>_. decode_loop c k)))))))"

lemma decode_loop_run:
  assumes "andthen (ensure_bits c 15) (\<lambda>_. decode_entry litlen_decode_table 10) s = (Inr e, s1)"
  shows "decode_loop c (Suc k) s = after_litlen c k e s1"
proof -
  have "decode_loop c (Suc k) = andthen (andthen (ensure_bits c 15) (\<lambda>_. decode_entry litlen_decode_table 10)) (after_litlen c k)"
    unfolding after_litlen_def [abs_def] decode_loop.simps(2) andthen_assoc ..
  then show ?thesis using assms by (simp add: andthen_run)
qed

lemma after_length:
  assumes p: "at_pos c 0 s p" "at_out cap s out" and e: "\<not> bit r 22"
    "unat (drop_bit 8 r) = b" "unat (r AND 0xFF) = x" "b < 2 ^ 9" "x \<le> 5" and r: "drop_bit 8 e = r"
    and len: "len = b + bits_num (src_bytes c) p x" and cap: "cap < 2 ^ 64"
  shows "\<exists>s'. at_pos c 52 s' (p + x) \<and> mem s' = mem s \<and> after_litlen c k e s =
      (if len = 0 \<or> cap - length out < len then if len \<noteq> 0 then fail INSUFFICIENT_SPACE else ret ()
       else andthen (decode_entry offset_decode_table 8) (\<lambda>entry.
             let entry = drop_bit HUFFDEC_RESULT_SHIFT entry in
             andthen (POP_BITS (unat (drop_bit 16 entry))) (\<lambda>x.
             let offset = unat (entry AND 0xFFFF) + x in
             andthen (put_match c len offset) (\<lambda>_. decode_loop c k)))) s'"
proof -
  obtain s1 where s1: "ensure_bits c MAX_ENSURE s = (Inr (), s1)" "at_pos c MAX_ENSURE s1 p" "mem s1 = mem s"
    using ensure_pos [OF p(1), of MAX_ENSURE] by auto
  obtain s2 where s2: "POP_BITS x s1 = (Inr (bits_num (src_bytes c) p x), s2)" "at_pos c (MAX_ENSURE - x) s2 (p + x)" "mem s2 = mem s1"
    using pop_pos [OF s1(2), of x] e(5) by auto
  have o: "length (outbuf s2) - out_next s2 = cap - length out"
    using at_out_mem [of s2 s cap out] s1(3) s2(3) p(2) by (simp add: at_out_def)
  have "bits_num (src_bytes c) p x < 2 ^ 5"
    using bits_num_less [of "src_bytes c" p x] power_increasing [OF e(5), of "2::nat"] by linarith
  then have l: "len < 2 ^ 63" using len e(4) by simp
  have room: "int (cap - length out) \<le> u64 (int len - 1) \<longleftrightarrow> len = 0 \<or> cap - length out < len"
    by (rule room_test) (use l cap in auto)
  have lit: "e AND HUFFDEC_LITERAL = 0" using e(1) r literal_bit [of e] by simp
  then have "after_litlen c k e s =
      (if len = 0 \<or> cap - length out < len then if len \<noteq> 0 then fail INSUFFICIENT_SPACE else ret ()
       else andthen (decode_entry offset_decode_table 8) (\<lambda>entry.
             let entry = drop_bit HUFFDEC_RESULT_SHIFT entry in
             andthen (POP_BITS (unat (drop_bit 16 entry))) (\<lambda>x.
             let offset = unat (entry AND 0xFFFF) + x in
             andthen (put_match c len offset) (\<lambda>_. decode_loop c k)))) s2"
    unfolding after_litlen_def
    by (simp only: lit r Let_def andthen_run [of "ensure_bits c MAX_ENSURE", OF s1(1)] e(2,3) andthen_run [of "POP_BITS x", OF s2(1)]
        andthen_gets o room len [symmetric] simp_thms if_False)
  moreover have "at_pos c 52 s2 (p + x)" using s2(2) e(5) by (auto intro: at_pos_le)
  ultimately show ?thesis using trans [OF s2(3) s1(3)] by (intro exI conjI)
qed

lemma decode_loop_ok:
  "at_pos c 0 s p \<Longrightarrow> at_out cap s out \<Longrightarrow> codes_ok ll ol cap s \<Longrightarrow> cap - length out < k \<Longrightarrow>
    refines (decode_loop c k) s (inflate_codes (src_bytes c) ll ol cap p out) (loop_post c cap s)"
proof (induction k arbitrary: s p out)
  case (Suc k)
  let ?inp = "src_bytes c"
  obtain sy l where sl: "code_symbol ll (bits_num ?inp p 15) = (sy, l)" by force
  obtain e s1 where e: "andthen (ensure_bits c 15) (\<lambda>_. decode_entry litlen_decode_table 10) s = (Inr e, s1)"
      "drop_bit 8 e = litlen_decode_results ! sy" "at_pos c 0 s1 (p + l)" "mem s1 = mem s" and sy: "sy < 288"
    using litlen_entry [OF Suc.prems(1,3) sl] by blast
  have o1: "at_out cap s1 out" using at_out_mem [OF e(4)] Suc.prems(2) by simp
  have a1: "same_arrays s s1" by (rule same_arrays_mem [OF e(4)])
  have cap64: "cap < 2 ^ 64" using Suc.prems(3) by (simp add: codes_ok_def)
  have step: "refines (decode_loop c k) s2 (inflate_codes ?inp ll ol cap p2 out2) (loop_post c cap s)"
    if "at_pos c 0 s2 p2" "at_out cap s2 out2" "same_arrays s s2" "length out < length out2" "length out2 \<le> cap" for s2 p2 out2
  proof (rule refines_mono)
    show "refines (decode_loop c k) s2 (inflate_codes ?inp ll ol cap p2 out2) (loop_post c cap s2)"
      by (rule Suc.IH [OF that(1,2) codes_ok_same [OF that(3) Suc.prems(3)]]) (use that(4,5) Suc.prems(4) in linarith)
  qed (use that(3) in \<open>auto simp: loop_post_def intro: same_arrays_trans\<close>)
  consider "sy < 256" | "sy = 256" | "256 < sy" by linarith
  then have "refines (after_litlen c k e) s1 (inflate_codes ?inp ll ol cap p out) (loop_post c cap s)"
  proof cases
    case 1
    have r: "drop_bit 8 e = literal_entry sy" "e AND HUFFDEC_LITERAL \<noteq> 0"
      using e(2) literal_result [OF 1] unpack_literal(1) [OF 1] literal_bit [of e] by simp_all
    then have run: "after_litlen c k e = andthen (put_literal (of_nat sy)) (\<lambda>_. decode_loop c k)"
      by (simp add: after_litlen_def unpack_literal(2) [OF 1])
    note put = put_literal_run [OF o1, of "of_nat sy"]
    show ?thesis
    proof (cases "length out < cap")
      case True
      then obtain b where b: "put_literal (of_nat sy) s1 = (Inr (), s1\<lparr>outbuf := b, out_next := length out + 1\<rparr>)"
          "at_out cap (s1\<lparr>outbuf := b, out_next := length out + 1\<rparr>) (out @ [of_nat sy])" using put by auto
      show ?thesis unfolding run codes_symbol(1) [OF sl 1] if_P [OF True]
        by (rule refines_step, rule b(1), rule step [OF _ b(2)]) (use e(3) a1 True in simp_all)
    next
      case False
      then show ?thesis using put andthen_stop unfolding run codes_symbol(1) [OF sl 1] by simp
    qed
  next
    case 2
    have r0: "drop_bit 8 e = length_entry (0, 0)" using e(2) 2 end_result by simp
    have r: "\<not> bit (length_entry (0, 0)) 22" "unat (drop_bit 8 (length_entry (0, 0))) = 0" "unat (length_entry (0, 0) AND 0xFF) = 0"
      by (rule unpack_length; simp)+
    obtain s2 where s2: "at_pos c 52 s2 (p + l + 0)" "mem s2 = mem s1" "after_litlen c k e s1 = ret () s2"
      using after_length [OF e(3) o1 r _ _ r0 refl cap64, of k] by auto
    then show ?thesis using codes_symbol(2) [OF sl 2] at_pos_le [OF s2(1), of 0] at_out_mem [OF s2(2)] o1 
        same_arrays_trans [OF a1 same_arrays_mem [OF s2(2)]]
      by (simp add: loop_post_def ret_def)
  next
    case 3
    obtain b x where bx: "length_codes ! (sy - 257) = (b, x)" by force
    note r = length_result [OF sy 3 bx]
    define len where "len = b + bits_num ?inp (p + l) x"
    obtain s2 where s2: "at_pos c 52 s2 (p + l + x)" "mem s2 = mem s1" and run: "after_litlen c k e s1 =
      (if len = 0 \<or> cap - length out < len then if len \<noteq> 0 then fail INSUFFICIENT_SPACE else ret ()
       else andthen (decode_entry offset_decode_table 8) (\<lambda>entry.
             let entry = drop_bit HUFFDEC_RESULT_SHIFT entry in
             andthen (POP_BITS (unat (drop_bit 16 entry))) (\<lambda>x.
             let offset = unat (entry AND 0xFFFF) + x in
             andthen (put_match c len offset) (\<lambda>_. decode_loop c k)))) s2"
      using after_length [OF e(3) o1 r(1-3) r(5,6) e(2) len_def cap64, of k] by blast
    have a2: "same_arrays s s2" by (rule same_arrays_trans [OF a1 same_arrays_mem [OF s2(2)]])
    have o2: "at_out cap s2 out" using at_out_mem [OF s2(2)] o1 by simp
    obtain sy' l' where sl': "code_symbol ol (bits_num ?inp (p + l + x) 15) = (sy', l')" by force
    obtain b' x' where bx': "distance_codes ! sy' = (b', x')" by force
    define dist where "dist = b' + bits_num ?inp (p + l + x + l') x'"
    note spec = codes_symbol(3) [OF sl 3 bx len_def sl' bx' dist_def, of cap out]
    have len: "3 \<le> len" using r(4) by (simp add: len_def)
    show ?thesis
    proof (cases "len \<le> cap - length out")
      case True
      obtain e' s3 s4 r' where e': "decode_entry offset_decode_table 8 s2 = (Inr e', s3)" "drop_bit 8 e' = r'"
          "POP_BITS (unat (drop_bit 16 r')) s3 = (Inr (bits_num ?inp (p + l + x + l') x'), s4)" "unat (r' AND 0xFFFF) = b'"
          "at_pos c 0 s4 (p + l + x + l' + x')" "mem s4 = mem s2" "1 \<le> b'"
        using offset_entry_run [OF s2(1) _ codes_ok_same [OF a2 Suc.prems(3)] sl' bx'] by auto
      have run': "after_litlen c k e s1 = andthen (put_match c len dist) (\<lambda>_. decode_loop c k) s4"
        using run True len e'(2,4) by (simp add: andthen_run [of "decode_entry offset_decode_table 8", OF e'(1)] andthen_run [of "POP_BITS (unat (drop_bit 16 r'))", OF e'(3)] dist_def Let_def del: drop_bit_drop_bit)
      have o4: "at_out cap s4 out" using at_out_mem [OF e'(6)] o2 by simp
      have a4: "same_arrays s s4" by (rule same_arrays_trans [OF a2 same_arrays_mem [OF e'(6)]])
      have "1 \<le> dist" using e'(7) by (simp add: dist_def)
      note put = put_match_run [OF o4 this len True, of c]
      have c: "0 < len \<and> len \<le> cap - length out" using len True by simp
      show ?thesis
      proof (cases "dist \<le> length out")
        case d: True
        then obtain bu where b: "put_match c len dist s4 = (Inr (), s4\<lparr>outbuf := bu, out_next := length out + len\<rparr>)"
            "at_out cap (s4\<lparr>outbuf := bu, out_next := length out + len\<rparr>) (append_match len dist out)" using put by auto
        show ?thesis unfolding refines_def run' spec if_P [OF c] if_P [OF d] unfolding refines_def [symmetric]
          by (rule refines_step, rule b(1), rule step [OF _ b(2)]) (use e'(5) a4 len True in simp_all)
      next
        case False
        then show ?thesis using put andthen_stop unfolding refines_def run' spec if_P [OF c] if_not_P [OF False] by simp
      qed
    next
      case False
      then have c: "\<not> (0 < len \<and> len \<le> cap - length out)" by simp
      show ?thesis using False len unfolding spec if_not_P [OF c] by (simp add: run fail_def)
    qed
  qed
  then show ?case unfolding refines_def decode_loop_run [OF e(1)] .
qed simp

end
