(* ===== verification/DeflateLens.thy ===== *)
theory DeflateLens
  imports DeflateRefine
begin

text \<open>The codeword lengths of a dynamic block: what \<open>expand_lens\<close> and the header read is what the reference reads.\<close>

lemma refines_run: "m s = m' s' \<Longrightarrow> refines m' s' r Q \<Longrightarrow> refines m s r Q"
  by (cases r) simp_all

section \<open>A symbol of the precode\<close>

definition decodes7 :: "32 word list \<Rightarrow> nat list \<Rightarrow> bool" where
  "decodes7 t pl \<longleftrightarrow> (\<forall>R < 2 ^ 7. lookup_bits t 7 R = Inr (decode_sym pl precode_decode_results R)) \<and> (\<forall>l \<in> set pl. l \<le> 7) \<and> length pl = 19"

lemma precode_result: "sy < 19 \<Longrightarrow> unat (precode_decode_results ! sy) = sy"
  by (simp add: precode_decode_results_def unat_of_nat)

text \<open>No codeword has more than seven bits, so an entry is never a pointer, which the code does not check.\<close>

lemma direct_entry:
  assumes "lookup_bits t 7 R = Inr (r, l)" "l \<le> 7"
  shows "\<exists>e. aget t (int (take_bit 7 R)) = Inr e \<and> drop_bit 8 e = r \<and> unat (e AND HUFFDEC_LENGTH_MASK) = l"
proof -
  obtain e where e: "aget t (int (take_bit 7 R)) = Inr e" using assms(1) by (auto simp: lookup_bits_def)
  have "0 < unat (e' AND HUFFDEC_LENGTH_MASK)" if "e' AND HUFFDEC_LENGTH_MASK \<noteq> 0" for e' :: "32 word"
    using that by (simp add: unat_gt_0)
  then have "e AND HUFFDEC_SUBTABLE_POINTER = 0" using assms e by (force simp: lookup_bits_def Let_def split: if_splits)
  then show ?thesis using assms(1) e by (simp add: lookup_bits_def)
qed

lemma precode_symbol_pos:
  assumes p: "at_pos c 0 s p" and t: "decodes7 (precode_decode_table s) pl" and sl: "code_symbol pl (bits_num (src_bytes c) p 7) = (sy, l)"
  shows "\<exists>s'. precode_symbol c s = (Inr sy, s') \<and> at_pos c 7 s' (p + l) \<and> mem s' = mem s" "sy < 19"
proof -
  let ?R = "bits_num (src_bytes c) p 7"
  obtain s1 where s1: "ensure_bits c (7 + 7) s = (Inr (), s1)" "at_pos c 14 s1 p" "mem s1 = mem s"
    using ensure_pos [OF p, of 14] by auto
  have b: "fst (code_symbol pl ?R) < length pl" "snd (code_symbol pl ?R) \<le> 7"
    using t code_symbol_bounds [of pl 7 ?R] by (simp_all add: decodes7_def)
  then show sy: "sy < 19" using sl t by (simp add: decodes7_def)
  have l: "l \<le> 7" using b sl by simp
  have R: "?R < 2 ^ 7" by (rule bits_num_less)
  then have "lookup_bits (precode_decode_table s) 7 ?R = Inr (precode_decode_results ! sy, l)"
    using t sl by (simp add: decodes7_def code_symbol_decode)
  from direct_entry [OF this l] obtain e where e: "aget (precode_decode_table s) (int ?R) = Inr e" "drop_bit 8 e = precode_decode_results ! sy"
      "unat (e AND HUFFDEC_LENGTH_MASK) = l" using R by (auto simp: take_bit_nat_eq_self)
  have i: "unat (BITS 7 s1) = ?R" using bits_pos [OF s1(2), of 7] by simp
  have tab: "precode_decode_table s1 = precode_decode_table s" by (rule precode_mem [OF s1(3)])
  have "precode_symbol c s = (Inr sy, REMOVE_BITS l s1)"
    unfolding precode_symbol_def andthen_run [of "ensure_bits c (7 + 7)", OF s1(1)]
    using e i tab by (simp add: precode_result [OF sy] ret_def del: drop_bit_numeral_bit1)
  moreover have "at_pos c 7 (REMOVE_BITS l s1) (p + l)" "mem (REMOVE_BITS l s1) = mem s"
    using remove_pos [OF s1(2), of l] l s1(3) by (auto intro: at_pos_le)
  ultimately show "\<exists>s'. precode_symbol c s = (Inr sy, s') \<and> at_pos c 7 s' (p + l) \<and> mem s' = mem s" by blast
qed

section \<open>The lengths\<close>

definition lens_at :: "dstate \<Rightarrow> nat list \<Rightarrow> bool" where
  "lens_at s ls \<longleftrightarrow> length (code_lens s) = 457 \<and> length ls \<le> 457 \<and> take (length ls) (code_lens s) = ls \<and> (\<forall>l \<in> set ls. l \<le> 15)"

definition but_lens :: "dstate \<Rightarrow> dstate \<Rightarrow> bool" where
  "but_lens s s' \<longleftrightarrow> mem (s'\<lparr>code_lens := code_lens s\<rparr>) = mem s"

lemma but_lens_simps: "mem s' = mem s \<Longrightarrow> but_lens s s'" "but_lens s s1 \<Longrightarrow> but_lens s1 s2 \<Longrightarrow> but_lens s s2"
  "but_lens s (s1\<lparr>code_lens := cl\<rparr>) \<longleftrightarrow> but_lens s s1" "but_lens s s' \<Longrightarrow> precode_decode_table s' = precode_decode_table s"
  by (simp_all add: but_lens_def mem_def)

lemma lens_at_mem: "mem s' = mem s \<Longrightarrow> lens_at s' ls \<longleftrightarrow> lens_at s ls"
  by (simp add: lens_at_def mem_def)

lemma set_lens_run:
  assumes "lens_at s ls" "length ls + length vs \<le> 457" "\<forall>v \<in> set vs. v \<le> 15"
  shows "\<exists>cl. set_lens (length ls) vs s = (Inr (), s\<lparr>code_lens := cl\<rparr>) \<and>
    (\<forall>m \<le> length vs. lens_at (s\<lparr>code_lens := cl\<rparr>) (ls @ take m vs))"
proof -
  let ?cl = "take (length ls) (code_lens s) @ vs @ drop (length ls + length vs) (code_lens s)"
  have "set_lens (length ls) vs s = (Inr (), s\<lparr>code_lens := ?cl\<rparr>)"
    using assms by (simp add: set_lens_def put_part_def lens_at_def modify_def)
  moreover have "lens_at (s\<lparr>code_lens := ?cl\<rparr>) (ls @ take m vs)" if "m \<le> length vs" for m
    using assms that by (auto simp: lens_at_def dest: in_set_takeD)
  ultimately show ?thesis by blast
qed

lemma last_len:
  assumes "lens_at s ls" "ls \<noteq> []"
  shows "aget (code_lens s) (int (length ls - 1)) = Inr (last ls)"
proof -
  have "length ls - 1 < length ls" using assms(2) by simp
  then have "code_lens s ! (length ls - 1) = ls ! (length ls - 1)" using assms(1) nth_take [of "length ls - 1" "length ls" "code_lens s"] by (simp add: lens_at_def)
  moreover have "length ls - 1 < length (code_lens s)" using assms unfolding lens_at_def by (cases ls) simp_all
  ultimately show ?thesis using aget_nat [of "length ls - 1" "code_lens s"] last_conv_nth [OF assms(2)] by simp
qed

definition lens_post :: "dsource \<Rightarrow> dstate \<Rightarrow> unit \<Rightarrow> dstate \<Rightarrow> nat \<times> nat list \<Rightarrow> bool" where
  "lens_post c s x s' = (\<lambda>(p', ls'). at_pos c 0 s' p' \<and> lens_at s' ls' \<and> but_lens s s')"

text \<open>One symbol of the reference.\<close>

lemma lens_symbol:
  assumes "length ls < n" "code_symbol pl (bits_num inp p 7) = (sy, l)"
  shows "inflate_lens inp pl n p ls =
      (if sy < 16 then inflate_lens inp pl n (p + l) (ls @ [sy])
       else if sy = 16 then
         if ls = [] then Inl BAD_DATA else inflate_lens inp pl n (p + l + 2) (ls @ replicate (3 + bits_num inp (p + l) 2) (last ls))
       else if sy = 17 then inflate_lens inp pl n (p + l + 3) (ls @ replicate (3 + bits_num inp (p + l) 3) 0)
       else inflate_lens inp pl n (p + l + 7) (ls @ replicate (11 + bits_num inp (p + l) 7) 0))"
  using assms by (subst inflate_lens.simps) (simp add: Let_def)

text \<open>A run of equal lengths: \<open>w\<close> are written, \<open>m\<close> count.\<close>

lemma set_run:
  assumes "lens_at s ls" "length ls < 320" "m \<le> w" "w \<le> 138" "v \<le> 15"
  shows "\<exists>cl. set_lens (length ls) (replicate w v) s = (Inr (), s\<lparr>code_lens := cl\<rparr>) \<and> lens_at (s\<lparr>code_lens := cl\<rparr>) (ls @ replicate m v)"
proof -
  have "length ls + length (replicate w v) \<le> 457" using assms by simp
  from set_lens_run [OF assms(1) this] assms(3,5) show ?thesis by (auto simp: min_def)
qed

lemma expand_lens_ok:
  assumes n: "n \<le> 320"
  shows "at_pos c 0 s p \<Longrightarrow> lens_at s ls \<Longrightarrow> decodes7 (precode_decode_table s) pl \<Longrightarrow>
    refines (expand_lens c n (length ls)) s (inflate_lens (src_bytes c) pl n p ls) (lens_post c s)"
proof (induction "n - length ls" arbitrary: s p ls rule: less_induct)
  case less
  let ?inp = "src_bytes c"
  show ?case
  proof (cases "length ls < n")
    case False
    then show ?thesis using less.prems
      by (subst expand_lens.simps, subst inflate_lens.simps) (simp add: lens_post_def but_lens_simps ret_def)
  next
    case True
    obtain sy l where sl: "code_symbol pl (bits_num ?inp p 7) = (sy, l)" by force
    obtain s1 where s1: "precode_symbol c s = (Inr sy, s1)" "at_pos c 7 s1 (p + l)" "mem s1 = mem s" and sy: "sy < 19"
      using precode_symbol_pos [OF less.prems(1,3) sl] by blast
    have l1: "lens_at s1 ls" using lens_at_mem [OF s1(3)] less.prems(2) by simp
    have room: "length ls < 320" using True n by simp
    have step: "refines (expand_lens c n (length ls')) s2 (inflate_lens ?inp pl n p2 ls') (lens_post c s)"
      if "at_pos c 0 s2 p2" "lens_at s2 ls'" "but_lens s s2" "length ls < length ls'" for s2 p2 ls'
    proof (rule refines_mono)
      show "refines (expand_lens c n (length ls')) s2 (inflate_lens ?inp pl n p2 ls') (lens_post c s2)"
        by (rule less.hyps) (use that True less.prems(3) but_lens_simps(4) [OF that(3)] in simp_all)
    qed (use that(3) in \<open>auto simp: lens_post_def intro: but_lens_simps(2)\<close>)
    have pop: "\<exists>s2. POP_BITS k s1 = (Inr (bits_num ?inp (p + l) k), s2) \<and> at_pos c 0 s2 (p + l + k) \<and> but_lens s s2 \<and> lens_at s2 ls"
      if "k \<le> 7" for k
    proof -
      obtain s2 where s2: "POP_BITS k s1 = (Inr (bits_num ?inp (p + l) k), s2)" "at_pos c (7 - k) s2 (p + l + k)" "mem s2 = mem s1"
        using pop_pos [OF s1(2), of k] \<open>k \<le> 7\<close> by auto
      then show ?thesis using at_pos_le [OF s2(2), of 0] but_lens_simps(1) [of s2 s] lens_at_mem [OF s2(3)] s1(3) l1 by simp
    qed
    note spec = lens_symbol [OF True sl]
    have run: "expand_lens c n (length ls) s =
         (if sy < 16 then andthen (set_lens (length ls) [sy]) (\<lambda>_. expand_lens c n (length ls + 1))
          else if sy = 16 then
            andthen (SAFETY_CHECK (length ls \<noteq> 0)) (\<lambda>_.
            andthen (at_array code_lens (length ls - 1)) (\<lambda>rep_val.
            andthen (POP_BITS 2) (\<lambda>x.
            andthen (set_lens (length ls) (replicate 6 rep_val)) (\<lambda>_. expand_lens c n (length ls + (3 + x))))))
          else if sy = 17 then
            andthen (POP_BITS 3) (\<lambda>x. andthen (set_lens (length ls) (replicate 10 0)) (\<lambda>_. expand_lens c n (length ls + (3 + x))))
          else
            andthen (POP_BITS 7) (\<lambda>x. andthen (set_lens (length ls) (replicate (11 + x) 0)) (\<lambda>_. expand_lens c n (length ls + (11 + x))))) s1"
      using True by (subst expand_lens.simps) (simp add: andthen_run [of "precode_symbol c", OF s1(1)])
    have rep: "refines (andthen (POP_BITS k) (\<lambda>x. andthen (set_lens (length ls) (replicate (w x) v)) (\<lambda>_. expand_lens c n (length ls + (b + x))))) s1
        (inflate_lens ?inp pl n (p + l + k) (ls @ replicate (b + bits_num ?inp (p + l) k) v)) (lens_post c s)"
      if k: "k \<le> 7" and w: "b + bits_num ?inp (p + l) k \<le> w (bits_num ?inp (p + l) k)" "w (bits_num ?inp (p + l) k) \<le> 138" and v: "v \<le> 15" "0 < b"
      for k w b v
    proof -
      obtain s2 where s2: "POP_BITS k s1 = (Inr (bits_num ?inp (p + l) k), s2)" "at_pos c 0 s2 (p + l + k)" "but_lens s s2" "lens_at s2 ls"
        using pop [OF k] by blast
      obtain cl where cl: "set_lens (length ls) (replicate (w (bits_num ?inp (p + l) k)) v) s2 = (Inr (), s2\<lparr>code_lens := cl\<rparr>)"
          "lens_at (s2\<lparr>code_lens := cl\<rparr>) (ls @ replicate (b + bits_num ?inp (p + l) k) v)"
        using set_run [OF s2(4) room w v(1)] by blast
      note st = step [OF _ cl(2), of "p + l + k"]
      show ?thesis
        by (rule refines_step, rule s2(1), rule refines_step, rule cl(1)) (use st s2(2,3) v(2) in \<open>simp add: but_lens_simps(3)\<close>)
    qed
    show ?thesis
    proof (cases "sy < 16")
      case True
      obtain cl where cl: "set_lens (length ls) [sy] s1 = (Inr (), s1\<lparr>code_lens := cl\<rparr>)" "lens_at (s1\<lparr>code_lens := cl\<rparr>) (ls @ [sy])"
        using set_run [OF l1 room, of 1 1 sy] True by auto
      note st = step [OF _ cl(2), of "p + l"]
      have "refines (andthen (set_lens (length ls) [sy]) (\<lambda>_. expand_lens c n (length ls + 1))) s1
          (inflate_lens ?inp pl n (p + l) (ls @ [sy])) (lens_post c s)"
        by (rule refines_step, rule cl(1)) (use st at_pos_le [OF s1(2), of 0] but_lens_simps(1) [OF s1(3)] in \<open>simp add: but_lens_simps(3)\<close>)
      then show ?thesis using True unfolding refines_def run spec by simp
    next
      case F: False
      consider "sy = 16" "ls = []" | "sy = 16" "ls \<noteq> []" | "sy = 17" | "sy = 18" using sy F by linarith
      then show ?thesis
      proof cases
        case 1
        then show ?thesis unfolding refines_def run spec by (simp add: SAFETY_CHECK_def)
      next
        case 2
        let ?rest = "andthen (POP_BITS 2) (\<lambda>x. andthen (set_lens (length ls) (replicate 6 (last ls))) (\<lambda>_. expand_lens c n (length ls + (3 + x))))"
        have b: "last ls \<le> 15" "bits_num ?inp (p + l) 2 < 4" using l1 2(2) bits_num_less [of ?inp "p + l" 2] by (simp_all add: lens_at_def)
        show ?thesis
        proof (rule refines_run)
          show "expand_lens c n (length ls) s = ?rest s1"
            using 2 last_len [OF l1 2(2)] unfolding run by (simp add: SAFETY_CHECK_def)
          show "refines ?rest s1 (inflate_lens ?inp pl n p ls) (lens_post c s)"
            using rep [of 2 3 "\<lambda>_. 6" "last ls"] b 2 by (simp add: spec)
        qed
      next
        case 3
        have "bits_num ?inp (p + l) 3 < 8" using bits_num_less [of ?inp "p + l" 3] by simp
        then show ?thesis using rep [of 3 3 "\<lambda>_. 10" 0] 3 unfolding refines_def run spec by simp
      next
        case 4
        have "bits_num ?inp (p + l) 7 < 128" using bits_num_less [of ?inp "p + l" 7] by simp
        then show ?thesis using rep [of 7 11 "\<lambda>x. 11 + x" 0] 4 unfolding refines_def run spec by simp
      qed
    qed
  qed
qed

end
