(* ===== verification/DeflateHeader.thy ===== *)
theory DeflateHeader
  imports DeflateLens
begin

text \<open>
  The header of a dynamic block and the decode tables: the header leaves in the arrays the codeword lengths of the reference, and the
  tables built from them decode its code. \<open>sizes\<close> says that the arrays of \<open>struct libdeflate_decompressor\<close> have
  their lengths; every operation keeps it.
\<close>

section \<open>The arrays\<close>

definition sizes :: "dstate \<Rightarrow> bool" where
  "sizes s \<longleftrightarrow> length (precode_lens s) = 19 \<and> length (code_lens s) = 457 \<and> length (precode_decode_table s) = 128 \<and>
     length (offset_decode_table s) = 402 \<and> length (litlen_decode_table s) = 1334"

definition same_out :: "dstate \<Rightarrow> dstate \<Rightarrow> bool" where
  "same_out s s' \<longleftrightarrow> outbuf s' = outbuf s \<and> out_next s' = out_next s"

lemma same_out_mem: "mem s' = mem s \<Longrightarrow> same_out s s' \<and> (sizes s' \<longleftrightarrow> sizes s)"
  by (simp add: same_out_def sizes_def mem_def)

lemma same_out_lens: "but_lens s s' \<Longrightarrow> same_out s s'"
  by (simp add: same_out_def but_lens_def mem_def)

lemma sizes_lens: "but_lens s s' \<Longrightarrow> sizes s \<Longrightarrow> lens_at s' ls \<Longrightarrow> sizes s'"
  by (simp add: sizes_def but_lens_def mem_def lens_at_def)

lemma same_out_trans: "same_out s s1 \<Longrightarrow> same_out s1 s2 \<Longrightarrow> same_out s s2"
  by (simp add: same_out_def)

lemma at_out_same: "same_out s s' \<Longrightarrow> at_out cap s' out \<longleftrightarrow> at_out cap s out"
  by (simp add: at_out_def same_out_def)

section \<open>The lengths of the precode\<close>

fun put_lens :: "byte list \<Rightarrow> nat \<Rightarrow> nat list \<Rightarrow> nat list \<Rightarrow> nat list" where
  "put_lens inp p [] L = L"
| "put_lens inp p (i # is) L = put_lens inp (p + 3) is (L[i := bits_num inp p 3])"

lemma put_lens_foldl: "put_lens inp p is L = foldl (\<lambda>ls k. ls[is ! k := bits_num inp (p + 3 * k) 3]) L [0..<length is]"
proof (induction "is" arbitrary: p L)
  case (Cons i "is")
  let ?u = "L[i := bits_num inp p 3]"
  have u: "[0..<length (i # is)] = 0 # map Suc [0..<length is]" using upt_conv_Cons [of 0 "Suc (length is)"] by (simp add: map_Suc_upt del: upt_Suc)
  have "foldl (\<lambda>ls k. ls[(i # is) ! k := bits_num inp (p + 3 * k) 3]) L [0..<length (i # is)] =
      foldl (\<lambda>ls k. ls[is ! k := bits_num inp (p + 3 * Suc k) 3]) ?u [0..<length is]"
    unfolding u by (simp add: foldl_map)
  also have "\<dots> = foldl (\<lambda>ls k. ls[is ! k := bits_num inp (p + 3 + 3 * k) 3]) ?u [0..<length is]"
    by (rule foldl_cong) (simp_all add: algebra_simps)
  finally show ?case using Cons by simp
qed simp

lemma length_put_lens [simp]: "length (put_lens inp p is L) = length L"
  by (induction "is" arbitrary: p L) simp_all

lemma put_lens_other: "i \<notin> set is \<Longrightarrow> put_lens inp p is L ! i = L ! i"
  by (induction "is" arbitrary: p L) simp_all

lemma put_lens_same: "i \<in> set is \<Longrightarrow> i < length L \<Longrightarrow> length L' = length L \<Longrightarrow> put_lens inp p is L ! i = put_lens inp p is L' ! i"
proof (induction "is" arbitrary: p L L')
  case (Cons j "is")
  show ?case
  proof (cases "i \<in> set is")
    case True
    then show ?thesis using Cons.IH [OF True, of "L[j := bits_num inp p 3]" "L'[j := bits_num inp p 3]"] Cons.prems by simp
  next
    case False
    then show ?thesis using Cons.prems by (simp add: put_lens_other)
  qed
qed simp

lemma put_lens_bound: "\<forall>l \<in> set L. l \<le> 7 \<Longrightarrow> \<forall>l \<in> set (put_lens inp p is L). l \<le> 7"
proof (induction "is" arbitrary: p L)
  case (Cons i "is")
  have "bits_num inp p 3 < 8" using bits_num_less [of inp p 3] by simp
  then have "\<forall>l \<in> set (L[i := bits_num inp p 3]). l \<le> 7" using Cons.prems set_update_subset_insert [of L i "bits_num inp p 3"] by fastforce
  then show ?case using Cons.IH by simp
qed simp

lemma clear_nth: "i < length L \<Longrightarrow> foldl (\<lambda>L i. L[i := 0 :: nat]) L is ! i = (if i \<in> set is then 0 else L ! i)"
  by (induction "is" arbitrary: L) (auto simp: nth_list_update)

lemma length_clear [simp]: "length (foldl (\<lambda>L i. L[i := 0 :: nat]) L is) = length L"
  by (induction "is" arbitrary: L) simp_all

lemma permutation: "set deflate_precode_lens_permutation = {..<19}" "length deflate_precode_lens_permutation = 19"
    "distinct deflate_precode_lens_permutation"
proof -
  let ?p = deflate_precode_lens_permutation
  show d: "length ?p = 19" "distinct ?p" by (simp_all add: deflate_precode_lens_permutation_def)
  have "set ?p \<subseteq> {..<19}" by (simp add: deflate_precode_lens_permutation_def)
  moreover have "card (set ?p) = card {..<19 :: nat}" using distinct_card [OF d(2)] d(1) by simp
  ultimately show "set ?p = {..<19}" by (intro card_subset_eq) simp_all
qed

text \<open>The lengths that are read, the other ones cleared: nothing is left of what the array held.\<close>

lemma prelens_final:
  assumes "length L = 19" "n \<le> 19"
  shows "foldl (\<lambda>L i. L[i := 0]) (put_lens inp p (take n deflate_precode_lens_permutation) L) (drop n deflate_precode_lens_permutation) =
    inflate_prelens inp p n"
proof (rule nth_equalityI)
  let ?p = deflate_precode_lens_permutation
  have sp: "inflate_prelens inp p n = put_lens inp p (take n ?p) (replicate 19 0)"
    unfolding inflate_prelens_def put_lens_foldl using assms(2) permutation(2) by (intro foldl_cong) simp_all
  show "length (foldl (\<lambda>L i. L[i := 0]) (put_lens inp p (take n ?p) L) (drop n ?p)) = length (inflate_prelens inp p n)"
    using assms(1) by (simp add: sp del: replicate.simps)
  fix i assume "i < length (foldl (\<lambda>L i. L[i := 0]) (put_lens inp p (take n ?p) L) (drop n ?p))"
  then have i: "i < 19" using assms(1) by simp
  have dis: "set (take n ?p) \<inter> set (drop n ?p) = {}" "set (take n ?p) \<union> set (drop n ?p) = {..<19}"
    using permutation(3) set_take_disj_set_drop_if_distinct [of ?p n n] permutation(1) set_append [of "take n ?p" "drop n ?p"] by auto
  show "foldl (\<lambda>L i. L[i := 0]) (put_lens inp p (take n ?p) L) (drop n ?p) ! i = inflate_prelens inp p n ! i"
  proof (cases "i \<in> set (take n ?p)")
    case True
    then have "i \<notin> set (drop n ?p)" using dis(1) by blast
    then show ?thesis using True i assms(1) put_lens_same [of i "take n ?p" L "replicate 19 0" inp p] by (simp add: clear_nth sp del: replicate.simps)
  next
    case False
    then have "i \<in> set (drop n ?p)" using dis(2) i by blast
    then show ?thesis using False i assms(1) put_lens_other [of i "take n ?p" inp p "replicate 19 0"] by (simp add: clear_nth sp del: replicate.simps)
  qed
qed

lemma prelens_bound: "\<forall>l \<in> set (inflate_prelens inp p n). l \<le> 7" if "n \<le> 19"
proof -
  have "inflate_prelens inp p n = put_lens inp p (take n deflate_precode_lens_permutation) (replicate 19 0)"
    unfolding inflate_prelens_def put_lens_foldl using that permutation(2) by (intro foldl_cong) simp_all
  then show ?thesis using put_lens_bound [of "replicate 19 0"] by (simp del: replicate.simps)
qed

lemma length_prelens: "n \<le> 19 \<Longrightarrow> length (inflate_prelens inp p n) = 19"
proof -
  have "length (foldl (\<lambda>ls k. ls[f k := g k]) L ks) = length L" for f :: "nat \<Rightarrow> nat" and g ks and L :: "nat list"
    by (induction ks arbitrary: L) simp_all
  from this [of "\<lambda>k. deflate_precode_lens_permutation ! k"] show ?thesis by (simp add: inflate_prelens_def del: replicate.simps)
qed

definition but_prelens :: "dstate \<Rightarrow> dstate \<Rightarrow> bool" where
  "but_prelens s s' \<longleftrightarrow> mem (s'\<lparr>precode_lens := precode_lens s\<rparr>) = mem s"

lemma set_precode_run: "i < length (precode_lens s) \<Longrightarrow> set_precode_len i v s = (Inr (), s\<lparr>precode_lens := (precode_lens s)[i := v]\<rparr>)"
  by (simp add: set_precode_len_def aset_def modify_def)

lemma read_precode_run:
  "at_pos c k s p \<Longrightarrow> 3 * length is \<le> k \<Longrightarrow> \<forall>i \<in> set is. i < length (precode_lens s) \<Longrightarrow>
    \<exists>s'. read_precode_lens is s = (Inr (), s') \<and> at_pos c (k - 3 * length is) s' (p + 3 * length is) \<and>
      precode_lens s' = put_lens (src_bytes c) p is (precode_lens s) \<and> but_prelens s s'"
proof (induction "is" arbitrary: s k p)
  case (Cons i "is")
  let ?v = "bits_num (src_bytes c) p 3"
  obtain s1 where s1: "POP_BITS 3 s = (Inr ?v, s1)" "at_pos c (k - 3) s1 (p + 3)" "mem s1 = mem s"
    using pop_pos [OF Cons.prems(1), of 3] Cons.prems(2) by auto
  have pl: "precode_lens s1 = precode_lens s" using s1(3) by (simp add: mem_def)
  let ?s2 = "s1\<lparr>precode_lens := (precode_lens s)[i := ?v]\<rparr>"
  have s2: "set_precode_len i ?v s1 = (Inr (), ?s2)" using set_precode_run [of i s1] pl Cons.prems(3) by simp
  have "at_pos c (k - 3) ?s2 (p + 3)" "3 * length is \<le> k - 3" "\<forall>i \<in> set is. i < length (precode_lens ?s2)"
    using s1(2) Cons.prems(2,3) by simp_all
  from Cons.IH [OF this] obtain s' where s': "read_precode_lens is ?s2 = (Inr (), s')" "at_pos c (k - 3 - 3 * length is) s' (p + 3 + 3 * length is)"
      "precode_lens s' = put_lens (src_bytes c) (p + 3) is (precode_lens ?s2)" "but_prelens ?s2 s'" by blast
  have "read_precode_lens (i # is) s = (Inr (), s')"
    using s'(1) by (simp add: andthen_run [of "POP_BITS 3", OF s1(1)] andthen_run [of "set_precode_len i ?v", OF s2])
  moreover have "but_prelens s s'" using s'(4) s1(3) by (simp add: but_prelens_def mem_def)
  ultimately show ?case using s'(2,3) by (simp add: add.assoc add.commute)
qed (simp add: ret_def but_prelens_def)

lemma clear_precode_run:
  "\<forall>i \<in> set is. i < length (precode_lens s) \<Longrightarrow>
    clear_precode_lens is s = (Inr (), s\<lparr>precode_lens := foldl (\<lambda>L i. L[i := 0]) (precode_lens s) is\<rparr>)"
proof (induction "is" arbitrary: s)
  case (Cons i "is")
  then show ?case using set_precode_run [of i s 0]
    by (simp add: andthen_run [of "set_precode_len i 0" s "()" "s\<lparr>precode_lens := (precode_lens s)[i := 0]\<rparr>"])
qed (simp add: ret_def)

section \<open>The header\<close>

lemma table_run:
  "andthen (gets g) (\<lambda>r. andthen (lift_res r) (\<lambda>t. case t of None \<Rightarrow> ret False | Some t \<Rightarrow> andthen (modify (h t)) (\<lambda>_. ret True))) s =
     (case g s of Inl e \<Rightarrow> (Inl e, s) | Inr None \<Rightarrow> (Inr False, s) | Inr (Some t) \<Rightarrow> (Inr True, h t s))"
  by (simp add: ret_def split: sum.splits option.splits)

lemma build_precode_run:
  assumes s: "sizes s" and l: "\<forall>l \<in> set (precode_lens s). l \<le> 7"
  shows "if valid_code 7 (precode_lens s)
    then \<exists>t. build_precode_decode_table s = (Inr True, s\<lparr>precode_decode_table := t\<rparr>) \<and> length t = 128 \<and> decodes7 t (precode_lens s)
    else build_precode_decode_table s = (Inr False, s)"
proof -
  have "built 7 7 (precode_lens s) precode_decode_results 128
      (build_decode_table (precode_decode_table s) (precode_lens s) precode_decode_results 7 7)"
    by (rule precode_built [OF l]) (use s in \<open>simp_all add: sizes_def\<close>)
  moreover have "part (precode_lens s) 0 19 = Inr (precode_lens s)" "length (precode_lens s) = 19" using s by (simp_all add: part_def sizes_def)
  ultimately show ?thesis using l unfolding build_precode_decode_table_def table_run by (auto simp: built_def decodes7_def) blast
qed

text \<open>The header of the reference, apart from the codes.\<close>

definition inflate_header :: "byte list \<Rightarrow> nat \<Rightarrow> (nat \<times> nat \<times> nat \<times> nat list) res" where
  "inflate_header inp p =
     (let nl = bits_num inp p 5 + 257; no = bits_num inp (p + 5) 5 + 1; np = bits_num inp (p + 10) 4 + 4; prelens = inflate_prelens inp (p + 14) np in
      if valid_code 7 prelens then
        bnd (inflate_lens inp prelens (nl + no) (p + 14 + 3 * np) []) (\<lambda>(p, ls). Inr (p, nl, no, ls))
      else Inl BAD_DATA)"

definition inflate_coded :: "byte list \<Rightarrow> nat \<Rightarrow> byte list \<Rightarrow> nat \<times> nat \<times> nat \<times> nat list \<Rightarrow> (nat \<times> byte list) res" where
  "inflate_coded inp cap out = (\<lambda>(p, nl, no, ls).
     if valid_code 15 (take no (drop nl ls)) \<and> valid_code 15 (take nl ls)
     then inflate_codes inp (take nl ls) (take no (drop nl ls)) cap p out else Inl BAD_DATA)"

lemma inflate_dynamic_parts: "inflate_dynamic inp cap p out = bnd (inflate_header inp p) (inflate_coded inp cap out)"
  by (cases "inflate_lens inp (inflate_prelens inp (p + 14) (bits_num inp (p + 10) 4 + 4))
      (bits_num inp p 5 + 257 + (bits_num inp (p + 5) 5 + 1)) (p + 14 + 3 * (bits_num inp (p + 10) 4 + 4)) []")
    (auto simp: inflate_dynamic_def inflate_header_def inflate_coded_def Let_def)

definition header_post :: "dsource \<Rightarrow> dstate \<Rightarrow> nat \<times> nat \<Rightarrow> dstate \<Rightarrow> nat \<times> nat \<times> nat \<times> nat list \<Rightarrow> bool" where
  "header_post c s x s' = (\<lambda>(p', nl, no, ls). x = (nl, no) \<and> nl + no \<le> length ls \<and> 0 < nl \<and> nl \<le> 288 \<and> 0 < no \<and> no \<le> 32 \<and>
     at_pos c 0 s' p' \<and> lens_at s' ls \<and> sizes s' \<and> same_out s s')"

lemma dynamic_header_ok:
  assumes p: "at_pos c 14 s p" and s: "sizes s"
  shows "refines (dynamic_header c) s (inflate_header (src_bytes c) p) (header_post c s)"
proof -
  let ?inp = "src_bytes c"
  define nl where "nl = bits_num ?inp p 5 + 257"
  define no where "no = bits_num ?inp (p + 5) 5 + 1"
  define np where "np = bits_num ?inp (p + 10) 4 + 4"
  let ?perm = deflate_precode_lens_permutation
  have b: "bits_num ?inp p 5 < 32" "bits_num ?inp (p + 5) 5 < 32" "bits_num ?inp (p + 10) 4 < 16"
    using bits_num_less [of ?inp p 5] bits_num_less [of ?inp "p + 5" 5] bits_num_less [of ?inp "p + 10" 4] by simp_all
  then have bounds: "0 < nl" "nl \<le> 288" "0 < no" "no \<le> 32" "np \<le> 19" by (simp_all add: nl_def no_def np_def)
  obtain s1 where s1: "POP_BITS 5 s = (Inr (bits_num ?inp p 5), s1)" "at_pos c 9 s1 (p + 5)" "mem s1 = mem s"
    using pop_pos [OF p, of 5] by auto
  obtain s2 where s2: "POP_BITS 5 s1 = (Inr (bits_num ?inp (p + 5) 5), s2)" "at_pos c 4 s2 (p + 10)" "mem s2 = mem s1"
    using pop_pos [OF s1(2), of 5] by (auto simp: algebra_simps)
  obtain s3 where s3: "POP_BITS 4 s2 = (Inr (bits_num ?inp (p + 10) 4), s3)" "at_pos c 0 s3 (p + 14)" "mem s3 = mem s2"
    using pop_pos [OF s2(2), of 4] by (auto simp: algebra_simps)
  obtain s4 where s4: "ensure_bits c (19 * 3) s3 = (Inr (), s4)" "at_pos c 57 s4 (p + 14)" "mem s4 = mem s3"
    using ensure_pos [OF s3(2), of 57] by auto
  have m4: "mem s4 = mem s" using s1(3) s2(3) s3(3) s4(3) by simp
  then have z4: "sizes s4" "same_out s s4" using same_out_mem [OF m4] s by simp_all
  have L: "length (precode_lens s4) = 19" using z4 by (simp add: sizes_def)
  have perm: "\<forall>i \<in> set (take np ?perm). i < length (precode_lens s4)" "\<forall>i \<in> set (drop np ?perm). i < 19"
    using permutation(1) L set_take_subset [of np ?perm] set_drop_subset [of np ?perm] by auto
  obtain s5 where s5: "read_precode_lens (take np ?perm) s4 = (Inr (), s5)" "at_pos c (57 - 3 * np) s5 (p + 14 + 3 * np)"
      "precode_lens s5 = put_lens ?inp (p + 14) (take np ?perm) (precode_lens s4)" "but_prelens s4 s5"
    using read_precode_run [OF s4(2) _ perm(1)] bounds(5) permutation(2) by auto
  let ?pl = "inflate_prelens ?inp (p + 14) np"
  let ?s6 = "s5\<lparr>precode_lens := ?pl\<rparr>"
  have s6: "clear_precode_lens (drop np ?perm) s5 = (Inr (), ?s6)"
    using clear_precode_run [of "drop np ?perm" s5] perm(2) L s5(3) prelens_final [OF L bounds(5)] by simp
  have p6: "at_pos c 0 ?s6 (p + 14 + 3 * np)" using at_pos_le [OF s5(2), of 0] by simp
  have z6: "sizes ?s6" "same_out s ?s6"
    using z4 s5(4) length_prelens [OF bounds(5), of ?inp "p + 14"] by (simp_all add: sizes_def same_out_def but_prelens_def mem_def)
  have run: "dynamic_header c s = andthen build_precode_decode_table (\<lambda>b. andthen (SAFETY_CHECK b) (\<lambda>_.
      andthen (expand_lens c (nl + no) 0) (\<lambda>_. ret (nl, no)))) ?s6"
    unfolding dynamic_header_def Let_def
    by (simp only: andthen_run [of "POP_BITS 5", OF s1(1)] andthen_run [of "POP_BITS 5", OF s2(1)] andthen_run [of "POP_BITS 4", OF s3(1)]
        andthen_run [of "ensure_bits c (19 * 3)", OF s4(1)] np_def [symmetric] nl_def [symmetric] no_def [symmetric]
        andthen_run [of "read_precode_lens (take np ?perm)", OF s5(1)] andthen_run [of "clear_precode_lens (drop np ?perm)", OF s6])
  have spec: "inflate_header ?inp p = (if valid_code 7 ?pl then
        bnd (inflate_lens ?inp ?pl (nl + no) (p + 14 + 3 * np) []) (\<lambda>(p, ls). Inr (p, nl, no, ls)) else Inl BAD_DATA)"
    by (simp add: inflate_header_def Let_def nl_def no_def np_def)
  have pl7: "\<forall>l \<in> set (precode_lens ?s6). l \<le> 7" using prelens_bound [OF bounds(5)] by simp
  note build = build_precode_run [OF z6(1) pl7]
  show ?thesis
  proof (cases "valid_code 7 ?pl")
    case False
    then have "build_precode_decode_table ?s6 = (Inr False, ?s6)" using build by simp
    then show ?thesis using False by (simp add: spec run andthen_run [of build_precode_decode_table] SAFETY_CHECK_def)
  next
    case True
    then obtain t where t: "build_precode_decode_table ?s6 = (Inr True, ?s6\<lparr>precode_decode_table := t\<rparr>)" "length t = 128" "decodes7 t ?pl"
      using build by auto
    let ?s7 = "?s6\<lparr>precode_decode_table := t\<rparr>"
    have p7: "at_pos c 0 ?s7 (p + 14 + 3 * np)" using p6 by simp
    have z7: "sizes ?s7" "same_out s ?s7" using z6 t(2) by (simp_all add: sizes_def same_out_def)
    then have l7: "lens_at ?s7 []" by (simp add: lens_at_def sizes_def)
    have t7: "decodes7 (precode_decode_table ?s7) ?pl" using t(3) by simp
    have n: "nl + no \<le> 320" using bounds by linarith
    note ex = expand_lens_ok [OF n p7 l7 t7]
    have run2: "dynamic_header c s = andthen (expand_lens c (nl + no) 0) (\<lambda>_. ret (nl, no)) ?s7"
      unfolding run andthen_run [of build_precode_decode_table, OF t(1)] by (simp add: SAFETY_CHECK_def)
    show ?thesis
    proof (rule refines_run [of _ _ "andthen (expand_lens c (nl + no) 0) (\<lambda>_. ret (nl, no))" ?s7])
      show "dynamic_header c s = andthen (expand_lens c (nl + no) 0) (\<lambda>_. ret (nl, no)) ?s7" by (rule run2)
      show "refines (andthen (expand_lens c (nl + no) 0) (\<lambda>_. ret (nl, no))) ?s7 (inflate_header ?inp p) (header_post c s)"
        unfolding spec if_P [OF True]
      proof (rule refines_andthen)
        show "refines (expand_lens c (nl + no) 0) ?s7 (inflate_lens ?inp ?pl (nl + no) (p + 14 + 3 * np) []) (lens_post c ?s7)"
          using ex by simp
        fix x s' and y :: "nat \<times> nat list"
        assume post: "lens_post c ?s7 x s' y" and r: "inflate_lens ?inp ?pl (nl + no) (p + 14 + 3 * np) [] = Inr y"
        obtain p' ls where y: "y = (p', ls)" by force
        have "at_pos c 0 s' p'" "lens_at s' ls" "but_lens ?s7 s'" using post y by (simp_all add: lens_post_def)
        moreover have "nl + no \<le> length ls" using lens_mono r y by blast
        ultimately show "refines (ret (nl, no)) s' (case y of (p, ls) \<Rightarrow> Inr (p, nl, no, ls)) (header_post c s)"
          using bounds y sizes_lens z7(1) same_out_trans [OF z7(2) same_out_lens] by (simp add: header_post_def ret_def)
      qed
    qed
  qed
qed

end
