(* ===== verification/DeflateStream.thy ===== *)
theory DeflateStream
  imports DeflateHeader
begin

text \<open>The blocks, and the whole stream.\<close>

lemma refines_value: "refines m s r Q \<Longrightarrow> refines (andthen m (\<lambda>_. ret v)) s r (\<lambda>x s' y. x = v \<and> (\<exists>z. Q z s' y))"
  by (cases r) (simp add: andthen_stop, auto simp: andthen_def ret_def)

section \<open>The code of a static block\<close>

lemma full_counts: "code_full M lens \<longleftrightarrow> space_left (map (count_list lens) [1..<Suc M]) 1 = Some 0"
proof -
  let ?c = "map (count_list lens) [0..<Suc M]"
  have n: "?c ! l = count_list lens l" if "l \<le> M" for l using that by (simp del: upt_Suc)
  have "space_left (tl ?c) 1 = (let f = 2 ^ M - int (space M lens (code_order M lens)) in if f < 0 then None else Some f)"
    by (rule space_left_order) (simp_all add: n cnt_len_count del: upt_Suc)
  moreover have "tl ?c = map (count_list lens) [1..<Suc M]" by (simp add: map_tl [symmetric] tl_upt del: upt_Suc)
  moreover have "int (space M lens (code_order M lens)) = 2 ^ M \<longleftrightarrow> space M lens (code_order M lens) = 2 ^ M"
    using of_nat_eq_iff [of "space M lens (code_order M lens)" "2 ^ M", where 'a = int] by simp
  ultimately show ?thesis by (auto simp: code_full_def start_at_def Let_def)
qed

lemma count_rep: "count_list (replicate n x) y = (if x = y then n else 0)"
  by (induction n) auto

lemma static_valid: "valid_code 15 static_litlens" "valid_code 15 (replicate 32 5)"
proof -
  have c: "[1..<Suc 15] = [1, 2, 3, 4, 5, 6, 7, 8, 9, 10, 11, 12, 13, 14, 15]" by (simp add: upt_rec)
  have "space_left (map (count_list static_litlens) [1..<Suc 15]) 1 = Some 0"
    unfolding c by (simp add: static_litlens_def count_rep Let_def del: replicate.simps)
  then show "valid_code 15 static_litlens" by (simp add: valid_code_def full_counts)
  have "space_left (map (count_list (replicate 32 5)) [1..<Suc 15]) 1 = Some 0"
    unfolding c by (simp add: count_rep Let_def del: replicate.simps)
  then show "valid_code 15 (replicate 32 5)" by (simp add: valid_code_def full_counts)
qed

lemma static_lens: "length static_litlens = 288" "\<forall>l \<in> set static_litlens. l \<le> 15"
  by (auto simp: static_litlens_def)

lemma static_header_ok:
  assumes p: "at_pos c 0 s p" and s: "sizes s"
  shows "refines static_header s (Inr (p, 288, 32, static_litlens @ replicate 32 5)) (header_post c s)"
proof -
  let ?ls = "static_litlens @ replicate 32 5"
  have l: "lens_at s []" using s by (simp add: lens_at_def sizes_def)
  have "\<forall>v \<in> set ?ls. v \<le> 15" "length ?ls = 320" using static_lens by auto
  with set_lens_run [OF l, of ?ls] obtain cl where cl: "set_lens 0 ?ls s = (Inr (), s\<lparr>code_lens := cl\<rparr>)" "lens_at (s\<lparr>code_lens := cl\<rparr>) ?ls" by auto
  have e: "replicate 144 8 @ replicate 112 9 @ replicate 24 7 @ replicate 8 8 @ replicate 32 5 = ?ls"
    by (simp only: static_litlens_def append_assoc)
  have "static_header s = (Inr (288, 32), s\<lparr>code_lens := cl\<rparr>)"
    unfolding static_header_def e by (simp add: andthen_run [of "set_lens 0 ?ls", OF cl(1)] ret_def)
  moreover have "sizes (s\<lparr>code_lens := cl\<rparr>)" using s cl(2) by (simp add: sizes_def lens_at_def)
  ultimately show ?thesis using p cl(2) static_lens(1) by (simp add: header_post_def same_out_def)
qed

lemma static_coded: "inflate_coded inp cap out (p, 288, 32, static_litlens @ replicate 32 5) = inflate_codes inp static_litlens (replicate 32 5) cap p out"
  using static_valid static_lens(1) by (simp add: inflate_coded_def)

section \<open>The tables of a block\<close>

lemma part_lens:
  assumes "lens_at s ls" "i + n \<le> length ls"
  shows "part (code_lens s) i n = Inr (take n (drop i ls))" "length (take n (drop i ls)) = n" "\<forall>l \<in> set (take n (drop i ls)). l \<le> 15"
proof -
  have "take n (drop i (take (length ls) (code_lens s))) = take n (drop i (code_lens s))"
    using assms(2) by (simp add: drop_take min_def)
  moreover have "i + n \<le> length (code_lens s)" using assms by (simp add: lens_at_def)
  ultimately show "part (code_lens s) i n = Inr (take n (drop i ls))" using assms(1) by (simp add: part_def lens_at_def)
  show "length (take n (drop i ls)) = n" using assms(2) by simp
  show "\<forall>l \<in> set (take n (drop i ls)). l \<le> 15" using assms(1) by (auto simp: lens_at_def dest: in_set_takeD in_set_dropD)
qed

lemma build_offset_run:
  assumes s: "sizes s" and l: "lens_at s ls" "nl + no \<le> length ls" "no \<le> 32"
  shows "if valid_code 15 (take no (drop nl ls))
    then \<exists>t. build_offset_decode_table nl no s = (Inr True, s\<lparr>offset_decode_table := t\<rparr>) \<and> length t = 402 \<and>
      decodes15 t 8 (take no (drop nl ls)) offset_decode_results
    else build_offset_decode_table nl no s = (Inr False, s)"
proof -
  note p = part_lens [OF l(1,2)]
  have "built 15 8 (take no (drop nl ls)) offset_decode_results 402
      (build_decode_table (offset_decode_table s) (take no (drop nl ls)) offset_decode_results 8 15)"
    by (rule offset_built [OF p(3)]) (use s l(3) in \<open>simp_all add: sizes_def\<close>)
  then show ?thesis using p unfolding build_offset_decode_table_def table_run by (auto simp: built_def decodes15_def) blast
qed

lemma build_litlen_run:
  assumes s: "sizes s" and l: "lens_at s ls" "nl \<le> length ls" "nl \<le> 288"
  shows "if valid_code 15 (take nl ls)
    then \<exists>t. build_litlen_decode_table nl no s = (Inr True, s\<lparr>litlen_decode_table := t\<rparr>) \<and> length t = 1334 \<and>
      decodes15 t 10 (take nl ls) litlen_decode_results
    else build_litlen_decode_table nl no s = (Inr False, s)"
proof -
  have "0 + nl \<le> length ls" using l(2) by simp
  note p = part_lens [OF l(1) this, unfolded drop_0]
  have "built 15 10 (take nl ls) litlen_decode_results 1334
      (build_decode_table (litlen_decode_table s) (take nl ls) litlen_decode_results 10 15)"
    by (rule litlen_built [OF p(3)]) (use s l(3) in \<open>simp_all add: sizes_def\<close>)
  then show ?thesis using p unfolding build_litlen_decode_table_def table_run by (auto simp: built_def decodes15_def) blast
qed

section \<open>A compressed block\<close>

definition block_post :: "dsource \<Rightarrow> nat \<Rightarrow> 'a \<Rightarrow> dstate \<Rightarrow> nat \<times> byte list \<Rightarrow> bool" where
  "block_post c cap x s' = (\<lambda>(p', out'). at_pos c 0 s' p' \<and> at_out cap s' out' \<and> sizes s')"

lemma huffman_block_ok:
  assumes h: "refines header s r (header_post c s)" and o: "at_out cap s out" and cap: "cap < 2 ^ 64"
  shows "refines (huffman_block c header) s (bnd r (inflate_coded (src_bytes c) cap out)) (block_post c cap)"
  unfolding huffman_block_def
proof (rule refines_andthen [OF h])
  fix x s1 y assume post: "header_post c s x s1 y"
  obtain p nl no ls where y: "y = (p, nl, no, ls)" by (cases y) auto
  note P = post [unfolded y header_post_def, simplified]
  let ?ol = "take no (drop nl ls)" and ?ll = "take nl ls"
  have x: "x = (nl, no)" and s1: "sizes s1" "lens_at s1 ls" "at_out cap s1 out" "at_pos c 0 s1 p"
    using P o at_out_same [of s s1 cap out] by simp_all
  let ?tail = "andthen (build_litlen_decode_table nl no) (\<lambda>b.
     andthen (SAFETY_CHECK b) (\<lambda>_.
     andthen (gets (\<lambda>s. Suc (length (outbuf s) - out_next s))) (\<lambda>fuel. decode_loop c fuel)))"
  let ?all = "andthen (build_offset_decode_table nl no) (\<lambda>b. andthen (SAFETY_CHECK b) (\<lambda>_. ?tail))"
  have "refines ?all s1 (inflate_coded (src_bytes c) cap out y) (block_post c cap)"
  proof (cases "valid_code 15 ?ol")
    case False
    then have f: "build_offset_decode_table nl no s1 = (Inr False, s1)" using build_offset_run [OF s1(1,2), of nl no] P by simp
    have "?all s1 = (Inl BAD_DATA, s1)" by (simp add: andthen_run [of "build_offset_decode_table nl no", OF f] SAFETY_CHECK_def)
    then show ?thesis using False by (simp add: y inflate_coded_def)
  next
    case ov: True
    then obtain t where t: "build_offset_decode_table nl no s1 = (Inr True, s1\<lparr>offset_decode_table := t\<rparr>)" "length t = 402"
        "decodes15 t 8 ?ol offset_decode_results" using build_offset_run [OF s1(1,2), of nl no] P by auto
    let ?s2 = "s1\<lparr>offset_decode_table := t\<rparr>"
    have s2: "sizes ?s2" "lens_at ?s2 ls" "at_out cap ?s2 out" "at_pos c 0 ?s2 p"
      using s1 t(2) by (simp_all add: sizes_def lens_at_def at_out_def)
    have all: "?all s1 = ?tail ?s2" by (simp add: andthen_run [of "build_offset_decode_table nl no", OF t(1)] SAFETY_CHECK_def)
    have nl: "nl \<le> length ls" "nl \<le> 288" using P by linarith+
    show ?thesis
    proof (cases "valid_code 15 ?ll")
      case False
      then have f: "build_litlen_decode_table nl no ?s2 = (Inr False, ?s2)" using build_litlen_run [OF s2(1,2) nl, of no] by simp
      have "?all s1 = (Inl BAD_DATA, ?s2)" unfolding all by (simp add: andthen_run [of "build_litlen_decode_table nl no", OF f] SAFETY_CHECK_def)
      then show ?thesis using False by (simp add: y inflate_coded_def)
    next
      case lv: True
      then obtain t' where t': "build_litlen_decode_table nl no ?s2 = (Inr True, ?s2\<lparr>litlen_decode_table := t'\<rparr>)" "length t' = 1334"
          "decodes15 t' 10 ?ll litlen_decode_results" using build_litlen_run [OF s2(1,2) nl, of no] by auto
      let ?s3 = "?s2\<lparr>litlen_decode_table := t'\<rparr>"
      have s3: "sizes ?s3" "at_out cap ?s3 out" "at_pos c 0 ?s3 p" using s2 t'(2) by (simp_all add: sizes_def at_out_def)
      have co: "codes_ok ?ll ?ol cap ?s3" using t(3) t'(3) P cap nl by (simp add: codes_ok_def min.coboundedI2)
      have run: "?all s1 = decode_loop c (Suc (cap - length out)) ?s3"
        unfolding all using s3(2) by (simp add: andthen_run [of "build_litlen_decode_table nl no", OF t'(1)] SAFETY_CHECK_def at_out_def del: decode_loop.simps)
      have "refines (decode_loop c (Suc (cap - length out))) ?s3 (inflate_codes (src_bytes c) ?ll ?ol cap p out) (loop_post c cap ?s3)"
        by (rule decode_loop_ok [OF s3(3,2) co]) simp
      then have "refines (decode_loop c (Suc (cap - length out))) ?s3 (inflate_coded (src_bytes c) cap out y) (block_post c cap)"
        using ov lv s3(1) by (auto simp: y inflate_coded_def loop_post_def block_post_def same_arrays_def sizes_def elim!: refines_mono simp del: decode_loop.simps)
      then show ?thesis by (rule refines_run [rotated]) (rule run)
    qed
  qed
  then show "refines (case x of (num_litlen_syms, num_offset_syms) \<Rightarrow>
      andthen (build_offset_decode_table num_litlen_syms num_offset_syms) (\<lambda>b.
      andthen (SAFETY_CHECK b) (\<lambda>_.
      andthen (build_litlen_decode_table num_litlen_syms num_offset_syms) (\<lambda>b.
      andthen (SAFETY_CHECK b) (\<lambda>_.
      andthen (gets (\<lambda>s. Suc (length (outbuf s) - out_next s))) (\<lambda>fuel. decode_loop c fuel)))))) s1
      (inflate_coded (src_bytes c) cap out y) (block_post c cap)" by (simp only: x prod.case)
qed

section \<open>A stored block\<close>

lemma at_out_append:
  assumes o: "at_out cap s out" and l: "length bs \<le> cap - length out"
  shows "\<exists>b. wr (outbuf s) (int (out_next s)) bs = Inr b \<and> at_out cap (s\<lparr>outbuf := b, out_next := length out + length bs\<rparr>) (out @ bs)"
proof -
  note O = o [unfolded at_out_def]
  have w: "wr (outbuf s) (int (out_next s)) bs = Inr (out @ bs @ drop (length out + length bs) (outbuf s))"
    using O l by (auto simp: wr_def)
  show ?thesis using O l unfolding w by (auto simp: at_out_def)
qed

text \<open>After the alignment the input is at the next byte; or it was aligned before, and less than four bytes are left.\<close>

lemma align_pos:
  assumes p: "at_pos c 0 s p"
  defines "s' \<equiv> ALIGN_INPUT s"
  shows "mem s' = mem s" "in_next s' \<le> length (src_bytes c)" "bitbuf s' = 0" "bitsleft s' = 0"
    "in_next s' + 4 \<le> length (src_bytes c) \<longleftrightarrow> (p + 7) div 8 + 4 \<le> length (src_bytes c)"
    "in_next s' + 4 \<le> length (src_bytes c) \<Longrightarrow> in_next s' = (p + 7) div 8"
    "overrun_count s' = 0 \<or> length (src_bytes c) < in_next s' + 8 \<or> length (src_bytes c) < in_next s' + 4"
proof -
  obtain o0 where o: "bits_ok (src_bytes c) o0 s" "at_bit o0 s = p" "o0 = 0 \<or> 8 * length (src_bytes c) < p + 32"
    using p by (auto simp: at_pos_def)
  note a = ALIGN_INPUT_ok [OF o(1), folded s'_def, unfolded o(2)]
  show "mem s' = mem s" "bitbuf s' = 0" by (simp_all add: s'_def ALIGN_INPUT_def mem_def)
  show "in_next s' \<le> length (src_bytes c)" "bitsleft s' = 0" by (fact a)+
  have late: "length (src_bytes c) < (p + 7) div 8 + 4" if "o0 \<noteq> 0" using o(3) that by linarith
  show e: "in_next s' + 4 \<le> length (src_bytes c) \<longleftrightarrow> (p + 7) div 8 + 4 \<le> length (src_bytes c)"
  proof (cases "o0 = 0")
    case True
    then show ?thesis using a(6) by linarith
  next
    case False
    then show ?thesis using late a(4) by linarith
  qed
  show "in_next s' = (p + 7) div 8" if "in_next s' + 4 \<le> length (src_bytes c)"
    using a(6) that e late by (cases "o0 = 0") linarith+
  have "8 * length (src_bytes c) \<le> p + 56" if "overrun_count s \<noteq> 0" "o0 = 0"
  proof -
    note O = o(1) [unfolded bits_ok_def]
    have "in_next s = length (src_bytes c)" "bitsleft s \<le> 64" using O that by simp_all
    moreover have "8 * (length (src_bytes c) + overrun_count s) - bitsleft s = p" using o(2) that(2) calculation by (simp add: at_bit_def)
    then have "8 * length (src_bytes c) + 8 * overrun_count s \<le> p + bitsleft s" by simp
    moreover have "1 \<le> overrun_count s" using that(1) by simp
    ultimately show ?thesis by linarith
  qed
  moreover have "overrun_count s' = overrun_count s" by (simp add: s'_def ALIGN_INPUT_def)
  ultimately show "overrun_count s' = 0 \<or> length (src_bytes c) < in_next s' + 8 \<or> length (src_bytes c) < in_next s' + 4"
    using a(4,6) late by (cases "o0 = 0") linarith+
qed

text \<open>Without counted bits the position is that of the next byte.\<close>

lemma at_pos_bytes:
  assumes "bitbuf s = 0" "bitsleft s = 0" "in_next s \<le> length (src_bytes c)" "overrun_count s = 0 \<or> length (src_bytes c) < in_next s + 4"
  shows "at_pos c 0 s (8 * in_next s)"
  unfolding at_pos_def by (intro conjI exI [of _ "overrun_count s"]) (use assms in \<open>auto simp: bits_ok_def at_bit_def\<close>)

lemma uncompressed_block_ok:
  assumes p: "at_pos c 0 s p" and o: "at_out cap s out" and z: "sizes s"
  shows "refines (uncompressed_block c) s (inflate_stored (src_bytes c) cap p out) (block_post c cap)"
proof -
  let ?inp = "src_bytes c" and ?s1 = "ALIGN_INPUT s"
  define q where "q = in_next ?s1"
  note a = align_pos [OF p, folded q_def]
  have o1: "at_out cap ?s1 out" "sizes ?s1" using at_out_mem [OF a(1)] same_out_mem [OF a(1)] o z by simp_all
  have room: "length (outbuf ?s1) - out_next ?s1 = cap - length out" using o1(1) by (simp add: at_out_def)
  show ?thesis
  proof (cases "q + 4 \<le> length ?inp")
    case False
    then have "\<not> 4 \<le> length ?inp - q" by simp
    then show ?thesis using a(5) False by (simp add: inflate_stored_def uncompressed_block_def SAFETY_CHECK_def q_def [symmetric] Let_def)
  next
    case True
    have q: "(p + 7) div 8 = q" using a(6) True by simp
    have spec: "inflate_stored ?inp cap p out =
        (if le16_at ?inp q \<noteq> NOT (le16_at ?inp (q + 2)) then Inl BAD_DATA
         else if cap - length out < unat (le16_at ?inp q) then Inl INSUFFICIENT_SPACE
         else if q + 4 + unat (le16_at ?inp q) \<le> length ?inp
           then Inr (8 * (q + 4 + unat (le16_at ?inp q)), out @ take (unat (le16_at ?inp q)) (drop (q + 4) ?inp)) else Inl BAD_DATA)"
      using True unfolding inflate_stored_def Let_def q by simp
    let ?n = "unat (le16_at ?inp q)"
    let ?bs = "take ?n (drop (q + 4) ?inp)"
    have "refines (uncompressed_block c) s (inflate_stored ?inp cap p out) (block_post c cap)"
      if ok: "le16_at ?inp q = NOT (le16_at ?inp (q + 2))" "?n \<le> cap - length out" "q + 4 + ?n \<le> length ?inp"
    proof -
      have l: "length ?bs = ?n" using ok(3) by simp
      obtain b where b: "wr (outbuf ?s1) (int (out_next ?s1)) ?bs = Inr b" "at_out cap (?s1\<lparr>outbuf := b, out_next := length out + ?n\<rparr>) (out @ ?bs)"
        using at_out_append [OF o1(1), of ?bs] ok(2) unfolding l by blast
      let ?s2 = "?s1\<lparr>outbuf := b, in_next := q + 4 + ?n, out_next := length out + ?n\<rparr>"
      have "part ?inp (q + 4) ?n = Inr ?bs" using ok(3) by (simp add: part_def)
      moreover have "4 \<le> length ?inp - q" "?n \<le> length ?inp - (q + 4)" using ok(3) by linarith+
      ultimately have run: "uncompressed_block c s = (Inr (), ?s2)"
        using ok(1,2) b(1) room o1(1)
        by (simp add: uncompressed_block_def SAFETY_CHECK_def q_def [symmetric] modify_def at_out_def)
      have "at_pos c 0 ?s2 (8 * in_next ?s2)" by (rule at_pos_bytes) (use a True ok(3) in auto)
      moreover have same: "same_out (?s1\<lparr>outbuf := b, out_next := length out + ?n\<rparr>) ?s2" by (simp add: same_out_def)
      ultimately have "block_post c cap () ?s2 (8 * (q + 4 + ?n), out @ ?bs)"
        using same at_out_same [OF same] b(2) o1(2) by (simp add: block_post_def sizes_def)
      then show ?thesis using ok by (simp add: spec run)
    qed
    moreover have "fst (uncompressed_block c s) = Inl BAD_DATA" if "le16_at ?inp q \<noteq> NOT (le16_at ?inp (q + 2))"
      using that True by (simp add: uncompressed_block_def SAFETY_CHECK_def q_def [symmetric])
    moreover have "fst (uncompressed_block c s) = Inl INSUFFICIENT_SPACE"
      if "le16_at ?inp q = NOT (le16_at ?inp (q + 2))" "cap - length out < ?n"
      using that True room by (simp add: uncompressed_block_def SAFETY_CHECK_def q_def [symmetric])
    moreover have "fst (uncompressed_block c s) = Inl BAD_DATA"
      if "le16_at ?inp q = NOT (le16_at ?inp (q + 2))" "?n \<le> cap - length out" "length ?inp < q + 4 + ?n"
      using that True room by (simp add: uncompressed_block_def SAFETY_CHECK_def q_def [symmetric])
    ultimately show ?thesis by (force simp: spec)
  qed
qed

section \<open>The stream\<close>

lemma block_ok:
  assumes p: "at_pos c 0 s p" and o: "at_out cap s out" and z: "sizes s" and cap: "cap < 2 ^ 64"
  shows "refines (block c) s (inflate_block (src_bytes c) cap p out)
    (\<lambda>x s' y. x = (bits_num (src_bytes c) p 1 \<noteq> 0) \<and> block_post c cap x s' y)"
proof -
  let ?inp = "src_bytes c" and ?t = "bits_num (src_bytes c) (p + 1) 2"
  obtain s1 where s1: "ensure_bits c (1 + 2 + 5 + 5 + 4) s = (Inr (), s1)" "at_pos c 17 s1 p" "mem s1 = mem s"
    using ensure_pos [OF p, of 17] by auto
  obtain s2 where s2: "POP_BITS 1 s1 = (Inr (bits_num ?inp p 1), s2)" "at_pos c 16 s2 (p + 1)" "mem s2 = mem s1"
    using pop_pos [OF s1(2), of 1] by auto
  obtain s3 where s3: "POP_BITS 2 s2 = (Inr ?t, s3)" "at_pos c 14 s3 (p + 3)" "mem s3 = mem s2"
    using pop_pos [OF s2(2), of 2] by (auto simp: numeral_3_eq_3)
  have m: "mem s3 = mem s" using s1(3) s2(3) s3(3) by simp
  have o3: "at_out cap s3 out" and z3: "sizes s3" using at_out_mem [OF m] same_out_mem [OF m] o z by simp_all
  have p3: "at_pos c 0 s3 (p + 3)" by (rule at_pos_le [OF s3(2)]) simp
  let ?body = "if ?t = 2 then huffman_block c (dynamic_header c) else if ?t = 0 then uncompressed_block c
    else andthen (SAFETY_CHECK (?t = 1)) (\<lambda>_. huffman_block c static_header)"
  have run: "block c s = andthen ?body (\<lambda>_. ret (bits_num ?inp p 1 \<noteq> 0)) s3"
    unfolding block_def by (simp only: andthen_run [of "ensure_bits c (1 + 2 + 5 + 5 + 4)", OF s1(1)]
      andthen_run [of "POP_BITS 1", OF s2(1)] andthen_run [of "POP_BITS 2", OF s3(1)])
  have body: "refines ?body s3 (inflate_block ?inp cap p out) (block_post c cap)"
  proof -
    consider "?t = 0" | "?t = 1" | "?t = 2" | "?t = 3" using bits_num_less [of ?inp "p + 1" 2] by fastforce
    then show ?thesis
    proof cases
      case 1
      then show ?thesis using uncompressed_block_ok [OF p3 o3 z3] by (simp add: inflate_block_def)
    next
      case 2
      have "refines (huffman_block c static_header) s3 (bnd (Inr (p + 3, 288, 32, static_litlens @ replicate 32 5)) (inflate_coded ?inp cap out)) (block_post c cap)"
        by (rule huffman_block_ok [OF static_header_ok [OF p3 z3] o3 cap])
      then have r: "refines (huffman_block c static_header) s3 (inflate_block ?inp cap p out) (block_post c cap)"
        using 2 static_coded [of ?inp cap out "p + 3"] by (simp add: inflate_block_def)
      show ?thesis using 2 by (intro refines_run [OF _ r, of ?body s3]) (simp add: SAFETY_CHECK_def)
    next
      case 3
      have "refines (huffman_block c (dynamic_header c)) s3 (bnd (inflate_header ?inp (p + 3)) (inflate_coded ?inp cap out)) (block_post c cap)"
        by (rule huffman_block_ok [OF dynamic_header_ok [OF s3(2) z3] o3 cap])
      then show ?thesis using 3 by (simp add: inflate_block_def inflate_dynamic_parts)
    next
      case 4
      then show ?thesis by (simp add: inflate_block_def SAFETY_CHECK_def)
    qed
  qed
  show ?thesis
  proof (rule refines_run)
    show "block c s = andthen ?body (\<lambda>_. ret (bits_num ?inp p 1 \<noteq> 0)) s3" by (rule run)
    show "refines (andthen ?body (\<lambda>_. ret (bits_num ?inp p 1 \<noteq> 0))) s3 (inflate_block ?inp cap p out)
      (\<lambda>x s' y. x = (bits_num ?inp p 1 \<noteq> 0) \<and> block_post c cap x s' y)"
      using refines_value [OF body] by (rule refines_mono) (auto simp: block_post_def)
  qed
qed

lemma blocks_ok:
  "at_pos c 0 s p \<Longrightarrow> at_out cap s out \<Longrightarrow> sizes s \<Longrightarrow> cap < 2 ^ 64 \<Longrightarrow> 8 * length (src_bytes c) - p < k \<Longrightarrow>
    refines (blocks c k) s (inflate_blocks (src_bytes c) cap p out) (\<lambda>_ s' out'. at_out cap s' out' \<and> sizes s')"
proof (induction k arbitrary: s p out)
  case (Suc k)
  let ?inp = "src_bytes c"
  have spec: "inflate_blocks ?inp cap p out = bnd (inflate_block ?inp cap p out) (\<lambda>(p', out').
       if bits_num ?inp p 1 \<noteq> 0 then Inr out' else inflate_blocks ?inp cap p' out')" by (subst inflate_blocks.simps) simp
  show ?case unfolding spec blocks.simps
  proof (rule refines_andthen [OF block_ok [OF Suc.prems(1-4)]])
    fix x s' y assume post: "x = (bits_num ?inp p 1 \<noteq> 0) \<and> block_post c cap x s' y" and r: "inflate_block ?inp cap p out = Inr y"
    obtain p' out' where y: "y = (p', out')" by force
    have P: "at_pos c 0 s' p'" "at_out cap s' out'" "sizes s'" using post y by (simp_all add: block_post_def)
    have "8 * length ?inp - p' < k" using block_mono(1,2) [of ?inp cap p out p' out'] r y Suc.prems(5) by simp
    note rest = Suc.IH [OF P Suc.prems(4) this]
    show "refines (if x then ret () else blocks c k) s' (case y of (p', out') \<Rightarrow>
       if bits_num ?inp p 1 \<noteq> 0 then Inr out' else inflate_blocks ?inp cap p' out') (\<lambda>_ s' out'. at_out cap s' out' \<and> sizes s')"
      using rest P post y by (cases x) (simp_all add: ret_def)
  qed
qed simp

theorem decompress_ok:
  assumes z: "sizes d" and cap: "length out < 2 ^ 64"
  shows "case inflate (src_bytes c) (length out) of
      Inr data \<Rightarrow> libdeflate_deflate_decompress c d out = (Inr (), data)
    | Inl e \<Rightarrow> fst (libdeflate_deflate_decompress c d out) = Inl e"
proof -
  let ?inp = "src_bytes c" and ?cap = "length out"
  let ?s = "d\<lparr>in_next := 0, bitbuf := 0, bitsleft := 0, overrun_count := 0, outbuf := out, out_next := 0\<rparr>"
  have "at_pos c 0 ?s (8 * in_next ?s)" by (rule at_pos_bytes) simp_all
  then have p: "at_pos c 0 ?s 0" by simp
  have o: "at_out ?cap ?s []" "sizes ?s" using z by (simp_all add: at_out_def sizes_def)
  have b: "refines (blocks c (8 * length ?inp + 1)) ?s (inflate_blocks ?inp ?cap 0 []) (\<lambda>_ s' out'. at_out ?cap s' out' \<and> sizes s')"
    by (rule blocks_ok [OF p o cap]) simp
  show ?thesis
  proof (cases "inflate_blocks ?inp ?cap 0 []")
    case (Inl e)
    then have "fst (blocks c (8 * length ?inp + 1) ?s) = Inl e" using b by simp
    from andthen_stop [of "blocks c (8 * length ?inp + 1)", OF this]
    moreover have "fst (case x of (r, s) \<Rightarrow> (r, outbuf s)) = fst x" for x :: "unit res \<times> dstate" by (cases x) simp
    ultimately have "fst (libdeflate_deflate_decompress c d out) = Inl e" unfolding libdeflate_deflate_decompress_def by simp
    then show ?thesis using Inl by (simp add: inflate_def)
  next
    case (Inr data)
    then obtain s' where s': "blocks c (8 * length ?inp + 1) ?s = (Inr (), s')" "at_out ?cap s' data" using b by auto
    have "libdeflate_deflate_decompress c d out =
        (case andthen (gets (\<lambda>s. out_next s = length (outbuf s))) (\<lambda>full. guard full SHORT_OUTPUT) s' of (r, s) \<Rightarrow> (r, outbuf s))"
      unfolding libdeflate_deflate_decompress_def andthen_run [of "blocks c (8 * length ?inp + 1)", OF s'(1)] ..
    then show ?thesis using Inr s'(2) by (auto simp: inflate_def at_out_def guard_def)
  qed
qed

end
