(* ===== verification/Adler32.thy ===== *)
theory Adler32
  imports State
begin

text \<open>
  The checksum of libdeflate's zlib wrapper: \<^verbatim>\<open>adler32.c\<close> and the template \<^verbatim>\<open>adler32_impl.h\<close> with its
  SSE2 and AVX2 bodies; which of them is compiled in or chosen by \<open>dispatch\<close> is a parameter. A pointer into the buffer is the
  rest of the bytes, and its address where the code asks for the alignment. The vector instructions are
  defined as the processor's manual describes them, a vector being the list of its lanes.
\<close>

section \<open>Bytewise\<close>

abbreviation (input) DIVISOR :: "'a :: numeral" where "DIVISOR \<equiv> 65521"
abbreviation (input) MAX_BYTES_PER_CHUNK :: nat where "MAX_BYTES_PER_CHUNK \<equiv> 5552"

type_synonym sums = "32 word \<times> 32 word"

definition adler_add :: "byte \<Rightarrow> sums \<Rightarrow> sums" where
  "adler_add b = (\<lambda>(s1, s2). let s1 = s1 + ucast b in (s1, s2 + s1))"

definition adler_reduce :: "sums \<Rightarrow> sums" where
  "adler_reduce = (\<lambda>(s1, s2). (s1 mod DIVISOR, s2 mod DIVISOR))"

fun adler_unrolled :: "nat \<Rightarrow> byte list \<Rightarrow> sums \<Rightarrow> (sums \<times> byte list) res" where
  "adler_unrolled 0 p s = Inr (s, p)"
| "adler_unrolled (Suc n) (a # b # c # d # p) s = adler_unrolled n p (adler_add d (adler_add c (adler_add b (adler_add a s))))"
| "adler_unrolled (Suc n) p s = Inl Fault"

function adler_chunks :: "byte list \<Rightarrow> sums \<Rightarrow> sums res" where
  "adler_chunks p s =
     (if p \<noteq> [] then
        let chunk_size = min (length p) MAX_BYTES_PER_CHUNK in
        bnd (adler_unrolled (chunk_size div 4) (take chunk_size p) s) (\<lambda>(s, rest).
          adler_chunks (drop chunk_size p) (adler_reduce (fold adler_add rest s)))
      else Inr s)"
  by pat_completeness auto
termination by (relation "measure (\<lambda>(p, s). length p)") auto

declare adler_chunks.simps [simp del]

definition adler_split :: "32 word \<Rightarrow> sums" where
  "adler_split adler = (adler AND 0xFFFF, drop_bit 16 adler)"

definition adler_join :: "sums \<Rightarrow> 32 word" where
  "adler_join = (\<lambda>(s1, s2). push_bit 16 s2 OR s1)"

definition adler32_generic :: "32 word \<Rightarrow> byte list \<Rightarrow> 32 word res" where
  "adler32_generic adler buffer = bnd (adler_chunks buffer (adler_split adler)) (\<lambda>s. Inr (adler_join s))"

section \<open>Vectors\<close>

fun pairs :: "('a \<Rightarrow> 'a \<Rightarrow> 'b) \<Rightarrow> 'a list \<Rightarrow> 'b list" where
  "pairs f (x # y # xs) = f x y # pairs f xs"
| "pairs f _ = []"

definition vadd :: "'a::len word list \<Rightarrow> 'a word list \<Rightarrow> 'a word list" where
  "vadd = map2 (+)"

text \<open>The sums of eight absolute differences are 64-bit lanes; they are read as pairs of 32-bit ones.\<close>

definition abs_diff :: "byte \<Rightarrow> byte \<Rightarrow> nat" where
  "abs_diff x y = nat \<bar>int (unat x) - int (unat y)\<bar>"

fun sad_epu8 :: "byte list \<Rightarrow> byte list \<Rightarrow> 32 word list" where
  "sad_epu8 (x0 # x1 # x2 # x3 # x4 # x5 # x6 # x7 # xs) (y0 # y1 # y2 # y3 # y4 # y5 # y6 # y7 # ys) =
     of_nat (abs_diff x0 y0 + abs_diff x1 y1 + abs_diff x2 y2 + abs_diff x3 y3 +
       abs_diff x4 y4 + abs_diff x5 y5 + abs_diff x6 y6 + abs_diff x7 y7) # 0 # sad_epu8 xs ys"
| "sad_epu8 _ _ = []"

definition unpack_epi8 :: "byte list \<Rightarrow> byte list \<Rightarrow> 16 word list" where
  "unpack_epi8 = map2 (\<lambda>x y. ucast x OR push_bit 8 (ucast y))"

definition mm_unpacklo_epi8 :: "byte list \<Rightarrow> byte list \<Rightarrow> 16 word list" where
  "mm_unpacklo_epi8 x y = unpack_epi8 (take 8 x) (take 8 y)"

definition mm_unpackhi_epi8 :: "byte list \<Rightarrow> byte list \<Rightarrow> 16 word list" where
  "mm_unpackhi_epi8 x y = unpack_epi8 (drop 8 x) (drop 8 y)"

definition mul_epi16 :: "16 word \<Rightarrow> 16 word \<Rightarrow> 32 word" where
  "mul_epi16 x y = of_int (sint x * sint y)"

definition madd_epi16 :: "16 word list \<Rightarrow> 16 word list \<Rightarrow> 32 word list" where
  "madd_epi16 x y = pairs (+) (map2 mul_epi16 x y)"

text \<open>The second operand is signed, and the sum of the two products is saturated.\<close>

definition saturate16 :: "int \<Rightarrow> 16 word" where
  "saturate16 x = of_int (max (- 32768) (min 32767 x))"

definition maddubs_epi16 :: "byte list \<Rightarrow> byte list \<Rightarrow> 16 word list" where
  "maddubs_epi16 x y = map saturate16 (pairs (+) (map2 (\<lambda>x y. int (unat x) * sint y) x y))"

definition slli_epi32 :: "32 word list \<Rightarrow> nat \<Rightarrow> 32 word list" where
  "slli_epi32 v n = map (push_bit n) v"

definition mm_shuffle_epi32 :: "32 word list \<Rightarrow> nat \<Rightarrow> 32 word list" where
  "mm_shuffle_epi32 v imm = map (\<lambda>i. v ! take_bit 2 (drop_bit (2 * i) imm)) [0..<4]"

text \<open>Within each half of the vector: the sums of neighbours in the first operand, then those in the second.\<close>

definition mm256_hadd_epi32 :: "32 word list \<Rightarrow> 32 word list \<Rightarrow> 32 word list" where
  "mm256_hadd_epi32 x y =
     pairs (+) (take 4 x) @ pairs (+) (take 4 y) @ pairs (+) (drop 4 x) @ pairs (+) (drop 4 y)"

section \<open>The vector implementations\<close>

record sse2_sums =
  v_s1 :: "32 word list"
  v_s2 :: "32 word list"
  v_byte_sums_a :: "16 word list"
  v_byte_sums_b :: "16 word list"
  v_byte_sums_c :: "16 word list"
  v_byte_sums_d :: "16 word list"

definition sse2_init :: sse2_sums where
  "sse2_init = \<lparr>v_s1 = replicate 4 0, v_s2 = replicate 4 0, v_byte_sums_a = replicate 8 0, v_byte_sums_b = replicate 8 0,
     v_byte_sums_c = replicate 8 0, v_byte_sums_d = replicate 8 0\<rparr>"

definition sse2_round :: "byte list \<Rightarrow> sse2_sums \<Rightarrow> sse2_sums" where
  "sse2_round p v =
     (let bytes1 = take 16 p; bytes2 = take 16 (drop 16 p); zeroes = replicate 16 0;
          v = v\<lparr>v_s2 := vadd (v_s2 v) (v_s1 v)\<rparr>;
          v = v\<lparr>v_s1 := vadd (v_s1 v) (sad_epu8 bytes1 zeroes)\<rparr>;
          v = v\<lparr>v_s1 := vadd (v_s1 v) (sad_epu8 bytes2 zeroes)\<rparr>
      in v\<lparr>v_byte_sums_a := vadd (v_byte_sums_a v) (mm_unpacklo_epi8 bytes1 zeroes),
           v_byte_sums_b := vadd (v_byte_sums_b v) (mm_unpackhi_epi8 bytes1 zeroes),
           v_byte_sums_c := vadd (v_byte_sums_c v) (mm_unpacklo_epi8 bytes2 zeroes),
           v_byte_sums_d := vadd (v_byte_sums_d v) (mm_unpackhi_epi8 bytes2 zeroes)\<rparr>)"

text \<open>The loop \<open>do \<dots> while ((p += 32) != chunk_end)\<close>; a chunk is a multiple of 32 bytes.\<close>

function rounds :: "(byte list \<Rightarrow> 'v \<Rightarrow> 'v) \<Rightarrow> byte list \<Rightarrow> 'v \<Rightarrow> 'v" where
  "rounds f p v = (let v = f p v in if 32 < length p then rounds f (drop 32 p) v else v)"
  by pat_completeness auto
termination by (relation "measure (\<lambda>(f, p, v). length p)") auto

declare rounds.simps [simp del]

definition horizontal :: "32 word list \<Rightarrow> 32 word" where
  "horizontal v = (let v = vadd v (mm_shuffle_epi32 v 0x31); v = vadd v (mm_shuffle_epi32 v 0x02) in v ! 0)"

definition sse2_body :: "byte list \<Rightarrow> sums" where
  "sse2_body chunk =
     (let v = rounds sse2_round chunk sse2_init; s2 = slli_epi32 (v_s2 v) 5;
          s2 = vadd s2 (madd_epi16 (v_byte_sums_a v) [32, 31, 30, 29, 28, 27, 26, 25]);
          s2 = vadd s2 (madd_epi16 (v_byte_sums_b v) [24, 23, 22, 21, 20, 19, 18, 17]);
          s2 = vadd s2 (madd_epi16 (v_byte_sums_c v) [16, 15, 14, 13, 12, 11, 10, 9]);
          s2 = vadd s2 (madd_epi16 (v_byte_sums_d v) [8, 7, 6, 5, 4, 3, 2, 1])
      in (horizontal (v_s1 v), horizontal s2))"

record avx2_sums =
  w_s1 :: "32 word list"
  w_s1_sums :: "32 word list"
  w_s2 :: "32 word list"

definition avx2_init :: avx2_sums where
  "avx2_init = \<lparr>w_s1 = replicate 8 0, w_s1_sums = replicate 8 0, w_s2 = replicate 8 0\<rparr>"

definition avx2_round :: "byte list \<Rightarrow> avx2_sums \<Rightarrow> avx2_sums" where
  "avx2_round p v =
     (let bytes = take 32 p; multipliers = map of_nat (rev [1..<33]); sums = maddubs_epi16 bytes multipliers;
          v = v\<lparr>w_s1_sums := vadd (w_s1_sums v) (w_s1 v)\<rparr>
      in v\<lparr>w_s1 := vadd (w_s1 v) (sad_epu8 bytes (replicate 32 0)), w_s2 := vadd (w_s2 v) (madd_epi16 sums (replicate 16 1))\<rparr>)"

definition avx2_total :: "32 word list \<Rightarrow> 32 word" where
  "avx2_total v =
     (let zeroes = replicate 8 0; v = mm256_hadd_epi32 v zeroes; v = mm256_hadd_epi32 v zeroes in v ! 0 + v ! 4)"

definition avx2_body :: "byte list \<Rightarrow> sums" where
  "avx2_body chunk =
     (let v = rounds avx2_round chunk avx2_init
      in (avx2_total (w_s1 v), avx2_total (vadd (w_s2 v) (slli_epi32 (w_s1_sums v) 5))))"

text \<open>The template. A byte at a time until the address is aligned, then chunks, then what is left.\<close>

fun adler_align :: "nat \<Rightarrow> nat \<Rightarrow> byte list \<Rightarrow> sums \<Rightarrow> byte list \<times> sums" where
  "adler_align al addr [] s = ([], s)"
| "adler_align al addr (b # p) s = (if addr mod al \<noteq> 0 then adler_align al (addr + 1) p (adler_add b s) else (b # p, s))"

definition adler_prefix :: "nat \<Rightarrow> nat \<Rightarrow> byte list \<Rightarrow> sums \<Rightarrow> byte list \<times> sums" where
  "adler_prefix al addr p s =
     (if p \<noteq> [] \<and> addr mod al \<noteq> 0 then case adler_align al addr p s of (p, s) \<Rightarrow> (p, adler_reduce s) else (p, s))"

text \<open>The length of the next chunk out of \<open>n\<close> bytes; \<open>limit\<close> is the further limit of SSE2.\<close>

definition vector_chunk :: "nat option \<Rightarrow> nat \<Rightarrow> nat" where
  "vector_chunk limit n =
     (let chunk_size = min n MAX_BYTES_PER_CHUNK;
          chunk_size = (case limit of Some l \<Rightarrow> min chunk_size l | None \<Rightarrow> chunk_size)
      in chunk_size - chunk_size mod 32)"

text \<open>\<open>p\<close> is what is left of the bytes before \<open>vend\<close>; a chunk without bytes, which there is not, would not end.\<close>

function vector_chunks :: "nat option \<Rightarrow> (byte list \<Rightarrow> sums) \<Rightarrow> byte list \<Rightarrow> sums \<Rightarrow> sums res" where
  "vector_chunks limit body p s =
     (if p \<noteq> [] then
        let n = vector_chunk limit (length p) in
        if n = 0 then Inl OutOfFuel
        else
          let (s1, s2) = s; s2 = s2 + s1 * of_nat n; (x, y) = body (take n p)
          in vector_chunks limit body (drop n p) (adler_reduce (s1 + x, s2 + y))
      else Inr s)"
  by pat_completeness auto
termination by (relation "measure (\<lambda>(l, b, p, s). length p)") auto

declare vector_chunks.simps [simp del]

definition adler32_vector :: "nat \<Rightarrow> nat option \<Rightarrow> (byte list \<Rightarrow> sums) \<Rightarrow> nat \<Rightarrow> 32 word \<Rightarrow> byte list \<Rightarrow> 32 word res" where
  "adler32_vector al limit body addr adler buffer =
     (let (p, s) = adler_prefix al addr buffer (adler_split adler); n = length p - length p mod 32 in
      bnd (vector_chunks limit body (take n p) s) (\<lambda>s.
        let rest = drop n p; s = (if rest \<noteq> [] then adler_reduce (fold adler_add rest s) else s) in Inr (adler_join s)))"

datatype adler_impl = Generic | SSE2 | AVX2

fun adler32_impl :: "adler_impl \<Rightarrow> nat \<Rightarrow> 32 word \<Rightarrow> byte list \<Rightarrow> 32 word res" where
  "adler32_impl Generic addr = adler32_generic"
| "adler32_impl SSE2 addr = adler32_vector 16 (Some (32 * (0x7FFF div 0xFF))) sse2_body addr"
| "adler32_impl AVX2 addr = adler32_vector 32 None avx2_body addr"

text \<open>The buffer is a pointer, with its address, or \<open>NULL\<close>.\<close>

definition libdeflate_adler32 :: "adler_impl \<Rightarrow> 32 word \<Rightarrow> (nat \<times> byte list) option \<Rightarrow> 32 word res" where
  "libdeflate_adler32 impl adler buffer =
     (case buffer of None \<Rightarrow> Inr 1 | Some (addr, bs) \<Rightarrow> adler32_impl impl addr adler bs)"

end
