(* ===== verification/AdlerProps.thy ===== *)
theory AdlerProps
  imports Adler32
begin

text \<open>
  Every implementation of the checksum computes the definition of RFC 1950 for every buffer, address and starting value: the
  32-bit sums of a chunk do not wrap around, and the 16-bit counters of the vector code stay positive.
\<close>

section \<open>The definition\<close>

fun adler_ref :: "byte list \<Rightarrow> nat \<times> nat \<Rightarrow> nat \<times> nat" where
  "adler_ref [] s = s"
| "adler_ref (b # p) (s1, s2) = (let s1 = (s1 + unat b) mod 65521 in adler_ref p (s1, (s2 + s1) mod 65521))"

definition adler_value :: "nat \<times> nat \<Rightarrow> 32 word" where
  "adler_value = (\<lambda>(s1, s2). of_nat (s2 * 2 ^ 16 + s1))"

definition adler32 :: "byte list \<Rightarrow> 32 word" where
  "adler32 bs = adler_value (adler_ref bs (1, 0))"

section \<open>The sums\<close>

fun nsums :: "byte list \<Rightarrow> nat \<times> nat \<Rightarrow> nat \<times> nat" where
  "nsums [] s = s"
| "nsums (b # p) (s1, s2) = nsums p (s1 + unat b, s2 + (s1 + unat b))"

definition words :: "nat \<times> nat \<Rightarrow> sums" where
  "words = (\<lambda>(s1, s2). (of_nat s1, of_nat s2))"

definition mods :: "nat \<times> nat \<Rightarrow> nat \<times> nat" where
  "mods = (\<lambda>(s1, s2). (s1 mod 65521, s2 mod 65521))"

definition small :: "nat \<times> nat \<Rightarrow> bool" where
  "small s \<longleftrightarrow> fst s < 2 ^ 16 \<and> snd s < 2 ^ 16"

lemma nsums_append: "nsums (p @ q) s = nsums q (nsums p s)"
  by (induction p s rule: nsums.induct) simp_all

lemma add_words: "fold adler_add p (words s) = words (nsums p s)"
proof (induction p s rule: nsums.induct)
  case (2 b p s1 s2)
  have "(ucast b :: 32 word) = of_nat (unat b)" by simp
  then show ?case using 2 by (simp add: adler_add_def words_def Let_def)
qed simp

lemma mods_ref: "adler_ref p (mods s) = mods (nsums p s)"
proof (induction p s rule: nsums.induct)
  case (2 b p s1 s2)
  have "((s2 mod 65521 + (s1 mod 65521 + unat b) mod 65521) mod 65521) = (s2 + (s1 + unat b)) mod 65521"
    by (simp add: mod_simps)
  then show ?case using 2 by (simp add: mods_def Let_def mod_simps)
qed (simp add: mods_def)

lemma mods_small: "small (mods s)" "mods (mods s) = mods s"
proof -
  have "x mod 65521 < 2 ^ 16" for x :: nat by (rule less_trans [OF mod_less_divisor]) simp_all
  then show "small (mods s)" by (simp add: small_def mods_def split: prod.splits)
  show "mods (mods s) = mods s" by (simp add: mods_def split: prod.splits)
qed

lemma bound_arith: "2 * S \<le> 2 * (t + (s + b)) + 2 * (x + y) + 255 * (z + n) \<Longrightarrow> b \<le> 255 \<Longrightarrow> y \<le> 255 * n \<Longrightarrow>
    2 * S \<le> 2 * t + 2 * (s + x) + 255 * (z + 3 * n + 2)" for S :: nat
  by simp

text \<open>The bound of the comment at \<open>MAX_BYTES_PER_CHUNK\<close>; it even holds for sums that are not reduced.\<close>

lemma nsums_bound: "fst (nsums p (s1, s2)) \<le> s1 + 255 * length p \<and> 2 * snd (nsums p (s1, s2)) \<le> 2 * s2 + 2 * (length p * s1) + 255 * (length p * (length p + 1))"
proof (induction p arbitrary: s1 s2)
  case (Cons b p)
  have b: "unat b \<le> 255" using unsigned_less [of b, where 'a = nat] by simp
  let ?n = "length p"
  have y: "?n * unat b \<le> 255 * ?n" using mult_le_mono2 [OF b, of ?n] by simp
  have e: "?n * (s1 + unat b) = ?n * s1 + ?n * unat b" "?n * (?n + 1) = ?n * ?n + ?n" "length (b # p) * s1 = s1 + ?n * s1"
    "length (b # p) * (length (b # p) + 1) = ?n * ?n + 3 * ?n + 2" by (simp_all add: algebra_simps)
  note IH = Cons [of "s1 + unat b" "s2 + (s1 + unat b)", unfolded e]
  have "fst (nsums (b # p) (s1, s2)) \<le> s1 + 255 * length (b # p)" using IH b by simp
  moreover have "2 * snd (nsums (b # p) (s1, s2)) \<le> 2 * s2 + 2 * (s1 + ?n * s1) + 255 * (?n * ?n + 3 * ?n + 2)"
    unfolding nsums.simps by (rule bound_arith [OF conjunct2 [OF IH] b y])
  ultimately show ?case unfolding e by blast
qed simp

lemma nsums_room:
  assumes "small s" "length p \<le> 5552"
  shows "fst (nsums p s) < 2 ^ 32" "snd (nsums p s) < 2 ^ 32"
proof -
  obtain s1 s2 where s: "s = (s1, s2)" by force
  have b: "s1 \<le> 65535" "s2 \<le> 65535" using assms(1) s by (simp_all add: small_def)
  define x where "x = length p * s1"
  define y where "y = length p * (length p + 1)"
  have "x \<le> 5552 * 65535" "y \<le> 5552 * 5553" unfolding x_def y_def
    using assms(2) b by (intro mult_le_mono; simp)+
  moreover have "fst (nsums p s) \<le> s1 + 255 * length p" "2 * snd (nsums p s) \<le> 2 * s2 + 2 * x + 255 * y"
    using nsums_bound [of p s1 s2] unfolding s x_def y_def by blast+
  ultimately show "fst (nsums p s) < 2 ^ 32" "snd (nsums p s) < 2 ^ 32" using assms(2) b by simp_all
qed

lemma reduce_words: "fst s < 2 ^ 32 \<Longrightarrow> snd s < 2 ^ 32 \<Longrightarrow> adler_reduce (words s) = words (mods s)"
proof -
  assume "fst s < 2 ^ 32" "snd s < 2 ^ 32"
  moreover have "(of_nat x :: 32 word) mod 65521 = of_nat (x mod 65521)" if "x < 2 ^ 32" for x
    by (rule unsigned_word_eqI [where 'a = nat]) (use that in \<open>simp add: unat_mod_distrib unat_of_nat\<close>)
  ultimately show ?thesis by (cases s) (simp add: adler_reduce_def words_def mods_def)
qed

lemma ref_append: "adler_ref (p @ q) s = adler_ref q (adler_ref p s)"
  by (induction p s rule: adler_ref.induct) (simp_all add: Let_def)

lemma ref_sums: "p \<noteq> [] \<Longrightarrow> adler_ref p s = mods (nsums p s)"
proof -
  assume "p \<noteq> []"
  then have "adler_ref p s = adler_ref p (mods s)"
    by (cases p; cases s) (simp_all add: mods_def Let_def mod_simps)
  then show ?thesis by (simp add: mods_ref)
qed

lemma ref_small: "small s \<Longrightarrow> small (adler_ref p s)"
  using ref_sums [of p s] mods_small by (cases p) auto

lemma reduce_sums: "small s \<Longrightarrow> length p \<le> 5552 \<Longrightarrow> p \<noteq> [] \<Longrightarrow> adler_reduce (words (nsums p s)) = words (adler_ref p s)"
  unfolding ref_sums by (rule reduce_words) (rule nsums_room; assumption)+

lemma step_words: "small s \<Longrightarrow> length p \<le> 5552 \<Longrightarrow> p \<noteq> [] \<Longrightarrow> adler_reduce (fold adler_add p (words s)) = words (adler_ref p s)"
  unfolding add_words by (rule reduce_sums)

lemma low_16: "a AND 0xFFFF = take_bit 16 (a :: 32 word)"
  by (simp add: take_bit_eq_mask mask_eq_exp_minus_1)

lemma split_words: "adler_split a = words (unat (take_bit 16 a), unat (drop_bit 16 a))" "small (unat (take_bit 16 a), unat (drop_bit 16 a))"
proof -
  show "adler_split a = words (unat (take_bit 16 a), unat (drop_bit 16 a))" unfolding adler_split_def low_16 words_def by simp
  have "unat a < 2 ^ 32" using unsigned_less [of a] by simp
  then have "unat a div 2 ^ 16 < 2 ^ 16" by (simp add: less_mult_imp_div_less)
  then show "small (unat (take_bit 16 a), unat (drop_bit 16 a))"
    by (simp add: small_def unsigned_take_bit_eq unat_drop_bit_eq take_bit_nat_less_exp drop_bit_eq_div [of 16 "unat a"] del: power_numeral)
qed

lemma join_words: "small s \<Longrightarrow> adler_join (words s) = adler_value s"
proof -
  assume s: "small s"
  have "\<not> bit (push_bit 16 (of_nat (snd s)) :: 32 word) n \<or> \<not> bit (of_nat (fst s) :: 32 word) n" for n
  proof (cases "n < 16")
    case False
    have "take_bit 16 (fst s) = fst s" using s by (simp add: small_def take_bit_nat_eq_self)
    then have "\<not> bit (fst s) n" using False bit_take_bit_iff [of 16 "fst s" n] by simp
    then show ?thesis by (simp add: bit_of_nat_iff)
  qed (simp add: bit_push_bit_iff)
  then have "push_bit 16 (of_nat (snd s)) AND (of_nat (fst s) :: 32 word) = 0" by (intro bit_word_eqI) (simp add: bit_and_iff)
  from disjunctive_add_eq_or [OF this] show ?thesis
    by (cases s) (simp add: adler_join_def words_def adler_value_def push_bit_eq_mult)
qed

section \<open>The generic implementation\<close>

lemma unrolled_run:
  "4 * n \<le> length p \<Longrightarrow> adler_unrolled n p s = Inr (fold adler_add (take (4 * n) p) s, drop (4 * n) p)"
proof (induction n arbitrary: p s)
  case (Suc n)
  then have "Suc (Suc (Suc (Suc (4 * n)))) \<le> length p" by simp
  then obtain a b c d q where p: "p = a # b # c # d # q" by (auto simp: Suc_le_length_iff)
  have e: "4 * Suc n = Suc (Suc (Suc (Suc (4 * n))))" by simp
  have "4 * n \<le> length q" using Suc.prems p by simp
  from Suc.IH [OF this] show ?case unfolding p e adler_unrolled.simps take_Suc_Cons drop_Suc_Cons by simp
qed simp

lemma chunks_run: "small s \<Longrightarrow> adler_chunks p (words s) = Inr (words (adler_ref p s))"
proof (induction "length p" arbitrary: p s rule: less_induct)
  case less
  show ?case
  proof (cases "p = []")
    case True
    then show ?thesis by (subst adler_chunks.simps) simp
  next
    case False
    define n where "n = min (length p) 5552"
    have n: "n \<le> length p" "n \<le> 5552" "0 < n" using False by (simp_all add: n_def)
    let ?k = "4 * (n div 4)"
    have u: "adler_unrolled (n div 4) (take n p) (words s) = Inr (fold adler_add (take ?k (take n p)) (words s), drop ?k (take n p))"
      by (rule unrolled_run) (use n in simp)
    have "fold adler_add (drop ?k (take n p)) (fold adler_add (take ?k (take n p)) (words s)) =
        fold adler_add (take ?k (take n p) @ drop ?k (take n p)) (words s)" by (simp only: fold_append comp_apply)
    also have "adler_reduce \<dots> = words (adler_ref (take n p) s)"
      unfolding append_take_drop_id by (rule step_words [OF less.prems]) (use n False in auto)
    finally have "adler_chunks p (words s) = adler_chunks (drop n p) (words (adler_ref (take n p) s))"
      using False u by (subst adler_chunks.simps) (simp only: Let_def n_def [symmetric] simp_thms if_True bnd_simps prod.case)
    then show ?thesis
      using less.hyps [of "drop n p" "adler_ref (take n p) s"] n False ref_small [OF less.prems] ref_append [of "take n p" "drop n p" s] by simp
  qed
qed

definition split_nat :: "32 word \<Rightarrow> nat \<times> nat" where
  "split_nat a = (unat (take_bit 16 a), unat (drop_bit 16 a))"

lemma generic_ok: "adler32_generic a p = Inr (adler_value (adler_ref p (split_nat a)))"
  using chunks_run [OF split_words(2)] join_words [OF ref_small [OF split_words(2)]]
  by (simp add: adler32_generic_def split_words(1) split_nat_def)

section \<open>The template\<close>

text \<open>What an implementation of the body has to compute: what the bytes add to the two sums.\<close>

definition within :: "nat option \<Rightarrow> nat \<Rightarrow> bool" where
  "within limit n \<longleftrightarrow> n \<le> 5552 \<and> (\<forall>l. limit = Some l \<longrightarrow> n \<le> l)"

lemma nsums_linear: "nsums p (s1, s2) = (s1 + fst (nsums p (0, 0)), s2 + length p * s1 + snd (nsums p (0, 0)))"
proof (induction p arbitrary: s1 s2)
  case (Cons b p)
  show ?case using Cons [of "s1 + unat b" "s2 + (s1 + unat b)"] Cons [of "unat b" "unat b"] by (simp add: algebra_simps)
qed simp

lemma chunk_length:
  assumes "n mod 32 = 0" "0 < n" "\<forall>l. limit = Some l \<longrightarrow> 32 \<le> l"
  shows "0 < vector_chunk limit n" "vector_chunk limit n mod 32 = 0" "vector_chunk limit n \<le> n" "within limit (vector_chunk limit n)"
proof -
  let ?m = "case limit of Some l \<Rightarrow> min (min n 5552) l | None \<Rightarrow> min n 5552"
  have v: "vector_chunk limit n = ?m div 32 * 32" by (simp add: vector_chunk_def Let_def minus_mod_eq_div_mult)
  have "32 \<le> n" using assms(1,2) by (metis dvd_imp_le dvd_eq_mod_eq_0)
  then have "32 \<le> ?m" using assms(3) by (auto split: option.splits)
  then have "1 \<le> ?m div 32" by linarith
  then show "0 < vector_chunk limit n" "vector_chunk limit n mod 32 = 0" unfolding v by simp_all
  have le: "vector_chunk limit n \<le> ?m" unfolding v by (rule div_times_less_eq_dividend)
  then show "vector_chunk limit n \<le> n" "within limit (vector_chunk limit n)" by (auto simp: within_def split: option.splits)
qed

lemma align_run:
  assumes "0 < al"
  shows "\<exists>k. adler_align al addr p s = (drop k p, fold adler_add (take k p) s) \<and> k \<le> (if addr mod al = 0 then 0 else al - addr mod al)"
proof (induction p arbitrary: addr s)
  case (Cons b p)
  show ?case
  proof (cases "addr mod al = 0")
    case False
    obtain k where k: "adler_align al (addr + 1) p (adler_add b s) = (drop k p, fold adler_add (take k p) (adler_add b s))"
        "k \<le> (if (addr + 1) mod al = 0 then 0 else al - (addr + 1) mod al)" using Cons by blast
    have "Suc k \<le> al - addr mod al" using k(2) mod_less_divisor [OF assms, of addr] by (auto simp: mod_Suc split: if_splits)
    then show ?thesis using k(1) False by (intro exI [of _ "Suc k"]) simp
  qed (use Cons in \<open>auto intro: exI [of _ 0]\<close>)
qed (auto intro: exI [of _ 0])

lemma prefix_run:
  assumes al: "0 < al" "al \<le> 5552" and s: "small s"
  shows "\<exists>k. adler_prefix al addr p (words s) = (drop k p, words (adler_ref (take k p) s))"
proof (cases "p \<noteq> [] \<and> addr mod al \<noteq> 0")
  case True
  obtain k where k: "adler_align al addr p (words s) = (drop k p, fold adler_add (take k p) (words s))" "k \<le> al - addr mod al"
    using align_run [OF al(1), of addr p "words s"] True by auto
  have "0 < k"
  proof (rule ccontr)
    assume "\<not> 0 < k"
    then have "fst (adler_align al addr p (words s)) = p" using k(1) by simp
    moreover have "length (fst (adler_align al addr q t)) \<le> length q" for addr q t by (induction al addr q t rule: adler_align.induct) auto
    moreover obtain b q where "p = b # q" using True by (cases p) auto
    ultimately show False using True by (metis adler_align.simps(2) impossible_Cons)
  qed
  then have "adler_reduce (fold adler_add (take k p) (words s)) = words (adler_ref (take k p) s)"
    by (intro step_words [OF s]) (use k al True in auto)
  then show ?thesis using True k(1) by (auto simp: adler_prefix_def)
next
  case False
  then have "adler_prefix al addr p (words s) = (drop 0 p, words (adler_ref (take 0 p) s))" by (auto simp: adler_prefix_def)
  then show ?thesis by blast
qed

locale vector_body =
  fixes body :: "byte list \<Rightarrow> sums" and limit :: "nat option"
  assumes body: "length chunk mod 32 = 0 \<Longrightarrow> chunk \<noteq> [] \<Longrightarrow> within limit (length chunk) \<Longrightarrow> body chunk = words (nsums chunk (0, 0))"
    and limit: "limit = Some l \<Longrightarrow> 32 \<le> l"
begin

lemma vector_chunks_ok: "length p mod 32 = 0 \<Longrightarrow> small s \<Longrightarrow> vector_chunks limit body p (words s) = Inr (words (adler_ref p s))"
proof (induction "length p" arbitrary: p s rule: less_induct)
  case less
  show ?case
  proof (cases "p = []")
    case True
    then show ?thesis by (subst vector_chunks.simps) simp
  next
    case False
    define n where "n = vector_chunk limit (length p)"
    have n: "0 < n" "n mod 32 = 0" "n \<le> length p" "within limit n"
      unfolding n_def using chunk_length [OF less.prems(1), of limit] False limit by simp_all
    let ?q = "take n p"
    obtain a b where s: "s = (a, b)" by force
    have q: "length ?q = n" "?q \<noteq> []" using n False by auto
    have "body ?q = words (nsums ?q (0, 0))" by (rule body) (use n q in simp_all)
    then have add: "(case body ?q of (x, y) \<Rightarrow> (of_nat a + x, of_nat b + of_nat a * of_nat n + y)) = words (nsums ?q s)"
      unfolding s nsums_linear [of ?q a b] q(1) by (simp add: words_def split: prod.splits)
    have "adler_reduce (words (nsums ?q s)) = words (adler_ref ?q s)"
      by (rule reduce_sums [OF less.prems(2)]) (use n q in \<open>simp_all add: within_def\<close>)
    then have "vector_chunks limit body p (words s) = vector_chunks limit body (drop n p) (words (adler_ref ?q s))"
      using False n(1) add [symmetric] by (subst vector_chunks.simps) (simp add: n_def [symmetric] Let_def s words_def split: prod.splits)
    moreover have "length (drop n p) mod 32 = 0" using less.prems(1) n(2,3) by (simp add: mod_diff_eq mod_0_imp_dvd)
    ultimately show ?thesis
      using less.hyps [of "drop n p" "adler_ref ?q s"] n(1) False ref_small [OF less.prems(2)] ref_append [of ?q "drop n p" s] by simp
  qed
qed

lemma vector_ok:
  assumes "0 < al" "al \<le> 5552"
  shows "adler32_vector al limit body addr a p = Inr (adler_value (adler_ref p (split_nat a)))"
proof -
  have s: "small (split_nat a)" using split_words(2) by (simp add: split_nat_def)
  obtain k where k: "adler_prefix al addr p (words (split_nat a)) = (drop k p, words (adler_ref (take k p) (split_nat a)))"
    using prefix_run [OF assms s] by blast
  define q where "q = drop k p"
  define n where "n = length q - length q mod 32"
  let ?s1 = "adler_ref (take k p) (split_nat a)" and ?r = "drop n q"
  have n: "n \<le> length q" "length (take n q) mod 32 = 0" by (simp_all add: n_def minus_mod_eq_div_mult)
  have v: "vector_chunks limit body (take n q) (words ?s1) = Inr (words (adler_ref (take n q) ?s1))"
    by (rule vector_chunks_ok [OF n(2) ref_small [OF s]])
  have "length ?r < 32" by (simp add: n_def)
  then have "(if ?r \<noteq> [] then adler_reduce (fold adler_add ?r (words (adler_ref (take n q) ?s1))) else words (adler_ref (take n q) ?s1)) =
      words (adler_ref ?r (adler_ref (take n q) ?s1))"
    using step_words [OF ref_small [OF ref_small [OF s]], of ?r] by simp
  also have "adler_ref ?r (adler_ref (take n q) ?s1) = adler_ref p (split_nat a)"
    unfolding ref_append [symmetric] append_assoc append_take_drop_id by (simp only: q_def append_take_drop_id)
  finally have "adler32_vector al limit body addr a p = Inr (adler_join (words (adler_ref p (split_nat a))))"
    using k v split_words(1) [of a] unfolding adler32_vector_def split_nat_def [symmetric] by (simp add: q_def [symmetric] n_def [symmetric])
  then show ?thesis using join_words [OF ref_small [OF s]] by simp
qed

end

section \<open>SSE2\<close>

lemma words_parts: "words s = (of_nat (fst s), of_nat (snd s))"
  by (simp add: words_def split_def)

lemma abs_diff_0 [simp]: "abs_diff x 0 = unat x"
  by (simp add: abs_diff_def)

lemma ucast_nat: "(ucast (b :: byte) :: 16 word) = of_nat (unat b)" "(ucast (b :: byte) :: 32 word) = of_nat (unat b)"
  by simp_all

lemma vadd_length [simp]: "length (vadd u w) = min (length u) (length w)"
  by (simp add: vadd_def)

lemma vadd_sum: "length u = length w \<Longrightarrow> sum_list (vadd u w) = sum_list u + sum_list w"
  unfolding vadd_def by (induction u w rule: list_induct2) (simp_all add: algebra_simps)

lemma vadd_nat: "vadd (map of_nat xs) (map of_nat ys) = map of_nat (map2 (+) xs ys)"
  unfolding vadd_def by (induction xs ys rule: list_induct2') simp_all

lemma sum_pairs: "even (length l) \<Longrightarrow> sum_list (pairs (+) l) = sum_list l \<and> length (pairs (+) l) = length l div 2"
  for l :: "'a :: comm_monoid_add list"
  by (induction l rule: induct_list012) (simp_all add: add.assoc)

lemma sad_sum:
  "length x = 8 * m \<Longrightarrow> sum_list (sad_epu8 x (replicate (length x) 0)) = of_nat (sum_list (map unat x)) \<and>
    length (sad_epu8 x (replicate (length x) 0)) = 2 * m"
proof (induction m arbitrary: x)
  case (Suc m)
  then have "length x = Suc (Suc (Suc (Suc (Suc (Suc (Suc (Suc (8 * m))))))))" by simp
  then obtain a b c d e f g h y where x: "x = a # b # c # d # e # f # g # h # y" "length y = 8 * m"
    unfolding length_Suc_conv by blast
  then show ?case using Suc.IH [of y] by (simp add: algebra_simps)
qed simp

lemma shift_sum: "sum_list (slli_epi32 v n) = push_bit n (sum_list v)"
  by (induction v) (simp_all add: slli_epi32_def push_bit_add)

definition dot :: "nat list \<Rightarrow> nat list \<Rightarrow> nat" where
  "dot ms xs = sum_list (map2 (*) ms xs)"

lemma dot_Cons [simp]: "dot [] xs = 0" "dot ms [] = 0" "dot (m # ms) (x # xs) = m * x + dot ms xs"
  by (simp_all add: dot_def)

lemma dot_add: "length ms = length xs \<Longrightarrow> length xs = length ys \<Longrightarrow> dot ms (map2 (+) xs ys) = dot ms xs + dot ms ys"
  by (induction ms xs ys rule: list_induct3) (simp_all add: algebra_simps)

lemma dot_append: "length ms = length xs \<Longrightarrow> dot (ms @ ns) (xs @ ys) = dot ms xs + dot ns ys"
  by (induction ms xs rule: list_induct2) simp_all

lemma nsums_dot: "nsums p (0, 0) = (sum_list (map unat p), dot (rev [1..<Suc (length p)]) (map unat p))"
proof (induction p)
  case (Cons b p)
  have "rev [1..<Suc (length (b # p))] = Suc (length p) # rev [1..<Suc (length p)]" by simp
  then show ?case using Cons nsums_linear [of p "unat b" "unat b"] by (simp del: upt_Suc)
qed simp

lemma sint_small: "n \<le> 32767 \<Longrightarrow> sint (of_nat n :: 16 word) = int n"
proof -
  assume n: "n \<le> 32767"
  have "sint (word_of_int (int n) :: 16 word) = signed_take_bit 15 (int n)" by (simp only: sint_sbintrunc' len_num0 len_num1 len_bit0) simp
  also have "\<dots> = int n" using n by (intro signed_take_bit_int_eq_self) simp_all
  finally show ?thesis by simp
qed

text \<open>Multiplying and adding, as long as nothing gets negative.\<close>

lemma madd_sum:
  assumes "length ms = length cs" "even (length cs)" "\<forall>c \<in> set cs. c \<le> 32767" "\<forall>m \<in> set ms. m \<le> 32767"
  shows "sum_list (madd_epi16 (map of_nat cs) (map of_nat ms)) = of_nat (dot ms cs)" "length (madd_epi16 (map of_nat cs) (map of_nat ms)) = length cs div 2"
proof -
  let ?f = mul_epi16
  have m: "mul_epi16 (of_nat x) (of_nat y) = of_nat (y * x)" if "x \<le> 32767" "y \<le> 32767" for x y
    unfolding mul_epi16_def sint_small [OF that(1)] sint_small [OF that(2)] by (simp add: mult.commute)
  have l: "length (map2 ?f (map of_nat cs) (map of_nat ms)) = length cs" using assms(1) by simp
  have "sum_list (map2 ?f (map of_nat cs) (map of_nat ms)) = of_nat (dot ms cs)"
    using assms(1,3,4) by (induction ms cs rule: list_induct2) (simp_all add: m)
  then show "sum_list (madd_epi16 (map of_nat cs) (map of_nat ms)) = of_nat (dot ms cs)" "length (madd_epi16 (map of_nat cs) (map of_nat ms)) = length cs div 2"
    using sum_pairs [of "map2 ?f (map of_nat cs) (map of_nat ms)"] l assms(2) by (simp_all add: madd_epi16_def)
qed

lemma rounds_inv:
  assumes step: "\<And>q p v. I q v \<Longrightarrow> 32 \<le> length p \<Longrightarrow> I (q @ take 32 p) (f p v)"
  shows "I q v \<Longrightarrow> p \<noteq> [] \<Longrightarrow> length p mod 32 = 0 \<Longrightarrow> I (q @ p) (rounds f p v)"
proof (induction "length p" arbitrary: p q v rule: less_induct)
  case less
  have l: "32 \<le> length p" using less.prems(2,3) by (metis dvd_imp_le dvd_eq_mod_eq_0 length_greater_0_conv)
  note s = step [OF less.prems(1) l]
  show ?case
  proof (cases "32 < length p")
    case True
    have d: "length (drop 32 p) mod 32 = 0" using less.prems(3) l by (simp add: mod_diff_eq mod_0_imp_dvd)
    have "length (drop 32 p) < length p" "drop 32 p \<noteq> []" using True by simp_all
    then have "I ((q @ take 32 p) @ drop 32 p) (rounds f (drop 32 p) (f p v))" by (rule less.hyps [OF _ s _ d])
    moreover have "rounds f p v = rounds f (drop 32 p) (f p v)" using True by (subst rounds.simps) (simp add: Let_def)
    ultimately show ?thesis by simp
  next
    case False
    then show ?thesis using s l by (subst rounds.simps) simp
  qed
qed

definition rep32 :: "32 word list \<Rightarrow> nat \<Rightarrow> nat \<Rightarrow> bool" where
  "rep32 v k n \<longleftrightarrow> length v = k \<and> sum_list v = of_nat n"

lemma rep32_add: "rep32 v k m \<Longrightarrow> rep32 w k n \<Longrightarrow> rep32 (vadd v w) k (m + n)"
  by (simp add: rep32_def vadd_sum)

lemma rep32_zero: "rep32 (replicate k 0) k 0"
  unfolding rep32_def by (induction k) simp_all

lemma rep32_shift: "rep32 v k n \<Longrightarrow> rep32 (slli_epi32 v 5) k (32 * n)"
  unfolding rep32_def shift_sum by (simp add: slli_epi32_def push_bit_eq_mult)

lemma rep32_sad: "length x = 8 * m \<Longrightarrow> rep32 (sad_epu8 x (replicate (length x) 0)) (2 * m) (sum_list (map unat x))"
  using sad_sum [of x m] by (simp add: rep32_def)

definition counts16 :: "16 word list \<Rightarrow> nat list \<Rightarrow> nat \<Rightarrow> bool" where
  "counts16 v cs b \<longleftrightarrow> v = map of_nat cs \<and> length cs = 8 \<and> (\<forall>c \<in> set cs. c \<le> b)"

lemma unpack_zero: "unpack_epi8 x (replicate (length x) 0) = map of_nat (map unat x)"
  unfolding unpack_epi8_def by (induction x) simp_all

lemma counts16_add:
  assumes "counts16 v cs b" "length x = 8"
  shows "counts16 (vadd v (unpack_epi8 x (replicate 8 0))) (map2 (+) cs (map unat x)) (b + 255)"
proof -
  have "unat y \<le> 255" for y :: byte using unsigned_less [of y, where 'a = nat] by simp
  then have "\<forall>c \<in> set (map2 (+) cs (map unat x)). c \<le> b + 255" using assms by (force simp: counts16_def set_zip intro: add_mono)
  moreover have "vadd v (unpack_epi8 x (replicate 8 0)) = map of_nat (map2 (+) cs (map unat x))"
    using assms unpack_zero [of x] vadd_nat [of cs "map unat x"] by (simp only: counts16_def)
  ultimately show ?thesis using assms unfolding counts16_def by simp
qed

text \<open>Where the vectors are after the blocks \<open>q\<close>: with the multipliers of the end they give the two sums.\<close>

definition sse2_inv :: "byte list \<Rightarrow> sse2_sums \<Rightarrow> bool" where
  "sse2_inv q v \<longleftrightarrow> (\<exists>y as bs cs ds. rep32 (v_s1 v) 4 (fst (nsums q (0, 0))) \<and> rep32 (v_s2 v) 4 y \<and>
     counts16 (v_byte_sums_a v) as (255 * (length q div 32)) \<and> counts16 (v_byte_sums_b v) bs (255 * (length q div 32)) \<and>
     counts16 (v_byte_sums_c v) cs (255 * (length q div 32)) \<and> counts16 (v_byte_sums_d v) ds (255 * (length q div 32)) \<and>
     snd (nsums q (0, 0)) = 32 * y + dot (rev [1..<33]) (as @ bs @ cs @ ds))"

lemma block_sums: "length e = 32 \<Longrightarrow> nsums (q @ e) (0, 0) =
    (fst (nsums q (0, 0)) + sum_list (map unat e), snd (nsums q (0, 0)) + 32 * fst (nsums q (0, 0)) + dot (rev [1..<33]) (map unat e))"
  using nsums_linear [of e "fst (nsums q (0, 0))" "snd (nsums q (0, 0))"] nsums_dot [of e] by (simp add: nsums_append del: upt_rec_numeral)

lemma sse2_round_inv:
  assumes "sse2_inv q v" "32 \<le> length p"
  shows "sse2_inv (q @ take 32 p) (sse2_round p v)"
proof -
  define e where "e = take 32 p"
  let ?a = "take 8 e" and ?b = "take 8 (drop 8 e)" and ?c = "take 8 (drop 16 e)" and ?d = "take 8 (drop 24 e)"
  have e: "length e = 32" using assms(2) by (simp add: e_def)
  have parts: "take 16 p = ?a @ ?b" "take 16 (drop 16 p) = ?c @ ?d" "e = ?a @ ?b @ ?c @ ?d"
  proof -
    have a: "?a = take 8 p" "?b = take 8 (drop 8 p)" "?c = take 8 (drop 16 p)" "?d = take 8 (drop 24 p)" by (simp_all add: e_def drop_take)
    show p: "take 16 p = ?a @ ?b" unfolding a using take_add [of 8 8 p] by simp
    show q: "take 16 (drop 16 p) = ?c @ ?d" unfolding a using take_add [of 8 8 "drop 16 p"] by simp
    have "e = take 16 p @ take 16 (drop 16 p)" unfolding e_def using take_add [of 16 16 p] by simp
    then show "e = ?a @ ?b @ ?c @ ?d" unfolding p q by (simp only: append_assoc)
  qed
  obtain y as bs cs ds where I: "rep32 (v_s1 v) 4 (fst (nsums q (0, 0)))" "rep32 (v_s2 v) 4 y"
     "counts16 (v_byte_sums_a v) as (255 * (length q div 32))" "counts16 (v_byte_sums_b v) bs (255 * (length q div 32))"
     "counts16 (v_byte_sums_c v) cs (255 * (length q div 32))" "counts16 (v_byte_sums_d v) ds (255 * (length q div 32))"
     "snd (nsums q (0, 0)) = 32 * y + dot (rev [1..<33]) (as @ bs @ cs @ ds)"
    using assms(1) unfolding sse2_inv_def by blast
  have l: "length ?a = 8" "length ?b = 8" "length ?c = 8" "length ?d = 8" using e by simp_all
  have l16: "length (take 16 p) = 8 * 2" "length (take 16 (drop 16 p)) = 8 * 2" using assms(2) by simp_all
  have z: "replicate 16 (0 :: byte) = replicate 8 0 @ replicate 8 0" by (simp add: replicate_add [symmetric])
  let ?v = "sse2_round p v"
  have f: "v_s2 ?v = vadd (v_s2 v) (v_s1 v)"
    "v_s1 ?v = vadd (vadd (v_s1 v) (sad_epu8 (take 16 p) (replicate 16 0))) (sad_epu8 (take 16 (drop 16 p)) (replicate 16 0))"
    "v_byte_sums_a ?v = vadd (v_byte_sums_a v) (unpack_epi8 ?a (replicate 8 0))" "v_byte_sums_b ?v = vadd (v_byte_sums_b v) (unpack_epi8 ?b (replicate 8 0))"
    "v_byte_sums_c ?v = vadd (v_byte_sums_c v) (unpack_epi8 ?c (replicate 8 0))" "v_byte_sums_d ?v = vadd (v_byte_sums_d v) (unpack_epi8 ?d (replicate 8 0))"
    using l unfolding sse2_round_def Let_def mm_unpacklo_epi8_def mm_unpackhi_epi8_def parts(1,2) z by simp_all
  have "rep32 (sad_epu8 (take 16 p) (replicate 16 0)) 4 (sum_list (map unat (take 16 p)))"
    "rep32 (sad_epu8 (take 16 (drop 16 p)) (replicate 16 0)) 4 (sum_list (map unat (take 16 (drop 16 p))))"
    using rep32_sad [OF l16(1)] rep32_sad [OF l16(2)] l16 by simp_all
  then have s1: "rep32 (v_s1 ?v) 4 (fst (nsums q (0, 0)) + sum_list (map unat (take 16 p)) + sum_list (map unat (take 16 (drop 16 p))))"
    unfolding f by (intro rep32_add I)
  have "map unat e = map unat ?a @ map unat ?b @ map unat ?c @ map unat ?d" using parts(3) by (metis map_append)
  moreover have "fst (nsums (q @ e) (0, 0)) = fst (nsums q (0, 0)) + sum_list (map unat (take 16 p)) + sum_list (map unat (take 16 (drop 16 p)))"
    unfolding block_sums [OF e] parts(1,2) using calculation by simp
  ultimately have X: "fst (nsums (q @ e) (0, 0)) = fst (nsums q (0, 0)) + sum_list (map unat (take 16 p)) + sum_list (map unat (take 16 (drop 16 p)))"
    and me: "map unat e = map unat ?a @ map unat ?b @ map unat ?c @ map unat ?d" by blast+
  have len: "255 * (length (q @ e) div 32) = 255 * (length q div 32) + 255"
    using e div_add_self2 [of 32 "length q"] by (simp add: distrib_left)
  let ?as = "map2 (+) as (map unat ?a)" and ?bs = "map2 (+) bs (map unat ?b)" and ?cs = "map2 (+) cs (map unat ?c)" and ?ds = "map2 (+) ds (map unat ?d)"
  have L: "length as = 8" "length bs = 8" "length cs = 8" "length ds = 8" using I by (simp_all add: counts16_def)
  have "?as @ ?bs @ ?cs @ ?ds = map2 (+) (as @ bs @ cs @ ds) (map unat e)" using L l by (simp add: me)
  moreover have "dot (rev [1..<33]) (map2 (+) (as @ bs @ cs @ ds) (map unat e)) = dot (rev [1..<33]) (as @ bs @ cs @ ds) + dot (rev [1..<33]) (map unat e)"
    by (rule dot_add) (use L e in simp_all)
  ultimately have "snd (nsums (q @ e) (0, 0)) = 32 * (y + fst (nsums q (0, 0))) + dot (rev [1..<33]) (?as @ ?bs @ ?cs @ ?ds)"
    unfolding block_sums [OF e] using I(7) by simp
  moreover have "rep32 (v_s2 ?v) 4 (y + fst (nsums q (0, 0)))" unfolding f by (rule rep32_add [OF I(2,1)])
  moreover have "counts16 (v_byte_sums_a ?v) ?as (255 * (length (q @ e) div 32))" "counts16 (v_byte_sums_b ?v) ?bs (255 * (length (q @ e) div 32))"
    "counts16 (v_byte_sums_c ?v) ?cs (255 * (length (q @ e) div 32))" "counts16 (v_byte_sums_d ?v) ?ds (255 * (length (q @ e) div 32))"
    unfolding f len by (intro counts16_add I l)+
  ultimately show ?thesis using s1 unfolding X [symmetric] e_def [symmetric] sse2_inv_def by blast
qed

lemma horizontal_sum: "rep32 v 4 n \<Longrightarrow> horizontal v = of_nat n"
proof -
  assume v: "rep32 v 4 n"
  then have "length v = Suc (Suc (Suc (Suc 0)))" by (simp add: rep32_def)
  then obtain a b c d where l: "v = [a, b, c, d]" unfolding length_Suc_conv length_0_conv by blast
  have "mm_shuffle_epi32 v 0x31 = [b, a, d, a]" "mm_shuffle_epi32 [w, x, y, z] 0x02 = [y, w, w, w]" for w x y z
    by (simp_all add: mm_shuffle_epi32_def l upt_rec drop_bit_eq_div take_bit_eq_mod)
  then have "horizontal v = a + b + (c + d)" by (simp add: horizontal_def Let_def vadd_def l)
  then show ?thesis using v by (simp add: rep32_def l add.assoc)
qed

lemma multipliers: "rev [1..<33] = [32, 31, 30, 29, 28, 27, 26, 25] @ [24, 23, 22, 21, 20, 19, 18, 17] @ [16, 15, 14, 13, 12, 11, 10, 9] @ [8, 7, 6, 5, 4, 3, 2, 1 :: nat]"
  by (simp add: upt_rec)

lemma madd_rep:
  assumes "counts16 v cs b" "b \<le> 32767" "length ms = 8" "\<forall>m \<in> set ms. m \<le> 32767" "w = map of_nat ms"
  shows "rep32 (madd_epi16 v w) 4 (dot ms cs)"
  using madd_sum [of ms cs] assms by (fastforce simp: rep32_def counts16_def)

lemma sse2_body_ok:
  assumes "length chunk mod 32 = 0" "chunk \<noteq> []" "length chunk \<le> 4096"
  shows "sse2_body chunk = words (nsums chunk (0, 0))"
proof -
  let ?v = "rounds sse2_round chunk sse2_init"
  have z: "counts16 (replicate 8 0) (replicate 8 0) 0" by (simp add: counts16_def)
  have "dot ms (replicate n 0) = 0" for ms n by (induction n arbitrary: ms; case_tac ms) simp_all
  then have "sse2_inv [] sse2_init" unfolding sse2_inv_def sse2_init_def
    using rep32_zero [of 4] z by (intro exI [of _ 0] exI [of _ "replicate 8 0"]) (simp add: replicate_add [symmetric])
  from rounds_inv [of sse2_inv sse2_round, OF sse2_round_inv this assms(2,1)] have "sse2_inv chunk ?v" by simp
  then obtain y as bs cs ds where I: "rep32 (v_s1 ?v) 4 (fst (nsums chunk (0, 0)))" "rep32 (v_s2 ?v) 4 y"
     "counts16 (v_byte_sums_a ?v) as (255 * (length chunk div 32))" "counts16 (v_byte_sums_b ?v) bs (255 * (length chunk div 32))"
     "counts16 (v_byte_sums_c ?v) cs (255 * (length chunk div 32))" "counts16 (v_byte_sums_d ?v) ds (255 * (length chunk div 32))"
     "snd (nsums chunk (0, 0)) = 32 * y + dot (rev [1..<33]) (as @ bs @ cs @ ds)"
    unfolding sse2_inv_def by blast
  have b: "255 * (length chunk div 32) \<le> 32767" using assms(3) by simp
  let ?m = "\<lambda>ms. map of_nat ms :: 16 word list"
  note m = madd_rep [OF _ b]
  have "rep32 (vadd (vadd (vadd (vadd (slli_epi32 (v_s2 ?v) 5) (madd_epi16 (v_byte_sums_a ?v) [32, 31, 30, 29, 28, 27, 26, 25]))
      (madd_epi16 (v_byte_sums_b ?v) [24, 23, 22, 21, 20, 19, 18, 17])) (madd_epi16 (v_byte_sums_c ?v) [16, 15, 14, 13, 12, 11, 10, 9]))
      (madd_epi16 (v_byte_sums_d ?v) [8, 7, 6, 5, 4, 3, 2, 1])) 4
    (32 * y + dot [32, 31, 30, 29, 28, 27, 26, 25] as + dot [24, 23, 22, 21, 20, 19, 18, 17] bs + dot [16, 15, 14, 13, 12, 11, 10, 9] cs +
      dot [8, 7, 6, 5, 4, 3, 2, 1] ds)"
    by (intro rep32_add rep32_shift I m [OF I(3)] m [OF I(4)] m [OF I(5)] m [OF I(6)]) simp_all
  moreover have "dot (rev [1..<33]) (as @ bs @ cs @ ds) = dot [32, 31, 30, 29, 28, 27, 26, 25] as + dot [24, 23, 22, 21, 20, 19, 18, 17] bs +
      dot [16, 15, 14, 13, 12, 11, 10, 9] cs + dot [8, 7, 6, 5, 4, 3, 2, 1] ds"
    unfolding multipliers using I(3-6) by (subst dot_append, simp add: counts16_def)+ (simp only: add.assoc)
  ultimately show ?thesis unfolding sse2_body_def Let_def words_parts I(7)
    using horizontal_sum [OF I(1)] by (simp only: horizontal_sum add.assoc)
qed

section \<open>AVX2\<close>

definition avx2_inv :: "byte list \<Rightarrow> avx2_sums \<Rightarrow> bool" where
  "avx2_inv q v \<longleftrightarrow> (\<exists>y z. rep32 (w_s1 v) 8 (fst (nsums q (0, 0))) \<and> rep32 (w_s1_sums v) 8 y \<and> rep32 (w_s2 v) 8 z \<and>
     snd (nsums q (0, 0)) = 32 * y + z)"

lemma sint_byte: "n \<le> 32 \<Longrightarrow> sint (of_nat n :: byte) = int n"
proof -
  assume n: "n \<le> 32"
  have "sint (word_of_int (int n) :: byte) = signed_take_bit 7 (int n)" by (simp only: sint_sbintrunc' len_num0 len_num1 len_bit0) simp
  also have "\<dots> = int n" using n by (intro signed_take_bit_int_eq_self) simp_all
  finally show ?thesis by simp
qed

text \<open>The multipliers are at most 32, so that no sum of two products is saturated.\<close>

lemma saturate_small: "n \<le> 32767 \<Longrightarrow> saturate16 (int n) = of_nat n"
  by (simp add: saturate16_def)

lemma maddubs_small:
  "length ms = length e \<Longrightarrow> \<forall>m \<in> set ms. m \<le> 32 \<Longrightarrow>
    maddubs_epi16 e (map of_nat ms) = map of_nat (pairs (+) (map2 (*) ms (map unat e))) \<and>
    (\<forall>c \<in> set (pairs (+) (map2 (*) ms (map unat e))). c \<le> 32767)"
proof (induction e arbitrary: ms rule: induct_list012)
  case (3 x y e)
  obtain m n ms' where ms: "ms = m # n # ms'" using "3.prems"(1) by (auto simp: length_Suc_conv dest: sym)
  have b: "m \<le> 32" "n \<le> 32" using "3.prems"(2) ms by simp_all
  have "unat x \<le> 255" "unat y \<le> 255" using unsigned_less [of x, where 'a = nat] unsigned_less [of y, where 'a = nat] by simp_all
  then have "m * unat x \<le> 32 * 255" "n * unat y \<le> 32 * 255" using b by (intro mult_le_mono; simp)+
  then have c: "m * unat x + n * unat y \<le> 32767" by simp
  have "int (unat x) * sint (of_nat m :: byte) + int (unat y) * sint (of_nat n :: byte) = int (m * unat x + n * unat y)"
    unfolding sint_byte [OF b(1)] sint_byte [OF b(2)] by (simp add: mult.commute)
  then have "maddubs_epi16 (x # y # e) (map of_nat ms) = of_nat (m * unat x + n * unat y) # maddubs_epi16 e (map of_nat ms')"
    unfolding maddubs_epi16_def ms list.map zip_Cons_Cons prod.case pairs.simps by (simp only: saturate_small [OF c])
  then show ?case using "3.IH"(1) [of ms'] "3.prems" c ms by simp
qed (auto simp: maddubs_epi16_def length_Suc_conv)

lemma avx2_round_inv:
  assumes "avx2_inv q v" "32 \<le> length p"
  shows "avx2_inv (q @ take 32 p) (avx2_round p v)"
proof -
  define e where "e = take 32 p"
  let ?ms = "rev [1..<33]" and ?v = "avx2_round p v"
  have e: "length e = 32" using assms(2) by (simp add: e_def)
  obtain y z where I: "rep32 (w_s1 v) 8 (fst (nsums q (0, 0)))" "rep32 (w_s1_sums v) 8 y" "rep32 (w_s2 v) 8 z"
     "snd (nsums q (0, 0)) = 32 * y + z" using assms(1) unfolding avx2_inv_def by blast
  have ms: "length ?ms = length e" "\<forall>m \<in> set ?ms. m \<le> 32" using e by auto
  define cs where "cs = pairs (+) (map2 (*) ?ms (map unat e))"
  have cs: "maddubs_epi16 e (map of_nat ?ms) = map of_nat cs" "\<forall>c \<in> set cs. c \<le> 32767" using maddubs_small [OF ms] by (simp_all add: cs_def)
  have len: "length cs = 16" "sum_list cs = dot ?ms (map unat e)"
    using sum_pairs [of "map2 (*) ?ms (map unat e)"] e by (simp_all add: cs_def dot_def)
  have one: "replicate 16 (1 :: 16 word) = map of_nat (replicate 16 1)" by (simp add: map_replicate)
  have "dot (replicate (length xs) 1) xs = sum_list xs" for xs by (induction xs) simp_all
  then have d: "dot (replicate 16 1) cs = dot ?ms (map unat e)" using len by metis
  have "rep32 (madd_epi16 (map of_nat cs) (replicate 16 1)) 8 (dot ?ms (map unat e))"
    using madd_sum [of "replicate 16 1" cs] cs(2) len(1) d unfolding rep32_def one by simp
  moreover have "rep32 (sad_epu8 e (replicate 32 0)) 8 (sum_list (map unat e))" using rep32_sad [of e 4] e by simp
  moreover have f: "w_s1 ?v = vadd (w_s1 v) (sad_epu8 e (replicate 32 0))" "w_s1_sums ?v = vadd (w_s1_sums v) (w_s1 v)"
    "w_s2 ?v = vadd (w_s2 v) (madd_epi16 (map of_nat cs) (replicate 16 1))"
    unfolding avx2_round_def Let_def e_def [symmetric] cs(1) by simp_all
  ultimately have "rep32 (w_s1 ?v) 8 (fst (nsums q (0, 0)) + sum_list (map unat e))" "rep32 (w_s1_sums ?v) 8 (y + fst (nsums q (0, 0)))"
    "rep32 (w_s2 ?v) 8 (z + dot ?ms (map unat e))" unfolding f by (simp_all only: rep32_add I)
  then show ?thesis unfolding e_def [symmetric] avx2_inv_def block_sums [OF e] using I(4) by fastforce
qed

lemma avx2_total_sum: "rep32 v 8 n \<Longrightarrow> avx2_total v = of_nat n"
proof -
  assume v: "rep32 v 8 n"
  then have "length v = Suc (Suc (Suc (Suc (Suc (Suc (Suc (Suc 0)))))))" by (simp add: rep32_def)
  then obtain a b c d e f g h where l: "v = [a, b, c, d, e, f, g, h]" unfolding length_Suc_conv length_0_conv by blast
  have z: "replicate 8 (0 :: 32 word) = [0, 0, 0, 0, 0, 0, 0, 0]" by (simp add: numeral_eq_Suc)
  have "avx2_total v = a + b + (c + d) + (e + f + (g + h))"
    unfolding avx2_total_def Let_def mm256_hadd_epi32_def l z by simp
  then show ?thesis using v by (simp add: rep32_def l algebra_simps)
qed

lemma avx2_body_ok:
  assumes "length chunk mod 32 = 0" "chunk \<noteq> []"
  shows "avx2_body chunk = words (nsums chunk (0, 0))"
proof -
  let ?v = "rounds avx2_round chunk avx2_init"
  have "avx2_inv [] avx2_init" unfolding avx2_inv_def avx2_init_def using rep32_zero [of 8] by auto
  from rounds_inv [of avx2_inv avx2_round, OF avx2_round_inv this assms(2,1)] have "avx2_inv chunk ?v" by simp
  then obtain y z where I: "rep32 (w_s1 ?v) 8 (fst (nsums chunk (0, 0)))" "rep32 (w_s1_sums ?v) 8 y" "rep32 (w_s2 ?v) 8 z"
     "snd (nsums chunk (0, 0)) = 32 * y + z" unfolding avx2_inv_def by blast
  have "rep32 (vadd (w_s2 ?v) (slli_epi32 (w_s1_sums ?v) 5)) 8 (z + 32 * y)" by (intro rep32_add rep32_shift I)
  then show ?thesis unfolding avx2_body_def Let_def words_parts I(4)
    using avx2_total_sum [OF I(1)] by (simp only: avx2_total_sum add.commute)
qed

section \<open>All implementations\<close>

interpretation sse2: vector_body sse2_body "Some (32 * (0x7FFF div 0xFF))"
  by unfold_locales (simp_all add: sse2_body_ok within_def)

interpretation avx2: vector_body avx2_body None
  by unfold_locales (simp_all add: avx2_body_ok)

lemma adler32_impl_ok: "adler32_impl impl addr a p = Inr (adler_value (adler_ref p (split_nat a)))"
  by (cases impl) (simp_all add: generic_ok sse2.vector_ok [simplified] avx2.vector_ok)

end
