(* ===== verification/Zlib.thy ===== *)
theory Zlib
  imports DeflateStream AdlerProps Inflate
begin

text \<open>
  libdeflate's zlib wrapper, \<^verbatim>\<open>zlib_decompress.c\<close>, and the function that getmatvar's threads call: it is a possible value of the
  parameter \<open>dec\<close> of theory \<open>Inflate\<close>. Which implementation of the checksum runs and the address of the
  output buffer are parameters. The decompressor structure \<open>d\<close> is not returned: the arrays keep their
  lengths, and the result does not depend on what else they hold.
\<close>

section \<open>The code\<close>

definition be16_at :: "byte list \<Rightarrow> nat \<Rightarrow> 16 word" where
  "be16_at inp p = le_word (rev (take 2 (drop p inp)))"

definition be32_at :: "byte list \<Rightarrow> nat \<Rightarrow> 32 word" where
  "be32_at inp p = le_word (rev (take 4 (drop p inp)))"

definition libdeflate_zlib_decompress :: "adler_impl \<Rightarrow> nat \<Rightarrow> dsource \<Rightarrow> dstate \<Rightarrow> byte list \<Rightarrow> unit res \<times> byte list" where
  "libdeflate_zlib_decompress impl addr c d out =
     (let inp = src_bytes c; hdr = be16_at inp 0 in
      if length inp < 6 then (Inl BAD_DATA, out)
      else if hdr mod 31 \<noteq> 0 then (Inl BAD_DATA, out)
      else if drop_bit 8 hdr AND 0xF \<noteq> 8 then (Inl BAD_DATA, out)
      else if 7 < drop_bit 12 hdr then (Inl BAD_DATA, out)
      else if drop_bit 5 hdr AND 1 \<noteq> 0 then (Inl BAD_DATA, out)
      else
        case libdeflate_deflate_decompress (c\<lparr>src_bytes := take (length inp - 4 - 2) (drop 2 inp)\<rparr>) d out of
          (Inl e, out) \<Rightarrow> (Inl e, out)
        | (Inr _, out) \<Rightarrow>
            (case libdeflate_adler32 impl 1 (Some (addr, out)) of
               Inl e \<Rightarrow> (Inl e, out)
             | Inr x \<Rightarrow> if x \<noteq> be32_at inp (length inp - 4) then (Inl BAD_DATA, out) else (Inr (), out)))"

text \<open>The result codes of \<open>enum libdeflate_result\<close>; the decompressor has no other outcome, as is proved below.\<close>

definition result_code :: "unit res \<Rightarrow> int" where
  "result_code r =
     (case r of Inr _ \<Rightarrow> 0
      | Inl e \<Rightarrow> if e = BAD_DATA then LIBDEFLATE_BAD_DATA else if e = SHORT_OUTPUT then LIBDEFLATE_SHORT_OUTPUT
          else LIBDEFLATE_INSUFFICIENT_SPACE)"

definition zlib_dec :: "adler_impl \<Rightarrow> nat \<Rightarrow> bool \<Rightarrow> bool \<Rightarrow> dstate \<Rightarrow> inflater" where
  "zlib_dec impl addr le ua d bs buf =
     (case libdeflate_zlib_decompress impl addr \<lparr>src_bytes = bs, little_endian = le, fast_unaligned = ua\<rparr> d buf of
        (r, out) \<Rightarrow> (result_code r, out))"

section \<open>The reference\<close>

text \<open>RFC 1950: two bytes of header without a dictionary, a DEFLATE stream, and the checksum of the data.\<close>

definition zlib_header :: "nat \<Rightarrow> nat \<Rightarrow> bool" where
  "zlib_header cmf flg \<longleftrightarrow> (256 * cmf + flg) mod 31 = 0 \<and> cmf mod 16 = 8 \<and> cmf div 16 \<le> 7 \<and> even (flg div 32)"

definition be_num :: "byte list \<Rightarrow> nat" where
  "be_num = foldl (\<lambda>n b. 256 * n + unat b) 0"

definition zlib_ref :: "byte list \<Rightarrow> nat \<Rightarrow> byte list res" where
  "zlib_ref inp n =
     (if length inp < 6 \<or> \<not> zlib_header (unat (inp ! 0)) (unat (inp ! 1)) then Inl BAD_DATA
      else bnd (inflate (take (length inp - 6) (drop 2 inp)) n) (\<lambda>data.
        case adler_ref data (1, 0) of (s1, s2) \<Rightarrow>
          if be_num (drop (length inp - 4) inp) = 65536 * s2 + s1 then Inr data else Inl BAD_DATA))"

definition zlib_reader :: inflater where
  "zlib_reader bs buf = (case zlib_ref bs (length buf) of Inr data \<Rightarrow> (0, data) | Inl e \<Rightarrow> (result_code (Inl e), buf))"

section \<open>Numbers of several bytes\<close>

lemma le_word_be: "le_word (rev bs) = (of_nat (be_num bs) :: 'a::len word)"
proof (induction bs rule: rev_induct)
  case (snoc b bs)
  have "\<not> bit (ucast b :: 'a word) n \<or> \<not> bit (push_bit 8 (le_word (rev bs)) :: 'a word) n" for n
    using bit_imp_le_length [of b n] by (auto simp: bit_simps)
  then have d: "(ucast b :: 'a word) AND push_bit 8 (le_word (rev bs)) = 0" by (intro bit_word_eqI) (simp add: bit_and_iff)
  have "le_word (rev (bs @ [b])) = ucast b + push_bit 8 (le_word (rev bs) :: 'a word)" 
    using disjunctive_add_eq_or [OF d] by (simp only: rev_append rev.simps append.simps le_word.simps)
  then show ?case using snoc by (simp add: be_num_def push_bit_eq_mult algebra_simps)
qed (simp add: be_num_def)

lemma byte_255: "unat (b :: byte) \<le> 255"
  using unsigned_less [of b, where 'a = nat] by simp

lemma be16:
  assumes "2 \<le> length inp"
  shows "be16_at inp 0 = of_nat (256 * unat (inp ! 0) + unat (inp ! 1))" "256 * unat (inp ! 0) + unat (inp ! 1) < 2 ^ 16"
proof -
  obtain a b rest where i: "inp = a # b # rest" using assms by (cases inp; cases "tl inp") auto
  show "be16_at inp 0 = of_nat (256 * unat (inp ! 0) + unat (inp ! 1))"
    using le_word_be [of "[a, b]"] by (simp add: be16_at_def i be_num_def)
  show "256 * unat (inp ! 0) + unat (inp ! 1) < 2 ^ 16" using byte_255 [of "inp ! 0"] byte_255 [of "inp ! 1"] by simp
qed

lemma be_num_less: "be_num bs < 256 ^ length bs"
proof (induction bs rule: rev_induct)
  case (snoc b bs)
  then show ?case using byte_255 [of b] by (simp add: be_num_def)
qed (simp add: be_num_def)

lemma footer:
  assumes "4 \<le> length inp" "small s"
  shows "adler_value s = be32_at inp (length inp - 4) \<longleftrightarrow> be_num (drop (length inp - 4) inp) = 65536 * snd s + fst s"
proof -
  let ?b = "be_num (drop (length inp - 4) inp)" and ?a = "65536 * snd s + fst s"
  have "be32_at inp (length inp - 4) = of_nat ?b" using assms(1) le_word_be [of "drop (length inp - 4) inp"] by (simp add: be32_at_def)
  moreover have "adler_value s = of_nat ?a" by (cases s) (simp add: adler_value_def mult.commute)
  moreover have b: "?b < 2 ^ 32" using be_num_less [of "drop (length inp - 4) inp"] assms(1) by simp
  moreover have a: "?a < 2 ^ 32" using assms(2) by (simp add: small_def)
  moreover have "(of_nat ?a :: 32 word) = of_nat ?b \<longleftrightarrow> ?b = ?a"
    using take_bit_nat_eq_self [OF b] take_bit_nat_eq_self [OF a] word_of_nat_eq_iff [where 'a = 32, of ?a ?b] by auto
  ultimately show ?thesis by (simp only:)
qed

section \<open>The errors\<close>

definition plain_error :: "error \<Rightarrow> bool" where
  "plain_error e \<longleftrightarrow> e = BAD_DATA \<or> e = SHORT_OUTPUT \<or> e = INSUFFICIENT_SPACE"

lemma codes_error: "inflate_codes inp ll ol cap p out = Inl e \<Longrightarrow> plain_error e"
proof (induction inp ll ol cap p out rule: inflate_codes.induct)
  case (1 inp ll ol cap p out)
  then show ?case
    by (subst (asm) (3) inflate_codes.simps) (auto simp: plain_error_def Let_def split: prod.splits if_splits)
qed

lemma lens_error: "inflate_lens inp pl n p ls = Inl e \<Longrightarrow> plain_error e"
proof (induction inp pl n p ls rule: inflate_lens.induct)
  case (1 inp pl n p ls)
  then show ?case
    by (subst (asm) (5) inflate_lens.simps) (auto simp: plain_error_def Let_def split: prod.splits if_splits)
qed

lemma block_error: "inflate_block inp cap p out = Inl e \<Longrightarrow> plain_error e"
  using codes_error lens_error
  by (auto simp: inflate_block_def inflate_dynamic_def inflate_stored_def Let_def bnd_def plain_error_def
      split: if_splits sum.splits prod.splits)

lemma blocks_error: "inflate_blocks inp cap p out = Inl e \<Longrightarrow> plain_error e"
proof (induction inp cap p out rule: inflate_blocks.induct)
  case (1 inp cap p out)
  show ?case
  proof (cases "inflate_block inp cap p out")
    case (Inl e')
    then show ?thesis using "1.prems" block_error by (subst (asm) inflate_blocks.simps) auto
  next
    case (Inr y)
    then show ?thesis using "1.prems" "1.IH" [OF Inr] by (subst (asm) inflate_blocks.simps) (auto split: prod.splits if_splits)
  qed
qed

lemma inflate_error: "inflate inp n = Inl e \<Longrightarrow> plain_error e"
  using blocks_error by (auto simp: inflate_def bnd_def plain_error_def split: sum.splits if_splits)

lemma zlib_error: "zlib_ref inp n = Inl e \<Longrightarrow> plain_error e"
  using inflate_error by (auto simp: zlib_ref_def bnd_def plain_error_def split: sum.splits if_splits prod.splits)

section \<open>The wrapper\<close>

lemma header_test:
  assumes "2 \<le> length inp"
  defines "hdr \<equiv> be16_at inp 0"
  shows "zlib_header (unat (inp ! 0)) (unat (inp ! 1)) \<longleftrightarrow>
    \<not> (hdr mod 31 \<noteq> 0 \<or> drop_bit 8 hdr AND 0xF \<noteq> 8 \<or> 7 < drop_bit 12 hdr \<or> drop_bit 5 hdr AND 1 \<noteq> 0)"
proof -
  let ?c = "unat (inp ! 0)" and ?f = "unat (inp ! 1)"
  have "unat (of_nat n :: 16 word) = n" if "n < 2 ^ 16" for n using that by (simp add: unat_of_nat)
  from this [OF be16(2) [OF assms(1)]] have u: "unat hdr = 256 * ?c + ?f" unfolding hdr_def be16(1) [OF assms(1)] .
  have f: "?f < 256" using byte_255 [of "inp ! 1"] by simp
  have "hdr mod 31 = 0 \<longleftrightarrow> (256 * ?c + ?f) mod 31 = 0" unfolding u [symmetric] by (simp add: unat_eq_0 [symmetric] unat_mod_distrib)
  moreover have "drop_bit 8 hdr AND 0xF = 8 \<longleftrightarrow> ?c mod 16 = 8"
  proof -
    have "drop_bit 8 hdr AND 0xF = take_bit 4 (drop_bit 8 hdr)" by (simp add: take_bit_eq_mask mask_eq_exp_minus_1)
    moreover have "unat (take_bit 4 (drop_bit 8 hdr)) = ?c mod 16"
      unfolding unsigned_take_bit_eq unat_drop_bit_eq u using f by (simp add: take_bit_eq_mod drop_bit_eq_div)
    moreover have "w = 8 \<longleftrightarrow> unat w = 8" for w :: "16 word" by (simp add: word_eq_iff_unsigned [where 'a = nat])
    ultimately show ?thesis by simp
  qed
  moreover have "7 < drop_bit 12 hdr \<longleftrightarrow> 7 < ?c div 16"
  proof -
    have "unat (drop_bit 12 hdr) = ?c div 16" unfolding unat_drop_bit_eq u using f by (simp add: drop_bit_eq_div)
    then show ?thesis unfolding word_less_nat_alt by simp
  qed
  moreover have "drop_bit 5 hdr AND 1 = 0 \<longleftrightarrow> even (?f div 32)"
  proof -
    have "drop_bit 5 hdr AND 1 = 0 \<longleftrightarrow> \<not> bit hdr 5" by (simp add: and_one_eq even_drop_bit_iff_not_bit [symmetric] mod_2_eq_odd)
    also have "bit hdr 5 \<longleftrightarrow> bit (unat hdr) 5" by (simp add: bit_unsigned_iff)
    also have "\<dots> \<longleftrightarrow> odd ((256 * ?c + ?f) div 32)" by (simp add: bit_iff_odd u)
    also have "(256 * ?c + ?f) div 32 = 8 * ?c + ?f div 32" by linarith
    finally show ?thesis by simp
  qed
  ultimately show ?thesis by (auto simp: zlib_header_def)
qed

lemma zlib_ok:
  assumes d: "sizes d" and n: "length out < 2 ^ 64"
  shows "case zlib_ref (src_bytes c) (length out) of
      Inr data \<Rightarrow> libdeflate_zlib_decompress impl addr c d out = (Inr (), data)
    | Inl e \<Rightarrow> fst (libdeflate_zlib_decompress impl addr c d out) = Inl e"
proof -
  let ?inp = "src_bytes c"
  let ?raw = "take (length ?inp - 6) (drop 2 ?inp)"
  show ?thesis
  proof (cases "length ?inp < 6 \<or> \<not> zlib_header (unat (?inp ! 0)) (unat (?inp ! 1))")
    case True
    then show ?thesis using header_test [of ?inp] by (cases "length ?inp < 6") (auto simp: zlib_ref_def libdeflate_zlib_decompress_def Let_def)
  next
    case False
    then have l: "6 \<le> length ?inp" and h: "zlib_header (unat (?inp ! 0)) (unat (?inp ! 1))" by simp_all
    let ?c = "c\<lparr>src_bytes := ?raw\<rparr>"
    have run: "libdeflate_zlib_decompress impl addr c d out =
        (case libdeflate_deflate_decompress ?c d out of
          (Inl e, out) \<Rightarrow> (Inl e, out)
        | (Inr _, out) \<Rightarrow>
            (case libdeflate_adler32 impl 1 (Some (addr, out)) of
               Inl e \<Rightarrow> (Inl e, out)
             | Inr x \<Rightarrow> if x \<noteq> be32_at ?inp (length ?inp - 4) then (Inl BAD_DATA, out) else (Inr (), out)))"
      using l h header_test [of ?inp] by (simp add: libdeflate_zlib_decompress_def Let_def)
    note dec = decompress_ok [OF d n, of ?c]
    show ?thesis
    proof (cases "inflate ?raw (length out)")
      case (Inl e)
      then have f: "fst (libdeflate_deflate_decompress ?c d out) = Inl e" using dec by simp
      then have "fst (libdeflate_zlib_decompress impl addr c d out) = Inl e" unfolding run by (cases "libdeflate_deflate_decompress ?c d out") simp
      then show ?thesis using Inl False by (simp add: zlib_ref_def)
    next
      case (Inr data)
      then have f: "libdeflate_deflate_decompress ?c d out = (Inr (), data)" using dec by simp
      let ?s = "adler_ref data (1, 0)"
      have "small ?s" by (rule ref_small) (simp add: small_def)
      from footer [OF _ this, of ?inp] l have ft: "adler_value ?s = be32_at ?inp (length ?inp - 4) \<longleftrightarrow>
          be_num (drop (length ?inp - 4) ?inp) = 65536 * snd ?s + fst ?s" by simp
      have "libdeflate_adler32 impl 1 (Some (addr, data)) = Inr (adler_value ?s)"
        using adler32_impl_ok [of impl addr 1 data] by (simp add: libdeflate_adler32_def split_nat_def)
      then have "libdeflate_zlib_decompress impl addr c d out =
          (if be_num (drop (length ?inp - 4) ?inp) = 65536 * snd ?s + fst ?s then (Inr (), data) else (Inl BAD_DATA, data))"
        unfolding run f using ft by simp
      then show ?thesis using Inr False by (simp add: zlib_ref_def split: prod.splits)
    qed
  qed
qed

lemma zlib_dec_ok:
  assumes d: "sizes d" and n: "length buf < 2 ^ 64"
  shows "zlib_ref bs (length buf) = Inr data \<Longrightarrow> zlib_dec impl addr le ua d bs buf = (0, data)"
    "zlib_ref bs (length buf) = Inl e \<Longrightarrow> fst (zlib_dec impl addr le ua d bs buf) = result_code (Inl e)"
  using zlib_ok [OF d n, where c = "\<lparr>src_bytes = bs, little_endian = le, fast_unaligned = ua\<rparr>" and impl = impl and addr = addr]
  by (auto simp: zlib_dec_def result_code_def split: prod.splits)

lemma zlib_reader_ok: "zlib_reader bs buf = (0, data) \<longleftrightarrow> zlib_ref bs (length buf) = Inr data"
  by (auto simp: zlib_reader_def result_code_def split: sum.splits if_splits)

end
