(* ===== verification/DeflateProps.thy ===== *)
theory DeflateProps
  imports Zlib ParallelProps
begin

text \<open>
  The properties of libdeflate's decompressor: its decode tables, the whole routine against the reference, the checksum, the zlib
  wrapper, and the wrapper as what getmatvar's threads call.
\<close>

section \<open>The decompressor\<close>

text \<open>C12. \<open>build_decode_table\<close> for the literal and length code, with the table of \<open>LITLEN_ENOUGH\<close> = 1334 entries: for every list of
  at most 288 codeword lengths up to 15 the function stays inside its arrays and returns; it returns true exactly when
  the code is complete, empty or a single codeword of length one; and then looking up any next bits in the table, through a subtable
  where there is one, gives the result and the length of the codeword of the canonical code (RFC 1951) they start with.\<close>

theorem litlen_table_decodes:
  assumes "\<forall>l \<in> set lens. l \<le> 15" "length lens \<le> 288" "length t = 1334"
  shows "built 15 10 lens litlen_decode_results 1334 (build_decode_table t lens litlen_decode_results 10 15)"
  using assms by (rule litlen_built)

theorem litlen_table_decodes_witness:
  "built 15 10 static_litlens litlen_decode_results 1334 (build_decode_table (replicate 1334 0) static_litlens litlen_decode_results 10 15)"
  by (rule litlen_table_decodes) (auto simp: static_litlens_def)

text \<open>C5. The decompressor refines the reference \<open>inflate\<close>, decompression by RFC 1951 on bits and lists: for every input, every size
  of the output buffer, on machines of either byte order with or without fast unaligned access, and whatever the arrays of the
  decompressor hold, it returns and either fills the output buffer with the data of the reference or returns the error of
  the reference. So on no input does it leave one of its arrays or one of the buffers.\<close>

theorem decompress_refines_inflate:
  assumes "sizes d" "length out < 2 ^ 64"
  shows "case inflate (src_bytes c) (length out) of
      Inr data \<Rightarrow> libdeflate_deflate_decompress c d out = (Inr (), data)
    | Inl e \<Rightarrow> fst (libdeflate_deflate_decompress c d out) = Inl e"
  using assms by (rule decompress_ok)

text \<open>A stored block with two bytes.\<close>

definition demo_stored :: "byte list" where
  "demo_stored = [1, 2, 0, 253, 255, 65, 66]"

definition demo_arrays :: dstate where
  "demo_arrays = \<lparr>in_next = 0, bitbuf = 0, bitsleft = 0, overrun_count = 0, outbuf = [], out_next = 0, precode_lens = replicate 19 0,
     code_lens = replicate 457 0, precode_decode_table = replicate 128 0, offset_decode_table = replicate 402 0,
     litlen_decode_table = replicate 1334 0\<rparr>"

lemma demo_sizes: "sizes demo_arrays"
  by (simp add: sizes_def demo_arrays_def)

lemma demo_inflate: "inflate demo_stored 2 = Inr [65, 66]"
proof -
  have "bits_num demo_stored 0 1 = 1" "bits_num demo_stored 1 2 = 0" by code_simp+
  moreover have "inflate_stored demo_stored 2 3 [] = Inr (56, [65, 66])" by code_simp
  ultimately show ?thesis
    unfolding inflate_def by (subst inflate_blocks.simps) (simp add: inflate_block_def del: One_nat_def)
qed

theorem decompress_refines_inflate_witness:
  "libdeflate_deflate_decompress \<lparr>src_bytes = demo_stored, little_endian = True, fast_unaligned = True\<rparr> demo_arrays [0, 0] = (Inr (), [65, 66])"
proof -
  let ?c = "\<lparr>src_bytes = demo_stored, little_endian = True, fast_unaligned = True\<rparr>" and ?out = "[0, 0] :: byte list"
  have l: "length ?out = 2" by simp
  have "inflate (src_bytes ?c) (length ?out) = Inr [65, 66]" "length ?out < 2 ^ 64" unfolding l using demo_inflate by simp_all
  then show ?thesis using decompress_refines_inflate [OF demo_sizes, of ?out ?c] by simp
qed



section \<open>The checksum and the wrapper\<close>

text \<open>C11. The implementations of the checksum are equivalent: the generic one with its loop of four bytes, the one with
  SSE2 instructions and the one with AVX2 instructions give for every buffer at every address the Adler-32
  checksum as RFC 1950 defines it, one byte and one remainder at a time. In particular no 32-bit sum wraps around within
  \<open>MAX_BYTES_PER_CHUNK\<close>, and no counter of the vector code overflows.\<close>

theorem adler32_implementations_agree:
  "libdeflate_adler32 impl adler (Some (addr, bs)) =
     Inr (adler_value (adler_ref bs (unat (take_bit 16 adler), unat (drop_bit 16 adler))))"
  by (simp add: libdeflate_adler32_def adler32_impl_ok split_nat_def)


definition demo_zlib :: "byte list" where
  "demo_zlib = [120, 1] @ demo_stored @ [0, 198, 0, 132]"

lemma demo_zlib_ref: "zlib_ref demo_zlib 2 = Inr [65, 66]"
proof -
  have "be_num (drop (length demo_zlib - 4) demo_zlib) = (case adler_ref [65, 66] (1, 0) of (s1, s2) \<Rightarrow> 65536 * s2 + s1)"
    by (simp add: be_num_def demo_zlib_def demo_stored_def Let_def)
  moreover have "zlib_header (unat (demo_zlib ! 0)) (unat (demo_zlib ! 1))" by (simp add: zlib_header_def demo_zlib_def)
  moreover have "take (length demo_zlib - 6) (drop 2 demo_zlib) = demo_stored" "\<not> length demo_zlib < 6"
    by (simp_all add: demo_zlib_def demo_stored_def)
  ultimately show ?thesis by (simp add: zlib_ref_def demo_inflate split: prod.splits)
qed


section \<open>The threads\<close>

lemma job_zlib:
  assumes "sizes d" "buf_size J < 2 ^ 64" "job_ok E zlib_reader J"
  shows "job_ok E (zlib_dec impl addr le ua d) J"
proof -
  have "pair_ok E (zlib_dec impl addr le ua d) J dp" if "pair_ok E zlib_reader J dp" for dp
  proof -
    have "zlib_dec impl addr le ua d (raw E dp) buf = (0, jb_plain J dp)" if b: "length buf = buf_size J" for buf
    proof (rule zlib_dec_ok(1) [OF assms(1)])
      show "length buf < 2 ^ 64" using b assms(2) by simp
      show "zlib_ref (raw E dp) (length buf) = Inr (jb_plain J dp)"
        using \<open>pair_ok E zlib_reader J dp\<close> b by (auto simp: pair_ok_def zlib_reader_ok)
    qed
    then show ?thesis using that by (simp add: pair_ok_def)
  qed
  then show ?thesis using assms(3) by (auto simp: job_ok_def)
qed

text \<open>C4. The threads with the decompressor they call: when the bytes of every chunk are, by the reference, a zlib stream of
  the chunk's size, then whatever the order in which the threads run, after the main thread has joined them its return value is
  0, every element of the decompressed chunks is in its place in the array, and the other elements are unchanged.\<close>

theorem zlib_threads_correct:
  assumes d: "sizes d" "buf_size J < 2 ^ 64" and job: "job_ok E zlib_reader J" and st: "job_state E J oi g"
    and run: "pool_reach E (zlib_dec impl addr le ua d) oi (new_pool (jb_n J) g) c" and fin: "pool_done c"
  shows "main_ret c = 0 \<and> (\<exists>a. slook (objs (sh (shared c))) oi = Inr (set_darr (jb_obj J) (Some a)) \<and>
      length a = length (jb_data J) \<and> (\<forall>dp \<in> set (jb_pairs J). right J dp a) \<and>
      (\<forall>i. (\<forall>dp \<in> set (jb_pairs J). i \<notin> cells J dp) \<longrightarrow> elem (jb_es J) a i = elem (jb_es J) (jb_data J) i))"
  using joined_result [OF job_zlib [OF d job] st run fin] by blast

text \<open>A file with one compressed chunk.\<close>

definition zlib_file :: "byte list" where
  "zlib_file = replicate 4 0 @ demo_zlib @ replicate 3 0"

definition zlib_pair :: DataPair where
  "zlib_pair = \<lparr>dp_address = 4, dp_chunk_size = 13, dp_chunk_start = [2, 0]\<rparr>"

definition zlib_job :: job where
  "zlib_job = \<lparr>jb_es = 1, jb_D = [6], jb_C = [2], jb_pairs = [zlib_pair], jb_obj = demo_vector,
     jb_data = replicate 6 0, jb_plain = (\<lambda>_. [65, 66]), jb_max = (\<lambda>_. 17), jb_np = 1, jb_n = 1\<rparr>"

definition zlib_threads :: gstate where
  "zlib_threads = demo_state\<lparr>objs := [Some demo_vector], num_threads_user_def := 1, g_num_pages := 1,
     page_objects := Some [demo_page 0 17 1], mt_data_queue := Some (demo_queue [zlib_pair])\<rparr>"

abbreviation demo_dec :: inflater where
  "demo_dec \<equiv> zlib_dec AVX2 32 True True demo_arrays"

lemma zlib_page: "pg (demo_env zlib_file) zlib_pair = 0"
  by (simp add: pg_def page_of_def zlib_pair_def u64_def)

lemma zlib_raw: "raw (demo_env zlib_file) zlib_pair = demo_zlib"
  by (simp add: raw_def zlib_file_def zlib_pair_def demo_zlib_def demo_stored_def)

lemma zlib_job_ok: "job_ok (demo_env zlib_file) zlib_reader zlib_job"
proof -
  have "chunk_ok (demo_env zlib_file) demo_vector 1 [6] [2] [2]"
    by (simp add: chunk_ok_def obj_ok_def demo_vector_def blank_object_def plain_class_def i64_def)
  then have "pair_ok (demo_env zlib_file) zlib_reader zlib_job zlib_pair"
    using zlib_page zlib_raw demo_zlib_ref
    by (auto simp: pair_ok_def zlib_job_def start_of_def buf_size_def zlib_pair_def zlib_file_def demo_zlib_def demo_stored_def zlib_reader_ok)
  then show ?thesis
    unfolding job_ok_def by (auto simp: zlib_job_def buf_size_def zlib_file_def demo_zlib_def demo_stored_def)
qed

lemma zlib_threads_ok: "job_state (demo_env zlib_file) zlib_job 0 zlib_threads"
proof -
  have "lq_rep (demo_queue [zlib_pair]) [] [zlib_pair]"
    by (simp add: lq_rep_def demo_queue_def lq_ok_def lq_done_def lq_pending_def)
  moreover have "idle_page (demo_env zlib_file) zlib_job 0 (demo_page 0 17 1)"
    using zlib_page by (auto simp: idle_page_def demo_page_def zlib_job_def)
  ultimately show ?thesis
    by (auto simp: job_state_def zlib_threads_def zlib_job_def demo_state_def initialize_def demo_vector_def set_darr_def slook_def)
qed

text \<open>For the run the decompressor is replaced by its value at the one chunk.\<close>

definition known_dec :: inflater where
  "known_dec bs buf = (if bs = demo_zlib \<and> length buf = 2 then (0, [65, 66]) else demo_dec bs buf)"

lemma known_dec: "demo_dec = known_dec"
  using zlib_dec_ok(1) [OF demo_sizes, of _ demo_zlib "[65, 66]"] demo_zlib_ref by (intro ext) (simp add: known_dec_def)

lemma zlib_run: "\<exists>c. pool_run (demo_env zlib_file) demo_dec 0 (replicate 20 (Worker 0) @ [Main]) (new_pool 1 zlib_threads) = Inr c \<and> pool_done c"
proof -
  have "case pool_run (demo_env zlib_file) known_dec 0 (replicate 20 (Worker 0) @ [Main]) (new_pool 1 zlib_threads) of
      Inr c \<Rightarrow> pool_done c | Inl e \<Rightarrow> False"
    by code_simp
  then show ?thesis unfolding known_dec by (auto split: sum.splits)
qed

theorem zlib_threads_correct_witness:
  "\<exists>c a. pool_run (demo_env zlib_file) demo_dec 0 (replicate 20 (Worker 0) @ [Main]) (new_pool 1 zlib_threads) = Inr c \<and> main_ret c = 0 \<and>
     slook (objs (sh (shared c))) 0 = Inr (set_darr demo_vector (Some a)) \<and> right zlib_job zlib_pair a"
proof -
  obtain c where c: "pool_run (demo_env zlib_file) demo_dec 0 (replicate 20 (Worker 0) @ [Main]) (new_pool 1 zlib_threads) = Inr c" "pool_done c"
    using zlib_run by blast
  have b: "buf_size zlib_job < 2 ^ 64" and n: "jb_n zlib_job = 1" by (simp_all add: zlib_job_def buf_size_def)
  have "pool_reach (demo_env zlib_file) demo_dec 0 (new_pool (jb_n zlib_job) zlib_threads) c"
    unfolding n by (rule pool_run_reach [OF c(1) pool_reach.here])
  from zlib_threads_correct [OF demo_sizes b zlib_job_ok zlib_threads_ok this c(2)] c(1) show ?thesis
    by (auto simp: zlib_job_def)
qed

end
