(* ===== verification/Spec2Isabelle.thy ===== *)
theory Spec2Isabelle
  imports QueueProps ChunkedProps NameProps HeaderProps MexProps DeflateProps
begin

text \<open>
  \<^bold>\<open>getmatvar\<close> reads variables out of MATLAB files of version 7.3, which are HDF5 files. This library
  models the C sources under \<^verbatim>\<open>src/src/\<close> as they are compiled on a 64-bit UNIX system (not
  \<open>NO_MEX\<close>-only printing, not the Windows branches) and proves what they do.

  \<^bold>\<open>How the program runs.\<close> MATLAB calls \<open>mexFunction\<close> (\<^verbatim>\<open>getmatvar_.c\<close>), which reads its arguments and
  calls \<open>getDataObjects\<close> (\<^verbatim>\<open>getDataObjects.c\<close>): the file is opened and, when small, mapped as a whole;
  the superblock is found and read (\<^verbatim>\<open>superblock.c\<close>); the group tree becomes a tree of \<open>Data\<close> objects
  (\<^verbatim>\<open>createDataObjects.c\<close>); for every name asked for the objects are selected and filled
  (\<^verbatim>\<open>fillDataObjects.c\<close>, \<^verbatim>\<open>utils.c\<close>): the messages of the header are read (\<^verbatim>\<open>readMessage.c\<close>), space is
  allocated and data is placed (\<^verbatim>\<open>placeData.c\<close>), chunked data by threads that decompress
  (\<^verbatim>\<open>placeChunkedData.c\<close>); then the filled objects are handed to MATLAB (\<^verbatim>\<open>mexSet.c\<close>) and all is
  freed (\<^verbatim>\<open>cleanup.c\<close>). Every read of the file goes through \<^verbatim>\<open>navigate.c\<close>; every list is a queue of
  \<^verbatim>\<open>ezq.c\<close> or, where threads share it, of \<^verbatim>\<open>mtezq.c\<close>.

  \<^bold>\<open>How the code is written here.\<close> An outcome is \<open>error + value\<close> (\<open>Prelude\<close>): \<open>RetErr\<close> is a nonzero return
  code with the identifier the code stores, \<open>Abort\<close> is \<open>readMXError\<close>, which ends the call,
  \<open>Fault\<close> is undefined behaviour (a read or write out of bounds, a NULL or freed pointer), \<open>OutOfFuel\<close>
  says that a bound was used up. Stateful code is a function from the state to an outcome and the state it
  leaves (\<open>State\<close>), composed with \<open>andthen\<close>; the globals are the record \<open>gstate\<close>. Integers are \<open>int\<close> with
  the wrap-around of their type written out (\<open>u8\<close> to \<open>i64\<close>), bytes are \<open>8 word\<close>. The file, the byte order,
  the page size and the answers of \<open>malloc\<close>, \<open>mmap\<close> and \<open>munmap\<close> are a parameter, the record \<open>env\<close>; the
  decompressor (libdeflate), the schedule of the threads and the system calls of the driver are parameters
  too (\<open>rt\<close>, \<open>os\<close>), about which nothing is assumed except where a theorem says so.

  \<^bold>\<open>Theories and sources.\<close>
  \<^item> \<open>Prelude\<close>, \<open>DataModel\<close>, \<open>State\<close>: outcomes, casts, checked memory; the types, enumerations and globals of
    \<^verbatim>\<open>headers/getDataObjects.h\<close>.
  \<^item> \<open>Ezq\<close>: the pointer code of \<^verbatim>\<open>ezq.c\<close> on a heap with \<open>malloc\<close> and \<open>free\<close>; \<open>ListQueue\<close>: the same operations
    on a list with cursors; \<open>EzqRefine\<close>: every function refines the list operation and leaves other queues
    alone; \<open>MtEzq\<close>: \<^verbatim>\<open>mtezq.c\<close>; \<open>QueueSpec\<close>: the locale \<open>fifo\<close>, the contract the rest of the program uses, with
    its instances for the pointer queue, the list queue and the locked queue; \<open>QueueProps\<close>: the properties.
  \<^item> \<open>NumberHelper\<close>: \<^verbatim>\<open>numberHelper.c\<close> and the byte order of \<^verbatim>\<open>getSystemInfo.c\<close>.
  \<^item> \<open>MapObjects\<close>: the single-threaded half of \<^verbatim>\<open>navigate.c\<close>, with the invariant of the mappings;
    \<open>PageObjects\<close>: the multi-threaded half, its set-up in \<^verbatim>\<open>init.c\<close> and its end in \<^verbatim>\<open>cleanup.c\<close>.
  \<^item> \<open>SuperblockModel\<close>: \<^verbatim>\<open>superblock.c\<close>; \<open>ReadMessage\<close>: \<^verbatim>\<open>readMessage.c\<close>; \<open>PlaceData\<close>: \<^verbatim>\<open>placeData.c\<close>.
  \<^item> \<open>ChunkGeometry\<close>, \<open>ChunkCopy\<close>: the index arithmetic and the copy loop of \<^verbatim>\<open>placeChunkedData.c\<close>;
    \<open>ChunkTree\<close>: \<open>fillNode\<close>; \<open>Inflate\<close>: the threads as steps (every lock, condition wait and access to shared
    state is one); \<open>Parallel\<close>, \<open>ParallelProps\<close>: the invariant of all interleavings and what follows from it;
    \<open>ParallelLive\<close>: every fair schedule finishes; \<open>ChunkTreeProps\<close>: the tree that \<open>fillNode\<close> walks, as a function of
    the bytes of the file; \<open>NavTotal\<close>, \<open>TreeTotal\<close>: navigations and the walk return; \<open>ChunkedProps\<close>: \<open>getChunkedData\<close> as
    a whole.
  \<^item> \<open>Cleanup\<close>: \<^verbatim>\<open>cleanup.c\<close>; \<open>Utils\<close>: \<^verbatim>\<open>utils.c\<close>; \<open>CreateObjects\<close>: \<^verbatim>\<open>createDataObjects.c\<close>; \<open>FillObject\<close> and
    \<open>FillVariable\<close>: \<^verbatim>\<open>fillDataObjects.c\<close>; \<open>Driver\<close>: \<^verbatim>\<open>getDataObjects.c\<close>; \<open>MexOutput\<close>, \<open>MexInput\<close>: \<^verbatim>\<open>mexSet.c\<close> and
    \<^verbatim>\<open>getmatvar_.c\<close>. \<open>NameProps\<close>, \<open>HeaderProps\<close>, \<open>MexProps\<close> hold what is proved of them.
  \<^item> libdeflate's decompressor (\<^verbatim>\<open>src/src/extlib/libdeflate/unix/lib/\<close>), which the repository compiles in: \<open>BitReader\<close>: the
    input macros of \<^verbatim>\<open>deflate_decompress.c\<close> and the input as a sequence of bits; \<open>HuffmanTable\<close>: \<open>build_decode_table\<close>;
    \<open>HuffmanCode\<close>: the canonical code of RFC 1951; \<open>HuffmanSort\<close>, \<open>HuffmanFill\<close>, \<open>HuffmanCells\<close>, \<open>HuffmanBuild\<close>,
    \<open>HuffmanProps\<close>: the table decodes the code; \<open>HuffmanEnough\<close>: the sizes \<open>ENOUGH\<close> of the tables are enough; \<open>Deflate\<close>:
    \<^verbatim>\<open>decompress_impl.h\<close>; \<open>DeflateSpec\<close>: decompression by the RFC on bits and lists; \<open>DeflateCopy\<close>, \<open>DeflateTables\<close>:
    the copies of matches and the three tables; \<open>DeflateRefine\<close>, \<open>DeflateLens\<close>, \<open>DeflateHeader\<close>, \<open>DeflateStream\<close>: the decompressor
    refines \<open>inflate\<close>, from the main loop over the header of a dynamic block to the stream; \<open>Adler32\<close>: \<^verbatim>\<open>adler32.c\<close> and
    \<^verbatim>\<open>adler32_impl.h\<close>; \<open>AdlerProps\<close>: its implementations compute the checksum, with the locale \<open>vector_body\<close> for what the template
    asks of the vector code; \<open>Zlib\<close>: \<^verbatim>\<open>zlib_decompress.c\<close>; \<open>DeflateProps\<close>: the properties, up to the threads that call it.

  \<^bold>\<open>What is shown.\<close> The pointer queues are queues, also under the lock; a mapping in use is never unmapped and
  shows the bytes of the file; numbers, superblock, dataspace and datatype messages are read back;
  navigations return although the length of their queue drifts; the chunk tree of the file is read completely, and
  every chunk of a chunked array ends in its place for every fair order in which the threads run, and no thread
  ever faults; headers are read in a bounded number of rounds; an object is freed once; names and arguments
  are taken apart as meant. The decompressor gives the data of the RFCs or their error for every input, without ever leaving an array,
  and so the threads put the right bytes into the array. Error theorems state where the code does not do what it means to.

  \<^bold>\<open>Bounds.\<close> Loops that a counter bounds recurse on that bound: \<open>num_msgs + 1\<close> rounds for the messages
  (proved enough), \<open>file_size / 512 + 2\<close> for the search of the superblock, the size of the region for nested
  datatypes, \<open>257\<close> rounds for a counter of eight bits; in the decompressor eight rounds for filling the bit buffer, one round more than
  the free bytes of the output for the main loop and one block more than the bits of the input, all proved enough. The recursions over the group tree, the chunk tree
  and the objects take a bound as an argument, because a file with a cycle makes the code run
  until its stack is full; theorems about them hold for every bound.

  \<^bold>\<open>Not modelled.\<close> Of libdeflate the compressor, the checksum of gzip, the gzip wrapper and the programs, none of which
  getmatvar calls, the ARM code of the checksum, the allocation of the decompressor, and the test of the processor by which \<open>dispatch\<close> chooses an implementation (the choice is a parameter). \<open>Inflate\<close>
  takes the decompressor as a parameter; \<open>Zlib\<close> is the instance that the code calls. Also not: mman-win32 and the Windows branches, the text that
  \<open>readMXError\<close> and \<open>readMXWarn\<close> print, MATLAB's own functions (\<open>MexOutput\<close> gives the calls that are made
  of them), the test programs and the \<^verbatim>\<open>.m\<close> files. The queues inside objects are the list queues, justified by
  \<open>EzqRefine\<close>; an allocation of one of their nodes is taken to succeed there. Sub-objects are indices into the
  store of objects, and following one that was freed is a \<open>Fault\<close>.
\<close>

end
